(* ===== verification/Prelude.thy ===== *)
theory Prelude
  imports Complex_Main "HOL-Library.Multiset" "HOL-Library.Code_Target_Numeral"
begin

text \<open>
  Shared material: the result type of fallible code (an error on the left, a value on the
  right) with the sequencing operations the components use, Python's \<open>str\<close>/\<open>int\<close> on
  base-10 numerals, adjacent-pair checks, and the lemma collections the component proofs name.
\<close>

named_theorems res_simps \<open>inversion rules for results\<close>
named_theorems dec_exact \<open>when Decimal operations do not round\<close>

section \<open>Results\<close>

text \<open>\<open>bindE\<close> is a statement followed by the rest of the function: an exception (\<open>Inl\<close>)
  leaves at once.\<close>

primrec bindE :: "'e + 'a \<Rightarrow> ('a \<Rightarrow> 'e + 'b) \<Rightarrow> 'e + 'b" where
  "bindE (Inl e) f = Inl e"
| "bindE (Inr x) f = f x"

definition checkE :: "bool \<Rightarrow> 'e \<Rightarrow> 'e + unit" where
  "checkE ok e = (if ok then Inr () else Inl e)"

primrec mapE :: "('a \<Rightarrow> 'e + 'b) \<Rightarrow> 'a list \<Rightarrow> 'e + 'b list" where
  "mapE f [] = Inr []"
| "mapE f (x # xs) = bindE (f x) (\<lambda>y. bindE (mapE f xs) (\<lambda>ys. Inr (y # ys)))"

primrec foldE :: "('s \<Rightarrow> 'a \<Rightarrow> 'e + 's) \<Rightarrow> 's \<Rightarrow> 'a list \<Rightarrow> 'e + 's" where
  "foldE f s [] = Inr s"
| "foldE f s (x # xs) = bindE (f s x) (\<lambda>s'. foldE f s' xs)"

lemma bindE_Inr_iff [res_simps]: "bindE m f = Inr y \<longleftrightarrow> (\<exists>x. m = Inr x \<and> f x = Inr y)"
  by (cases m) auto

lemma bindE_Inl_iff: "bindE m f = Inl e \<longleftrightarrow> m = Inl e \<or> (\<exists>x. m = Inr x \<and> f x = Inl e)"
  by (cases m) auto

lemma checkE_Inr_iff [res_simps]: "checkE ok e = Inr u \<longleftrightarrow> ok"
  by (cases u) (auto simp: checkE_def)

lemma checkE_Inl_iff [res_simps]: "checkE ok e = Inl e' \<longleftrightarrow> \<not> ok \<and> e' = e"
  by (auto simp: checkE_def)

lemma bindE_checkE: "bindE (checkE ok e) f = (if ok then f () else Inl e)"
  by (simp add: checkE_def)

lemma mapE_Inr_iff: "mapE f xs = Inr ys \<longleftrightarrow> list_all2 (\<lambda>x y. f x = Inr y) xs ys"
proof (induction xs arbitrary: ys)
  case Nil
  show ?case by auto
next
  case (Cons x xs)
  then show ?case by (cases ys) (auto simp: res_simps)
qed

lemma mapE_length: "mapE f xs = Inr ys \<Longrightarrow> length ys = length xs"
  by (auto simp: mapE_Inr_iff dest: list_all2_lengthD)

lemma mapE_nth: "mapE f xs = Inr ys \<Longrightarrow> i < length xs \<Longrightarrow> f (xs ! i) = Inr (ys ! i)"
  by (auto simp: mapE_Inr_iff list_all2_conv_all_nth)

lemma mapE_all_Inr: "(\<And>x. x \<in> set xs \<Longrightarrow> f x = Inr (g x)) \<Longrightarrow> mapE f xs = Inr (map g xs)"
  by (induction xs) auto

lemma mapE_take: "mapE f xs = Inr ys \<Longrightarrow> mapE f (take k xs) = Inr (take k ys)"
  by (auto simp: mapE_Inr_iff intro: list_all2_takeI)

lemma mapE_cong [fundef_cong]:
  "xs = ys \<Longrightarrow> (\<And>x. x \<in> set ys \<Longrightarrow> f x = g x) \<Longrightarrow> mapE f xs = mapE g ys"
  by (induction ys arbitrary: xs) auto

lemma mapE_append:
  "mapE f (xs @ ys) = bindE (mapE f xs) (\<lambda>us. bindE (mapE f ys) (\<lambda>vs. Inr (us @ vs)))"
proof (induction xs)
  case Nil
  show ?case by (cases "mapE f ys") auto
next
  case (Cons x xs)
  then show ?case by (cases "f x"; cases "mapE f xs"; cases "mapE f ys") auto
qed

lemma foldE_append: "foldE f s (xs @ ys) = bindE (foldE f s xs) (\<lambda>s'. foldE f s' ys)"
proof (induction xs arbitrary: s)
  case Nil
  show ?case by simp
next
  case (Cons x xs)
  then show ?case by (cases "f s x") auto
qed

lemma foldE_invariant:
  assumes "foldE f s xs = Inr s'" and "P s"
    and "\<And>s x s'. x \<in> set xs \<Longrightarrow> P s \<Longrightarrow> f s x = Inr s' \<Longrightarrow> P s'"
  shows "P s'"
  using assms
proof (induction xs arbitrary: s)
  case Nil
  then show ?case by simp
next
  case (Cons x xs)
  from Cons.prems(1) obtain t where t: "f s x = Inr t" "foldE f t xs = Inr s'"
    by (auto simp: res_simps)
  from t(1) Cons.prems have "P t" by (metis list.set_intros(1))
  with t(2) Cons.prems(3) show ?case
    by (intro Cons.IH[of t]) auto
qed

definition is_err :: "'e + 'a \<Rightarrow> bool" where
  "is_err m = (case m of Inl _ \<Rightarrow> True | Inr _ \<Rightarrow> False)"

lemma is_err_simps [simp]: "is_err (Inl e)" "\<not> is_err (Inr x)"
  by (simp_all add: is_err_def)

section \<open>Base-10 numerals\<close>

definition digit_char :: "nat \<Rightarrow> char" where
  "digit_char d = char_of (48 + d)"

definition is_digit :: "char \<Rightarrow> bool" where
  "is_digit c \<longleftrightarrow> 48 \<le> (of_char c :: nat) \<and> (of_char c :: nat) \<le> 57"

definition digit_val :: "char \<Rightarrow> nat" where
  "digit_val c = of_char c - 48"

fun show_nat :: "nat \<Rightarrow> string" where
  "show_nat n = (if n < 10 then [digit_char n] else show_nat (n div 10) @ [digit_char (n mod 10)])"

declare show_nat.simps [simp del]

definition show_int :: "int \<Rightarrow> string" where
  "show_int i = (if i < 0 then CHR ''-'' # show_nat (nat (- i)) else show_nat (nat i))"

definition read_nat :: "string \<Rightarrow> nat" where
  "read_nat s = foldl (\<lambda>acc c. 10 * acc + digit_val c) 0 s"

lemma of_char_digit_char [simp]: "d < 10 \<Longrightarrow> (of_char (digit_char d) :: nat) = 48 + d"
  by (simp add: digit_char_def)

lemma digit_val_digit_char [simp]: "d < 10 \<Longrightarrow> digit_val (digit_char d) = d"
  by (simp add: digit_val_def)

lemma is_digit_digit_char [simp]: "d < 10 \<Longrightarrow> is_digit (digit_char d)"
  by (simp add: is_digit_def)

lemma digit_char_digit_val [simp]: "is_digit c \<Longrightarrow> digit_char (digit_val c) = c"
  by (simp add: is_digit_def digit_char_def digit_val_def)

lemma digit_val_less [simp]: "is_digit c \<Longrightarrow> digit_val c < 10"
  unfolding is_digit_def digit_val_def by linarith

lemma show_nat_digits: "\<forall>c \<in> set (show_nat n). is_digit c"
proof (induction n rule: show_nat.induct)
  case (1 n)
  then show ?case by (cases "n < 10") (auto simp: show_nat.simps[of n])
qed

lemma show_nat_not_Nil [simp]: "show_nat n \<noteq> []"
  by (subst show_nat.simps) simp

lemma read_nat_Nil [simp]: "read_nat [] = 0"
  by (simp add: read_nat_def)

lemma read_nat_snoc [simp]: "read_nat (s @ [c]) = 10 * read_nat s + digit_val c"
  by (simp add: read_nat_def)

lemma read_nat_show_nat [simp]: "read_nat (show_nat n) = n"
proof (induction n rule: show_nat.induct)
  case (1 n)
  show ?case
  proof (cases "n < 10")
    case True
    then show ?thesis by (simp add: show_nat.simps[of n] read_nat_def)
  next
    case False
    with "1" show ?thesis by (simp add: show_nat.simps[of n])
  qed
qed

lemma show_nat_hd: "0 < n \<Longrightarrow> hd (show_nat n) \<noteq> CHR ''0''"
proof (induction n rule: show_nat.induct)
  case (1 n)
  show ?case
  proof (cases "n < 10")
    case True
    then have "hd (show_nat n) = digit_char n" by (simp add: show_nat.simps[of n])
    moreover have "(of_char (digit_char n) :: nat) \<noteq> of_char (CHR ''0'')" using True "1.prems" by simp
    ultimately show ?thesis by metis
  next
    case False
    then have "hd (show_nat n) = hd (show_nat (n div 10))" by (simp add: show_nat.simps[of n])
    with "1.IH"[OF False] False show ?thesis by simp
  qed
qed

lemma show_nat_inject [simp]: "show_nat m = show_nat n \<longleftrightarrow> m = n"
  by (metis read_nat_show_nat)

lemma read_nat_append: "read_nat (s @ t) = read_nat s * 10 ^ length t + read_nat t"
proof (induction t rule: rev_induct)
  case Nil
  show ?case by simp
next
  case (snoc c t)
  have "read_nat (s @ t @ [c]) = 10 * read_nat (s @ t) + digit_val c"
    using read_nat_snoc[of "s @ t" c] by simp
  with snoc show ?case by (simp add: algebra_simps)
qed

lemma read_nat_bound: "\<forall>c \<in> set s. is_digit c \<Longrightarrow> read_nat s < 10 ^ length s"
proof (induction s rule: rev_induct)
  case Nil
  show ?case by simp
next
  case (snoc c s)
  then have "read_nat s < 10 ^ length s" and "digit_val c < 10" by auto
  then show ?case by simp
qed

lemma read_nat_zeros [simp]: "read_nat (replicate k (CHR ''0'')) = 0"
  by (induction k) (simp_all add: replicate_append_same[symmetric] digit_val_def)

lemma show_int_inject [simp]: "show_int i = show_int j \<longleftrightarrow> i = j"
proof -
  have minus: "CHR ''-'' # s \<noteq> show_nat n" for s n
  proof
    assume "CHR ''-'' # s = show_nat n"
    then have "CHR ''-'' \<in> set (show_nat n)" by (metis list.set_intros(1))
    then show False using show_nat_digits[of n] by (auto simp: is_digit_def)
  qed
  show ?thesis
    using minus minus[symmetric] by (auto simp: show_int_def split: if_splits)
qed

lemma show_int_chars: "\<forall>c \<in> set (show_int i). c = CHR ''-'' \<or> is_digit c"
  using show_nat_digits by (auto simp: show_int_def)

lemma show_int_not_Nil [simp]: "show_int i \<noteq> []"
  by (simp add: show_int_def)

fun ndigits :: "nat \<Rightarrow> nat" where
  "ndigits n = (if n < 10 then 1 else Suc (ndigits (n div 10)))"

declare ndigits.simps [simp del]

lemma length_show_nat: "length (show_nat n) = ndigits n"
proof (induction n rule: show_nat.induct)
  case (1 n)
  then show ?case by (cases "n < 10") (simp_all add: show_nat.simps[of n] ndigits.simps[of n])
qed

lemma ndigits_pos [simp]: "0 < ndigits n"
  by (subst ndigits.simps) simp

lemma ndigits_upper: "n < 10 ^ ndigits n"
proof (induction n rule: ndigits.induct)
  case (1 n)
  then show ?case by (cases "n < 10") (auto simp: ndigits.simps[of n])
qed

lemma ndigits_lower: "0 < n \<Longrightarrow> 10 ^ (ndigits n - 1) \<le> n"
proof (induction n rule: ndigits.induct)
  case (1 n)
  show ?case
  proof (cases "n < 10")
    case True
    with "1.prems" show ?thesis by (simp add: ndigits.simps[of n])
  next
    case False
    then have ih: "10 ^ (ndigits (n div 10) - 1) \<le> n div 10" using "1.IH" by simp
    have "10 ^ ndigits (n div 10) = 10 * 10 ^ (ndigits (n div 10) - 1)"
      by (metis Suc_pred' ndigits_pos power_Suc)
    also have "\<dots> \<le> 10 * (n div 10)" using ih by (simp only: mult_le_mono2)
    finally show ?thesis using False by (simp add: ndigits.simps[of n])
  qed
qed

lemma ndigits_le_iff: "0 < k \<Longrightarrow> ndigits n \<le> k \<longleftrightarrow> n < 10 ^ k"
proof
  assume "0 < k" "ndigits n \<le> k"
  then have "(10::nat) ^ ndigits n \<le> 10 ^ k" by (intro power_increasing) auto
  with ndigits_upper[of n] show "n < 10 ^ k" by (rule less_le_trans)
next
  assume k: "0 < k" and n: "n < 10 ^ k"
  show "ndigits n \<le> k"
  proof (cases "n = 0")
    case True
    with k show ?thesis by (simp add: ndigits.simps)
  next
    case False
    then have "10 ^ (ndigits n - 1) < (10::nat) ^ k"
      using ndigits_lower[of n] n by linarith
    then have "ndigits n - 1 < k" using power_strict_increasing_iff[of "10::nat" "ndigits n - 1" k] by simp
    then show ?thesis by simp
  qed
qed

section \<open>Python-style maxima\<close>

text \<open>\<open>max(iterable)\<close> keeps the first element none of the later ones exceeds.\<close>

definition py_max :: "('a \<Rightarrow> 'a \<Rightarrow> bool) \<Rightarrow> 'a list \<Rightarrow> 'a" where
  "py_max lt xs = foldl (\<lambda>b x. if lt b x then x else b) (hd xs) (tl xs)"

definition py_min :: "('a \<Rightarrow> 'a \<Rightarrow> bool) \<Rightarrow> 'a list \<Rightarrow> 'a" where
  "py_min lt xs = foldl (\<lambda>b x. if lt x b then x else b) (hd xs) (tl xs)"

lemma foldl_pick_mem: "foldl (\<lambda>b x. if p b x then x else b) b xs \<in> insert b (set xs)"
proof (induction xs arbitrary: b)
  case Nil
  show ?case by simp
next
  case (Cons x xs)
  from Cons[of "if p b x then x else b"] show ?case by (auto split: if_splits)
qed

lemma py_max_mem: "xs \<noteq> [] \<Longrightarrow> py_max lt xs \<in> set xs"
  using foldl_pick_mem[of lt "hd xs" "tl xs"] by (cases xs) (auto simp: py_max_def)

lemma py_min_mem: "xs \<noteq> [] \<Longrightarrow> py_min lt xs \<in> set xs"
  using foldl_pick_mem[of "\<lambda>b x. lt x b" "hd xs" "tl xs"] by (cases xs) (auto simp: py_min_def)

lemma foldl_max_ge:
  fixes v :: "'a \<Rightarrow> 'b :: linorder"
  shows "x \<in> insert b (set xs) \<Longrightarrow> v x \<le> v (foldl (\<lambda>b x. if v b < v x then x else b) b xs)"
proof (induction xs arbitrary: b x)
  case Nil
  then show ?case by simp
next
  case (Cons y ys)
  let ?b = "if v b < v y then y else b"
  have "v b \<le> v ?b" "v y \<le> v ?b" by auto
  moreover have "v ?b \<le> v (foldl (\<lambda>b x. if v b < v x then x else b) ?b ys)"
    using Cons.IH[of ?b ?b] by simp
  moreover have "x \<in> set ys \<Longrightarrow> v x \<le> v (foldl (\<lambda>b x. if v b < v x then x else b) ?b ys)"
    by (rule Cons.IH) simp
  ultimately show ?case using Cons.prems by (auto simp: foldl.simps intro: order_trans)
qed

lemma py_max_ge:
  fixes v :: "'a \<Rightarrow> 'b :: linorder"
  shows "x \<in> set xs \<Longrightarrow> v x \<le> v (py_max (\<lambda>a b. v a < v b) xs)"
  using foldl_max_ge[of x "hd xs" "tl xs" v] by (cases xs) (auto simp: py_max_def)

lemma foldl_min_le:
  fixes v :: "'a \<Rightarrow> 'b :: linorder"
  shows "x \<in> insert b (set xs) \<Longrightarrow> v (foldl (\<lambda>b x. if v x < v b then x else b) b xs) \<le> v x"
proof (induction xs arbitrary: b x)
  case Nil
  then show ?case by simp
next
  case (Cons y ys)
  let ?b = "if v y < v b then y else b"
  have "v ?b \<le> v b" "v ?b \<le> v y" by auto
  moreover have "v (foldl (\<lambda>b x. if v x < v b then x else b) ?b ys) \<le> v ?b"
    using Cons.IH[of ?b ?b] by simp
  moreover have "x \<in> set ys \<Longrightarrow> v (foldl (\<lambda>b x. if v x < v b then x else b) ?b ys) \<le> v x"
    by (rule Cons.IH) simp
  ultimately show ?case using Cons.prems by (auto simp: foldl.simps intro: order_trans)
qed

lemma py_min_le:
  fixes v :: "'a \<Rightarrow> 'b :: linorder"
  shows "x \<in> set xs \<Longrightarrow> v (py_min (\<lambda>a b. v a < v b) xs) \<le> v x"
  using foldl_min_le[of x "hd xs" "tl xs" v] by (cases xs) (auto simp: py_min_def)

section \<open>Adjacent pairs\<close>

lemma successively_less_iff: "successively (<) (xs :: 'a :: linorder list) \<longleftrightarrow> sorted_wrt (<) xs"
  by (rule successively_conv_sorted_wrt) (auto intro: transpI)

lemma sorted_wrt_less_distinct: "sorted_wrt (<) (xs :: 'a :: linorder list) \<Longrightarrow> distinct xs"
  using strict_sorted_iff by blast

lemma successively_step_nth:
  fixes xs :: "int list"
  assumes "successively (\<lambda>a b. b - a = d) xs" "i < length xs"
  shows "xs ! i = hd xs + int i * d"
  using assms(2)
proof (induction i)
  case 0
  then show ?case by (simp add: hd_conv_nth)
next
  case (Suc i)
  then have "xs ! Suc i - xs ! i = d"
    using assms(1) unfolding successively_conv_nth by blast
  moreover have "xs ! i = hd xs + int i * d" using Suc by simp
  ultimately show ?case by (simp add: algebra_simps)
qed

section \<open>Splitting at a marker\<close>

lemma split_at_marker:
  "u @ a # v = u' @ a # v' \<Longrightarrow> a \<notin> set u \<Longrightarrow> a \<notin> set u' \<Longrightarrow> u = u' \<and> v = v'"
proof (induction u arbitrary: u')
  case Nil
  then show ?case by (cases u') auto
next
  case (Cons b u)
  then show ?case by (cases u') auto
qed

end
