(* ===== verification/Errors.thy ===== *)
theory Errors
  imports Prelude
begin

text \<open>
  The exceptions of the program (src/quantara/errors.py and the exception classes the modules
  declare). A \<open>QuantaraError\<close> subclass is a constructor here; \<open>error_id\<close> is its stable
  machine-readable identifier. The constructors starting with \<open>Py\<close> and the three decimal
  signals are exceptions of Python's own library: they carry no identifier, so an
  \<open>except QuantaraError\<close> clause does not catch them. Message texts are not modelled; a metric domain error carries the cause
  that its handlers look for in the message.
\<close>

datatype err =
    DescriptorError
  | NonAllowlistedHost | DownloadFailed | InvalidChecksumDocument | ChecksumMismatch
  | UnsafeZipMember | CorruptArchive
  | SourceHeaderMismatch | MalformedTimestamp | MalformedNumeric | DecimalOverflow
  | DuplicateOpenTime | ReconciliationMismatch | ParquetFailure
  | UnorderedMinuteInput | IncompleteGroup | NonzeroSourceIgnoreInGroup
  | DecimalPrecisionOrScaleOverflow | IntegerPrecisionOverflow
  | HashPayloadError | PublicationError | ObjectCollision | InvalidPointer
  | QualityApprovalError | MultiMonthInvariantViolation | UndersizedParentDataset
  | UnsupportedTimeframe | UnsupportedParameter | UndersizedBaseDataset
  | MetricDomainError string | EstimatorC3Failure string | BootstrapInference string int "int option" | QuantaraBase
  | CsvError | JcsFloatRejected | PyTypeError | PyValueError | PyUnicodeError | PyIndexError | PyOSError
  | PyKeyError | PyRuntimeError | PyNotImplementedError | PyZlibError | InvalidOperation | DivisionByZero | DecOverflow

definition error_id :: "err \<Rightarrow> string option" where
  "error_id e = (case e of
     DescriptorError \<Rightarrow> Some ''invalid_descriptor''
   | NonAllowlistedHost \<Rightarrow> Some ''non_allowlisted_source''
   | DownloadFailed \<Rightarrow> Some ''download_failed_after_retries''
   | InvalidChecksumDocument \<Rightarrow> Some ''invalid_checksum_document''
   | ChecksumMismatch \<Rightarrow> Some ''checksum_mismatch''
   | UnsafeZipMember \<Rightarrow> Some ''unsafe_zip_member''
   | CorruptArchive \<Rightarrow> Some ''corrupt_archive''
   | SourceHeaderMismatch \<Rightarrow> Some ''source_header_mismatch''
   | MalformedTimestamp \<Rightarrow> Some ''malformed_timestamp_field''
   | MalformedNumeric \<Rightarrow> Some ''malformed_numeric_field''
   | DecimalOverflow \<Rightarrow> Some ''decimal_precision_or_scale_overflow''
   | DecimalPrecisionOrScaleOverflow \<Rightarrow> Some ''decimal_precision_or_scale_overflow''
   | DuplicateOpenTime \<Rightarrow> Some ''duplicate_open_time''
   | ReconciliationMismatch \<Rightarrow> Some ''reconciliation_mismatch''
   | ParquetFailure \<Rightarrow> Some ''failed_parquet_write_or_read_back''
   | UnorderedMinuteInput \<Rightarrow> Some ''unordered_minute_input''
   | IncompleteGroup \<Rightarrow> Some ''incomplete_group''
   | NonzeroSourceIgnoreInGroup \<Rightarrow> Some ''nonzero_source_ignore_in_group''
   | IntegerPrecisionOverflow \<Rightarrow> Some ''integer_precision_overflow''
   | HashPayloadError \<Rightarrow> Some ''manifest_inconsistency''
   | PublicationError \<Rightarrow> Some ''atomic_promotion_failure''
   | ObjectCollision \<Rightarrow> Some ''manifest_inconsistency''
   | InvalidPointer \<Rightarrow> Some ''manifest_inconsistency''
   | QualityApprovalError \<Rightarrow> Some ''quality_approval_rejected''
   | MultiMonthInvariantViolation \<Rightarrow> Some ''multi_month_invariant_violation''
   | UndersizedParentDataset \<Rightarrow> Some ''undersized_parent_dataset''
   | UnsupportedTimeframe \<Rightarrow> Some ''unsupported_timeframe''
   | UnsupportedParameter \<Rightarrow> Some ''unsupported_parameter''
   | UndersizedBaseDataset \<Rightarrow> Some ''undersized_base_dataset''
   | MetricDomainError _ \<Rightarrow> Some ''metric_domain_error''
   | EstimatorC3Failure _ \<Rightarrow> Some ''estimator_c3_failure''
   | BootstrapInference _ _ _ \<Rightarrow> Some ''bootstrap_b4_inference_fail_closed''
   | QuantaraBase \<Rightarrow> Some ''quantara_error''
   | _ \<Rightarrow> None)"

text \<open>What \<open>except QuantaraError\<close> catches.\<close>

definition is_quantara_error :: "err \<Rightarrow> bool" where
  "is_quantara_error e \<longleftrightarrow> error_id e \<noteq> None"

type_synonym 'a res = "err + 'a"

section \<open>Integers as text\<close>

text \<open>Python 3.11 refuses to turn an integer of more than 4300 decimal digits into text
  (\<open>sys.int_info.default_max_str_digits\<close>): \<open>str\<close> raises \<open>ValueError\<close>.\<close>

definition int_printable :: "int \<Rightarrow> bool" where
  "int_printable i \<longleftrightarrow> ndigits (nat \<bar>i\<bar>) \<le> 4300"

definition py_str_int :: "int \<Rightarrow> string res" where
  "py_str_int i = (if int_printable i then Inr (show_int i) else Inl PyValueError)"

lemma int_printable_small [simp]: "\<bar>i\<bar> < 10 ^ 40 \<Longrightarrow> int_printable i"
proof -
  assume "\<bar>i\<bar> < 10 ^ 40"
  then have "nat \<bar>i\<bar> < 10 ^ 40" by (simp add: nat_less_iff)
  then have "ndigits (nat \<bar>i\<bar>) \<le> 40" by (subst ndigits_le_iff) simp_all
  then show ?thesis by (simp add: int_printable_def)
qed

lemma py_str_int_Inr: "py_str_int i = Inr s \<longleftrightarrow> int_printable i \<and> s = show_int i"
  by (auto simp: py_str_int_def)

lemma int_printable_abs [simp]: "int_printable \<bar>i\<bar> = int_printable i"
  by (simp add: int_printable_def)

end
