(* ===== verification/Framing.thy ===== *)
theory Framing
  imports Prelude
begin

text \<open>
  The interfaces between encoders and what is hashed. A \<open>prefix_code\<close> encodes single items so
  that no encoding can be confused with the start of another one; a \<open>framed_code\<close> only
  promises this when a stop symbol follows. Clients derive, once and for all, that items in
  sequence, joined items between brackets, and rows ended by a terminator can be read back
  uniquely. The string escaper and the JCS serializer (theory Jcs), UTF-8 and the hash row
  framing (theory Hashing) are the instances.
\<close>

section \<open>Codes that need a stop symbol\<close>

locale framed_code =
  fixes enc :: "'a \<Rightarrow> 'b list"
    and ok :: "'a \<Rightarrow> bool"
    and stop :: "'b \<Rightarrow> bool"
  assumes enc_unique: "ok v \<Longrightarrow> ok w \<Longrightarrow> stop a \<Longrightarrow> stop b \<Longrightarrow>
      enc v @ a # x = enc w @ b # y \<Longrightarrow> v = w \<and> a # x = b # y"
    and enc_start: "ok v \<Longrightarrow> \<exists>c cs. enc v = c # cs \<and> \<not> stop c"
begin

lemma frames_unique:
  assumes "\<forall>v \<in> set vs. ok v" "\<forall>w \<in> set ws. ok w" "stop a"
    and "concat (map (\<lambda>v. enc v @ [a]) vs) = concat (map (\<lambda>v. enc v @ [a]) ws)"
  shows "vs = ws"
  using assms
proof (induction vs arbitrary: ws)
  case Nil
  then show ?case by (cases ws) auto
next
  case (Cons v vs)
  then obtain w ws' where ws: "ws = w # ws'" by (cases ws) auto
  have eq: "enc v @ a # concat (map (\<lambda>v. enc v @ [a]) vs) =
      enc w @ a # concat (map (\<lambda>v. enc v @ [a]) ws')"
    using Cons.prems(4) by (simp add: ws)
  have "v = w \<and> a # concat (map (\<lambda>v. enc v @ [a]) vs) = a # concat (map (\<lambda>v. enc v @ [a]) ws')"
    by (rule enc_unique[OF _ _ _ _ eq]) (use Cons.prems ws in auto)
  then show ?case using Cons.IH[of ws'] Cons.prems ws by auto
qed

lemma enc_inj: "ok v \<Longrightarrow> ok w \<Longrightarrow> stop a \<Longrightarrow> enc v = enc w \<Longrightarrow> v = w"
  using enc_unique[of v w a a "[]" "[]"] by simp

end

section \<open>Codes that do not\<close>

locale prefix_code =
  fixes enc :: "'a \<Rightarrow> 'b list"
    and ok :: "'a \<Rightarrow> bool"
    and stop :: "'b \<Rightarrow> bool"
  assumes enc_prefix: "ok v \<Longrightarrow> ok w \<Longrightarrow> enc v @ x = enc w @ y \<Longrightarrow> v = w \<and> x = y"
    and enc_head: "ok v \<Longrightarrow> \<exists>c cs. enc v = c # cs \<and> \<not> stop c"
begin

lemma enc_not_stop: "ok v \<Longrightarrow> stop a \<Longrightarrow> enc v @ x \<noteq> a # y"
  using enc_head[of v] by auto

lemma body_unique:
  assumes "\<forall>v \<in> set s. ok v" "\<forall>w \<in> set t. ok w" "stop a" "stop b"
    and "concat (map enc s) @ a # x = concat (map enc t) @ b # y"
  shows "s = t \<and> a # x = b # y"
  using assms
proof (induction s arbitrary: t)
  case Nil
  then show ?case
    by (cases t) (auto simp: enc_not_stop[symmetric])
next
  case (Cons v s)
  show ?case
  proof (cases t)
    case Nil
    with Cons.prems show ?thesis by (auto simp: enc_not_stop)
  next
    case (Cons w t')
    have "enc v @ (concat (map enc s) @ a # x) = enc w @ (concat (map enc t') @ b # y)"
      using Cons.prems(5) Cons by simp
    then have "v = w \<and> concat (map enc s) @ a # x = concat (map enc t') @ b # y"
      using Cons.prems(1,2) Cons by (intro enc_prefix) auto
    then show ?thesis using Cons.IH[of t'] Cons.prems Cons by auto
  qed
qed

lemma concat_unique:
  assumes "\<forall>v \<in> set s. ok v" "\<forall>w \<in> set t. ok w" "concat (map enc s) = concat (map enc t)"
  shows "s = t"
  using assms
proof (induction s arbitrary: t)
  case Nil
  then show ?case using enc_head by (cases t) fastforce+
next
  case (Cons v s)
  then obtain w t' where t: "t = w # t'" using enc_head[of v] by (cases t) fastforce+
  have "v = w \<and> concat (map enc s) = concat (map enc t')"
    using Cons.prems t by (intro enc_prefix) auto
  then show ?case using Cons.IH[of t'] Cons.prems t by auto
qed

end

text \<open>Every prefix code is a framed code, whatever follows an item.\<close>

sublocale prefix_code \<subseteq> framed_code
  by unfold_locales (use enc_prefix enc_head in blast)+

section \<open>Joined items\<close>

fun join :: "'b list \<Rightarrow> 'b list list \<Rightarrow> 'b list" where
  "join sep [] = []"
| "join sep [x] = x"
| "join sep (x # y # zs) = x @ sep @ join sep (y # zs)"

lemma join_Cons: "join sep (x # xs) = x @ (if xs = [] then [] else sep @ join sep xs)"
  by (cases xs) auto

lemma set_join: "set (join sep xs) \<subseteq> set sep \<union> (\<Union>x \<in> set xs. set x)"
  by (induction sep xs rule: join.induct) auto

text \<open>
  Items joined by a separator and closed by a bracket are unique. Each item's own uniqueness is
  assumed only for the items of the left list: that is the induction hypothesis where the items
  are the children of a tree.
\<close>

lemma joined_unique:
  assumes uniq: "\<And>v w a b x y. v \<in> set vs \<Longrightarrow> w \<in> set ws \<Longrightarrow> stop a \<Longrightarrow> stop b \<Longrightarrow>
      enc v @ a # x = enc w @ b # y \<Longrightarrow> v = w \<and> a # x = b # y"
    and start: "\<And>v. v \<in> set vs \<union> set ws \<Longrightarrow> \<exists>c cs. enc v = c # cs \<and> c \<noteq> close"
    and stops: "stop sep" "stop close" "sep \<noteq> close"
    and eq: "join [sep] (map enc vs) @ close # x = join [sep] (map enc ws) @ close # y"
  shows "vs = ws \<and> x = y"
  using uniq start eq
proof (induction vs arbitrary: ws)
  case Nil
  show ?case
  proof (cases ws)
    case Nil
    with Nil.prems(3) show ?thesis by simp
  next
    case (Cons w ws')
    moreover obtain c cs where "enc w = c # cs" "c \<noteq> close"
      using Nil.prems(2)[of w] Cons by auto
    ultimately show ?thesis using Nil.prems(3) by (simp add: join_Cons)
  qed
next
  case (Cons v vs)
  show ?case
  proof (cases ws)
    case Nil
    moreover obtain c cs where "enc v = c # cs" "c \<noteq> close"
      using Cons.prems(2)[of v] by auto
    ultimately show ?thesis using Cons.prems(3) by (simp add: join_Cons)
  next
    case ws: (Cons w ws')
    define tl1 where "tl1 = (if vs = [] then close # x else sep # (join [sep] (map enc vs) @ close # x))"
    define tl2 where "tl2 = (if ws' = [] then close # y else sep # (join [sep] (map enc ws') @ close # y))"
    obtain a t1 where t1: "tl1 = a # t1" "stop a" unfolding tl1_def using stops by (cases "vs = []") auto
    obtain b t2 where t2: "tl2 = b # t2" "stop b" unfolding tl2_def using stops by (cases "ws' = []") auto
    have "enc v @ a # t1 = enc w @ b # t2"
      using Cons.prems(3) unfolding t1(1)[symmetric] t2(1)[symmetric]
      by (simp add: ws join_Cons tl1_def tl2_def split: if_splits)
    then have "v = w \<and> a # t1 = b # t2"
      using Cons.prems(1)[of v w a b t1 t2] t1(2) t2(2) ws by simp
    then have vw: "v = w" and tails: "tl1 = tl2" using t1 t2 by auto
    show ?thesis
    proof (cases "vs = [] \<or> ws' = []")
      case True
      with tails stops(3) have "vs = [] \<and> ws' = [] \<and> x = y"
        by (auto simp: tl1_def tl2_def split: if_splits)
      then show ?thesis using vw ws by simp
    next
      case False
      then have "join [sep] (map enc vs) @ close # x = join [sep] (map enc ws') @ close # y"
        using tails by (simp add: tl1_def tl2_def)
      then have "vs = ws' \<and> x = y"
      proof (rule Cons.IH[rotated 2])
        fix v' w' a b x' y'
        assume "v' \<in> set vs" "w' \<in> set ws'" "stop a" "stop b" "enc v' @ a # x' = enc w' @ b # y'"
        then show "v' = w' \<and> a # x' = b # y'"
          using Cons.prems(1)[of v' w' a b x' y'] ws by simp
      next
        fix v' assume "v' \<in> set vs \<union> set ws'"
        then show "\<exists>c cs. enc v' = c # cs \<and> c \<noteq> close"
          using Cons.prems(2)[of v'] ws by auto
      qed
      then show ?thesis using vw ws by simp
    qed
  qed
qed

end
