(* ===== verification/Jcs.thy ===== *)
theory Jcs
  imports Errors Framing "HOL-Library.Word" "HOL-Library.List_Lexorder"
begin

text \<open>
  src/quantara/jcs.py: the RFC 8785 serializer. Python strings are lists of Unicode code points;
  a dict is the list of its items in insertion order (its keys are distinct, \<open>wf_py\<close>). A float
  carries its 64 bits; \<open>PyOther\<close> stands for a value of any other type. The lemmas show that the
  serializer fails exactly on floats, foreign types, integers of more than 4300 digits and keys
  that UTF-16 cannot encode, that it
  forgets nothing but the order of dict items, and that it never emits a raw control character.
\<close>

section \<open>Values\<close>

type_synonym ustr = "nat list"

definition cps :: "string \<Rightarrow> ustr" where
  "cps s = map of_char s"

lemma cps_inject [simp]: "cps s = cps t \<longleftrightarrow> s = t"
  unfolding cps_def by (rule inj_map_eq_map) (rule injI, simp)

datatype pyval =
    PyNone
  | PyBool bool
  | PyInt int
  | PyStr ustr
  | PyList "pyval list"
  | PyDict "(ustr \<times> pyval) list"
  | PyFloat "64 word"
  | PyOther nat

abbreviation py_str :: "string \<Rightarrow> pyval" where
  "py_str s \<equiv> PyStr (cps s)"

fun wf_py :: "pyval \<Rightarrow> bool" where
  "wf_py (PyList vs) = (\<forall>v \<in> set vs. wf_py v)"
| "wf_py (PyDict kvs) = (distinct (map fst kvs) \<and> (\<forall>kv \<in> set kvs. wf_py (snd kv)))"
| "wf_py _ = True"

section \<open>Strings\<close>

definition hex_digit :: "nat \<Rightarrow> nat" where
  "hex_digit n = (if n < 10 then 48 + n else 87 + n)"

definition string_escape :: "nat \<Rightarrow> ustr option" where
  "string_escape c =
     (if c = 34 then Some [92, 34] else if c = 92 then Some [92, 92]
      else if c = 8 then Some [92, 98] else if c = 12 then Some [92, 102]
      else if c = 10 then Some [92, 110] else if c = 13 then Some [92, 114]
      else if c = 9 then Some [92, 116] else None)"

definition serialize_char :: "nat \<Rightarrow> ustr" where
  "serialize_char c = (case string_escape c of
      Some e \<Rightarrow> e
    | None \<Rightarrow> if c < 32 then [92, 117, 48, 48, hex_digit (c div 16), hex_digit (c mod 16)] else [c])"

definition serialize_string :: "ustr \<Rightarrow> ustr" where
  "serialize_string s = 34 # concat (map serialize_char s) @ [34]"

section \<open>Key order\<close>

definition is_surrogate :: "nat \<Rightarrow> bool" where
  "is_surrogate c \<longleftrightarrow> 0xD800 \<le> c \<and> c \<le> 0xDFFF"

text \<open>The bytes of one code point in UTF-16, most significant byte first.\<close>

definition utf16be_char :: "nat \<Rightarrow> nat list" where
  "utf16be_char c =
     (if c < 0x10000 then [c div 256, c mod 256]
      else let v = c - 0x10000; h = 0xD800 + v div 1024; l = 0xDC00 + v mod 1024
           in [h div 256, h mod 256, l div 256, l mod 256])"

definition utf16be :: "ustr \<Rightarrow> nat list" where
  "utf16be s = concat (map utf16be_char s)"

definition utf16be_encode :: "ustr \<Rightarrow> nat list res" where
  "utf16be_encode s = (if \<exists>c \<in> set s. is_surrogate c then Inl PyUnicodeError else Inr (utf16be s))"

definition sort_items :: "(ustr \<times> 'a) list \<Rightarrow> (ustr \<times> 'a) list" where
  "sort_items kvs = sort_key (\<lambda>kv. utf16be (fst kv)) kvs"

section \<open>The serializer\<close>

definition lit_true :: ustr where "lit_true = [116, 114, 117, 101]"
definition lit_false :: ustr where "lit_false = [102, 97, 108, 115, 101]"
definition lit_null :: ustr where "lit_null = [110, 117, 108, 108]"

lemma set_sort_items [simp]: "set (sort_items kvs) = set kvs"
  by (simp add: sort_items_def)

lemma item_size [termination_simp]: "kv \<in> set kvs \<Longrightarrow> size (snd kv) < Suc (size_list (size_prod (\<lambda>_. 0) size) kvs)"
  by (induction kvs) auto

function serialize :: "pyval \<Rightarrow> ustr res" where
  "serialize (PyBool b) = Inr (if b then lit_true else lit_false)"
| "serialize PyNone = Inr lit_null"
| "serialize (PyInt i) = bindE (py_str_int i) (\<lambda>t. Inr (cps t))"
| "serialize (PyStr s) = Inr (serialize_string s)"
| "serialize (PyList vs) =
     bindE (mapE serialize vs) (\<lambda>parts. Inr (91 # join [44] parts @ [93]))"
| "serialize (PyDict kvs) =
     bindE (mapE (\<lambda>kv. utf16be_encode (fst kv)) kvs) (\<lambda>_.
     bindE (mapE (\<lambda>kv. bindE (serialize (snd kv)) (\<lambda>v. Inr (serialize_string (fst kv) @ 58 # v)))
                 (sort_items kvs)) (\<lambda>parts.
     Inr (123 # join [44] parts @ [125])))"
| "serialize (PyFloat f) = Inl JcsFloatRejected"
| "serialize (PyOther n) = Inl PyTypeError"
  by pat_completeness auto
termination
  by (relation "measure size") (auto simp: item_size intro: item_size le_imp_less_Suc size_list_estimation')

definition canonicalize :: "pyval \<Rightarrow> ustr res" where
  "canonicalize v = serialize v"

section \<open>What is serialized: the value up to the order of dict items\<close>

fun jcs_ok :: "pyval \<Rightarrow> bool" where
  "jcs_ok (PyList vs) = (\<forall>v \<in> set vs. jcs_ok v)"
| "jcs_ok (PyDict kvs) =
     (\<forall>kv \<in> set kvs. (\<forall>c \<in> set (fst kv). \<not> is_surrogate c) \<and> jcs_ok (snd kv))"
| "jcs_ok (PyInt i) = int_printable i"
| "jcs_ok (PyFloat f) = False"
| "jcs_ok (PyOther n) = False"
| "jcs_ok _ = True"

text \<open>What a Python value of these types satisfies: the keys of a dict are distinct and the code
  points of a key lie below \<open>0x110000\<close>.\<close>

fun py_value :: "pyval \<Rightarrow> bool" where
  "py_value (PyList vs) = (\<forall>v \<in> set vs. py_value v)"
| "py_value (PyDict kvs) = (distinct (map fst kvs) \<and>
     (\<forall>kv \<in> set kvs. (\<forall>c \<in> set (fst kv). c < 0x110000) \<and> py_value (snd kv)))"
| "py_value _ = True"

text \<open>Equality of values, defined without the serializer: lists are compared position by position,
  dicts as maps, whatever the order of their items.\<close>

function py_same :: "pyval \<Rightarrow> pyval \<Rightarrow> bool" where
  "py_same (PyList vs) w =
     (case w of PyList ws \<Rightarrow> list_all2 py_same vs ws | _ \<Rightarrow> False)"
| "py_same (PyDict kvs) w =
     (case w of PyDict kws \<Rightarrow> length kvs = length kws \<and>
        (\<forall>kv \<in> set kvs. \<exists>kw \<in> set kws. fst kw = fst kv \<and> py_same (snd kv) (snd kw))
      | _ \<Rightarrow> False)"
| "py_same (PyBool b) w = (w = PyBool b)"
| "py_same PyNone w = (w = PyNone)"
| "py_same (PyInt i) w = (w = PyInt i)"
| "py_same (PyStr t) w = (w = PyStr t)"
| "py_same (PyFloat f) w = (w = PyFloat f)"
| "py_same (PyOther k) w = (w = PyOther k)"
  by pat_completeness auto
termination
  by (relation "measure (size \<circ> fst)") (auto intro: item_size le_imp_less_Suc size_list_estimation')

function jcs_norm :: "pyval \<Rightarrow> pyval" where
  "jcs_norm (PyList vs) = PyList (map jcs_norm vs)"
| "jcs_norm (PyDict kvs) = PyDict (map (\<lambda>kv. (fst kv, jcs_norm (snd kv))) (sort_items kvs))"
| "jcs_norm (PyBool b) = PyBool b"
| "jcs_norm PyNone = PyNone"
| "jcs_norm (PyInt i) = PyInt i"
| "jcs_norm (PyStr t) = PyStr t"
| "jcs_norm (PyFloat f) = PyFloat f"
| "jcs_norm (PyOther n) = PyOther n"
  by pat_completeness auto
termination
  by (relation "measure size") (auto intro: item_size le_imp_less_Suc size_list_estimation')

text \<open>The text of a value whose dicts are already in key order.\<close>

fun jcs_text :: "pyval \<Rightarrow> ustr" where
  "jcs_text (PyBool b) = (if b then lit_true else lit_false)"
| "jcs_text PyNone = lit_null"
| "jcs_text (PyInt i) = cps (show_int i)"
| "jcs_text (PyStr s) = serialize_string s"
| "jcs_text (PyList vs) = 91 # join [44] (map jcs_text vs) @ [93]"
| "jcs_text (PyDict kvs) =
     123 # join [44] (map (\<lambda>kv. serialize_string (fst kv) @ 58 # jcs_text (snd kv)) kvs) @ [125]"
| "jcs_text (PyFloat f) = []"
| "jcs_text (PyOther n) = []"

lemma mapE_utf16:
  "mapE (\<lambda>kv. utf16be_encode (fst kv)) kvs = Inr us \<Longrightarrow>
     \<forall>kv \<in> set kvs. \<forall>c \<in> set (fst kv). \<not> is_surrogate c"
proof (induction kvs arbitrary: us)
  case Nil
  then show ?case by simp
next
  case (Cons kv kvs)
  then show ?case by (auto simp: res_simps utf16be_encode_def split: if_splits)
qed

lemma mapE_Inr_mem: "mapE f xs = Inr ys \<Longrightarrow> x \<in> set xs \<Longrightarrow> \<exists>y. f x = Inr y"
  by (auto simp: mapE_Inr_iff list_all2_conv_all_nth in_set_conv_nth)

lemma serialize_jcs_ok: "serialize v = Inr s \<Longrightarrow> jcs_ok v"
proof (induction v arbitrary: s rule: serialize.induct)
  case (3 i)
  then show ?case by (auto simp: res_simps py_str_int_Inr)
next
  case (5 vs)
  then show ?case by (auto simp: res_simps dest: mapE_Inr_mem)
next
  case (6 kvs)
  then obtain us parts where
    us: "mapE (\<lambda>kv. utf16be_encode (fst kv)) kvs = Inr us" and
    parts: "mapE (\<lambda>kv. bindE (serialize (snd kv)) (\<lambda>v. Inr (serialize_string (fst kv) @ 58 # v)))
      (sort_items kvs) = Inr parts"
    by (auto simp: res_simps)
  have "jcs_ok (snd kv)" if kv: "kv \<in> set kvs" for kv
  proof -
    have "kv \<in> set (sort_items kvs)" using kv by simp
    then obtain y where "bindE (serialize (snd kv)) (\<lambda>v. Inr (serialize_string (fst kv) @ 58 # v)) = Inr y"
      using mapE_Inr_mem[OF parts] by blast
    then obtain t where "serialize (snd kv) = Inr t" by (auto simp: res_simps)
    then show ?thesis using "6.IH"[of kv t] kv by simp
  qed
  with mapE_utf16[OF us] show ?case by auto
qed auto

lemma serialize_text: "jcs_ok v \<Longrightarrow> serialize v = Inr (jcs_text (jcs_norm v))"
proof (induction v rule: serialize.induct)
  case (5 vs)
  then have "mapE serialize vs = Inr (map (\<lambda>v. jcs_text (jcs_norm v)) vs)"
    by (intro mapE_all_Inr) auto
  then show ?case by (simp add: comp_def)
next
  case (6 kvs)
  have us: "mapE (\<lambda>kv. utf16be_encode (fst kv)) kvs = Inr (map (\<lambda>kv. utf16be (fst kv)) kvs)"
    using "6.prems" by (intro mapE_all_Inr) (auto simp: utf16be_encode_def)
  have "mapE (\<lambda>kv. bindE (serialize (snd kv)) (\<lambda>v. Inr (serialize_string (fst kv) @ 58 # v))) (sort_items kvs)
      = Inr (map (\<lambda>kv. serialize_string (fst kv) @ 58 # jcs_text (jcs_norm (snd kv))) (sort_items kvs))"
    using "6.IH" "6.prems" by (intro mapE_all_Inr) auto
  with us show ?case by (simp add: comp_def)
qed (simp_all add: py_str_int_def)

section \<open>Escaping is a prefix code\<close>

lemma serialize_char_cases:
  obtains "c = 34 \<or> c = 92 \<or> c = 8 \<or> c = 12 \<or> c = 10 \<or> c = 13 \<or> c = 9"
      "serialize_char c = [92, if c = 34 then 34 else if c = 92 then 92 else if c = 8 then 98
         else if c = 12 then 102 else if c = 10 then 110 else if c = 13 then 114 else 116]"
  | "c < 32" "string_escape c = None"
      "serialize_char c = [92, 117, 48, 48, hex_digit (c div 16), hex_digit (c mod 16)]"
  | "32 \<le> c" "c \<noteq> 34" "c \<noteq> 92" "serialize_char c = [c]"
  by (cases "string_escape c"; cases "c < 32")
    (auto simp: serialize_char_def string_escape_def split: if_splits)

definition unhex :: "nat \<Rightarrow> nat" where
  "unhex h = (if h < 58 then h - 48 else h - 87)"

lemma unhex_hex_digit [simp]: "n < 16 \<Longrightarrow> unhex (hex_digit n) = n"
  by (simp add: unhex_def hex_digit_def)

text \<open>Reading one character of a string body back.\<close>

fun unescape :: "ustr \<Rightarrow> (nat \<times> ustr) option" where
  "unescape [] = None"
| "unescape (c # rest) =
     (if c \<noteq> 92 then Some (c, rest)
      else case rest of
          [] \<Rightarrow> None
        | k # rest' \<Rightarrow>
            if k = 117 then
              (case rest' of
                 a # b # h # l # rest'' \<Rightarrow> Some (16 * unhex h + unhex l, rest'')
               | _ \<Rightarrow> None)
            else Some (if k = 98 then 8 else if k = 102 then 12 else if k = 110 then 10
                       else if k = 114 then 13 else if k = 116 then 9 else k, rest'))"

lemma unescape_serialize_char: "unescape (serialize_char c @ x) = Some (c, x)"
proof (cases c rule: serialize_char_cases)
  case 2
  then have "unhex (hex_digit (c div 16)) = c div 16" "unhex (hex_digit (c mod 16)) = c mod 16"
    by simp_all
  with 2 show ?thesis by simp
next
  case 1
  then show ?thesis by (elim disjE) simp_all
next
  case 3
  then show ?thesis by simp
qed

lemma serialize_char_prefix:
  "serialize_char c @ x = serialize_char d @ y \<Longrightarrow> c = d \<and> x = y"
  by (metis unescape_serialize_char option.inject prod.inject)

lemma serialize_char_head: "\<exists>e es. serialize_char c = e # es \<and> e \<noteq> 34"
  by (cases c rule: serialize_char_cases) auto

interpretation escape: prefix_code serialize_char "\<lambda>_. True" "\<lambda>c. c = 34"
  by unfold_locales (erule serialize_char_prefix, rule serialize_char_head)

lemma serialize_string_unique:
  "serialize_string s @ x = serialize_string t @ y \<longleftrightarrow> s = t \<and> x = y"
  using escape.body_unique[of s t 34 34 x y] by (auto simp: serialize_string_def)

section \<open>The text determines the value\<close>

definition is_stop :: "nat \<Rightarrow> bool" where
  "is_stop c \<longleftrightarrow> c = 10 \<or> c = 44 \<or> c = 93 \<or> c = 125"

definition is_num :: "nat \<Rightarrow> bool" where
  "is_num c \<longleftrightarrow> c = 45 \<or> (48 \<le> c \<and> c \<le> 57)"

text \<open>The first symbol of a text tells the kind of value.\<close>

definition head_kind :: "nat \<Rightarrow> nat" where
  "head_kind c = (if c = 116 then 0 else if c = 102 then 1 else if c = 110 then 2
     else if is_num c then 3 else if c = 34 then 4 else if c = 91 then 5 else if c = 123 then 6 else 7)"

fun value_kind :: "pyval \<Rightarrow> nat" where
  "value_kind (PyBool b) = (if b then 0 else 1)"
| "value_kind PyNone = 2"
| "value_kind (PyInt i) = 3"
| "value_kind (PyStr s) = 4"
| "value_kind (PyList vs) = 5"
| "value_kind (PyDict kvs) = 6"
| "value_kind _ = 7"

lemmas lits = lit_true_def lit_false_def lit_null_def

lemma show_int_num: "\<forall>c \<in> set (cps (show_int i)). is_num c"
proof -
  have "is_num (of_char c)" if "c = CHR ''-'' \<or> is_digit c" for c
    using that
  proof
    assume "c = CHR ''-''"
    then show ?thesis by (simp add: is_num_def)
  next
    assume "is_digit c"
    then show ?thesis unfolding is_digit_def is_num_def by (rule disjI2)
  qed
  then show ?thesis using show_int_chars[of i] unfolding cps_def set_map by blast
qed

lemma head_kind_num: "is_num c \<Longrightarrow> head_kind c = 3"
  by (auto simp: head_kind_def is_num_def)

lemma jcs_text_head:
  assumes "jcs_ok v"
  shows "\<exists>c cs. jcs_text v = c # cs \<and> head_kind c = value_kind v"
proof (cases v)
  case (PyInt i)
  obtain c cs where c: "show_int i = c # cs" by (cases "show_int i") auto
  then have "is_num (of_char c)" using show_int_num[of i] by (auto simp: cps_def)
  then have "head_kind (of_char c) = 3" by (rule head_kind_num)
  with PyInt c show ?thesis by (simp add: cps_def)
next
  case (PyBool b)
  then show ?thesis by (cases b) (simp_all add: lits head_kind_def)
qed (use assms in \<open>simp_all add: lits head_kind_def is_num_def serialize_string_def\<close>)

lemma same_text_same_kind:
  assumes "jcs_ok v" "jcs_ok w" "jcs_text v @ x = jcs_text w @ y"
  shows "value_kind w = value_kind v"
proof -
  obtain c cs where c: "jcs_text v = c # cs" "head_kind c = value_kind v"
    using jcs_text_head[OF assms(1)] by blast
  obtain d ds where d: "jcs_text w = d # ds" "head_kind d = value_kind w"
    using jcs_text_head[OF assms(2)] by blast
  show ?thesis using assms(3) c d by simp
qed

lemma jcs_text_start:
  assumes "jcs_ok v"
  shows "\<exists>c cs. jcs_text v = c # cs \<and> \<not> is_stop c"
proof -
  obtain c cs where c: "jcs_text v = c # cs" "head_kind c = value_kind v"
    using jcs_text_head[OF assms] by blast
  moreover have "value_kind v \<noteq> 7" using assms by (cases v) auto
  ultimately have "\<not> is_stop c" by (auto simp: head_kind_def is_stop_def is_num_def)
  with c(1) show ?thesis by blast
qed

lemma takeWhile_num:
  "\<forall>c \<in> set s. is_num c \<Longrightarrow> is_stop a \<Longrightarrow> takeWhile is_num (s @ a # x) = s"
  by (subst takeWhile_append2) (auto simp: is_stop_def is_num_def)

lemma jcs_text_unique:
  assumes "jcs_ok v" "jcs_ok w" "is_stop a" "is_stop b" "jcs_text v @ a # x = jcs_text w @ b # y"
  shows "v = w \<and> a # x = b # y"
  using assms
proof (induction v arbitrary: w a b x y rule: jcs_text.induct)
  case (3 i)
  have "value_kind w = value_kind (PyInt i)"
    using "3.prems"(1,2,5) by (rule same_text_same_kind)
  then obtain j where w: "w = PyInt j" by (cases w) (auto split: if_splits)
  have eq: "cps (show_int i) @ a # x = cps (show_int j) @ b # y"
    using "3.prems"(5) by (simp add: w)
  then have "cps (show_int i) = cps (show_int j)"
    using takeWhile_num[OF show_int_num "3.prems"(3), of i x] takeWhile_num[OF show_int_num "3.prems"(4), of j y]
    by simp
  with eq show ?case by (simp add: w)
next
  case (4 s)
  have "value_kind w = value_kind (PyStr s)"
    using "4.prems"(1,2,5) by (rule same_text_same_kind)
  then obtain t where "w = PyStr t" by (cases w) (auto split: if_splits)
  with 4 show ?case by (auto simp: serialize_string_unique)
next
  case (5 vs)
  have "value_kind w = value_kind (PyList vs)"
    using "5.prems"(1,2,5) by (rule same_text_same_kind)
  then obtain ws where w: "w = PyList ws" by (cases w) (auto split: if_splits)
  have "vs = ws \<and> a # x = b # y"
  proof (rule joined_unique[where enc = jcs_text and stop = is_stop and sep = 44 and close = 93])
    fix v u a b x y
    assume "v \<in> set vs" "u \<in> set ws" "is_stop a" "is_stop b" "jcs_text v @ a # x = jcs_text u @ b # y"
    then show "v = u \<and> a # x = b # y"
      using "5.IH"[of v u a b x y] "5.prems"(1,2) w by simp
  next
    fix v assume "v \<in> set vs \<union> set ws"
    then have "jcs_ok v" using "5.prems"(1,2) w by auto
    from jcs_text_start[OF this] show "\<exists>c cs. jcs_text v = c # cs \<and> c \<noteq> 93"
      by (auto simp: is_stop_def)
  qed (use "5.prems"(5) w in \<open>simp_all add: is_stop_def\<close>)
  with w show ?case by simp
next
  case (6 kvs)
  have "value_kind w = value_kind (PyDict kvs)"
    using "6.prems"(1,2,5) by (rule same_text_same_kind)
  then obtain kws where w: "w = PyDict kws" by (cases w) (auto split: if_splits)
  let ?item = "\<lambda>kv. serialize_string (fst kv) @ 58 # jcs_text (snd kv)"
  have "kvs = kws \<and> a # x = b # y"
  proof (rule joined_unique[where enc = ?item and stop = is_stop and sep = 44 and close = 125])
    fix kv kw a b x y
    assume kv: "kv \<in> set kvs" "kw \<in> set kws" "is_stop a" "is_stop b" and eq: "?item kv @ a # x = ?item kw @ b # y"
    then have "fst kv = fst kw" "jcs_text (snd kv) @ a # x = jcs_text (snd kw) @ b # y"
      by (simp_all add: serialize_string_unique)
    moreover have "snd kv = snd kw \<and> a # x = b # y"
      using "6.IH"[of kv "snd kw" a b x y] kv calculation(2) "6.prems"(1,2) w by auto
    ultimately show "kv = kw \<and> a # x = b # y" by (simp add: prod_eq_iff)
  qed (use "6.prems"(5) w in \<open>simp_all add: is_stop_def serialize_string_def\<close>)
  with w show ?case by simp
next
  case (1 c)
  have "value_kind w = value_kind (PyBool c)"
    using "1.prems"(1,2,5) by (rule same_text_same_kind)
  then have "w = PyBool c" by (cases w; cases c) (auto split: if_splits)
  with 1 show ?case by auto
next
  case 2
  have "value_kind w = value_kind (PyNone)"
    using "2.prems"(1,2,5) by (rule same_text_same_kind)
  then have "w = PyNone" by (cases w) (auto split: if_splits)
  with 2 show ?case by auto
qed auto

interpretation jcs: framed_code jcs_text jcs_ok is_stop
  by unfold_locales (erule (4) jcs_text_unique, erule jcs_text_start)

lemma jcs_ok_norm [simp]: "jcs_ok (jcs_norm v) = jcs_ok v"
  by (induction v rule: jcs_norm.induct) auto

lemma canonicalize_iff: "canonicalize v = Inr s \<longleftrightarrow> jcs_ok v \<and> s = jcs_text (jcs_norm v)"
  using serialize_jcs_ok serialize_text by (fastforce simp: canonicalize_def)

lemma canonicalize_same_text:
  "canonicalize v = Inr s \<Longrightarrow> canonicalize w = Inr s \<Longrightarrow> jcs_norm v = jcs_norm w"
  by (rule jcs.enc_inj[of _ _ 10]) (auto simp: canonicalize_iff is_stop_def)

section \<open>The order of dict items does not matter\<close>

text \<open>Code points Python can encode: below \<open>0x110000\<close> and not a surrogate.\<close>

definition scalar_value :: "nat \<Rightarrow> bool" where
  "scalar_value c \<longleftrightarrow> c < 0x110000 \<and> \<not> is_surrogate c"

fun decode_utf16 :: "nat list \<Rightarrow> (nat \<times> nat list) option" where
  "decode_utf16 (a # b # rest) =
     (let u = 256 * a + b in
      if 0xD800 \<le> u \<and> u < 0xDC00
      then (case rest of
              c # d # rest' \<Rightarrow> Some (0x10000 + 1024 * (u - 0xD800) + (256 * c + d - 0xDC00), rest')
            | _ \<Rightarrow> None)
      else Some (u, rest))"
| "decode_utf16 _ = None"

lemma decode_utf16_char: "scalar_value c \<Longrightarrow> decode_utf16 (utf16be_char c @ x) = Some (c, x)"
proof (cases "c < 0x10000")
  case True
  assume "scalar_value c"
  then have "\<not> (0xD800 \<le> c \<and> c < 0xDC00)" by (auto simp: scalar_value_def is_surrogate_def)
  moreover have "256 * (c div 256) + c mod 256 = c" by simp
  ultimately show ?thesis using True
    by (auto simp: utf16be_char_def Let_def simp del: mult_div_mod_eq)
next
  case False
  assume sv: "scalar_value c"
  define v where "v = c - 0x10000"
  define h where "h = 0xD800 + v div 1024"
  define l where "l = 0xDC00 + v mod 1024"
  have "v < 0x100000" using sv False unfolding v_def scalar_value_def by linarith
  then have h: "0xD800 \<le> h" "h < 0xDC00" by (simp_all add: h_def)
  have "256 * (h div 256) + h mod 256 = h" "256 * (l div 256) + l mod 256 = l" by simp_all
  moreover have "0x10000 + 1024 * (h - 0xD800) + (l - 0xDC00) = c"
    using False by (simp add: h_def l_def v_def)
  ultimately show ?thesis using False h
    by (simp add: utf16be_char_def Let_def v_def[symmetric] h_def[symmetric] l_def[symmetric]
        del: mult_div_mod_eq)
qed

interpretation utf16: prefix_code utf16be_char scalar_value "\<lambda>_. False"
proof
  fix c d x y assume "scalar_value c" "scalar_value d" "utf16be_char c @ x = utf16be_char d @ y"
  then show "c = d \<and> x = y" by (metis decode_utf16_char option.inject prod.inject)
next
  fix c show "\<exists>e es. utf16be_char c = e # es \<and> \<not> False"
    by (simp add: utf16be_char_def Let_def)
qed

definition keys_ok :: "(ustr \<times> 'a) list \<Rightarrow> bool" where
  "keys_ok kvs \<longleftrightarrow> distinct (map fst kvs) \<and> (\<forall>kv \<in> set kvs. \<forall>c \<in> set (fst kv). scalar_value c)"

lemma sort_items_perm:
  assumes "mset kvs = mset kws" "keys_ok kvs"
  shows "sort_items kvs = sort_items kws"
proof -
  have inj: "inj_on (\<lambda>kv. utf16be (fst kv)) (set kvs)"
  proof (rule inj_onI)
    fix p q assume pq: "p \<in> set kvs" "q \<in> set kvs" "utf16be (fst p) = utf16be (fst q)"
    have "fst p = fst q"
    proof (rule utf16.concat_unique)
      show "concat (map utf16be_char (fst p)) = concat (map utf16be_char (fst q))"
        using pq(3) by (simp only: utf16be_def)
    qed (use pq(1,2) assms(2) in \<open>simp_all add: keys_ok_def\<close>)
    then show "p = q"
      using pq assms(2) unfolding keys_ok_def distinct_map by (meson inj_onD)
  qed
  show ?thesis
    unfolding sort_items_def
    by (rule sort_key_inj_key_eq) (use assms(1) inj in simp_all)
qed

lemma jcs_norm_perm:
  "mset kvs = mset kws \<Longrightarrow> keys_ok kvs \<Longrightarrow> jcs_norm (PyDict kvs) = jcs_norm (PyDict kws)"
  by (metis jcs_norm.simps(2) sort_items_perm)

lemma jcs_ok_perm: "mset kvs = mset kws \<Longrightarrow> jcs_ok (PyDict kvs) = jcs_ok (PyDict kws)"
  by (metis jcs_ok.simps(2) set_mset_mset)

lemma sort_key_map_items:
  assumes "\<And>x. g (h x) = f x"
  shows "sort_key g (map h xs) = map h (sort_key f xs)"
proof (induction xs)
  case (Cons x xs)
  have "insort_key g (h x) (map h ys) = map h (insort_key f x ys)" for ys
    by (induction ys) (simp_all add: assms)
  with Cons show ?case by simp
qed simp

abbreviation norm_item :: "ustr \<times> pyval \<Rightarrow> ustr \<times> pyval" where
  "norm_item kv \<equiv> (fst kv, jcs_norm (snd kv))"

lemma sort_items_norm: "map norm_item (sort_items kvs) = sort_items (map norm_item kvs)"
  unfolding sort_items_def by (rule sort_key_map_items[symmetric]) simp

lemma jcs_norm_inv:
  "jcs_norm w = PyBool b \<Longrightarrow> w = PyBool b" "jcs_norm w = PyNone \<Longrightarrow> w = PyNone"
  "jcs_norm w = PyInt i \<Longrightarrow> w = PyInt i" "jcs_norm w = PyStr t \<Longrightarrow> w = PyStr t"
  "jcs_norm w = PyFloat f \<Longrightarrow> w = PyFloat f" "jcs_norm w = PyOther n \<Longrightarrow> w = PyOther n"
  by (cases w; simp)+

lemma jcs_norm_py_same:
  assumes "jcs_norm v = jcs_norm w" "py_value v" "py_value w"
  shows "py_same v w"
  using assms
proof (induction v arbitrary: w rule: jcs_norm.induct)
  case (1 vs)
  then obtain ws where w: "w = PyList ws" by (cases w) auto
  then have "list_all2 (\<lambda>v u. jcs_norm v = jcs_norm u) vs ws"
    using "1.prems"(1) by (simp add: list_all2_conv_all_nth list_eq_iff_nth_eq)
  then have "list_all2 py_same vs ws"
    by (rule list.rel_mono_strong) (use "1.IH" "1.prems"(2,3) w in auto)
  with w show ?case by simp
next
  case (2 kvs)
  then obtain kws where w: "w = PyDict kws" by (cases w) auto
  have eq: "map norm_item (sort_items kvs) = map norm_item (sort_items kws)"
    using "2.prems"(1) w by simp
  have "length (sort_items kvs) = length (sort_items kws)" using eq by (rule map_eq_imp_length_eq)
  then have len: "length kvs = length kws" by (simp add: sort_items_def)
  have "set (map norm_item (sort_items kvs)) = set (map norm_item (sort_items kws))" by (simp only: eq)
  then have sets: "norm_item ` set kvs = norm_item ` set kws" by simp
  have "\<exists>kw \<in> set kws. fst kw = fst kv \<and> py_same (snd kv) (snd kw)" if kv: "kv \<in> set kvs" for kv
  proof -
    have "norm_item kv \<in> norm_item ` set kws" using kv sets by blast
    then obtain kw where kw: "kw \<in> set kws" "fst kw = fst kv" "jcs_norm (snd kv) = jcs_norm (snd kw)" by auto
    moreover have "py_same (snd kv) (snd kw)"
      using "2.IH"[of kv "snd kw"] kv kw "2.prems"(2,3) w by simp
    ultimately show ?thesis by blast
  qed
  with w len show ?case by simp
qed (unfold jcs_norm.simps py_same.simps, (drule sym, erule jcs_norm_inv)+)

lemma py_same_norm:
  assumes "py_same v w" "py_value v" "py_value w" "jcs_ok v"
  shows "jcs_norm v = jcs_norm w"
  using assms
proof (induction v arbitrary: w rule: jcs_norm.induct)
  case (1 vs)
  then obtain ws where w: "w = PyList ws" by (cases w) auto
  then have "list_all2 py_same vs ws" using "1.prems"(1) by simp
  then have "list_all2 (\<lambda>v u. jcs_norm v = jcs_norm u) vs ws"
    by (rule list.rel_mono_strong) (use "1.IH" "1.prems"(2-4) w in auto)
  then have "map jcs_norm vs = map jcs_norm ws"
    by (simp add: list_all2_conv_all_nth list_eq_iff_nth_eq)
  with w show ?case by simp
next
  case (2 kvs)
  then obtain kws where w: "w = PyDict kws" by (cases w) auto
  have len: "length kvs = length kws" and
    item: "\<exists>kw \<in> set kws. fst kw = fst kv \<and> py_same (snd kv) (snd kw)" if "kv \<in> set kvs" for kv
    using "2.prems"(1) w that by auto
  have d: "distinct (map norm_item kvs)" "distinct (map norm_item kws)"
    using "2.prems"(2,3) w distinct_map[of fst] by (auto simp: distinct_map inj_on_def)
  have sub: "set (map norm_item kvs) \<subseteq> set (map norm_item kws)"
  proof
    fix p assume "p \<in> set (map norm_item kvs)"
    then obtain kv where kv: "kv \<in> set kvs" "p = norm_item kv" by auto
    obtain kw where kw: "kw \<in> set kws" "fst kw = fst kv" "py_same (snd kv) (snd kw)" using item[OF kv(1)] by blast
    have "jcs_norm (snd kv) = jcs_norm (snd kw)"
      using "2.IH"[of kv "snd kw"] kv(1) kw "2.prems"(2-4) w by simp
    then have "p = norm_item kw" using kv(2) kw(2) by (simp add: prod_eq_iff)
    with kw(1) show "p \<in> set (map norm_item kws)" by simp
  qed
  have "length kvs = length kws" using "2.prems"(1) w by simp
  then have "card (set (map norm_item kws)) = card (set (map norm_item kvs))"
    using distinct_card[OF d(1)] distinct_card[OF d(2)] by simp
  then have "set (map norm_item kvs) = set (map norm_item kws)"
    using sub by (intro card_subset_eq) simp_all
  then have ms: "mset (map norm_item kvs) = mset (map norm_item kws)"
    using d by (simp only: set_eq_iff_mset_eq_distinct)
  have "keys_ok (map norm_item kvs)"
    using "2.prems"(2,4) by (auto simp: keys_ok_def comp_def scalar_value_def)
  then have "sort_items (map norm_item kvs) = sort_items (map norm_item kws)"
    by (rule sort_items_perm[OF ms])
  with w show ?case by (simp only: jcs_norm.simps sort_items_norm)
qed auto

section \<open>No raw control characters\<close>

lemma serialize_char_ge: "\<forall>e \<in> set (serialize_char c). 32 \<le> e"
  by (cases c rule: serialize_char_cases) (auto simp: hex_digit_def)

lemma serialize_string_ge: "\<forall>c \<in> set (serialize_string s). 32 \<le> c"
proof -
  have "32 \<le> e" if "e \<in> set (serialize_char c)" for c e
    using serialize_char_ge that by blast
  then show ?thesis by (auto simp: serialize_string_def)
qed

lemma join_ge:
  assumes "\<forall>x \<in> set xs. \<forall>c \<in> set x. (32 :: nat) \<le> c"
  shows "\<forall>c \<in> set (join [44] xs). 32 \<le> c"
  using set_join[of "[44]" xs] assms by fastforce

lemma jcs_text_ge: "\<forall>c \<in> set (jcs_text v). 32 \<le> c"
proof (induction v rule: jcs_text.induct)
  case (3 i)
  show ?case using show_int_num[of i] by (auto simp: is_num_def)
next
  case (4 s)
  show ?case using serialize_string_ge by simp
next
  case (5 vs)
  then show ?case using join_ge[of "map jcs_text vs"] by auto
next
  case (6 kvs)
  let ?item = "\<lambda>kv. serialize_string (fst kv) @ 58 # jcs_text (snd kv)"
  have "\<forall>c \<in> set (?item kv). 32 \<le> c" if "kv \<in> set kvs" for kv
    unfolding set_append ball_Un list.set using "6.IH"[OF that] serialize_string_ge by simp
  then have "\<forall>c \<in> set (join [44] (map ?item kvs)). 32 \<le> c"
    by (intro join_ge) auto
  then show ?case by simp
qed (auto simp: lits)

section \<open>Which code points occur\<close>

fun str_points :: "pyval \<Rightarrow> nat set" where
  "str_points (PyStr s) = set s"
| "str_points (PyList vs) = (\<Union>v \<in> set vs. str_points v)"
| "str_points (PyDict kvs) = (\<Union>kv \<in> set kvs. set (fst kv) \<union> str_points (snd kv))"
| "str_points _ = {}"

definition printable :: "nat set" where
  "printable = {32..<127}"

lemma serialize_char_points: "set (serialize_char c) \<subseteq> insert c printable"
  by (cases c rule: serialize_char_cases) (auto simp: hex_digit_def printable_def)

lemma serialize_string_points: "set (serialize_string s) \<subseteq> printable \<union> set s"
proof -
  have "set (concat (map serialize_char s)) \<subseteq> printable \<union> set s"
    using serialize_char_points by fastforce
  moreover have "34 \<in> printable" by (simp add: printable_def)
  ultimately show ?thesis by (simp add: serialize_string_def)
qed

lemma join_points: "(\<And>x. x \<in> set xs \<Longrightarrow> set x \<subseteq> printable \<union> A) \<Longrightarrow> set (join [44] xs) \<subseteq> printable \<union> A"
proof -
  assume "\<And>x. x \<in> set xs \<Longrightarrow> set x \<subseteq> printable \<union> A"
  moreover have "44 \<in> printable" by (simp add: printable_def)
  ultimately show ?thesis using set_join[of "[44]" xs] by fastforce
qed

lemma jcs_text_points: "set (jcs_text v) \<subseteq> printable \<union> str_points v"
proof (induction v rule: jcs_text.induct)
  case (3 i)
  have "set (cps (show_int i)) \<subseteq> printable"
    using show_int_num[of i] by (auto simp: is_num_def printable_def)
  then show ?case by auto
next
  case (4 s)
  show ?case using serialize_string_points by simp
next
  case (5 vs)
  have "set (join [44] (map jcs_text vs)) \<subseteq> printable \<union> str_points (PyList vs)"
    using "5.IH" by (intro join_points) fastforce
  moreover have "91 \<in> printable" "93 \<in> printable" by (simp_all add: printable_def)
  ultimately show ?case by simp
next
  case (6 kvs)
  let ?item = "\<lambda>kv. serialize_string (fst kv) @ 58 # jcs_text (snd kv)"
  have br: "123 \<in> printable" "125 \<in> printable" "58 \<in> printable" by (simp_all add: printable_def)
  have "set (?item kv) \<subseteq> printable \<union> str_points (PyDict kvs)" if kv: "kv \<in> set kvs" for kv
  proof -
    have "set (fst kv) \<union> str_points (snd kv) \<subseteq> str_points (PyDict kvs)" using kv by auto
    then show ?thesis
      unfolding set_append list.set using "6.IH"[OF kv] serialize_string_points[of "fst kv"] br(3) by blast
  qed
  then have "set x \<subseteq> printable \<union> str_points (PyDict kvs)" if "x \<in> set (map ?item kvs)" for x
    using that unfolding set_map by blast
  then have "set (join [44] (map ?item kvs)) \<subseteq> printable \<union> str_points (PyDict kvs)"
    by (rule join_points)
  with br show ?case by simp
qed (auto simp: lits printable_def)

text \<open>Rows of scalars: sorting has nothing to do.\<close>

fun is_scalar_py :: "pyval \<Rightarrow> bool" where
  "is_scalar_py (PyList vs) = False"
| "is_scalar_py (PyDict kvs) = False"
| "is_scalar_py _ = True"

lemma jcs_norm_scalar: "is_scalar_py v \<Longrightarrow> jcs_norm v = v"
  by (cases v) auto

lemma jcs_norm_row: "list_all is_scalar_py row \<Longrightarrow> jcs_norm (PyList row) = PyList row"
  by (induction row) (auto simp: jcs_norm_scalar)

section \<open>Looking up a key of a serialized dict\<close>

lemma map_of_sort_items: "distinct (map fst kvs) \<Longrightarrow> map_of (sort_items kvs) = map_of kvs"
proof -
  assume d: "distinct (map fst kvs)"
  have ms: "mset (sort_items kvs) = mset kvs" by (simp add: sort_items_def)
  then have "mset (map fst (sort_items kvs)) = mset (map fst kvs)" by (simp only: mset_map)
  then have "distinct (map fst (sort_items kvs))" using d by (metis distinct_count_atmost_1 set_mset_mset)
  with d show ?thesis by (intro map_of_inject_set[THEN iffD2]) auto
qed

lemma map_of_map_snd_fun: "map_of (map (\<lambda>kv. (fst kv, f (snd kv))) kvs) k = map_option f (map_of kvs k)"
  by (induction kvs) auto

lemma jcs_norm_lookup:
  assumes "jcs_norm (PyDict kvs) = jcs_norm (PyDict kws)" "distinct (map fst kvs)" "distinct (map fst kws)"
  shows "map_option jcs_norm (map_of kvs k) = map_option jcs_norm (map_of kws k)"
proof -
  have "map (\<lambda>kv. (fst kv, jcs_norm (snd kv))) (sort_items kvs) = map (\<lambda>kv. (fst kv, jcs_norm (snd kv))) (sort_items kws)"
    using assms(1) by simp
  then have "map_of (map (\<lambda>kv. (fst kv, jcs_norm (snd kv))) (sort_items kvs)) k
    = map_of (map (\<lambda>kv. (fst kv, jcs_norm (snd kv))) (sort_items kws)) k" by (simp only:)
  then show ?thesis unfolding map_of_map_snd_fun map_of_sort_items[OF assms(2)] map_of_sort_items[OF assms(3)] .
qed

lemma canonicalize_lookup:
  assumes "canonicalize (PyDict kvs) = Inr s" "canonicalize (PyDict kws) = Inr s"
    and "distinct (map fst kvs)" "distinct (map fst kws)"
  shows "map_option jcs_norm (map_of kvs k) = map_option jcs_norm (map_of kws k)"
  by (rule jcs_norm_lookup[OF canonicalize_same_text[OF assms(1,2)] assms(3,4)])

section \<open>Properties\<close>

text \<open>C1: canonical serialization identifies exactly the equal values. Equality is \<open>py_same\<close>,
  which knows nothing of the serializer: lists are compared position by position, dicts as maps,
  whatever the order in which they list their items. Two values get the same text exactly when
  they are the same value in this sense, so a digest of the text names one value.\<close>

theorem canonicalize_injective_up_to_key_order:
  assumes "canonicalize v = Inr s" "py_value v" "py_value w"
  shows "canonicalize w = Inr s \<longleftrightarrow> py_same v w"
proof
  assume "canonicalize w = Inr s"
  with assms(1) have "jcs_norm v = jcs_norm w" by (rule canonicalize_same_text)
  then show "py_same v w" using assms(2,3) by (rule jcs_norm_py_same)
next
  assume "py_same v w"
  then have "jcs_norm v = jcs_norm w"
    using assms by (intro py_same_norm) (simp_all add: canonicalize_iff)
  with assms(1) show "canonicalize w = Inr s" using jcs_ok_norm[of w] jcs_ok_norm[of v]
    by (simp add: canonicalize_iff)
qed

theorem canonicalize_injective_up_to_key_order_witness:
  "canonicalize (PyDict [(cps ''b'', PyInt 1), (cps ''a'', PyList [PyNone])])
     = canonicalize (PyDict [(cps ''a'', PyList [PyNone]), (cps ''b'', PyInt 1)])
   \<and> canonicalize (PyDict [(cps ''b'', PyInt 1), (cps ''a'', PyList [PyNone])])
     \<noteq> canonicalize (PyDict [(cps ''a'', PyList []), (cps ''b'', PyInt 1)])"
proof -
  let ?v = "PyDict [(cps ''b'', PyInt 1), (cps ''a'', PyList [PyNone])]"
  let ?w = "PyDict [(cps ''a'', PyList [PyNone]), (cps ''b'', PyInt 1)]"
  let ?u = "PyDict [(cps ''a'', PyList []), (cps ''b'', PyInt 1)]"
  have ok: "py_value ?v" "py_value ?w" "py_value ?u" "jcs_ok ?v"
    by (simp_all add: cps_def is_surrogate_def)
  then obtain s where s: "canonicalize ?v = Inr s" by (auto simp: canonicalize_iff simp del: jcs_norm.simps)
  have "py_same ?v ?w" "\<not> py_same ?v ?u" by (simp_all add: list_all2_Cons1)
  then show ?thesis
    using canonicalize_injective_up_to_key_order[OF s ok(1,2)] canonicalize_injective_up_to_key_order[OF s ok(1,3)] s
    by simp
qed

text \<open>The order in which a dict lists its items does not change the canonical text; items are
  compared by the UTF-16 big-endian bytes of their keys, which is a total order on keys.\<close>

theorem canonicalize_key_order_irrelevant:
  assumes "mset kvs = mset kws" "keys_ok kvs" "canonicalize (PyDict kvs) = Inr s"
  shows "canonicalize (PyDict kws) = Inr s"
  using assms jcs_ok_perm[OF assms(1)] jcs_norm_perm[OF assms(1,2)]
  by (simp only: canonicalize_iff)

theorem canonicalize_key_order_irrelevant_witness:
  "canonicalize (PyDict [(cps ''b'', PyInt 1), (cps ''a'', PyNone)])
     = canonicalize (PyDict [(cps ''a'', PyNone), (cps ''b'', PyInt 1)])"
proof -
  have ms: "mset [(cps ''a'', PyNone), (cps ''b'', PyInt 1)] = mset [(cps ''b'', PyInt 1), (cps ''a'', PyNone)]"
    by (simp add: add_mset_commute)
  have ok: "keys_ok [(cps ''a'', PyNone), (cps ''b'', PyInt 1)]"
    by (simp add: keys_ok_def cps_def scalar_value_def is_surrogate_def)
  have "jcs_ok (PyDict [(cps ''a'', PyNone), (cps ''b'', PyInt 1)])"
    by (simp add: cps_def is_surrogate_def)
  then have "canonicalize (PyDict [(cps ''a'', PyNone), (cps ''b'', PyInt 1)])
      = Inr (jcs_text (jcs_norm (PyDict [(cps ''a'', PyNone), (cps ''b'', PyInt 1)])))"
    by (simp only: canonicalize_iff simp_thms)
  with canonicalize_key_order_irrelevant[OF ms ok this] show ?thesis by (simp only:)
qed

text \<open>Serialization succeeds exactly on values without binary floats, without foreign objects,
  without integers of more than 4300 digits and without lone surrogates in keys, and its text never holds a raw control character, so a
  newline can frame it.\<close>

theorem canonicalize_domain:
  "(\<exists>s. canonicalize v = Inr s \<and> list_all (\<lambda>c. 32 \<le> c) s) \<longleftrightarrow> jcs_ok v"
  using jcs_text_ge[of "jcs_norm v"] by (auto simp: canonicalize_iff list_all_iff)

end
