(* ===== verification/Py_Decimal.thy ===== *)
theory Py_Decimal
  imports Errors
begin

text \<open>
  Python's \<open>decimal\<close> module as far as the program uses it: finite decimals (sign, coefficient,
  exponent), contexts (precision and exponent range; the rounding mode of every context of the
  program is \<open>ROUND_HALF_EVEN\<close>) and the context operations. Every operation computes the exact
  result and then applies \<open>dec_fix\<close>, the rounding step of the library. NaN and the infinities
  do not occur among the modelled values: a trapped signal is an error result, and the signal
  stands for the special value where the context does not trap.

  The lemmas relate each operation to the rational value \<open>dval\<close>: \<open>dec_fix\<close> returns its
  argument when it fits (\<open>dec_exact\<close>), comparison is comparison of values, and rounding
  errors are bounded by half a unit in the last place.
\<close>

section \<open>Values\<close>

datatype dec = Dec (dneg: bool) (dcoef: nat) (dexp: int)

definition dval :: "dec \<Rightarrow> rat" where
  "dval d = (if dneg d then - 1 else 1) * of_nat (dcoef d) * (10 :: rat) powi dexp d"

text \<open>The signed coefficient after rescaling to an exponent not above the own one.\<close>

definition dint :: "int \<Rightarrow> dec \<Rightarrow> int" where
  "dint e d = (if dneg d then - 1 else 1) * int (dcoef d * 10 ^ nat (dexp d - e))"

definition dec_lt :: "dec \<Rightarrow> dec \<Rightarrow> bool" where
  "dec_lt a b \<longleftrightarrow> (let e = min (dexp a) (dexp b) in dint e a < dint e b)"

definition dec_le :: "dec \<Rightarrow> dec \<Rightarrow> bool" where
  "dec_le a b \<longleftrightarrow> (let e = min (dexp a) (dexp b) in dint e a \<le> dint e b)"

definition dec_eq :: "dec \<Rightarrow> dec \<Rightarrow> bool" where
  "dec_eq a b \<longleftrightarrow> (let e = min (dexp a) (dexp b) in dint e a = dint e b)"

definition dec_of_int :: "int \<Rightarrow> dec" where
  "dec_of_int i = Dec (i < 0) (nat \<bar>i\<bar>) 0"

definition dec_is_zero :: "dec \<Rightarrow> bool" where
  "dec_is_zero d \<longleftrightarrow> dcoef d = 0"

definition dec_copy_negate :: "dec \<Rightarrow> dec" where
  "dec_copy_negate d = Dec (\<not> dneg d) (dcoef d) (dexp d)"

definition dec_copy_abs :: "dec \<Rightarrow> dec" where
  "dec_copy_abs d = Dec False (dcoef d) (dexp d)"

text \<open>The exponent of the most significant digit.\<close>

definition dec_adjusted :: "dec \<Rightarrow> int" where
  "dec_adjusted d = dexp d + int (ndigits (dcoef d)) - 1"

section \<open>Contexts and rounding\<close>

record dctx =
  cprec :: nat
  cEmin :: int
  cEmax :: int

definition Etiny :: "dctx \<Rightarrow> int" where
  "Etiny c = cEmin c - int (cprec c) + 1"

definition Etop :: "dctx \<Rightarrow> int" where
  "Etop c = cEmax c - int (cprec c) + 1"

definition round_half_even :: "nat \<Rightarrow> nat \<Rightarrow> nat" where
  "round_half_even c k =
     (let p = 10 ^ k; q = c div p; r = c mod p
      in if 2 * r < p then q else if p < 2 * r then q + 1 else if even q then q else q + 1)"

definition dec_fix :: "dctx \<Rightarrow> dec \<Rightarrow> dec res" where
  "dec_fix ctx d =
     (if dcoef d = 0 then Inr (Dec (dneg d) 0 (min (max (dexp d) (Etiny ctx)) (cEmax ctx)))
      else
        let e0 = int (ndigits (dcoef d)) + dexp d - int (cprec ctx)
        in if Etop ctx < e0 then Inl DecOverflow
           else
             let exp_min = max e0 (Etiny ctx)
             in if dexp d < exp_min then
                  let c = round_half_even (dcoef d) (nat (exp_min - dexp d));
                      c' = (if cprec ctx < ndigits c then c div 10 else c);
                      e' = (if cprec ctx < ndigits c then exp_min + 1 else exp_min)
                  in if Etop ctx < e' then Inl DecOverflow else Inr (Dec (dneg d) c' e')
                else Inr d)"

section \<open>Context operations\<close>

definition dec_add_exact :: "dec \<Rightarrow> dec \<Rightarrow> dec" where
  "dec_add_exact a b =
     (let e = min (dexp a) (dexp b); s = dint e a + dint e b
      in Dec (if s = 0 then dneg a \<and> dneg b \<and> dcoef a = 0 \<and> dcoef b = 0 else s < 0) (nat \<bar>s\<bar>) e)"

definition dec_add :: "dctx \<Rightarrow> dec \<Rightarrow> dec \<Rightarrow> dec res" where
  "dec_add ctx a b = dec_fix ctx (dec_add_exact a b)"

definition dec_sub :: "dctx \<Rightarrow> dec \<Rightarrow> dec \<Rightarrow> dec res" where
  "dec_sub ctx a b = dec_add ctx a (dec_copy_negate b)"

definition dec_mul :: "dctx \<Rightarrow> dec \<Rightarrow> dec \<Rightarrow> dec res" where
  "dec_mul ctx a b = dec_fix ctx (Dec (dneg a \<noteq> dneg b) (dcoef a * dcoef b) (dexp a + dexp b))"

text \<open>Trailing zeros are dropped while the exponent is below the bound.\<close>

function strip_zeros :: "nat \<Rightarrow> int \<Rightarrow> int \<Rightarrow> nat \<times> int" where
  "strip_zeros c e bound =
     (if e < bound \<and> 0 < c \<and> c mod 10 = 0 then strip_zeros (c div 10) (e + 1) bound else (c, e))"
  by pat_completeness auto
termination
  by (relation "measure (\<lambda>(c, e, bound). c)") auto

declare strip_zeros.simps [simp del]

definition dec_div :: "dctx \<Rightarrow> dec \<Rightarrow> dec \<Rightarrow> dec res" where
  "dec_div ctx a b =
     (let sign = (dneg a \<noteq> dneg b); ideal = dexp a - dexp b
      in if dcoef b = 0 then Inl (if dcoef a = 0 then InvalidOperation else DivisionByZero)
         else if dcoef a = 0 then dec_fix ctx (Dec sign 0 ideal)
         else
           let shift = int (ndigits (dcoef b)) - int (ndigits (dcoef a)) + int (cprec ctx) + 1;
               e = ideal - shift;
               num = (if 0 \<le> shift then dcoef a * 10 ^ nat shift else dcoef a);
               den = (if 0 \<le> shift then dcoef b else dcoef b * 10 ^ nat (- shift));
               q = num div den
           in if num mod den \<noteq> 0 then dec_fix ctx (Dec sign (if q mod 5 = 0 then q + 1 else q) e)
              else
                case strip_zeros q e ideal of (c, e') \<Rightarrow> dec_fix ctx (Dec sign c e'))"

text \<open>The integer square root by Newton's iteration from above, as the library does it.\<close>

function isqrt_loop :: "nat \<Rightarrow> nat \<Rightarrow> nat" where
  "isqrt_loop c n = (let q = c div n in if n \<le> q then n else isqrt_loop c ((n + q) div 2))"
  by pat_completeness auto
termination
  by (relation "measure snd") auto

declare isqrt_loop.simps [simp del]

definition dec_sqrt :: "dctx \<Rightarrow> dec \<Rightarrow> dec res" where
  "dec_sqrt ctx a =
     (if dcoef a = 0 then dec_fix ctx (Dec (dneg a) 0 (dexp a div 2))
      else if dneg a then Inl InvalidOperation
      else
        let prec = int (cprec ctx) + 1;
            e = dexp a div 2;
            odd_e = (dexp a mod 2 = 1);
            c = (if odd_e then dcoef a * 10 else dcoef a);
            l = (if odd_e then ndigits (dcoef a) div 2 + 1 else (ndigits (dcoef a) + 1) div 2);
            shift = prec - int l;
            c1 = (if 0 \<le> shift then c * 100 ^ nat shift else c div 100 ^ nat (- shift));
            exact0 = (0 \<le> shift \<or> c mod 100 ^ nat (- shift) = 0);
            n = isqrt_loop c1 (10 ^ nat prec)
        in if exact0 \<and> n * n = c1
           then dec_fix ctx
                  (Dec False (if 0 \<le> shift then n div 10 ^ nat shift else n * 10 ^ nat (- shift)) e)
           else dec_fix ctx (Dec False (if n mod 5 = 0 then n + 1 else n) (e - shift)))"

text \<open>\<open>_rescale\<close>: the same value at another exponent, rounded when digits are lost.\<close>

definition dec_rescale :: "int \<Rightarrow> dec \<Rightarrow> dec" where
  "dec_rescale e d =
     (if dcoef d = 0 then Dec (dneg d) 0 e
      else if e \<le> dexp d then Dec (dneg d) (dcoef d * 10 ^ nat (dexp d - e)) e
      else Dec (dneg d) (round_half_even (dcoef d) (nat (e - dexp d))) e)"

definition dec_quantize :: "dctx \<Rightarrow> dec \<Rightarrow> dec \<Rightarrow> dec res" where
  "dec_quantize ctx d q =
     (if \<not> (Etiny ctx \<le> dexp q \<and> dexp q \<le> cEmax ctx) then Inl InvalidOperation
      else if dcoef d = 0 then dec_fix ctx (Dec (dneg d) 0 (dexp q))
      else if cEmax ctx < dec_adjusted d then Inl InvalidOperation
      else if int (cprec ctx) < dec_adjusted d - dexp q + 1 then Inl InvalidOperation
      else
        let r = dec_rescale (dexp q) d
        in if cEmax ctx < dec_adjusted r \<or> cprec ctx < ndigits (dcoef r) then Inl InvalidOperation
           else dec_fix ctx r)"

definition dec_normalize :: "dctx \<Rightarrow> dec \<Rightarrow> dec res" where
  "dec_normalize ctx d = bindE (dec_fix ctx d) (\<lambda>r.
     if dcoef r = 0 then Inr (Dec (dneg r) 0 0)
     else case strip_zeros (dcoef r) (dexp r) (cEmax ctx) of (c, e) \<Rightarrow> Inr (Dec (dneg r) c e))"

definition dec_scaleb :: "dctx \<Rightarrow> dec \<Rightarrow> int \<Rightarrow> dec res" where
  "dec_scaleb ctx d n =
     (if \<bar>n\<bar> \<le> 2 * (cEmax ctx + int (cprec ctx))
      then dec_fix ctx (Dec (dneg d) (dcoef d) (dexp d + n)) else Inl InvalidOperation)"

definition dec_to_integral :: "dec \<Rightarrow> dec" where
  "dec_to_integral d = (if 0 \<le> dexp d then d else dec_rescale 0 d)"

text \<open>\<open>int(d)\<close> truncates towards zero.\<close>

definition dec_to_int :: "dec \<Rightarrow> int" where
  "dec_to_int d =
     (if dneg d then - 1 else 1) *
     int (if 0 \<le> dexp d then dcoef d * 10 ^ nat (dexp d) else dcoef d div 10 ^ nat (- dexp d))"

text \<open>\<open>format(d, "f")\<close>: positional notation.\<close>

definition dec_format_f :: "dec \<Rightarrow> string" where
  "dec_format_f d =
     (let sign = (if dneg d then ''-'' else []) in
      if 0 \<le> dexp d then sign @ show_nat (dcoef d * 10 ^ nat (dexp d))
      else let k = nat (- dexp d); s = show_nat (dcoef d);
               p = replicate (Suc k - length s) (CHR ''0'') @ s
           in sign @ take (length p - k) p @ ''.'' @ drop (length p - k) p)"

text \<open>\<open>Decimal(s)\<close> on texts in positional notation; exponents and special values are not read.\<close>

definition read_decimal :: "string \<Rightarrow> dec option" where
  "read_decimal s =
     (let neg = s \<noteq> [] \<and> hd s = CHR ''-''; t = (if neg then tl s else s);
          ip = takeWhile is_digit t; r = dropWhile is_digit t
      in case r of
           [] \<Rightarrow> if ip = [] then None else Some (Dec neg (read_nat ip) 0)
         | c # fp \<Rightarrow> if c = CHR ''.'' \<and> list_all is_digit fp \<and> ip @ fp \<noteq> []
             then Some (Dec neg (read_nat (ip @ fp)) (- int (length fp))) else None)"

section \<open>Comparison is comparison of values\<close>

lemma powi_pos [simp]: "0 < (10 :: rat) powi e"
  by simp

lemma powi_shift: "e \<le> f \<Longrightarrow> (10 :: rat) powi f = 10 ^ nat (f - e) * 10 powi e"
proof -
  assume "e \<le> f"
  then have "(10 :: rat) powi f = 10 powi (int (nat (f - e)) + e)" by simp
  also have "\<dots> = 10 ^ nat (f - e) * 10 powi e"
    by (subst power_int_add) (auto simp only: power_int_of_nat zero_neq_numeral)
  finally show ?thesis .
qed

lemma dint_val: "e \<le> dexp d \<Longrightarrow> dval d = of_int (dint e d) * (10 :: rat) powi e"
  by (simp add: dint_def dval_def powi_shift[of e "dexp d"])

lemma of_int_powi_cancel:
  "of_int a * (10 :: rat) powi e < of_int b * 10 powi e \<longleftrightarrow> a < b"
  "of_int a * (10 :: rat) powi e \<le> of_int b * 10 powi e \<longleftrightarrow> a \<le> b"
  "of_int a * (10 :: rat) powi e = of_int b * 10 powi e \<longleftrightarrow> a = b"
  by (simp_all add: mult_less_cancel_right_pos mult_le_cancel_right_pos)

lemma dint_cmp:
  assumes "e \<le> dexp a" "e \<le> dexp b"
  shows "dint e a < dint e b \<longleftrightarrow> dval a < dval b" "dint e a \<le> dint e b \<longleftrightarrow> dval a \<le> dval b"
    "dint e a = dint e b \<longleftrightarrow> dval a = dval b"
  unfolding dint_val[OF assms(1)] dint_val[OF assms(2)] by (simp_all only: of_int_powi_cancel)

lemma dec_lt_iff: "dec_lt a b \<longleftrightarrow> dval a < dval b"
  unfolding dec_lt_def Let_def by (rule dint_cmp) auto

lemma dec_le_iff: "dec_le a b \<longleftrightarrow> dval a \<le> dval b"
  unfolding dec_le_def Let_def by (rule dint_cmp) auto

lemma dec_eq_iff: "dec_eq a b \<longleftrightarrow> dval a = dval b"
  unfolding dec_eq_def Let_def by (rule dint_cmp) auto

lemmas dec_cmp = dec_lt_iff dec_le_iff dec_eq_iff

instantiation dec :: preorder
begin

definition less_eq_dec :: "dec \<Rightarrow> dec \<Rightarrow> bool" where
  "less_eq_dec a b = dec_le a b"

definition less_dec :: "dec \<Rightarrow> dec \<Rightarrow> bool" where
  "less_dec a b = dec_lt a b"

instance
  by standard (auto simp: less_eq_dec_def less_dec_def dec_cmp)

end

lemma dec_less_iff: "(a :: dec) < b \<longleftrightarrow> dval a < dval b"
  by (simp add: less_dec_def dec_cmp)

lemma dec_less_eq_iff: "(a :: dec) \<le> b \<longleftrightarrow> dval a \<le> dval b"
  by (simp add: less_eq_dec_def dec_cmp)

section \<open>When nothing is rounded\<close>

text \<open>A value fits a context when its coefficient and exponent need no adjustment.\<close>

definition dec_fits :: "dctx \<Rightarrow> dec \<Rightarrow> bool" where
  "dec_fits ctx d \<longleftrightarrow>
     dcoef d < 10 ^ cprec ctx \<and> 0 < cprec ctx \<and> Etiny ctx \<le> dexp d \<and> dexp d \<le> Etop ctx"

lemma dec_fix_fits [dec_exact]: "dec_fits ctx d \<Longrightarrow> dec_fix ctx d = Inr d"
proof (cases d)
  case (Dec s c e)
  assume "dec_fits ctx d"
  then have f: "c < 10 ^ cprec ctx" "0 < cprec ctx" "Etiny ctx \<le> e" "e \<le> Etop ctx"
    by (simp_all add: dec_fits_def Dec)
  from f have "ndigits c \<le> cprec ctx" by (simp add: ndigits_le_iff)
  with f show ?thesis
    by (auto simp: dec_fix_def Let_def Dec Etop_def)
qed

lemma dval_dec_add_exact [simp]: "dval (dec_add_exact a b) = dval a + dval b"
proof -
  define e where "e = min (dexp a) (dexp b)"
  define s where "s = dint e a + dint e b"
  have "dval (dec_add_exact a b) = of_int s * 10 powi e"
    by (auto simp: dec_add_exact_def Let_def e_def[symmetric] s_def[symmetric] dval_def)
  also have "\<dots> = dval a + dval b"
    using dint_val[of e a] dint_val[of e b] by (simp add: s_def e_def algebra_simps)
  finally show ?thesis .
qed

lemma dexp_dec_add_exact [simp]: "dexp (dec_add_exact a b) = min (dexp a) (dexp b)"
  by (simp add: dec_add_exact_def Let_def)

lemma dcoef_dec_add_exact:
  "dcoef (dec_add_exact a b) = nat \<bar>dint (min (dexp a) (dexp b)) a + dint (min (dexp a) (dexp b)) b\<bar>"
  by (simp add: dec_add_exact_def Let_def)

lemma dval_copy_negate [simp]: "dval (dec_copy_negate d) = - dval d"
  by (simp add: dval_def dec_copy_negate_def)

lemma dval_copy_abs [simp]: "dval (dec_copy_abs d) = \<bar>dval d\<bar>"
  by (simp add: dval_def dec_copy_abs_def abs_mult)

lemma dval_of_int [simp]: "dval (dec_of_int i) = of_int i"
  by (simp add: dval_def dec_of_int_def)

lemma dval_zero_iff: "dval d = 0 \<longleftrightarrow> dcoef d = 0"
  by (simp add: dval_def)

lemma dval_pos: "dval d \<le> 0 \<or> \<not> dneg d"
  by (simp add: dval_def)

lemma dval_nonneg_iff: "0 \<le> dval d \<longleftrightarrow> \<not> dneg d \<or> dcoef d = 0"
  using powi_pos[of "dexp d"] unfolding dval_def
  by (auto simp: zero_le_mult_iff mult_le_0_iff not_le[symmetric] simp del: powi_pos)

lemma dval_Dec: "dval (Dec s c e) = (if s then - 1 else 1) * of_nat c * 10 powi e"
  by (simp add: dval_def)

section \<open>Rounding errors\<close>

lemma round_half_even_error:
  "2 * \<bar>int (round_half_even c k) * 10 ^ k - int c\<bar> \<le> 10 ^ k"
proof -
  define p q r where "p = (10 :: nat) ^ k" and "q = c div p" and "r = c mod p"
  have c: "c = q * p + r"
    unfolding q_def r_def by (rule div_mult_mod_eq[symmetric])
  have r: "r < p"
    by (simp add: p_def r_def)
  have ip: "int p = 10 ^ k" by (simp add: p_def)
  have def: "round_half_even c k =
      (if 2 * r < p then q else if p < 2 * r then q + 1 else if even q then q else q + 1)"
    by (simp add: round_half_even_def Let_def p_def q_def r_def)
  have q0: "int q * int p - int c = - int r"
    using c by simp
  have q1: "int (q + 1) * int p - int c = int p - int r"
    using c by (simp add: algebra_simps)
  have "2 * \<bar>int (round_half_even c k) * int p - int c\<bar> \<le> int p"
  proof (cases "round_half_even c k = q")
    case True
    then have "2 * r \<le> p" by (auto simp: def split: if_splits)
    then show ?thesis unfolding True q0 by linarith
  next
    case False
    then have rq: "round_half_even c k = q + 1" and "p \<le> 2 * r" by (auto simp: def split: if_splits)
    then have "int p \<le> 2 * int r" "int r < int p" using r by simp_all
    then show ?thesis unfolding rq q1 by simp
  qed
  then show ?thesis by (simp only: ip)
qed

lemma round_half_even_bound: "c < 10 ^ (n + k) \<Longrightarrow> round_half_even c k \<le> 10 ^ n"
proof -
  assume "c < 10 ^ (n + k)"
  then have "c div 10 ^ k < 10 ^ n"
    by (simp add: less_mult_imp_div_less power_add mult.commute)
  then show ?thesis by (simp add: round_half_even_def Let_def)
qed

text \<open>The exponent of the unit in the last place after rounding.\<close>

definition ulp_exp :: "dctx \<Rightarrow> dec \<Rightarrow> int" where
  "ulp_exp ctx d = max (int (ndigits (dcoef d)) + dexp d - int (cprec ctx)) (Etiny ctx)"

lemma round_half_even_val:
  assumes "e \<le> f"
  shows "\<bar>dval (Dec s (round_half_even c (nat (f - e))) f) - dval (Dec s c e)\<bar> \<le> 10 powi f / 2"
proof -
  define k where "k = nat (f - e)"
  define R where "R = round_half_even c k"
  have pw: "(10 :: rat) powi f = 10 ^ k * 10 powi e"
    using powi_shift[OF assms] by (simp add: k_def)
  have err: "2 * \<bar>int R * 10 ^ k - int c\<bar> \<le> 10 ^ k"
    unfolding R_def by (rule round_half_even_error)
  have "dval (Dec s R f) - dval (Dec s c e)
      = (if s then - 1 else 1) * of_int (int R * 10 ^ k - int c) * 10 powi e"
    by (simp add: dval_Dec pw algebra_simps)
  then have "\<bar>dval (Dec s R f) - dval (Dec s c e)\<bar> = of_int \<bar>int R * 10 ^ k - int c\<bar> * 10 powi e"
    by (simp add: abs_mult)
  also have "\<dots> \<le> (10 ^ k / 2) * 10 powi e"
  proof (rule mult_right_mono)
    have "of_int (2 * \<bar>int R * 10 ^ k - int c\<bar>) \<le> (of_int (10 ^ k) :: rat)"
      using err by (simp only: of_int_le_iff)
    then show "of_int \<bar>int R * 10 ^ k - int c\<bar> \<le> (10 ^ k / 2 :: rat)" by simp
  qed simp
  finally show ?thesis by (simp add: R_def k_def pw)
qed

lemma dec_fix_rounded:
  assumes fx: "dec_fix ctx d = Inr r" and nz: "dcoef d \<noteq> 0" and prec: "0 < cprec ctx"
    and less: "dexp d < ulp_exp ctx d"
  shows "dval r = dval (Dec (dneg d) (round_half_even (dcoef d) (nat (ulp_exp ctx d - dexp d))) (ulp_exp ctx d))"
proof -
  define f where "f = ulp_exp ctx d"
  define c where "c = round_half_even (dcoef d) (nat (f - dexp d))"
  have r: "r = Dec (dneg d) (if cprec ctx < ndigits c then c div 10 else c)
                (if cprec ctx < ndigits c then f + 1 else f)"
    using fx nz less by (auto simp: dec_fix_def Let_def ulp_exp_def f_def c_def split: if_splits)
  have "dval r = dval (Dec (dneg d) c f)"
  proof (cases "cprec ctx < ndigits c")
    case False
    with r show ?thesis by simp
  next
    case big: True
    have "int (ndigits (dcoef d)) + dexp d - int (cprec ctx) \<le> f"
      by (simp add: f_def ulp_exp_def)
    then have "ndigits (dcoef d) \<le> cprec ctx + nat (f - dexp d)"
      using less by (simp add: f_def)
    then have "dcoef d < 10 ^ (cprec ctx + nat (f - dexp d))"
      using prec by (simp add: ndigits_le_iff)
    then have le: "c \<le> 10 ^ cprec ctx"
      unfolding c_def by (rule round_half_even_bound)
    have "\<not> c < 10 ^ cprec ctx"
      using big prec by (simp add: ndigits_le_iff[symmetric])
    with le have c: "c = 10 ^ cprec ctx" by simp
    with prec have "c = c div 10 * 10"
      by (cases "cprec ctx") simp_all
    then have "(of_nat c :: rat) = of_nat (c div 10) * 10"
      by (metis of_nat_mult of_nat_numeral)
    moreover have "(10 :: rat) powi (f + 1) = 10 * 10 powi f"
      by (simp add: power_int_add_1')
    ultimately show ?thesis using big r by (simp add: dval_Dec)
  qed
  then show ?thesis by (simp add: c_def f_def)
qed

lemma dec_fix_error:
  assumes fx: "dec_fix ctx d = Inr r" and nz: "dcoef d \<noteq> 0" and prec: "0 < cprec ctx"
  shows "\<bar>dval r - dval d\<bar> \<le> 10 powi ulp_exp ctx d / 2"
proof (cases "dexp d < ulp_exp ctx d")
  case False
  with fx nz have "r = d"
    by (auto simp: dec_fix_def Let_def ulp_exp_def split: if_splits)
  then show ?thesis by simp
next
  case True
  then show ?thesis
    using round_half_even_val[of "dexp d" "ulp_exp ctx d" "dneg d" "dcoef d"] dec_fix_rounded[OF assms True]
    by simp
qed

lemma dec_fix_coef:
  assumes "dec_fix ctx d = Inr r" "0 < cprec ctx"
  shows "dcoef r < 10 ^ cprec ctx"
proof (cases "dcoef d = 0 \<or> \<not> dexp d < ulp_exp ctx d")
  case True
  have "\<not> dexp d < ulp_exp ctx d \<Longrightarrow> ndigits (dcoef d) \<le> cprec ctx"
    by (simp add: ulp_exp_def)
  with True assms show ?thesis
    by (auto simp: dec_fix_def Let_def ulp_exp_def ndigits_le_iff split: if_splits)
next
  case False
  define f where "f = ulp_exp ctx d"
  define c where "c = round_half_even (dcoef d) (nat (f - dexp d))"
  have r: "dcoef r = (if cprec ctx < ndigits c then c div 10 else c)"
    using assms False by (auto simp: dec_fix_def Let_def ulp_exp_def f_def c_def split: if_splits)
  have "int (ndigits (dcoef d)) + dexp d - int (cprec ctx) \<le> f" by (simp add: f_def ulp_exp_def)
  then have "dcoef d < 10 ^ (cprec ctx + nat (f - dexp d))"
    using False assms(2) by (subst ndigits_le_iff[symmetric]) (auto simp: f_def)
  then have "c \<le> 10 ^ cprec ctx" unfolding c_def by (rule round_half_even_bound)
  moreover have "ndigits c \<le> cprec ctx \<Longrightarrow> c < 10 ^ cprec ctx"
    using assms(2) by (simp add: ndigits_le_iff)
  moreover have "c div 10 < 10 ^ cprec ctx"
  proof -
    have "c div 10 \<le> 10 ^ cprec ctx div 10" using \<open>c \<le> 10 ^ cprec ctx\<close> by (rule div_le_mono)
    also have "\<dots> < 10 ^ cprec ctx" by simp
    finally show ?thesis .
  qed
  ultimately show ?thesis using r by auto
qed

lemma dec_quantize_error:
  assumes "dec_quantize ctx d q = Inr r" and "0 < cprec ctx" and "dexp q \<le> Etop ctx"
  shows "dexp r = dexp q" and "\<bar>dval r - dval d\<bar> \<le> 10 powi dexp q / 2" and "dneg r = dneg d"
proof -
  have q: "Etiny ctx \<le> dexp q" "dexp q \<le> cEmax ctx"
    using assms(1) by (auto simp: dec_quantize_def split: if_splits)
  have "dexp r = dexp q \<and> \<bar>dval r - dval d\<bar> \<le> 10 powi dexp q / 2 \<and> dneg r = dneg d"
  proof (cases "dcoef d = 0")
    case True
    with assms(1) q have "r = Dec (dneg d) 0 (dexp q)"
      by (auto simp: dec_quantize_def dec_fix_def split: if_splits)
    then show ?thesis using True by (simp add: dval_def)
  next
    case False
    define t where "t = dec_rescale (dexp q) d"
    have t: "dexp t = dexp q" "dneg t = dneg d"
      by (simp_all add: t_def dec_rescale_def False)
    have "dec_fix ctx t = Inr r" and c: "ndigits (dcoef t) \<le> cprec ctx"
      using assms(1) False by (auto simp: dec_quantize_def t_def Let_def split: if_splits)
    moreover have "dec_fits ctx t"
      using assms(2,3) q c by (simp add: dec_fits_def t ndigits_le_iff)
    ultimately have "r = t" by (simp add: dec_fix_fits)
    moreover have "\<bar>dval t - dval d\<bar> \<le> 10 powi dexp q / 2"
    proof (cases "dexp q \<le> dexp d")
      case True
      then have "dval t = dval d"
        using powi_shift[OF True] by (simp add: t_def dec_rescale_def False dval_def)
      then show ?thesis by simp
    next
      case less: False
      then show ?thesis
        using round_half_even_val[of "dexp d" "dexp q" "dneg d" "dcoef d"] False
        by (simp add: t_def dec_rescale_def)
    qed
    ultimately show ?thesis using t by simp
  qed
  then show "dexp r = dexp q" and "\<bar>dval r - dval d\<bar> \<le> 10 powi dexp q / 2" and "dneg r = dneg d"
    by auto
qed

section \<open>Normalization and integral values\<close>

lemma strip_zeros_spec:
  "strip_zeros c e b = (c', e') \<Longrightarrow> 0 < c \<Longrightarrow>
     e \<le> e' \<and> 0 < c' \<and> c = c' * 10 ^ nat (e' - e)"
proof (induction c e b arbitrary: c' e' rule: strip_zeros.induct)
  case (1 c e b)
  show ?case
  proof (cases "e < b \<and> 0 < c \<and> c mod 10 = 0")
    case False
    then show ?thesis using "1.prems" by (auto simp: strip_zeros.simps[of c e b])
  next
    case True
    then have eq: "strip_zeros (c div 10) (e + 1) b = (c', e')"
      using "1.prems" by (simp add: strip_zeros.simps[of c e b])
    have "0 < c div 10" using True by (metis div_greater_zero_iff mod_less not_less less_not_refl zero_less_numeral)
    then have ih: "e + 1 \<le> e'" "0 < c'" "c div 10 = c' * 10 ^ nat (e' - (e + 1))"
      using "1.IH"[OF True eq] by auto
    have "nat (e' - e) = Suc (nat (e' - (e + 1)))" using ih(1) by simp
    moreover have "c = c div 10 * 10" using True by (metis mod_div_mult_eq add.left_neutral)
    ultimately show ?thesis using ih by simp
  qed
qed

lemma dec_normalize_fits:
  assumes "dec_fits ctx d"
  shows "\<exists>t. dec_normalize ctx d = Inr t \<and> dval t = dval d \<and> dcoef t \<le> dcoef d \<and>
     min 0 (dexp d) \<le> dexp t \<and> dexp t \<le> max 0 (dexp d + int (ndigits (dcoef d)))"
proof (cases "dcoef d = 0")
  case True
  then show ?thesis
    using assms by (simp add: dec_normalize_def dec_fix_fits dval_def)
next
  case False
  obtain c e where ce: "strip_zeros (dcoef d) (dexp d) (cEmax ctx) = (c, e)" by fastforce
  from strip_zeros_spec[OF this] False
  have sp: "dexp d \<le> e" "0 < c" "dcoef d = c * 10 ^ nat (e - dexp d)" by auto
  have "dec_normalize ctx d = Inr (Dec (dneg d) c e)"
    using False by (simp add: dec_normalize_def dec_fix_fits[OF assms] ce)
  moreover have "dval (Dec (dneg d) c e) = dval d"
    using powi_shift[OF sp(1)] by (simp add: dval_def sp(3))
  moreover have "e \<le> dexp d + int (ndigits (dcoef d))"
  proof -
    have "10 ^ nat (e - dexp d) \<le> dcoef d" using sp by simp
    then have "(10 :: nat) ^ nat (e - dexp d) < 10 ^ ndigits (dcoef d)"
      using ndigits_upper[of "dcoef d"] by (rule le_less_trans)
    then have "nat (e - dexp d) < ndigits (dcoef d)"
      using power_strict_increasing_iff[of "10 :: nat"] by simp
    then show ?thesis by simp
  qed
  moreover have "c \<le> dcoef d" using sp by simp
  ultimately show ?thesis using sp(1) by (intro exI[of _ "Dec (dneg d) c e"]) auto
qed

lemma dec_to_int_val: "0 \<le> dexp d \<Longrightarrow> of_int (dec_to_int d) = dval d"
  by (simp add: dec_to_int_def dval_def power_int_def)

lemma dexp_to_integral: "0 \<le> dexp (dec_to_integral d)"
  by (simp add: dec_to_integral_def dec_rescale_def)

lemma dec_to_integral_error: "\<bar>dval (dec_to_integral d) - dval d\<bar> \<le> 1 / 2"
proof (cases "0 \<le> dexp d \<or> dcoef d = 0")
  case True
  then show ?thesis by (auto simp: dec_to_integral_def dec_rescale_def dval_def)
next
  case False
  then show ?thesis
    using round_half_even_val[of "dexp d" 0 "dneg d" "dcoef d"]
    by (simp add: dec_to_integral_def dec_rescale_def)
qed

text \<open>Rounding to an integer changes nothing exactly when the value is an integer.\<close>

lemma dec_to_integral_eq_iff:
  "dval (dec_to_integral d) = dval d \<longleftrightarrow> dval d \<in> \<int>"
proof
  assume "dval (dec_to_integral d) = dval d"
  then show "dval d \<in> \<int>"
    using dec_to_int_val[OF dexp_to_integral, of d] by (metis Ints_of_int)
next
  assume "dval d \<in> \<int>"
  then obtain m where m: "dval d = of_int m" by (auto elim: Ints_cases)
  define n where "n = dec_to_int (dec_to_integral d)"
  have n: "dval (dec_to_integral d) = of_int n"
    unfolding n_def by (rule dec_to_int_val[OF dexp_to_integral, symmetric])
  have "\<bar>(of_int (n - m) :: rat)\<bar> < 1"
    using dec_to_integral_error[of d] by (simp add: m n)
  then have "\<bar>n - m\<bar> < 1" by (metis of_int_abs of_int_less_1_iff)
  then show "dval (dec_to_integral d) = dval d" by (simp add: m n)
qed

section \<open>Reading what was printed\<close>

lemma digit_not_mark: "is_digit c \<Longrightarrow> c \<noteq> CHR ''.'' \<and> c \<noteq> CHR ''-''"
  by (auto simp: is_digit_def)

lemma read_format:
  assumes "dexp d \<le> 0"
  shows "read_decimal (dec_format_f d) = Some d"
proof -
  define k where "k = nat (- dexp d)"
  define p where "p = replicate (Suc k - length (show_nat (dcoef d))) (CHR ''0'') @ show_nat (dcoef d)"
  define sign where "sign = (if dneg d then ''-'' else [])"
  have dig: "\<forall>c \<in> set p. is_digit c" using show_nat_digits by (auto simp: p_def is_digit_def digit_char_def)
  have val: "read_nat p = dcoef d" by (simp add: p_def read_nat_append)
  have len: "k < length p" by (simp add: p_def)
  show ?thesis
  proof (cases "dexp d = 0")
    case True
    have "dec_format_f d = sign @ show_nat (dcoef d)"
      by (simp add: dec_format_f_def True sign_def)
    moreover have t: "takeWhile is_digit (show_nat n) = show_nat n" "dropWhile is_digit (show_nat n) = []" for n
      using show_nat_digits[of n] by (simp_all add: takeWhile_eq_all_conv dropWhile_eq_Nil_conv)
    moreover have "hd (show_nat n) \<noteq> CHR ''-''" for n
      using show_nat_digits[of n] digit_not_mark by (meson hd_in_set show_nat_not_Nil)
    ultimately show ?thesis using True
      by (cases "dneg d"; cases d) (simp_all add: read_decimal_def sign_def Let_def del: takeWhile_eq_all_conv dropWhile_eq_Nil_conv)
  next
    case False
    define ip fp where "ip = take (length p - k) p" and "fp = drop (length p - k) p"
    have f: "dec_format_f d = sign @ ip @ CHR ''.'' # fp"
      using False assms by (simp add: dec_format_f_def sign_def ip_def fp_def p_def k_def Let_def)
    have parts: "\<forall>c \<in> set ip. is_digit c" "\<forall>c \<in> set fp. is_digit c" "ip @ fp = p" "length fp = k" "ip \<noteq> []"
      using dig len by (auto simp: ip_def fp_def dest: in_set_takeD in_set_dropD)
    have dot: "\<not> is_digit (CHR ''.'')" by (simp add: is_digit_def)
    have t: "takeWhile is_digit (ip @ CHR ''.'' # fp) = ip" "dropWhile is_digit (ip @ CHR ''.'' # fp) = CHR ''.'' # fp"
      using parts(1) dot by (simp_all add: takeWhile_append dropWhile_append)
    have h: "hd (ip @ CHR ''.'' # fp) \<noteq> CHR ''-''" using parts(1,5) digit_not_mark by (cases ip) auto
    have e: "- int k = dexp d" using assms by (simp add: k_def)
    have all: "list_all is_digit fp" using parts(2) by (simp add: list_all_iff)
    have "read_decimal (dec_format_f d) = Some (Dec (dneg d) (read_nat (ip @ fp)) (- int (length fp)))"
      using t all h parts(5) unfolding f sign_def read_decimal_def Let_def by (cases "dneg d") simp_all
    then show ?thesis by (simp only: parts val e dec.collapse)
  qed
qed

end
