(* ===== verification/Hashing.thy ===== *)
theory Hashing
  imports Jcs Py_Decimal
begin

text \<open>
  src/quantara/hashing.py: exact 18-digit decimal rendering, row validation and the framing of
  everything that is hashed. SHA-256 itself is the parameter \<open>H\<close> (bytes to hex digest); the
  theorems are about the byte strings handed to it. The Rust kernel is optional at run time and
  a parameter of the dispatchers. Lemmas: rendering depends on the numeric value only, is
  injective and fails exactly on values that need a 19th fractional digit; UTF-8 is a prefix
  code; a content preimage determines its domain, fingerprint and rows.
\<close>

type_synonym bytes = "nat list"

section \<open>UTF-8\<close>

definition utf8_char :: "nat \<Rightarrow> bytes" where
  "utf8_char c =
     (if c < 0x80 then [c]
      else if c < 0x800 then [0xC0 + c div 64, 0x80 + c mod 64]
      else if c < 0x10000 then [0xE0 + c div 4096, 0x80 + c div 64 mod 64, 0x80 + c mod 64]
      else [0xF0 + c div 262144, 0x80 + c div 4096 mod 64, 0x80 + c div 64 mod 64, 0x80 + c mod 64])"

definition utf8_encode :: "ustr \<Rightarrow> bytes res" where
  "utf8_encode s =
     (if \<exists>c \<in> set s. is_surrogate c then Inl PyUnicodeError else Inr (concat (map utf8_char s)))"

definition ascii_encode :: "ustr \<Rightarrow> bytes res" where
  "ascii_encode s = (if \<exists>c \<in> set s. 128 \<le> c then Inl PyUnicodeError else Inr s)"

text \<open>\<open>str.lower\<close> as far as ASCII encoding can tell: outside the ranges below (and the Kelvin
  sign, which lowers to k) a non-ASCII code point stays non-ASCII.\<close>

definition lower_cp :: "nat \<Rightarrow> nat" where
  "lower_cp c = (if (65 \<le> c \<and> c \<le> 90) \<or> (192 \<le> c \<and> c \<le> 222 \<and> c \<noteq> 215) then c + 32
     else if c = 8490 then 107 else c)"

section \<open>Constants\<close>

definition CONTENT_HASH_DOMAIN :: string where
  "CONTENT_HASH_DOMAIN = ''quantara-canonical-content-v1''"
definition SCHEMA_VERSION :: string where
  "SCHEMA_VERSION = ''binance_usdm_kline_1m_v1''"
definition RANGE_SCHEMA_FINGERPRINT_DOMAIN :: string where
  "RANGE_SCHEMA_FINGERPRINT_DOMAIN = ''quantara-range-schema-fingerprint-v1''"
definition RESEARCH_CONTENT_HASH_DOMAIN :: string where
  "RESEARCH_CONTENT_HASH_DOMAIN = ''quantara-research-content-v1''"
definition RESEARCH_SCHEMA_VERSION :: string where
  "RESEARCH_SCHEMA_VERSION = ''quantara_research_featureset_v1''"
definition VALIDATION_CONTENT_HASH_DOMAIN :: string where
  "VALIDATION_CONTENT_HASH_DOMAIN = ''quantara-validation-content-v1''"
definition EVALUATION_CONTENT_HASH_DOMAIN :: string where
  "EVALUATION_CONTENT_HASH_DOMAIN = ''quantara-evaluation-content-v1''"
definition DECIMAL_TYPE :: string where
  "DECIMAL_TYPE = ''decimal128_38_18''"

definition CANONICAL_COLUMNS :: "(string \<times> string) list" where
  "CANONICAL_COLUMNS =
    [(''provider'', ''utf8''), (''market_type'', ''utf8''), (''instrument_id'', ''utf8''),
     (''provider_symbol'', ''utf8''), (''base_asset'', ''utf8''), (''quote_asset'', ''utf8''),
     (''settlement_asset'', ''utf8''), (''contract_type'', ''utf8''), (''interval'', ''utf8''),
     (''schema_version'', ''utf8''),
     (''open_time_utc'', ''timestamp_ms_utc''), (''close_time_utc'', ''timestamp_ms_utc''),
     (''nominal_available_time_utc'', ''timestamp_ms_utc''),
     (''open'', DECIMAL_TYPE), (''high'', DECIMAL_TYPE), (''low'', DECIMAL_TYPE),
     (''close'', DECIMAL_TYPE), (''base_asset_volume'', DECIMAL_TYPE),
     (''quote_asset_volume'', DECIMAL_TYPE), (''trade_count'', ''int64_nonnegative''),
     (''taker_buy_base_volume'', DECIMAL_TYPE), (''taker_buy_quote_volume'', DECIMAL_TYPE),
     (''source_ignore'', ''utf8'')]"

text \<open>Name, type, role, nullable.\<close>

definition RESEARCH_COLUMNS :: "(string \<times> string \<times> string \<times> bool) list" where
  "RESEARCH_COLUMNS =
    [(''open_time_ms'', ''int64'', ''index'', False),
     (''f_ret_1'', DECIMAL_TYPE, ''feature'', True),
     (''f_roc_60'', DECIMAL_TYPE, ''feature'', True),
     (''f_rvol_20'', DECIMAL_TYPE, ''feature'', True),
     (''f_volratio_20'', DECIMAL_TYPE, ''feature'', True),
     (''l_fwdret_24'', DECIMAL_TYPE, ''label'', True),
     (''l_fwddir_24'', ''int8'', ''label'', True)]"

section \<open>Kernel selection\<close>

definition kernel_mode :: "string option \<Rightarrow> string" where
  "kernel_mode env =
     (let mode = (case env of None \<Rightarrow> ''auto'' | Some m \<Rightarrow> m)
      in if mode \<in> {''auto'', ''python'', ''rust''} then mode else ''auto'')"

definition active_hash_kernel :: "string option \<Rightarrow> bool \<Rightarrow> string" where
  "active_hash_kernel env available =
     (if kernel_mode env = ''python'' then ''python''
      else if kernel_mode env = ''rust'' \<or> available then ''rust'' else ''python'')"

definition use_rust_kernel :: "string option \<Rightarrow> bool \<Rightarrow> bool res" where
  "use_rust_kernel env available =
     (if kernel_mode env = ''python'' then Inr False
      else if kernel_mode env = ''rust'' \<and> \<not> available then Inl PyRuntimeError
      else Inr available)"

section \<open>Decimal rendering\<close>

text \<open>The private context of the renderer: wide enough for every coefficient.\<close>

definition render_ctx :: "dec \<Rightarrow> dctx" where
  "render_ctx d = \<lparr>cprec = max (ndigits (dcoef d)) 60 + 4,
     cEmin = - 999999999999999999, cEmax = 999999999999999999\<rparr>"

definition rjust19 :: "string \<Rightarrow> string" where
  "rjust19 s = replicate (19 - length s) (CHR ''0'') @ s"

definition q18_layout :: "bool \<Rightarrow> string \<Rightarrow> string" where
  "q18_layout neg s =
     (let digits = rjust19 s; n = length digits - 18
      in (if neg then ''-'' else []) @ take n digits @ ''.'' @ drop n digits)"

definition render_decimal_18_python :: "dec \<Rightarrow> string res" where
  "render_decimal_18_python d =
     (let ctx = render_ctx d in
      bindE (dec_normalize ctx d) (\<lambda>trimmed.
      bindE (dec_scaleb ctx trimmed 18) (\<lambda>scaled.
      let integral = dec_to_integral scaled in
      if \<not> dec_eq scaled integral then Inl HashPayloadError
      else let magnitude = dec_to_int integral in
           bindE (py_str_int \<bar>magnitude\<bar>) (\<lambda>s. Inr (q18_layout (magnitude < 0) s)))))"

text \<open>The dispatcher; \<open>rust_kernel\<close> is the Rust function, whose own error becomes the Python one.\<close>

definition render_decimal_18 ::
    "string option \<Rightarrow> bool \<Rightarrow> (dec \<Rightarrow> unit + string) \<Rightarrow> dec \<Rightarrow> string res" where
  "render_decimal_18 env available rust_kernel d =
     bindE (use_rust_kernel env available) (\<lambda>rust.
     if rust then (case rust_kernel d of Inl _ \<Rightarrow> Inl HashPayloadError | Inr s \<Rightarrow> Inr s)
     else render_decimal_18_python d)"

section \<open>Row validation\<close>

definition canonical_row_array :: "pyval list \<Rightarrow> pyval res" where
  "canonical_row_array values =
     (if length values \<noteq> length CANONICAL_COLUMNS then Inl HashPayloadError
      else if \<exists>v \<in> set values. (case v of PyStr _ \<Rightarrow> False | PyInt _ \<Rightarrow> False | PyBool _ \<Rightarrow> False | _ \<Rightarrow> True)
      then Inl HashPayloadError
      else Inr (PyList values))"

text \<open>Decimal digits of the Unicode 14 database of Python 3.11, by the code points of their zeros.\<close>

definition unicode_zeros :: "nat list" where
  "unicode_zeros =
    [48, 1632, 1776, 1984, 2406, 2534, 2662, 2790, 2918, 3046, 3174, 3302, 3430, 3558, 3664, 3792,
     3872, 4160, 4240, 6112, 6160, 6470, 6608, 6784, 6800, 6992, 7088, 7232, 7248, 42528, 43216,
     43264, 43472, 43504, 43600, 44016, 65296, 66720, 68912, 69734, 69872, 69942, 70096, 70384,
     70736, 70864, 71248, 71360, 71472, 71904, 72016, 72784, 73040, 73120, 92768, 92864, 93008,
     120782, 120792, 120802, 120812, 120822, 123200, 123632, 125264, 130032]"

definition is_unicode_digit :: "nat \<Rightarrow> bool" where
  "is_unicode_digit c \<longleftrightarrow> (\<exists>z \<in> set unicode_zeros. z \<le> c \<and> c \<le> z + 9)"

text \<open>\<open>-?\\d+\.\\d{18}\<close> matched against the whole string.\<close>

definition matches_q18 :: "ustr \<Rightarrow> bool" where
  "matches_q18 s =
     (let body = (case s of c # r \<Rightarrow> if c = 45 then r else s | [] \<Rightarrow> s); n = length body - 19
      in 20 \<le> length body \<and> list_all is_unicode_digit (take n body) \<and> body ! n = 46
         \<and> list_all is_unicode_digit (drop (n + 1) body))"

definition research_value_ok :: "string \<times> string \<times> string \<times> bool \<Rightarrow> pyval \<Rightarrow> bool" where
  "research_value_ok col v = (case col of (name, ctype, role, nullable) \<Rightarrow>
     (case v of
        PyFloat _ \<Rightarrow> False
      | PyNone \<Rightarrow> nullable
      | PyStr s \<Rightarrow> ctype = DECIMAL_TYPE \<and> matches_q18 s
      | PyInt _ \<Rightarrow> ctype \<noteq> DECIMAL_TYPE
      | _ \<Rightarrow> False))"

definition research_row_array :: "pyval list \<Rightarrow> pyval res" where
  "research_row_array values =
     (if length values \<noteq> length RESEARCH_COLUMNS then Inl HashPayloadError
      else if \<forall>cv \<in> set (zip RESEARCH_COLUMNS values). research_value_ok (fst cv) (snd cv)
      then Inr (PyList values) else Inl HashPayloadError)"

section \<open>Preimages and digests\<close>

definition frame_head :: "string \<Rightarrow> ustr \<Rightarrow> bytes res" where
  "frame_head domain fingerprint =
     bindE (ascii_encode (cps domain)) (\<lambda>d.
     bindE (ascii_encode (map lower_cp fingerprint)) (\<lambda>f. Inr (d @ [0] @ f @ [10])))"

definition frame_row :: "('r \<Rightarrow> pyval res) \<Rightarrow> 'r \<Rightarrow> bytes res" where
  "frame_row row_array row =
     bindE (row_array row) (\<lambda>v. bindE (canonicalize v) (\<lambda>s. bindE (utf8_encode s) (\<lambda>b. Inr (b @ [10]))))"

definition canonical_content_preimage :: "ustr \<Rightarrow> pyval list list \<Rightarrow> bytes res" where
  "canonical_content_preimage fingerprint rows =
     bindE (frame_head CONTENT_HASH_DOMAIN fingerprint) (\<lambda>h.
     bindE (mapE (frame_row canonical_row_array) rows) (\<lambda>rs. Inr (h @ concat rs)))"

definition canonical_content_hash_python :: "(bytes \<Rightarrow> string) \<Rightarrow> ustr \<Rightarrow> pyval list list \<Rightarrow> string res" where
  "canonical_content_hash_python H fingerprint rows =
     bindE (canonical_content_preimage fingerprint rows) (\<lambda>p. Inr (H p))"

definition canonical_content_hash ::
    "(bytes \<Rightarrow> string) \<Rightarrow> string option \<Rightarrow> bool \<Rightarrow> (ustr \<Rightarrow> pyval list list \<Rightarrow> unit + string)
       \<Rightarrow> ustr \<Rightarrow> pyval list list \<Rightarrow> string res" where
  "canonical_content_hash H env available rust_kernel fingerprint rows =
     bindE (use_rust_kernel env available) (\<lambda>rust.
     if \<not> rust then canonical_content_hash_python H fingerprint rows
     else (case rust_kernel fingerprint rows of Inl _ \<Rightarrow> Inl HashPayloadError | Inr s \<Rightarrow> Inr s))"

definition research_content_preimage :: "ustr \<Rightarrow> pyval list list \<Rightarrow> bytes res" where
  "research_content_preimage fingerprint rows =
     bindE (frame_head RESEARCH_CONTENT_HASH_DOMAIN fingerprint) (\<lambda>h.
     bindE (mapE (frame_row research_row_array) rows) (\<lambda>rs. Inr (h @ concat rs)))"

definition research_content_hash_python :: "(bytes \<Rightarrow> string) \<Rightarrow> ustr \<Rightarrow> pyval list list \<Rightarrow> string res" where
  "research_content_hash_python H fingerprint rows =
     bindE (research_content_preimage fingerprint rows) (\<lambda>p. Inr (H p))"

definition research_content_hash ::
    "(bytes \<Rightarrow> string) \<Rightarrow> string option \<Rightarrow> bool \<Rightarrow> (ustr \<Rightarrow> pyval list list \<Rightarrow> unit + string)
       \<Rightarrow> ustr \<Rightarrow> pyval list list \<Rightarrow> string res" where
  "research_content_hash H env available rust_kernel fingerprint rows =
     bindE (use_rust_kernel env available) (\<lambda>rust.
     if \<not> rust then research_content_hash_python H fingerprint rows
     else (case rust_kernel fingerprint rows of Inl _ \<Rightarrow> Inl HashPayloadError | Inr s \<Rightarrow> Inr s))"

definition jcs_utf8 :: "pyval \<Rightarrow> bytes res" where
  "jcs_utf8 v = bindE (canonicalize v) utf8_encode"

definition descriptor_hash :: "(bytes \<Rightarrow> string) \<Rightarrow> ustr \<Rightarrow> string res" where
  "descriptor_hash H semantics = bindE (utf8_encode semantics) (\<lambda>b. Inr (H b))"

definition schema_payload :: "ustr \<Rightarrow> pyval" where
  "schema_payload version = PyDict
     [(cps ''schema_version'', PyStr version),
      (cps ''columns'', PyList (map (\<lambda>(i, name, ctype). PyDict
          [(cps ''index'', PyInt (int i)), (cps ''name'', py_str name), (cps ''type'', py_str ctype),
           (cps ''nullable'', PyBool False)]) (enumerate 0 CANONICAL_COLUMNS)))]"

definition schema_fingerprint :: "(bytes \<Rightarrow> string) \<Rightarrow> ustr \<Rightarrow> ustr list option \<Rightarrow> string res" where
  "schema_fingerprint H version months =
     bindE (jcs_utf8 (schema_payload version)) (\<lambda>encoded.
     case months of
       None \<Rightarrow> Inr (H encoded)
     | Some ms \<Rightarrow>
         bindE (jcs_utf8 (PyDict [(cps ''months'', PyList (map PyStr ms)),
                                  (cps ''schema_fingerprint_payload'', schema_payload version)])) (\<lambda>r.
         Inr (H (cps RANGE_SCHEMA_FINGERPRINT_DOMAIN @ [0] @ r))))"

definition quality_identity :: "(ustr \<times> pyval) list list \<Rightarrow> ustr res" where
  "quality_identity checks =
     canonicalize (PyDict [(cps ''checks'',
       PyList (map (\<lambda>c. PyDict (filter (\<lambda>kv. fst kv \<noteq> cps ''operational_timestamp'') c)) checks))])"

definition research_fingerprint_payload :: "ustr \<Rightarrow> pyval" where
  "research_fingerprint_payload version = PyDict
     [(cps ''schema_version'', PyStr version),
      (cps ''columns'', PyList (map (\<lambda>(i, name, ctype, role, nullable). PyDict
          [(cps ''index'', PyInt (int i)), (cps ''name'', py_str name), (cps ''type'', py_str ctype),
           (cps ''role'', py_str role), (cps ''nullable'', PyBool nullable)])
          (enumerate 0 RESEARCH_COLUMNS)))]"

definition research_schema_fingerprint :: "(bytes \<Rightarrow> string) \<Rightarrow> ustr \<Rightarrow> string res" where
  "research_schema_fingerprint H version =
     bindE (jcs_utf8 (research_fingerprint_payload version)) (\<lambda>b. Inr (H b))"

text \<open>The schema identities of the validation and evaluation lanes. Fingerprints are Latin-1 strings
  here, so \<open>lower\<close> is exact.\<close>

definition validation_schema_payload ::
    "string \<Rightarrow> ustr \<Rightarrow> ustr \<Rightarrow> int \<Rightarrow> int \<Rightarrow> int \<Rightarrow> ustr \<Rightarrow> ustr \<Rightarrow> (ustr \<times> pyval) list" where
  "validation_schema_payload parent schema_id scheme test_size min_train embargo name version =
     [(cps ''domain'', py_str ''quantara-validation-schema-v1''),
      (cps ''schema_id'', PyStr schema_id), (cps ''scheme'', PyStr scheme),
      (cps ''parameters'', PyDict [(cps ''test_size'', PyInt test_size),
          (cps ''min_train_size'', PyInt min_train), (cps ''embargo'', PyInt embargo)]),
      (cps ''fold_set'', PyDict [(cps ''name'', PyStr name), (cps ''version'', PyStr version)]),
      (cps ''parent_research_fingerprint'', PyStr (map lower_cp (cps parent)))]"

definition validation_schema_fingerprint ::
    "(bytes \<Rightarrow> string) \<Rightarrow> string option \<Rightarrow> ustr \<Rightarrow> ustr \<Rightarrow> (int \<times> int \<times> int) option \<Rightarrow> ustr \<Rightarrow> ustr \<Rightarrow> string res" where
  "validation_schema_fingerprint H parent schema_id scheme params name version =
     bindE (case parent of Some p \<Rightarrow> Inr p
            | None \<Rightarrow> research_schema_fingerprint H (cps RESEARCH_SCHEMA_VERSION)) (\<lambda>parent'.
     let (t, m, e) = (case params of Some p \<Rightarrow> p | None \<Rightarrow> (72, 336, 24)) in
     bindE (jcs_utf8 (PyDict (validation_schema_payload parent' schema_id scheme t m e name version))) (\<lambda>b.
     Inr (H b)))"

definition decimal_contract :: pyval where
  "decimal_contract = PyDict
     [(cps ''precision'', PyInt 50), (cps ''rounding'', py_str ''ROUND_HALF_EVEN''),
      (cps ''emin'', PyInt (- 999999)), (cps ''emax'', PyInt 999999), (cps ''capitals'', PyInt 1),
      (cps ''clamp'', PyInt 0),
      (cps ''enabled_traps'', PyList (map py_str [''InvalidOperation'', ''DivisionByZero'', ''Overflow''])),
      (cps ''storage_quantum'', py_str ''0.000000000000000001'')]"

definition is_lower_hex :: "nat \<Rightarrow> bool" where
  "is_lower_hex c \<longleftrightarrow> (48 \<le> c \<and> c \<le> 57) \<or> (97 \<le> c \<and> c \<le> 102)"

definition hex_digest :: "ustr \<Rightarrow> bool" where
  "hex_digest f \<longleftrightarrow> length f = 64 \<and> list_all is_lower_hex f"

definition evaluation_schema_fingerprint ::
    "(bytes \<Rightarrow> string) \<Rightarrow> ustr \<Rightarrow> ustr \<Rightarrow> ustr \<times> ustr \<Rightarrow> ustr list \<Rightarrow> ustr \<Rightarrow> ustr list \<Rightarrow> pyval \<Rightarrow> string res" where
  "evaluation_schema_fingerprint H parent schema_id evaluation_set features target metrics contract =
     (if \<not> hex_digest parent then Inl HashPayloadError
      else bindE (jcs_utf8 (PyDict
        [(cps ''domain'', py_str ''quantara-evaluation-schema-v1''), (cps ''schema_id'', PyStr schema_id),
         (cps ''evaluation_set'', PyDict [(cps ''name'', PyStr (fst evaluation_set)),
                                         (cps ''version'', PyStr (snd evaluation_set))]),
         (cps ''features'', PyList (map PyStr features)), (cps ''target'', PyStr target),
         (cps ''metrics'', PyList (map PyStr metrics)), (cps ''decimal_contract'', contract),
         (cps ''parent_validation_fingerprint'', PyStr parent)])) (\<lambda>b. Inr (H b)))"

text \<open>The artifact of a validation hash is a dict, a string or bytes; anything else is refused.\<close>

datatype artifact = ArtDict "(ustr \<times> pyval) list" | ArtStr ustr | ArtBytes bytes | ArtOther

definition artifact_bytes :: "artifact \<Rightarrow> bytes res" where
  "artifact_bytes a = (case a of
      ArtDict kvs \<Rightarrow> jcs_utf8 (PyDict kvs)
    | ArtStr s \<Rightarrow> utf8_encode s
    | ArtBytes b \<Rightarrow> Inr b
    | ArtOther \<Rightarrow> Inl HashPayloadError)"

definition validation_content_preimage :: "ustr \<Rightarrow> artifact \<Rightarrow> bytes res" where
  "validation_content_preimage fingerprint a =
     bindE (artifact_bytes a) (\<lambda>b.
     bindE (frame_head VALIDATION_CONTENT_HASH_DOMAIN fingerprint) (\<lambda>h. Inr (h @ b @ [10])))"

definition validation_content_hash :: "(bytes \<Rightarrow> string) \<Rightarrow> ustr \<Rightarrow> artifact \<Rightarrow> string res" where
  "validation_content_hash H fingerprint a =
     bindE (validation_content_preimage fingerprint a) (\<lambda>p. Inr (H p))"

definition evaluation_content_preimage :: "ustr \<Rightarrow> artifact \<Rightarrow> bytes res" where
  "evaluation_content_preimage fingerprint a =
     (if \<not> hex_digest fingerprint then Inl HashPayloadError
      else case a of
          ArtBytes b \<Rightarrow> Inr (cps EVALUATION_CONTENT_HASH_DOMAIN @ [0] @ fingerprint @ [10] @ b @ [10])
        | _ \<Rightarrow> Inl HashPayloadError)"

definition evaluation_content_hash :: "(bytes \<Rightarrow> string) \<Rightarrow> ustr \<Rightarrow> artifact \<Rightarrow> string res" where
  "evaluation_content_hash H fingerprint a =
     bindE (evaluation_content_preimage fingerprint a) (\<lambda>p. Inr (H p))"

section \<open>Rendering is a canonical form of the numeric value\<close>

text \<open>Decimals whose digits and exponent stay far from the 64-bit exponent limits of the library.\<close>

definition dec_sane :: "dec \<Rightarrow> bool" where
  "dec_sane d \<longleftrightarrow> \<bar>dexp d\<bar> \<le> 10 ^ 17 \<and> int (ndigits (dcoef d)) \<le> 10 ^ 17"

lemma render_ctx_fits:
  assumes "dec_sane d" "c \<le> dcoef d" "- (10 ^ 17) \<le> e" "e \<le> 2 * 10 ^ 17 + 18"
  shows "dec_fits (render_ctx d) (Dec s c e)"
proof -
  have "ndigits (dcoef d) \<le> cprec (render_ctx d)" by (simp add: render_ctx_def)
  then have "dcoef d < 10 ^ cprec (render_ctx d)"
    by (subst ndigits_le_iff[symmetric]) (simp_all add: render_ctx_def)
  moreover have "int (cprec (render_ctx d)) \<le> 10 ^ 17 + 64"
    using assms(1) by (simp add: render_ctx_def dec_sane_def)
  ultimately show ?thesis
    using assms by (simp add: dec_fits_def Etiny_def Etop_def render_ctx_def)
qed

text \<open>The text of a multiple of \<open>10 ^ -18\<close>.\<close>

definition q18_text :: "int \<Rightarrow> string" where
  "q18_text m = q18_layout (m < 0) (show_nat (nat \<bar>m\<bar>))"

lemma q18_layout_str:
  "bindE (py_str_int \<bar>m\<bar>) (\<lambda>s. Inr (q18_layout (m < 0) s)) = (if int_printable m then Inr (q18_text m) else Inl PyValueError)"
  by (simp add: py_str_int_def q18_text_def show_int_def)

lemma render_decimal_18_unfold:
  assumes "dec_sane d"
  shows "render_decimal_18_python d =
    (if dval d * 10 ^ 18 \<notin> \<int> then Inl HashPayloadError
     else if int_printable \<lfloor>dval d * 10 ^ 18\<rfloor> then Inr (q18_text \<lfloor>dval d * 10 ^ 18\<rfloor>) else Inl PyValueError)"
proof -
  define ctx where "ctx = render_ctx d"
  have sane: "\<bar>dexp d\<bar> \<le> 10 ^ 17" "int (ndigits (dcoef d)) \<le> 10 ^ 17"
    using assms by (simp_all add: dec_sane_def)
  have "dec_fits ctx (Dec (dneg d) (dcoef d) (dexp d))"
    unfolding ctx_def using sane by (intro render_ctx_fits[OF assms]) auto
  then obtain t where t: "dec_normalize ctx d = Inr t" "dval t = dval d" "dcoef t \<le> dcoef d"
    "min 0 (dexp d) \<le> dexp t" "dexp t \<le> max 0 (dexp d + int (ndigits (dcoef d)))"
    using dec_normalize_fits[of ctx d] by auto
  define u where "u = Dec (dneg t) (dcoef t) (dexp t + 18)"
  have "dec_fits ctx u"
    unfolding ctx_def u_def using sane t by (intro render_ctx_fits[OF assms]) auto
  then have u: "dec_scaleb ctx t 18 = Inr u"
    by (simp add: dec_scaleb_def u_def[symmetric] dec_fix_fits) (simp add: ctx_def render_ctx_def)
  have val: "dval u = dval d * 10 ^ 18"
    unfolding t(2)[symmetric] by (simp add: u_def dval_def power_int_add)
  have "dec_eq u (dec_to_integral u) \<longleftrightarrow> dval u \<in> \<int>"
    using dec_to_integral_eq_iff[of u] by (auto simp: dec_eq_iff)
  moreover have "dec_to_int (dec_to_integral u) = \<lfloor>dval u\<rfloor>" if "dval u \<in> \<int>"
    using dec_to_int_val[OF dexp_to_integral, of u] dec_to_integral_eq_iff[of u] that
    by (metis floor_of_int)
  ultimately show ?thesis
    unfolding val[symmetric]
    by (simp add: render_decimal_18_python_def Let_def ctx_def[symmetric] t(1) u q18_layout_str)
qed

lemma rjust19_nat: "\<exists>k. rjust19 (show_nat n) = replicate k (CHR ''0'') @ show_nat n"
  by (auto simp: rjust19_def)

lemma q18_text_inject [simp]: "q18_text m = q18_text n \<longleftrightarrow> m = n"
proof
  assume eq: "q18_text m = q18_text n"
  define D where "D k = rjust19 (show_nat (nat \<bar>k\<bar>))" for k :: int
  define body where "body k = take (length (D k) - 18) (D k) @ ''.'' @ drop (length (D k) - 18) (D k)" for k
  have shape: "q18_text k = (if k < 0 then ''-'' else []) @ body k" for k
    by (simp add: q18_text_def q18_layout_def D_def body_def Let_def)
  have len: "19 \<le> length (D k)" for k
    by (auto simp: D_def rjust19_def)
  have digits: "\<forall>c \<in> set (D k). is_digit c" for k
    using show_nat_digits[of "nat \<bar>k\<bar>"] by (auto simp: D_def rjust19_def is_digit_def)
  have hd: "\<exists>c cs. body k = c # cs \<and> c \<noteq> CHR ''-''" for k
  proof -
    obtain c cs where c: "take (length (D k) - 18) (D k) = c # cs"
      using len[of k] by (cases "take (length (D k) - 18) (D k)") auto
    then have "c \<in> set (D k)" by (metis in_set_takeD list.set_intros(1))
    then have "is_digit c" using digits by blast
    then show ?thesis using c by (auto simp: body_def is_digit_def)
  qed
  obtain a as b bs where ab: "body m = a # as" "a \<noteq> CHR ''-''" "body n = b # bs" "b \<noteq> CHR ''-''"
    using hd by meson
  have same_sign: "(m < 0) = (n < 0)"
    using eq ab unfolding shape by (cases "m < 0"; cases "n < 0") simp_all
  then have "body m = body n" using eq unfolding shape by (cases "n < 0") simp_all
  moreover have "filter (\<lambda>c. c \<noteq> CHR ''.'') (body k) = D k" for k
  proof -
    have nodot: "filter (\<lambda>c. c \<noteq> CHR ''.'') ds = ds" if "set ds \<subseteq> set (D k)" for ds
    proof (rule filter_True)
      have "\<not> is_digit (CHR ''.'')" by (simp add: is_digit_def)
      then show "\<forall>c \<in> set ds. c \<noteq> CHR ''.''" using digits[of k] that by blast
    qed
    show ?thesis
      by (simp add: body_def nodot set_take_subset set_drop_subset)
  qed
  ultimately have "D m = D n" by metis
  then have "read_nat (D m) = read_nat (D n)" by simp
  then have "nat \<bar>m\<bar> = nat \<bar>n\<bar>"
    using rjust19_nat[of "nat \<bar>m\<bar>"] rjust19_nat[of "nat \<bar>n\<bar>"]
    by (auto simp: D_def read_nat_append)
  then show "m = n" using same_sign by auto
qed simp

lemma render_decimal_18_eq_iff:
  assumes "dec_sane d" "dec_sane d'" "render_decimal_18_python d = Inr s"
  shows "render_decimal_18_python d' = Inr s \<longleftrightarrow> dval d' = dval d"
proof
  assume "render_decimal_18_python d' = Inr s"
  then have "dval d * 10 ^ 18 \<in> \<int>" "dval d' * 10 ^ 18 \<in> \<int>" "\<lfloor>dval d * 10 ^ 18\<rfloor> = \<lfloor>dval d' * 10 ^ 18\<rfloor>"
    using assms by (auto simp: render_decimal_18_unfold split: if_splits)
  then have "dval d * 10 ^ 18 = dval d' * 10 ^ 18" by (metis Ints_cases floor_of_int)
  then show "dval d' = dval d" by simp
next
  assume "dval d' = dval d"
  then have "render_decimal_18_python d' = render_decimal_18_python d"
    by (simp only: render_decimal_18_unfold[OF assms(1)] render_decimal_18_unfold[OF assms(2)])
  with assms(3) show "render_decimal_18_python d' = Inr s" by simp
qed

text \<open>A plain positional text with exactly 18 fractional digits: a minus sign exactly for negative
  values, no superfluous leading zero, a point, digits only. \<open>read_decimal\<close> reads such a text.\<close>

definition q18_shape :: "bool \<Rightarrow> string \<Rightarrow> bool" where
  "q18_shape neg t \<longleftrightarrow>
     (let body = (if neg then tl t else t); n = length body - 19; ip = take n body; fp = drop (Suc n) body
      in (neg \<longrightarrow> take 1 t = ''-'') \<and> 20 \<le> length body \<and> body ! n = CHR ''.'' \<and> length fp = 18
         \<and> list_all is_digit (ip @ fp) \<and> (n = 1 \<or> hd ip \<noteq> CHR ''0''))"

definition q18_reads_as :: "string \<Rightarrow> rat \<Rightarrow> bool" where
  "q18_reads_as t x \<longleftrightarrow> q18_shape (x < 0) t
     \<and> (case read_decimal t of Some q \<Rightarrow> dexp q = - 18 \<and> dval q = x | None \<Rightarrow> False)"

lemma rjust19_hd: "length (rjust19 (show_nat m)) = 19 \<or> hd (rjust19 (show_nat m)) \<noteq> CHR ''0''"
proof (cases "length (show_nat m) \<le> 19")
  case True
  then show ?thesis by (simp add: rjust19_def)
next
  case False
  then have "0 < m" by (cases "m = 0") (simp_all add: show_nat.simps)
  with False show ?thesis using show_nat_hd[of m] by (simp add: rjust19_def)
qed

lemma q18_shape_parts:
  assumes "list_all is_digit ip" "list_all is_digit fp" "length fp = 18" "ip \<noteq> []"
    and "length ip = 1 \<or> hd ip \<noteq> CHR ''0''"
  shows "q18_shape neg ((if neg then ''-'' else []) @ ip @ CHR ''.'' # fp)"
proof -
  have "Suc 0 \<le> length ip" using assms(4) by (simp add: Suc_le_eq)
  then show ?thesis using assms by (cases neg) (simp_all add: q18_shape_def Let_def nth_append)
qed

lemma q18_text_shape: "q18_shape (m < 0) (q18_text m)"
proof -
  define D where "D = rjust19 (show_nat (nat \<bar>m\<bar>))"
  have len: "19 \<le> length D" by (simp add: D_def rjust19_def)
  have dig: "list_all is_digit D"
    using show_nat_digits[of "nat \<bar>m\<bar>"] by (auto simp: D_def rjust19_def is_digit_def list_all_iff)
  define ip fp where "ip = take (length D - 18) D" and "fp = drop (length D - 18) D"
  have t: "q18_text m = (if m < 0 then ''-'' else []) @ ip @ CHR ''.'' # fp"
    by (simp add: q18_text_def q18_layout_def D_def[symmetric] ip_def fp_def Let_def)
  have lens: "length fp = 18" "length ip = length D - 18" "ip @ fp = D"
    using len by (simp_all add: ip_def fp_def)
  have ne: "ip \<noteq> []" using len lens(2) by auto
  then have "hd ip = hd D" using lens(3) by (metis hd_append2)
  then have "length ip = 1 \<or> hd ip \<noteq> CHR ''0''"
    using rjust19_hd[of "nat \<bar>m\<bar>"] lens(2) unfolding D_def[symmetric] by auto
  moreover have "list_all is_digit ip" "list_all is_digit fp"
    using dig unfolding lens(3)[symmetric] by simp_all
  ultimately show ?thesis unfolding t using lens(1) ne by (intro q18_shape_parts)
qed

lemma read_q18_text: "read_decimal (q18_text m) = Some (Dec (m < 0) (nat \<bar>m\<bar>) (- 18))"
proof -
  have "dec_format_f (Dec (m < 0) (nat \<bar>m\<bar>) (- 18)) = q18_text m"
    by (simp add: dec_format_f_def q18_text_def q18_layout_def rjust19_def Let_def)
  then show ?thesis using read_format[of "Dec (m < 0) (nat \<bar>m\<bar>) (- 18)"] by simp
qed

lemma q18_text_reads_as:
  assumes "x * 10 ^ 18 = of_int m"
  shows "q18_reads_as (q18_text m) x"
proof -
  have x: "x = of_int m * 10 powi (- 18)" using assms by (simp add: power_int_minus field_simps)
  then have "x < 0 \<longleftrightarrow> m < 0" using powi_pos[of "- 18"] unfolding x mult_less_0_iff by auto
  moreover have "dval (Dec (m < 0) (nat \<bar>m\<bar>) (- 18)) = x" by (simp add: x dval_def)
  ultimately show ?thesis using q18_text_shape[of m] by (simp add: q18_reads_as_def read_q18_text)
qed

lemma ndigits_power_gt: "0 < n \<Longrightarrow> n \<le> k \<Longrightarrow> \<not> ndigits (10 ^ k) \<le> n"
  by (simp add: ndigits_le_iff)

lemma not_printable_power: "4300 \<le> k \<Longrightarrow> \<not> int_printable (10 ^ k)"
proof -
  assume "4300 \<le> k"
  moreover have "nat \<bar>10 ^ k\<bar> = 10 ^ k" by (simp add: nat_power_eq)
  ultimately show ?thesis
    unfolding int_printable_def by (simp only: ndigits_power_gt zero_less_numeral simp_thms)
qed

section \<open>UTF-8 is a prefix code\<close>

fun decode_utf8 :: "bytes \<Rightarrow> (nat \<times> bytes) option" where
  "decode_utf8 [] = None"
| "decode_utf8 (a # rest) =
     (if a < 0x80 then Some (a, rest)
      else if a < 0xE0 then
        (case rest of b # r \<Rightarrow> Some ((a - 0xC0) * 64 + (b - 0x80), r) | _ \<Rightarrow> None)
      else if a < 0xF0 then
        (case rest of b # c # r \<Rightarrow> Some (((a - 0xE0) * 64 + (b - 0x80)) * 64 + (c - 0x80), r) | _ \<Rightarrow> None)
      else
        (case rest of b # c # d # r \<Rightarrow>
            Some ((((a - 0xF0) * 64 + (b - 0x80)) * 64 + (c - 0x80)) * 64 + (d - 0x80), r) | _ \<Rightarrow> None))"

lemma decode_utf8_char:
  assumes "c < 0x110000"
  shows "decode_utf8 (utf8_char c @ x) = Some (c, x)"
proof -
  have d1: "c div 4096 = c div 64 div 64" and d2: "c div 262144 = c div 64 div 64 div 64"
    by (simp_all flip: div_mult2_eq)
  have e1: "c div 64 * 64 + c mod 64 = c"
    and e2: "c div 64 div 64 * 64 + c div 64 mod 64 = c div 64"
    and e3: "c div 64 div 64 div 64 * 64 + c div 64 div 64 mod 64 = c div 64 div 64"
    by (rule div_mult_mod_eq)+
  consider "c < 0x80" | "0x80 \<le> c" "c < 0x800" | "0x800 \<le> c" "c < 0x10000" | "0x10000 \<le> c"
    by linarith
  then show ?thesis
  proof cases
    case 2
    then have "c div 64 < 32" by (simp add: less_mult_imp_div_less)
    with 2 e1 show ?thesis by (simp add: utf8_char_def)
  next
    case 3
    then have "c div 64 div 64 < 16" by (simp add: less_mult_imp_div_less flip: div_mult2_eq)
    with 3 e1 e2 show ?thesis by (simp add: utf8_char_def d1)
  next
    case 4
    then show ?thesis using e3 by (simp add: utf8_char_def d1 d2) (use e1 e2 in linarith)
  qed (simp add: utf8_char_def)
qed

interpretation utf8: prefix_code utf8_char "\<lambda>c. c < 0x110000" "\<lambda>_. False"
proof
  fix c d x y assume "c < 0x110000" "d < 0x110000" "utf8_char c @ x = utf8_char d @ y"
  then show "c = d \<and> x = y" by (metis decode_utf8_char option.inject prod.inject)
next
  fix c show "\<exists>e es. utf8_char c = e # es \<and> \<not> False"
    by (simp add: utf8_char_def)
qed

section \<open>A preimage determines what was hashed\<close>

definition points_ok :: "pyval list list \<Rightarrow> bool" where
  "points_ok rows \<longleftrightarrow> (\<forall>row \<in> set rows. \<forall>c \<in> str_points (PyList row). c < 0x110000)"

text \<open>The text of the rows, before UTF-8.\<close>

definition rows_text :: "pyval list list \<Rightarrow> ustr" where
  "rows_text rows = concat (map (\<lambda>v. jcs_text v @ [10]) (map PyList rows))"

lemma frame_row_text:
  assumes "frame_row row_array row = Inr b" "row_array row = Inr (PyList row)" "list_all is_scalar_py row"
  shows "jcs_ok (PyList row) \<and> b = concat (map utf8_char (jcs_text (PyList row) @ [10]))"
proof -
  obtain s where "canonicalize (PyList row) = Inr s" and u: "utf8_encode s = Inr (concat (map utf8_char s))"
    "b = concat (map utf8_char s) @ [10]"
    using assms(1,2) by (auto simp: frame_row_def res_simps utf8_encode_def split: if_splits)
  then have "jcs_ok (PyList row)" "s = jcs_text (PyList row)"
    using assms(3) by (simp_all add: canonicalize_iff jcs_norm_row del: jcs_norm.simps)
  with u show ?thesis by (simp add: utf8_char_def)
qed

lemma frame_rows_text:
  assumes "mapE (frame_row row_array) rows = Inr bs"
    and "\<And>row r. row \<in> set rows \<Longrightarrow> row_array row = Inr r \<Longrightarrow> r = PyList row \<and> list_all is_scalar_py row"
  shows "(\<forall>row \<in> set rows. jcs_ok (PyList row)) \<and> concat bs = concat (map utf8_char (rows_text rows))"
  using assms
proof (induction rows arbitrary: bs)
  case Nil
  then show ?case by (simp add: rows_text_def)
next
  case (Cons row rows)
  then obtain b bs' where b: "frame_row row_array row = Inr b" "mapE (frame_row row_array) rows = Inr bs'"
    "bs = b # bs'" by (auto simp: res_simps)
  from b(1) obtain r where "row_array row = Inr r" by (auto simp: frame_row_def res_simps)
  then have "row_array row = Inr (PyList row)" "list_all is_scalar_py row"
    using Cons.prems(2)[of row r] by auto
  from frame_row_text[OF b(1) this] Cons.IH[OF b(2)] Cons.prems(2) b(3) show ?case
    by (simp add: rows_text_def)
qed

lemma rows_text_unique:
  assumes "\<forall>row \<in> set rows. jcs_ok (PyList row)" "\<forall>row \<in> set rows'. jcs_ok (PyList row)"
    and "points_ok rows" "points_ok rows'"
    and "concat (map utf8_char (rows_text rows)) = concat (map utf8_char (rows_text rows'))"
  shows "rows = rows'"
proof -
  have pts: "\<forall>c \<in> set (rows_text rs). c < 0x110000" if "points_ok rs" for rs
  proof
    fix c assume "c \<in> set (rows_text rs)"
    then have "c = 10 \<or> (\<exists>row \<in> set rs. c \<in> set (jcs_text (PyList row)))"
      by (auto simp: rows_text_def simp del: jcs_text.simps split: if_splits)
    then show "c < 0x110000"
    proof (elim disjE bexE)
      fix row assume row: "row \<in> set rs" "c \<in> set (jcs_text (PyList row))"
      then have "c \<in> printable \<or> c \<in> str_points (PyList row)"
        using jcs_text_points[of "PyList row"] by blast
      then show ?thesis
        using that row(1) unfolding points_ok_def printable_def by auto
    qed simp
  qed
  have "rows_text rows = rows_text rows'"
    using pts assms(3,4) by (intro utf8.concat_unique[OF _ _ assms(5)]) auto
  then have "map PyList rows = map PyList rows'"
    using assms(1,2) by (intro jcs.frames_unique[where a = 10]) (auto simp: rows_text_def is_stop_def)
  then show ?thesis by (simp add: inj_map_eq_map inj_def)
qed

lemma frame_head_unique:
  assumes "frame_head d1 fp = Inr h" "frame_head d2 fp' = Inr h'" "h @ x = h' @ y"
    and "0 \<notin> set (cps d1)" "0 \<notin> set (cps d2)" "10 \<notin> set fp" "10 \<notin> set fp'"
  shows "d1 = d2 \<and> map lower_cp fp = map lower_cp fp' \<and> x = y"
proof -
  have h: "h = cps d1 @ 0 # map lower_cp fp @ [10]" "h' = cps d2 @ 0 # map lower_cp fp' @ [10]"
    using assms(1,2) by (auto simp: frame_head_def ascii_encode_def res_simps split: if_splits)
  have eq: "cps d1 @ 0 # (map lower_cp fp @ 10 # x) = cps d2 @ 0 # (map lower_cp fp' @ 10 # y)"
    using assms(3) by (simp add: h)
  from split_at_marker[OF this assms(4,5)] have dd: "d1 = d2" "map lower_cp fp @ 10 # x = map lower_cp fp' @ 10 # y"
    by auto
  have "10 \<notin> set (map lower_cp fp)" "10 \<notin> set (map lower_cp fp')"
    using assms(6,7) by (auto simp: lower_cp_def split: if_splits)
  from split_at_marker[OF dd(2) this] dd(1) show ?thesis by simp
qed

lemma canonical_row_array_Inr:
  "canonical_row_array row = Inr r \<Longrightarrow> r = PyList row \<and> list_all is_scalar_py row"
  by (auto simp: canonical_row_array_def list_all_iff split: if_splits pyval.splits)
    (metis is_scalar_py.elims(3))+

lemma research_row_array_Inr:
  assumes "research_row_array row = Inr r"
  shows "r = PyList row \<and> list_all is_scalar_py row"
proof -
  have len: "length row = length RESEARCH_COLUMNS"
    and ok: "\<forall>cv \<in> set (zip RESEARCH_COLUMNS row). research_value_ok (fst cv) (snd cv)" and r: "r = PyList row"
    using assms by (auto simp: research_row_array_def split: if_splits)
  have "is_scalar_py v" if "v \<in> set row" for v
  proof -
    from that obtain i where i: "i < length row" "v = row ! i" unfolding in_set_conv_nth by blast
    define c where "c = RESEARCH_COLUMNS ! i"
    have "zip RESEARCH_COLUMNS row ! i = (c, v)" "i < length (zip RESEARCH_COLUMNS row)"
      using i len by (simp_all add: c_def)
    then have "(c, v) \<in> set (zip RESEARCH_COLUMNS row)" by (metis nth_mem)
    then have "research_value_ok c v" using ok by fastforce
    then show ?thesis by (cases v) (auto simp: research_value_ok_def split: prod.splits)
  qed
  with r show ?thesis by (simp add: list_all_iff)
qed

lemma frame_head_domain: "frame_head d fp = Inr h \<Longrightarrow> \<exists>x. h = cps d @ 0 # x"
  by (auto simp: frame_head_def ascii_encode_def res_simps split: if_splits)

lemmas preimage_domain_defs = canonical_content_preimage_def research_content_preimage_def
  validation_content_preimage_def evaluation_content_preimage_def

section \<open>Properties\<close>

text \<open>C2: the renderer decides every decimal of sane size exactly as its value demands. A value that
  is no multiple of 1E-18 is refused, never rounded. A multiple is printed: the text has an optional
  sign, digits without a superfluous leading zero, a point and exactly 18 fractional digits, and
  reading it back gives precisely the value. The only multiples that are not printed are those of
  more than 4300 digits, where Python's \<open>str\<close> raises.\<close>

theorem render_decimal_18_never_rounds:
  assumes "dec_sane d"
  shows "case render_decimal_18_python d of
      Inl e \<Rightarrow> (if dval d * 10 ^ 18 \<notin> \<int> then e = HashPayloadError
         else e = PyValueError \<and> \<not> int_printable \<lfloor>dval d * 10 ^ 18\<rfloor>)
    | Inr t \<Rightarrow> q18_reads_as t (dval d)"
proof (cases "dval d * 10 ^ 18 \<in> \<int>")
  case True
  then obtain m where m: "dval d * 10 ^ 18 = of_int m" by (rule Ints_cases)
  show ?thesis
    using q18_text_reads_as[OF m] unfolding render_decimal_18_unfold[OF assms] m floor_of_int by simp
next
  case False
  then show ?thesis by (simp add: render_decimal_18_unfold[OF assms])
qed

theorem render_decimal_18_never_rounds_witness:
  "q18_reads_as ''-1.250000000000000000'' (- 5 / 4)
   \<and> render_decimal_18_python (Dec False 1 (- 19)) \<noteq> Inr ''0.000000000000000000''"
proof -
  have s: "dec_sane (Dec True 125 (- 2))" "dec_sane (Dec False 1 (- 19))"
    by (simp_all add: dec_sane_def ndigits.simps)
  have v: "dval (Dec True 125 (- 2)) * 10 ^ 18 = of_int (- 1250000000000000000)"
    "dval (Dec True 125 (- 2)) = - 5 / 4" "dval (Dec False 1 (- 19)) \<noteq> 0"
    by (simp_all add: dval_def power_int_def power_one_over)
  have "q18_text (- 1250000000000000000) = ''-1.250000000000000000''"
    by code_simp
  then have r: "render_decimal_18_python (Dec True 125 (- 2)) = Inr ''-1.250000000000000000''"
    unfolding render_decimal_18_unfold[OF s(1)] v(1) floor_of_int by simp
  have z: "\<not> q18_reads_as ''0.000000000000000000'' x" if "x \<noteq> 0" for x
  proof -
    have "read_decimal ''0.000000000000000000'' = Some (Dec False 0 (- 18))" by code_simp
    with that show ?thesis by (simp add: q18_reads_as_def dval_def)
  qed
  show ?thesis
    using render_decimal_18_never_rounds[OF s(1)] render_decimal_18_never_rounds[OF s(2)] r v z by auto
qed

text \<open>\<open>Decimal("1E5000")\<close> is a multiple of 1E-18, yet the renderer raises \<open>ValueError\<close>.\<close>

theorem render_decimal_18_huge: "render_decimal_18_python (Dec False 1 5000) = Inl PyValueError"
proof -
  define k :: nat where "k = 5000"
  have s: "dec_sane (Dec False 1 (int k))"
    by (simp add: dec_sane_def k_def ndigits.simps)
  have v: "dval (Dec False 1 (int k)) * 10 ^ 18 = of_int (10 ^ (k + 18))"
    by (simp add: dval_def power_add)
  have "\<not> int_printable (10 ^ (k + 18))" by (rule not_printable_power) (simp add: k_def)
  then have "render_decimal_18_python (Dec False 1 (int k)) = Inl PyValueError"
    unfolding render_decimal_18_unfold[OF s] v floor_of_int by simp
  then show ?thesis by (simp add: k_def)
qed

text \<open>The rendered text is a canonical form of the numeric value: two decimals get the same
  text exactly when they denote the same number, whatever their digits and exponents.\<close>

theorem render_decimal_18_canonical:
  assumes "dec_sane d" "dec_sane d'" "render_decimal_18_python d = Inr s"
  shows "render_decimal_18_python d' = Inr s \<longleftrightarrow> dval d' = dval d"
  by (rule render_decimal_18_eq_iff[OF assms])

theorem render_decimal_18_canonical_witness:
  "render_decimal_18_python (Dec False 1500 (- 3)) = render_decimal_18_python (Dec False 15 (- 1))
   \<and> render_decimal_18_python (Dec False 1501 (- 3)) \<noteq> render_decimal_18_python (Dec False 15 (- 1))"
proof -
  have s: "dec_sane (Dec False 15 (- 1))" "dec_sane (Dec False 1500 (- 3))" "dec_sane (Dec False 1501 (- 3))"
    by (simp_all add: dec_sane_def ndigits.simps)
  have v: "dval (Dec False 15 (- 1)) * 10 ^ 18 = of_int 1500000000000000000"
    "dval (Dec False 1500 (- 3)) = dval (Dec False 15 (- 1))" "dval (Dec False 1501 (- 3)) \<noteq> dval (Dec False 15 (- 1))"
    by (simp_all add: dval_def power_int_def power_one_over)
  have "render_decimal_18_python (Dec False 15 (- 1)) = Inr (q18_text 1500000000000000000)"
    unfolding render_decimal_18_unfold[OF s(1)] v floor_of_int by simp
  from render_decimal_18_canonical[OF s(1,2) this] render_decimal_18_canonical[OF s(1,3) this] v this
  show ?thesis by simp
qed

text \<open>C3: what the canonical content hash digests determines what was hashed: equal preimages have
  the same fingerprint (up to letter case) and the same rows, value for value.\<close>

theorem canonical_preimage_injective:
  assumes "canonical_content_preimage fp rows = Inr p" "canonical_content_preimage fp' rows' = Inr p"
    and "10 \<notin> set fp" "10 \<notin> set fp'" "points_ok rows" "points_ok rows'"
  shows "map lower_cp fp = map lower_cp fp' \<and> rows = rows'"
proof -
  obtain h bs where 1: "frame_head CONTENT_HASH_DOMAIN fp = Inr h"
    "mapE (frame_row canonical_row_array) rows = Inr bs" "p = h @ concat bs"
    using assms(1) by (auto simp: canonical_content_preimage_def res_simps)
  obtain h' bs' where 2: "frame_head CONTENT_HASH_DOMAIN fp' = Inr h'"
    "mapE (frame_row canonical_row_array) rows' = Inr bs'" "p = h' @ concat bs'"
    using assms(2) by (auto simp: canonical_content_preimage_def res_simps)
  have "0 \<notin> set (cps CONTENT_HASH_DOMAIN)" by code_simp
  moreover have "h @ concat bs = h' @ concat bs'" using 1(3) 2(3) by simp
  ultimately have fp: "map lower_cp fp = map lower_cp fp'" "concat bs = concat bs'"
    using frame_head_unique[OF 1(1) 2(1) _ _ _ assms(3,4)] by blast+
  have t1: "(\<forall>row \<in> set rows. jcs_ok (PyList row)) \<and> concat bs = concat (map utf8_char (rows_text rows))"
    by (rule frame_rows_text[OF 1(2)]) (rule canonical_row_array_Inr)
  have t2: "(\<forall>row \<in> set rows'. jcs_ok (PyList row)) \<and> concat bs' = concat (map utf8_char (rows_text rows'))"
    by (rule frame_rows_text[OF 2(2)]) (rule canonical_row_array_Inr)
  have "concat (map utf8_char (rows_text rows)) = concat (map utf8_char (rows_text rows'))"
    using t1 t2 fp(2) by metis
  then have "rows = rows'"
    using rows_text_unique[OF conjunct1[OF t1] conjunct1[OF t2] assms(5,6)] by blast
  with fp(1) show ?thesis by blast
qed

definition sample_row :: "pyval list" where
  "sample_row = replicate 10 (py_str ''x'') @ map PyInt [0, 59999, 60000]
     @ replicate 6 (py_str ''1.000000000000000000'') @ [PyInt 3]
     @ replicate 2 (py_str ''0.500000000000000000'') @ [py_str ''0'']"

lemma sample_row_preimage: "\<exists>p. canonical_content_preimage (cps ''ab'') [sample_row] = Inr p"
proof -
  have row: "canonical_row_array sample_row = Inr (PyList sample_row)"
    by (simp add: canonical_row_array_def sample_row_def CANONICAL_COLUMNS_def)
  have pts: "\<forall>c \<in> str_points (PyList sample_row). c < 128"
    by (auto simp: sample_row_def cps_def)
  have "c < 128" if "c \<in> set (jcs_text (jcs_norm (PyList sample_row)))" for c
  proof -
    have "jcs_norm (PyList sample_row) = PyList sample_row"
      using canonical_row_array_Inr[OF row] by (simp only: jcs_norm_row)
    then have "c \<in> printable \<or> c \<in> str_points (PyList sample_row)"
      using that jcs_text_points by fastforce
    then show ?thesis using pts unfolding printable_def by auto
  qed
  then have "\<not> (\<exists>c \<in> set (jcs_text (jcs_norm (PyList sample_row))). is_surrogate c)"
    unfolding is_surrogate_def by fastforce
  then have "\<exists>b. utf8_encode (jcs_text (jcs_norm (PyList sample_row))) = Inr b"
    by (simp only: utf8_encode_def if_False) simp
  moreover have "jcs_ok (PyList sample_row)" by (simp add: sample_row_def)
  then have "canonicalize (PyList sample_row) = Inr (jcs_text (jcs_norm (PyList sample_row)))"
    by (simp only: canonicalize_iff simp_thms)
  ultimately have "\<exists>b. frame_row canonical_row_array sample_row = Inr b"
    by (auto simp: frame_row_def row)
  moreover have "\<exists>h. frame_head CONTENT_HASH_DOMAIN (cps ''ab'') = Inr h"
    by (simp add: frame_head_def ascii_encode_def CONTENT_HASH_DOMAIN_def cps_def lower_cp_def)
  ultimately show ?thesis by (auto simp: canonical_content_preimage_def)
qed

theorem canonical_preimage_injective_witness:
  "\<exists>p. canonical_content_preimage (cps ''ab'') [sample_row] = Inr p
     \<and> canonical_content_preimage (cps ''ab'') [sample_row, sample_row] \<noteq> Inr p"
proof -
  obtain p where p: "canonical_content_preimage (cps ''ab'') [sample_row] = Inr p"
    using sample_row_preimage by blast
  have "10 \<notin> set (cps ''ab'')" by code_simp
  moreover have "points_ok [sample_row]" "points_ok [sample_row, sample_row]"
    by (auto simp: points_ok_def sample_row_def cps_def)
  ultimately show ?thesis
    using canonical_preimage_injective[OF p, of "cps ''ab''" "[sample_row, sample_row]"] p by auto
qed

text \<open>The validation schema identity binds every parameter of the split: two payloads with the
  same canonical text have the same scheme, test size, minimum training size, embargo, fold-set name
  and version, and the same parent fingerprint up to letter case.\<close>

theorem validation_schema_binds_parameters:
  assumes "canonicalize (PyDict (validation_schema_payload p sid sch t m e n v)) = Inr s"
    and "canonicalize (PyDict (validation_schema_payload p' sid' sch' t' m' e' n' v')) = Inr s"
  shows "(sid, sch, t, m, e, n, v, map lower_cp (cps p)) = (sid', sch', t', m', e', n', v', map lower_cp (cps p'))"
proof -
  let ?P = "validation_schema_payload p sid sch t m e n v" and ?Q = "validation_schema_payload p' sid' sch' t' m' e' n' v'"
  let ?par = "\<lambda>a b c. [(cps ''test_size'', PyInt a), (cps ''min_train_size'', PyInt b), (cps ''embargo'', PyInt c)]"
  let ?set = "\<lambda>a b. [(cps ''name'', PyStr a), (cps ''version'', PyStr b)]"
  have d: "distinct (map fst ?P)" "distinct (map fst ?Q)" by (simp_all add: validation_schema_payload_def)
  note look = canonicalize_lookup[OF assms d]
  have "sid = sid'" "sch = sch'" "map lower_cp (cps p) = map lower_cp (cps p')"
    using look[of "cps ''schema_id''"] look[of "cps ''scheme''"] look[of "cps ''parent_research_fingerprint''"]
    by (simp_all add: validation_schema_payload_def)
  moreover have "jcs_norm (PyDict (?par t m e)) = jcs_norm (PyDict (?par t' m' e'))"
    "jcs_norm (PyDict (?set n v)) = jcs_norm (PyDict (?set n' v'))"
    using look[of "cps ''parameters''"] look[of "cps ''fold_set''"]
    by (simp_all add: validation_schema_payload_def del: jcs_norm.simps)
  note par = jcs_norm_lookup[OF this(1)] and fs = jcs_norm_lookup[OF this(2)]
  have "t = t'" "m = m'" "e = e'"
    using par[of "cps ''test_size''"] par[of "cps ''min_train_size''"] par[of "cps ''embargo''"] by simp_all
  moreover have "n = n'" "v = v'" using fs[of "cps ''name''"] fs[of "cps ''version''"] by simp_all
  ultimately show ?thesis by simp
qed

theorem validation_schema_binds_parameters_witness:
  "\<exists>s. canonicalize (PyDict (validation_schema_payload ''Ab'' [97] [98] 72 336 24 [99] [49])) = Inr s
     \<and> canonicalize (PyDict (validation_schema_payload ''ab'' [97] [98] 72 336 24 [99] [49])) = Inr s
     \<and> canonicalize (PyDict (validation_schema_payload ''ab'' [97] [98] 72 336 23 [99] [49])) \<noteq> Inr s"
proof -
  have "case canonicalize (PyDict (validation_schema_payload ''Ab'' [97] [98] 72 336 24 [99] [49])) of Inl _ \<Rightarrow> False
    | Inr s \<Rightarrow> canonicalize (PyDict (validation_schema_payload ''ab'' [97] [98] 72 336 24 [99] [49])) = Inr s" by code_simp
  then obtain s where s: "canonicalize (PyDict (validation_schema_payload ''Ab'' [97] [98] 72 336 24 [99] [49])) = Inr s"
    "canonicalize (PyDict (validation_schema_payload ''ab'' [97] [98] 72 336 24 [99] [49])) = Inr s"
    by (auto split: sum.splits)
  with validation_schema_binds_parameters[OF s(1), of "''ab''" "[97]" "[98]" 72 336 23 "[99]" "[49]"] show ?thesis by auto
qed

text \<open>The four content domains cannot be confused: the preimages of canonical rows, research
  rows, a validation artifact and an evaluation artifact are four different byte strings, whatever
  their fingerprints and payloads.\<close>

theorem content_domains_separated:
  assumes "canonical_content_preimage fp1 rows = Inr p" "research_content_preimage fp2 rows' = Inr q"
    and "validation_content_preimage fp3 a = Inr r" "evaluation_content_preimage fp4 b = Inr t"
  shows "distinct [p, q, r, t]"
proof -
  let ?ds = "[CONTENT_HASH_DOMAIN, RESEARCH_CONTENT_HASH_DOMAIN, VALIDATION_CONTENT_HASH_DOMAIN,
              EVALUATION_CONTENT_HASH_DOMAIN]"
  have z: "\<forall>d \<in> set ?ds. 0 \<notin> set (cps d)" and d: "distinct ?ds" by code_simp+
  obtain x1 x2 x3 x4 where x: "p = cps CONTENT_HASH_DOMAIN @ 0 # x1" "q = cps RESEARCH_CONTENT_HASH_DOMAIN @ 0 # x2"
    "r = cps VALIDATION_CONTENT_HASH_DOMAIN @ 0 # x3" "t = cps EVALUATION_CONTENT_HASH_DOMAIN @ 0 # x4"
    using assms by (auto simp: preimage_domain_defs res_simps dest!: frame_head_domain
        split: if_splits artifact.splits)
  have "cps e @ 0 # y \<noteq> cps f @ 0 # y'" if "e \<in> set ?ds" "f \<in> set ?ds" "e \<noteq> f" for e f y y'
    using split_at_marker[of "cps e" 0 y "cps f" y'] z that by fastforce
  with d show ?thesis unfolding x by simp
qed

theorem content_domains_separated_witness:
  "\<exists>p q r t. canonical_content_preimage (cps ''ab'') [] = Inr p \<and> research_content_preimage (cps ''ab'') [] = Inr q
     \<and> validation_content_preimage (cps ''ab'') (ArtBytes [1]) = Inr r
     \<and> evaluation_content_preimage (replicate 64 97) (ArtBytes [1]) = Inr t \<and> distinct [p, q, r, t]"
proof -
  have "\<exists>p. canonical_content_preimage (cps ''ab'') [] = Inr p" "\<exists>q. research_content_preimage (cps ''ab'') [] = Inr q"
    "\<exists>r. validation_content_preimage (cps ''ab'') (ArtBytes [1]) = Inr r"
    "\<exists>t. evaluation_content_preimage (replicate 64 97) (ArtBytes [1]) = Inr t"
    by (simp_all add: preimage_domain_defs frame_head_def ascii_encode_def cps_def lower_cp_def artifact_bytes_def
        hex_digest_def list_all_iff is_lower_hex_def CONTENT_HASH_DOMAIN_def RESEARCH_CONTENT_HASH_DOMAIN_def VALIDATION_CONTENT_HASH_DOMAIN_def)
  then show ?thesis using content_domains_separated by blast
qed

end
