(* ===== verification/Split_Mix.thy ===== *)
theory Split_Mix
  imports Calendar "HOL-Library.Word"
begin

unbundle bit_operations_syntax

text \<open>
  The SplitMix64 stream of the bootstrap (class \<open>SplitMix64\<close> in src/quantara/bootstrap_b4.py). The
  64-bit state is a word, so the masks of the code are its wrap-around. \<open>below\<close> rejects draws
  until one falls under the largest multiple of the bound; that this loop ends is proved from the
  stream itself: the state runs through the multiples of an odd constant, hence reaches the
  state whose output is zero.
\<close>

definition GOLDEN_GAMMA :: "64 word" where "GOLDEN_GAMMA = 0x9E3779B97F4A7C15"
definition MIX_MULTIPLIER_1 :: "64 word" where "MIX_MULTIPLIER_1 = 0xBF58476D1CE4E5B9"
definition MIX_MULTIPLIER_2 :: "64 word" where "MIX_MULTIPLIER_2 = 0x94D049BB133111EB"

definition seed_state :: "int \<Rightarrow> 64 word" where "seed_state seed = word_of_int seed"

definition mix :: "64 word \<Rightarrow> 64 word" where
  "mix z =
     (let a = (z XOR drop_bit 30 z) * MIX_MULTIPLIER_1;
          b = (a XOR drop_bit 27 a) * MIX_MULTIPLIER_2
      in b XOR drop_bit 31 b)"

definition next_u64 :: "64 word \<Rightarrow> 64 word \<times> 64 word" where
  "next_u64 s = (mix (s + GOLDEN_GAMMA), s + GOLDEN_GAMMA)"

lemma mix_zero [simp]: "mix 0 = 0"
  by (simp add: mix_def)

text \<open>The number of further draws after the next one until the state is zero.\<close>

definition steps_to_zero :: "64 word \<Rightarrow> nat" where
  "steps_to_zero s = unat ((s + GOLDEN_GAMMA) * 1018231460777725123)"

lemma golden_inverse: "GOLDEN_GAMMA * 1018231460777725123 = - 1"
  by (simp add: GOLDEN_GAMMA_def)

lemma steps_decrease:
  assumes "s + GOLDEN_GAMMA \<noteq> 0"
  shows "steps_to_zero (s + GOLDEN_GAMMA) < steps_to_zero s"
proof -
  define m where "m = (s + GOLDEN_GAMMA) * 1018231460777725123"
  have "m \<noteq> 0"
  proof
    assume "m = 0"
    then have "m * GOLDEN_GAMMA = 0" by simp
    moreover have "m * GOLDEN_GAMMA = (s + GOLDEN_GAMMA) * (GOLDEN_GAMMA * 1018231460777725123)"
      by (simp only: m_def mult_ac)
    ultimately have "(s + GOLDEN_GAMMA) * - 1 = 0" unfolding golden_inverse by simp
    then show False using assms by (metis mult_minus_right mult_1_right neg_equal_0_iff_equal)
  qed
  then have "0 < unat m" "unat (m - 1) = unat m - 1" by (simp_all add: unat_gt_0 unat_minus_one)
  moreover have "(s + GOLDEN_GAMMA + GOLDEN_GAMMA) * 1018231460777725123 = m + GOLDEN_GAMMA * 1018231460777725123"
    unfolding m_def by (rule distrib_right)
  ultimately show ?thesis
    unfolding steps_to_zero_def golden_inverse m_def[symmetric] by simp
qed

function draw_below :: "64 word \<Rightarrow> int \<Rightarrow> (int \<times> 64 word) res" where
  "draw_below s bound =
     (if bound \<le> 0 \<or> 2 ^ 64 < bound then Inl PyValueError
      else case next_u64 s of (v, s') \<Rightarrow>
        if uint v < 2 ^ 64 - 2 ^ 64 mod bound then Inr (uint v mod bound, s')
        else draw_below s' bound)"
  by pat_completeness auto
termination
proof (relation "measure (\<lambda>(s, bound). steps_to_zero s)")
  fix s :: "64 word" and bound :: int and v s'
  assume b: "\<not> (bound \<le> 0 \<or> 2 ^ 64 < bound)" and x: "(v, s') = next_u64 s"
    and big: "\<not> uint v < 2 ^ 64 - 2 ^ 64 mod bound"
  have s': "s' = s + GOLDEN_GAMMA" "v = mix s'" using x by (simp_all add: next_u64_def)
  have "(2 :: int) ^ 64 mod bound < bound" using b by (intro pos_mod_bound) simp
  then have "(2 :: int) ^ 64 mod bound < 2 ^ 64" using b by linarith
  then have "s' \<noteq> 0" using big s'(2) by auto
  then have "steps_to_zero s' < steps_to_zero s" using steps_decrease[of s] s'(1) by simp
  then show "((s', bound), (s, bound)) \<in> measure (\<lambda>(s, bound). steps_to_zero s)" by simp
qed simp

declare draw_below.simps [simp del]

text \<open>A draw lies below the bound and is a later state's output, reduced.\<close>

lemma draw_below_Inr:
  "draw_below s bound = Inr (r, s') \<Longrightarrow> 0 < bound \<and> bound \<le> 2 ^ 64 \<and> 0 \<le> r \<and> r < bound
     \<and> r = uint (mix s') mod bound \<and> uint (mix s') < 2 ^ 64 - 2 ^ 64 mod bound"
proof (induction s bound rule: draw_below.induct)
  case (1 s bound)
  show ?case
  proof (cases "bound \<le> 0 \<or> 2 ^ 64 < bound")
    case True
    then show ?thesis using "1.prems" by (simp add: draw_below.simps[of s])
  next
    case False
    let ?v = "mix (s + GOLDEN_GAMMA)"
    show ?thesis
    proof (cases "uint ?v < 2 ^ 64 - 2 ^ 64 mod bound")
      case True
      then show ?thesis using "1.prems" False by (auto simp: draw_below.simps[of s] next_u64_def)
    next
      case big: False
      have "draw_below (s + GOLDEN_GAMMA) bound = Inr (r, s')"
        using "1.prems" False big by (simp add: draw_below.simps[of s] next_u64_def)
      then show ?thesis using "1.IH"[OF False _ big] by (simp add: next_u64_def)
    qed
  qed
qed

lemma draw_below_total: "0 < bound \<Longrightarrow> bound \<le> 2 ^ 64 \<Longrightarrow> \<exists>r s'. draw_below s bound = Inr (r, s')"
proof (induction s bound rule: draw_below.induct)
  case (1 s bound)
  let ?v = "mix (s + GOLDEN_GAMMA)"
  have b: "\<not> (bound \<le> 0 \<or> 2 ^ 64 < bound)" using "1.prems" by simp
  show ?case
  proof (cases "uint ?v < 2 ^ 64 - 2 ^ 64 mod bound")
    case True
    then show ?thesis using b by (simp add: draw_below.simps[of s] next_u64_def)
  next
    case False
    then show ?thesis using b "1.IH"[OF b _ False] "1.prems" by (simp add: draw_below.simps[of s] next_u64_def)
  qed
qed

text \<open>Every residue is hit by the same number of accepted 64-bit values.\<close>

lemma residue_count:
  fixes bound :: int
  assumes "0 < bound" "0 \<le> r" "r < bound" "0 \<le> n"
  shows "card {v. 0 \<le> v \<and> v < n * bound \<and> v mod bound = r} = nat n"
proof -
  have "bij_betw (\<lambda>q. q * bound + r) {0..<n} {v. 0 \<le> v \<and> v < n * bound \<and> v mod bound = r}"
  proof (rule bij_betw_byWitness[where f' = "\<lambda>v. v div bound"])
    show "\<forall>q \<in> {0..<n}. (q * bound + r) div bound = q" using assms by simp
    show "\<forall>v \<in> {v. 0 \<le> v \<and> v < n * bound \<and> v mod bound = r}. v div bound * bound + r = v"
      using div_mult_mod_eq by auto
    show "(\<lambda>q. q * bound + r) ` {0..<n} \<subseteq> {v. 0 \<le> v \<and> v < n * bound \<and> v mod bound = r}"
    proof (clarsimp, intro conjI)
      fix q assume q: "0 \<le> q" "q < n"
      show "0 \<le> q * bound + r" using q assms by simp
      have "(q + 1) * bound \<le> n * bound" using q assms by (intro mult_right_mono) auto
      then show "q * bound + r < n * bound" using assms(3) by (simp add: algebra_simps)
      show "r mod bound = r" using assms by simp
    qed
    show "(\<lambda>v. v div bound) ` {v. 0 \<le> v \<and> v < n * bound \<and> v mod bound = r} \<subseteq> {0..<n}"
    proof (clarsimp, intro conjI)
      fix v assume v: "0 \<le> v" "v < n * bound"
      show "0 \<le> v div bound" using v assms(1) by (simp add: pos_imp_zdiv_nonneg_iff)
      have "v div bound * bound \<le> v" using assms(1) div_mult_mod_eq[of v bound] pos_mod_sign[of bound v] by linarith
      then have "v div bound * bound < n * bound" using v(2) by linarith
      then show "v div bound < n" using assms(1) by simp
    qed
  qed
  then have "card {0..<n} = card {v. 0 \<le> v \<and> v < n * bound \<and> v mod bound = r}" by (rule bij_betw_same_card)
  then show ?thesis by simp
qed

lemma draw_unbiased:
  assumes "0 < bound" "bound \<le> 2 ^ 64" "0 \<le> r" "r < bound"
  shows "card {v :: 64 word. uint v < 2 ^ 64 - 2 ^ 64 mod bound \<and> uint v mod bound = r} = nat (2 ^ 64 div bound)"
proof -
  let ?L = "2 ^ 64 div bound * bound"
  have L: "2 ^ 64 - 2 ^ 64 mod bound = ?L" by (simp add: minus_mod_eq_div_mult)
  have "0 \<le> 2 ^ 64 mod bound" using assms(1) by simp
  then have top: "?L \<le> 2 ^ 64" using L by simp
  have "bij_betw (word_of_int :: int \<Rightarrow> 64 word) {v. 0 \<le> v \<and> v < ?L \<and> v mod bound = r}
      {v :: 64 word. uint v < ?L \<and> uint v mod bound = r}"
  proof (rule bij_betw_byWitness[where f' = uint])
    have u: "uint (word_of_int v :: 64 word) = v" if "0 \<le> v" "v < ?L" for v
      using that top by (simp add: uint_word_of_int)
    then show "\<forall>v \<in> {v. 0 \<le> v \<and> v < ?L \<and> v mod bound = r}. uint (word_of_int v :: 64 word) = v" by auto
    show "(word_of_int :: int \<Rightarrow> 64 word) ` {v. 0 \<le> v \<and> v < ?L \<and> v mod bound = r} \<subseteq> {v. uint v < ?L \<and> uint v mod bound = r}"
      using u by auto
  qed auto
  then have "card {v. 0 \<le> v \<and> v < ?L \<and> v mod bound = r} = card {v :: 64 word. uint v < ?L \<and> uint v mod bound = r}"
    by (rule bij_betw_same_card)
  then show ?thesis
    unfolding L using residue_count[OF assms(1,3,4), of "2 ^ 64 div bound"] assms(1) by (simp add: pos_imp_zdiv_nonneg_iff)
qed

section \<open>Properties\<close>

text \<open>C20: a bounded draw returns for every seed and every bound from 1 to \<open>2^64\<close> (the rejection
  loop ends), its result lies below the bound, and it is unbiased: of the 64-bit outputs the loop
  accepts, exactly \<open>2^64 div bound\<close> give each result. Other bounds are refused.\<close>

theorem bounded_draw_sound:
  "if 0 < bound \<and> bound \<le> 2 ^ 64
   then (\<exists>r s'. draw_below s bound = Inr (r, s') \<and> 0 \<le> r \<and> r < bound
          \<and> r = uint (mix s') mod bound \<and> uint (mix s') < 2 ^ 64 - 2 ^ 64 mod bound)
     \<and> (\<forall>r \<in> {0..<bound}. card {v :: 64 word. uint v < 2 ^ 64 - 2 ^ 64 mod bound \<and> uint v mod bound = r}
          = nat (2 ^ 64 div bound))
   else draw_below s bound = Inl PyValueError"
proof (cases "0 < bound \<and> bound \<le> 2 ^ 64")
  case True
  then obtain r s' where "draw_below s bound = Inr (r, s')" using draw_below_total by blast
  then show ?thesis using True draw_below_Inr draw_unbiased[of bound] by fastforce
next
  case False
  then show ?thesis by (subst draw_below.simps) auto
qed

theorem bounded_draw_sound_witness:
  "(\<exists>r s'. draw_below 0 6 = Inr (r, s') \<and> 0 \<le> r \<and> r < 6)
     \<and> card {v :: 64 word. uint v < 2 ^ 64 - 2 ^ 64 mod 6 \<and> uint v mod 6 = 5} = 3074457345618258602"
  using bounded_draw_sound[of 6 0] by auto

end
