(* ===== verification/Bootstrap_B4.thy ===== *)
theory Bootstrap_B4
  imports Split_Mix Hashing
begin

text \<open>
  The paired moving-block bootstrap (src/quantara/bootstrap_b4.py). The statistic path is exact:
  integers in units of \<open>10^-18\<close> and rationals for Python's \<open>Fraction\<close>. Grids are dictionaries
  from years to hourly positions, as lists of pairs with distinct keys. \<open>sha\<close> gives the digest bytes
  of SHA-256; \<open>ambient\<close> is the caller's decimal context, which scales decimal inputs.
\<close>

section \<open>Grid geometry\<close>

definition validate_geometry :: "int \<Rightarrow> int \<Rightarrow> unit res" where
  "validate_geometry hours block =
     (if hours \<le> 0 then Inl PyValueError else if block \<le> 0 \<or> hours < block then Inl PyValueError else Inr ())"

definition validate_start :: "int \<Rightarrow> int \<Rightarrow> int \<Rightarrow> unit res" where
  "validate_start start hours block =
     (if start < 0 \<or> hours - block < start then Inl PyValueError else Inr ())"

definition derive_stream_seed :: "(bytes \<Rightarrow> bytes) \<Rightarrow> ustr \<Rightarrow> int \<Rightarrow> int res" where
  "derive_stream_seed sha comparison_id year =
     (if comparison_id = [] \<or> is_err (ascii_encode comparison_id) then Inl PyValueError
      else
        let payload = cps ''quantara-protocol-v1_1|bootstrap-b4|'' @ comparison_id @ cps ''|'' @ cps (show_int year)
        in Inr (foldl (\<lambda>acc b. 256 * acc + int b) 0 (take 8 (sha payload))))"

text \<open>The hours of a calendar year; \<open>datetime\<close> has the years 1 to 9999 only.\<close>

definition nominal_hours :: "int \<Rightarrow> int res" where
  "nominal_hours year =
     (if 1 \<le> year \<and> year \<le> 9998
      then Inr (24 * (days_before_year (nat year + 1) - days_before_year (nat year))) else Inl PyValueError)"

fun draw_starts :: "nat \<Rightarrow> int \<Rightarrow> 64 word \<Rightarrow> (int list \<times> 64 word) res" where
  "draw_starts 0 eligible s = Inr ([], s)"
| "draw_starts (Suc k) eligible s =
     bindE (draw_below s eligible) (\<lambda>(r, s').
     bindE (draw_starts k eligible s') (\<lambda>(rs, s''). Inr (r # rs, s'')))"

definition sample_block_starts :: "64 word \<Rightarrow> int \<Rightarrow> int \<Rightarrow> (int list \<times> 64 word) res" where
  "sample_block_starts s hours block =
     bindE (validate_geometry hours block) (\<lambda>_.
     draw_starts (nat ((hours + block - 1) div block)) (hours - block + 1) s)"

fun materialize_loop :: "int \<Rightarrow> int \<Rightarrow> int list \<Rightarrow> int \<Rightarrow> int list res" where
  "materialize_loop hours block [] remaining = (if remaining \<noteq> 0 then Inl PyValueError else Inr [])"
| "materialize_loop hours block (start # starts) remaining =
     bindE (validate_start start hours block) (\<lambda>_.
       let consumed = min block remaining; here = [start..start + consumed - 1]
       in if remaining - consumed = 0 then Inr here
          else bindE (materialize_loop hours block starts (remaining - consumed)) (\<lambda>rest. Inr (here @ rest)))"

definition materialize_resampled_indices :: "int list \<Rightarrow> int \<Rightarrow> int \<Rightarrow> int list res" where
  "materialize_resampled_indices starts hours block =
     bindE (validate_geometry hours block) (\<lambda>_. materialize_loop hours block starts hours)"

section \<open>Aggregation over prefix sums\<close>

datatype loss = LossInt int | LossDec dec | LossNone

definition STORAGE_SCALE :: int where "STORAGE_SCALE = 10 ^ 18"

definition scaled_integer :: "dctx \<Rightarrow> loss \<Rightarrow> int option res" where
  "scaled_integer ambient v =
     (case v of
        LossNone \<Rightarrow> Inr None
      | LossInt i \<Rightarrow> Inr (Some i)
      | LossDec d \<Rightarrow>
          bindE (dec_mul ambient d (dec_of_int STORAGE_SCALE)) (\<lambda>scaled.
          let integral = dec_to_integral scaled
          in if \<not> dec_eq scaled integral then Inl PyValueError else Inr (Some (dec_to_int integral))))"

fun prefixes_from :: "int \<Rightarrow> int \<Rightarrow> int option list \<Rightarrow> int list \<times> int list" where
  "prefixes_from rv rn [] = ([rv], [rn])"
| "prefixes_from rv rn (v # vs) =
     (case (case v of None \<Rightarrow> prefixes_from rv rn vs | Some x \<Rightarrow> prefixes_from (rv + x) (rn + 1) vs) of
        (a, b) \<Rightarrow> (rv # a, rn # b))"

definition prefixes :: "int option list \<Rightarrow> int list \<times> int list" where
  "prefixes vs = prefixes_from 0 0 vs"

definition bump :: "int \<Rightarrow> int \<Rightarrow> int list \<Rightarrow> int list" where
  "bump start end' delta =
     (let d = delta[nat start := delta ! nat start + 1] in d[nat end' := d ! nat end' - 1])"

fun aggregate_loop ::
    "int list \<Rightarrow> int list \<Rightarrow> int \<Rightarrow> int \<Rightarrow> int list \<Rightarrow> int \<Rightarrow> int \<Rightarrow> int \<Rightarrow> int list option
       \<Rightarrow> (int \<times> int \<times> int list option) res" where
  "aggregate_loop vp np hours block [] remaining num den delta =
     (if remaining \<noteq> 0 then Inl PyValueError else Inr (num, den, delta))"
| "aggregate_loop vp np hours block (start # starts) remaining num den delta =
     bindE (validate_start start hours block) (\<lambda>_.
       let consumed = min block remaining; end' = start + consumed;
           num' = num + (vp ! nat end' - vp ! nat start);
           den' = den + (np ! nat end' - np ! nat start);
           delta' = map_option (bump start end') delta
       in if remaining - consumed = 0 then Inr (num', den', delta')
          else aggregate_loop vp np hours block starts (remaining - consumed) num' den' delta')"

definition aggregate_prefixes ::
    "int list \<Rightarrow> int list \<Rightarrow> int list \<Rightarrow> int \<Rightarrow> int \<Rightarrow> int list option \<Rightarrow> (int \<times> int \<times> int list option) res" where
  "aggregate_prefixes vp np starts hours block delta =
     bindE (validate_geometry hours block) (\<lambda>_. aggregate_loop vp np hours block starts hours 0 0 delta)"

definition aggregate_from_starts :: "dctx \<Rightarrow> loss list \<Rightarrow> int list \<Rightarrow> int \<Rightarrow> (int \<times> int) res" where
  "aggregate_from_starts ambient values' starts block =
     bindE (mapE (scaled_integer ambient) values') (\<lambda>vs.
     bindE (aggregate_prefixes (fst (prefixes vs)) (snd (prefixes vs)) starts (int (length vs)) block None) (\<lambda>(num, den, _).
     Inr (num, den)))"

section \<open>Pooled means\<close>

type_synonym grid = "int \<times> loss list"

definition pooled_observed_mean :: "dctx \<Rightarrow> grid list \<Rightarrow> rat res" where
  "pooled_observed_mean ambient grids =
     bindE (mapE (scaled_integer ambient) (concat (map snd grids))) (\<lambda>vs.
       let valid = List.map_filter (\<lambda>v. v) vs
       in if valid = [] then Inl PyValueError
          else Inr (of_int (sum_list valid) / of_nat (length valid)))"

definition pooled_resample_from_starts ::
    "dctx \<Rightarrow> grid list \<Rightarrow> (int \<times> int list) list \<Rightarrow> int \<Rightarrow> int \<Rightarrow> rat res" where
  "pooled_resample_from_starts ambient grids starts_by_year block replicate_index =
     bindE (foldE (\<lambda>(num, den) (year, vals).
         case map_of starts_by_year year of
           None \<Rightarrow> Inl PyValueError
         | Some starts \<Rightarrow>
             bindE (aggregate_from_starts ambient vals starts block) (\<lambda>(n, d).
             if d = 0 then Inl (BootstrapInference ''empty_resampled_required_year'' year (Some replicate_index))
             else Inr (num + n, den + d)))
       (0, 0) (sort_key fst grids)) (\<lambda>(num, den).
     if den = 0 then Inl PyRuntimeError else Inr (of_int num / of_int den))"

definition nearest_rank_interval :: "rat list \<Rightarrow> (rat \<times> rat) res" where
  "nearest_rank_interval means =
     (if means = [] then Inl PyValueError
      else
        let ordered = sort means; count = length ordered;
            lower_rank = (count + 40 - 1) div 40; upper_rank = (39 * count + 40 - 1) div 40
        in Inr (ordered ! (lower_rank - 1), ordered ! (upper_rank - 1)))"

definition REPORT_QUANTUM :: dec where "REPORT_QUANTUM = Dec False 1 (- 18)"

definition render_fraction_18 :: "dctx \<Rightarrow> rat \<Rightarrow> string res" where
  "render_fraction_18 ambient v =
     (case quotient_of v of (n, d) \<Rightarrow>
        let ctx = ambient\<lparr>cprec := max 80 (length (show_int \<bar>n\<bar>) + length (show_int d) + 24)\<rparr>
        in bindE (dec_div ctx (dec_of_int n) (dec_of_int d)) (\<lambda>q.
           bindE (dec_quantize ctx q REPORT_QUANTUM) (\<lambda>r.
           Inr (dec_format_f (if dec_is_zero r then dec_copy_abs r else r)))))"

section \<open>The bootstrap\<close>

record prepared_year =
  py_year :: int
  py_values :: "int option list"
  py_value_prefix :: "int list"
  py_valid_prefix :: "int list"
  py_numerator :: int
  py_denominator :: int

definition prepare_year :: "dctx \<Rightarrow> int \<Rightarrow> loss list \<Rightarrow> prepared_year res" where
  "prepare_year ambient year vals =
     bindE (mapE (scaled_integer ambient) vals) (\<lambda>vs.
       let vp = fst (prefixes vs); np = snd (prefixes vs)
       in Inr \<lparr>py_year = year, py_values = vs, py_value_prefix = vp, py_valid_prefix = np,
               py_numerator = last vp, py_denominator = last np\<rparr>)"

definition check_year :: "dctx \<Rightarrow> int \<Rightarrow> grid \<Rightarrow> prepared_year res" where
  "check_year ambient block g =
     bindE (nominal_hours (fst g)) (\<lambda>expected.
     if int (length (snd g)) \<noteq> expected then Inl PyValueError
     else bindE (prepare_year ambient (fst g) (snd g)) (\<lambda>y.
       if py_denominator y < block
       then Inl (BootstrapInference ''insufficient_observed_paired_valid'' (fst g) None) else Inr y))"

text \<open>A year under resampling: its grid, the state of its stream and its multiplicity deltas.\<close>

record lane =
  lane_year :: prepared_year
  lane_stream :: "64 word"
  lane_delta :: "int list"

definition resample_lane :: "int \<Rightarrow> int \<Rightarrow> lane \<Rightarrow> (lane \<times> int \<times> int) res" where
  "resample_lane block replicate_index l =
     (let y = lane_year l; hours = int (length (py_values y)) in
      bindE (sample_block_starts (lane_stream l) hours block) (\<lambda>(starts, s').
      bindE (aggregate_prefixes (py_value_prefix y) (py_valid_prefix y) starts hours block (Some (lane_delta l))) (\<lambda>(num, den, delta).
      if den = 0 then Inl (BootstrapInference ''empty_resampled_required_year'' (py_year y) (Some replicate_index))
      else Inr (l\<lparr>lane_stream := s', lane_delta := the delta\<rparr>, num, den))))"

definition resample_once :: "int \<Rightarrow> int \<Rightarrow> lane list \<Rightarrow> (rat \<times> lane list) res" where
  "resample_once block replicate_index lanes =
     bindE (mapE (resample_lane block replicate_index) lanes) (\<lambda>rs.
       let num = sum_list (map (\<lambda>(_, n, _). n) rs); den = sum_list (map (\<lambda>(_, _, d). d) rs)
       in Inr (of_int num / of_int (den * STORAGE_SCALE), map fst rs))"

fun resample_loop :: "int \<Rightarrow> nat \<Rightarrow> int \<Rightarrow> lane list \<Rightarrow> (rat list \<times> lane list) res" where
  "resample_loop block 0 index lanes = Inr ([], lanes)"
| "resample_loop block (Suc k) index lanes =
     bindE (resample_once block index lanes) (\<lambda>(m, lanes').
     bindE (resample_loop block k (index + 1) lanes') (\<lambda>(ms, lanes''). Inr (m # ms, lanes'')))"

text \<open>The digest input lists every drawn index with its multiplicity.\<close>

fun multiset_lines :: "int \<Rightarrow> int \<Rightarrow> int list \<Rightarrow> string" where
  "multiset_lines index multiplicity (change # d # rest) =
     (let m = multiplicity + change
      in (if m \<noteq> 0 then show_int index @ '':'' @ show_int m @ [CHR 0x0A] else [])
         @ multiset_lines (index + 1) m (d # rest))"
| "multiset_lines index multiplicity _ = []"

definition hex_text :: "bytes \<Rightarrow> ustr" where
  "hex_text bs = concat (map (\<lambda>b. [hex_digit (b div 16), hex_digit (b mod 16)]) bs)"

definition multiset_digest :: "(bytes \<Rightarrow> bytes) \<Rightarrow> int list \<Rightarrow> ustr" where
  "multiset_digest sha delta = hex_text (sha (cps (multiset_lines 0 0 delta)))"

record bootstrap_result =
  b_observed_mean :: rat
  b_replicate_means :: "rat list"
  b_ci_lower :: rat
  b_ci_upper :: rat
  b_p_value :: rat
  b_seeds :: "(int \<times> int) list"
  b_digests :: "(int \<times> ustr) list"

definition make_lane :: "(bytes \<Rightarrow> bytes) \<Rightarrow> ustr \<Rightarrow> prepared_year \<Rightarrow> (int \<times> lane) res" where
  "make_lane sha comparison_id y =
     bindE (derive_stream_seed sha comparison_id (py_year y)) (\<lambda>seed.
     Inr (seed, \<lparr>lane_year = y, lane_stream = seed_state seed, lane_delta = replicate (length (py_values y) + 1) 0\<rparr>))"

definition bootstrap_b4 ::
    "dctx \<Rightarrow> (bytes \<Rightarrow> bytes) \<Rightarrow> grid list \<Rightarrow> ustr \<Rightarrow> int \<Rightarrow> int \<Rightarrow> bootstrap_result res" where
  "bootstrap_b4 ambient sha grids comparison_id resamples block =
     (if resamples \<le> 0 \<or> block \<noteq> 168 \<or> grids = [] then Inl PyValueError
      else
        bindE (mapE (check_year ambient block) (sort_key fst grids)) (\<lambda>prepared.
          let observed = of_int (sum_list (map py_numerator prepared))
                / of_int (sum_list (map py_denominator prepared) * STORAGE_SCALE)
          in bindE (mapE (make_lane sha comparison_id) prepared) (\<lambda>lanes.
             bindE (resample_loop block (nat resamples) 0 (map snd lanes)) (\<lambda>(means, final).
             bindE (nearest_rank_interval means) (\<lambda>(low, high).
             Inr \<lparr>b_observed_mean = observed, b_replicate_means = means, b_ci_lower = low, b_ci_upper = high,
                  b_p_value = of_nat (1 + length (filter (\<lambda>m. 2 * observed \<le> m) means)) / of_int (resamples + 1),
                  b_seeds = map (\<lambda>(seed, l). (py_year (lane_year l), seed)) lanes,
                  b_digests = map (\<lambda>l. (py_year (lane_year l), multiset_digest sha (lane_delta l))) final\<rparr>)))))"

section \<open>Prefix sums are sums over the materialized indices\<close>

definition value_or_zero :: "int option \<Rightarrow> int" where
  "value_or_zero v = (case v of None \<Rightarrow> 0 | Some x \<Rightarrow> x)"

definition one_if_valid :: "int option \<Rightarrow> int" where
  "one_if_valid v = (case v of None \<Rightarrow> 0 | Some _ \<Rightarrow> 1)"

lemma prefixes_from_spec:
  "length (fst (prefixes_from rv rn vs)) = Suc (length vs) \<and> length (snd (prefixes_from rv rn vs)) = Suc (length vs) \<and>
   (\<forall>k \<le> length vs. fst (prefixes_from rv rn vs) ! k = rv + sum_list (map value_or_zero (take k vs))
      \<and> snd (prefixes_from rv rn vs) ! k = rn + sum_list (map one_if_valid (take k vs)))"
proof (induction vs arbitrary: rv rn)
  case (Cons v vs)
  show ?case
  proof (cases v)
    case None
    with Cons[of rv rn] show ?thesis
      by (auto simp: value_or_zero_def one_if_valid_def nth_Cons' take_Cons' split: prod.splits)
  next
    case (Some x)
    with Cons[of "rv + x" "rn + 1"] show ?thesis
      by (auto simp: value_or_zero_def one_if_valid_def nth_Cons' take_Cons' split: prod.splits)
  qed
qed simp

lemma prefix_difference:
  assumes "s \<le> e" "e \<le> length vs"
  shows "sum_list (map f (take e vs)) - sum_list (map f (take s vs)) = sum_list (map (\<lambda>i. f (vs ! i)) [s..<e] :: int list)"
proof -
  have "take e vs = take s vs @ map ((!) vs) [s..<e]"
    using assms by (intro nth_equalityI) (auto simp: nth_append)
  then show ?thesis by (simp add: comp_def)
qed

lemma upto_nat: "0 \<le> s \<Longrightarrow> [s..e - 1] = map int [nat s..<nat e]"
  by (rule nth_equalityI) auto

definition sum_at :: "(int option \<Rightarrow> int) \<Rightarrow> int option list \<Rightarrow> int list \<Rightarrow> int" where
  "sum_at f vs idx = sum_list (map (\<lambda>i. f (vs ! nat i)) idx)"

lemma prefix_block:
  assumes "0 \<le> s" "s \<le> e" "e \<le> int (length vs)"
  shows "fst (prefixes vs) ! nat e - fst (prefixes vs) ! nat s = sum_at value_or_zero vs [s..e - 1]"
    and "snd (prefixes vs) ! nat e - snd (prefixes vs) ! nat s = sum_at one_if_valid vs [s..e - 1]"
  using assms prefixes_from_spec[of 0 0 vs] prefix_difference[of "nat s" "nat e" vs]
  by (auto simp: prefixes_def sum_at_def upto_nat comp_def)

text \<open>A difference array: the prefix sum at \<open>i\<close> is the multiplicity of index \<open>i\<close>.\<close>

definition psum :: "int list \<Rightarrow> int \<Rightarrow> int" where
  "psum d i = sum_list (take (Suc (nat i)) d)"

lemma sum_take_update:
  "j < length d \<Longrightarrow> sum_list (take k (d[j := d ! j + c])) = sum_list (take k d) + (if j < k then c else (0 :: int))"
proof (induction d arbitrary: j k)
  case (Cons x d)
  then show ?case by (cases j; cases k) auto
qed simp

lemma bump_spec:
  assumes "0 \<le> s" "s < e" "nat e < length d" "0 \<le> i"
  shows "psum (bump s e d) i = psum d i + (if s \<le> i \<and> i < e then 1 else 0)" "length (bump s e d) = length d"
proof -
  have j: "nat s < length d" using assms(2,3) by simp
  let ?d = "d[nat s := d ! nat s + 1]"
  have e: "bump s e d = ?d[nat e := ?d ! nat e + - 1]" by (simp add: bump_def Let_def)
  have "psum (bump s e d) i = psum ?d i + (if nat e < Suc (nat i) then - 1 else 0)"
    unfolding psum_def e using assms(3) by (intro sum_take_update) simp
  also have "psum ?d i = psum d i + (if nat s < Suc (nat i) then 1 else 0)"
    unfolding psum_def by (rule sum_take_update[OF j])
  finally show "psum (bump s e d) i = psum d i + (if s \<le> i \<and> i < e then 1 else 0)" using assms by auto
  show "length (bump s e d) = length d" by (simp add: bump_def Let_def)
qed

definition delta_counts :: "int \<Rightarrow> int list option \<Rightarrow> int list option \<Rightarrow> int list \<Rightarrow> bool" where
  "delta_counts hours delta delta' idx \<longleftrightarrow>
     (case delta of
        None \<Rightarrow> delta' = None
      | Some d \<Rightarrow> (\<exists>d'. delta' = Some d' \<and> length d' = length d
          \<and> (int (length d) = hours + 1 \<longrightarrow> (\<forall>i. 0 \<le> i \<and> i < hours \<longrightarrow> psum d' i = psum d i + int (count_list idx i)))))"

lemma count_list_distinct: "distinct xs \<Longrightarrow> count_list xs x = (if x \<in> set xs then 1 else 0)"
  by (induction xs) auto

lemma count_list_upto: "int (count_list [s..e - 1] i) = (if s \<le> i \<and> i < e then 1 else 0)"
  by (auto simp: count_list_distinct)

lemma validate_start_Inr: "validate_start s hours block = Inr u \<longleftrightarrow> 0 \<le> s \<and> s \<le> hours - block"
  by (cases u) (auto simp: validate_start_def)

lemma aggregate_loop_materialize:
  assumes "0 < block" "block \<le> hours" "hours = int (length vs)" "0 < remaining"
  shows "case materialize_loop hours block starts remaining of
      Inl e \<Rightarrow> aggregate_loop (fst (prefixes vs)) (snd (prefixes vs)) hours block starts remaining num den delta = Inl e
    | Inr idx \<Rightarrow> (\<exists>delta'. aggregate_loop (fst (prefixes vs)) (snd (prefixes vs)) hours block starts remaining num den delta
          = Inr (num + sum_at value_or_zero vs idx, den + sum_at one_if_valid vs idx, delta')
        \<and> delta_counts hours delta delta' idx)
        \<and> int (length idx) = remaining \<and> set idx \<subseteq> {0..<hours}"
  using assms(4)
proof (induction starts arbitrary: remaining num den delta)
  case Nil
  then show ?case by simp
next
  case (Cons start starts)
  let ?vp = "fst (prefixes vs)" and ?np = "snd (prefixes vs)"
  show ?case
  proof (cases "0 \<le> start \<and> start \<le> hours - block")
    case False
    then show ?thesis by (auto simp: validate_start_def)
  next
    case True
    then have v: "validate_start start hours block = Inr ()" by (simp add: validate_start_def)
    define consumed where "consumed = min block remaining"
    define e where "e = start + consumed"
    let ?here = "[start..e - 1]"
    have c: "0 < consumed" "e \<le> hours" "start < e" using assms(1) Cons.prems True by (auto simp: consumed_def e_def)
    note pb = prefix_block[of start e vs]
    have here: "num + (?vp ! nat e - ?vp ! nat start) = num + sum_at value_or_zero vs ?here"
      "den + (?np ! nat e - ?np ! nat start) = den + sum_at one_if_valid vs ?here"
      using pb True c assms(3) by auto
    have mat: "materialize_loop hours block (start # starts) remaining =
        (if remaining - consumed = 0 then Inr ?here
         else bindE (materialize_loop hours block starts (remaining - consumed)) (\<lambda>rest. Inr (?here @ rest)))"
      by (simp add: v Let_def consumed_def e_def)
    let ?num = "num + sum_at value_or_zero vs ?here" and ?den = "den + sum_at one_if_valid vs ?here"
    have agg: "aggregate_loop ?vp ?np hours block (start # starts) remaining num den delta =
        (if remaining - consumed = 0 then Inr (?num, ?den, map_option (bump start e) delta)
         else aggregate_loop ?vp ?np hours block starts (remaining - consumed) ?num ?den (map_option (bump start e) delta))"
      unfolding here[symmetric] by (simp add: v Let_def consumed_def e_def)
    have dl: "delta_counts hours delta (map_option (bump start e) delta) ?here"
    proof (cases delta)
      case (Some d)
      have "psum (bump start e d) i = psum d i + int (count_list ?here i)" if "int (length d) = hours + 1" "0 \<le> i" for i
      proof -
        have "nat e < length d" using that c True by linarith
        then show ?thesis using bump_spec(1)[of start e d i] that True c by (simp add: count_list_upto)
      qed
      moreover have "length (bump start e d) = length d" by (simp add: bump_def Let_def)
      ultimately show ?thesis by (simp add: delta_counts_def Some)
    qed (simp add: delta_counts_def)
    have size: "int (length ?here) = consumed" "set ?here \<subseteq> {0..<hours}" using True c by (auto simp: e_def)
    show ?thesis
    proof (cases "remaining - consumed = 0")
      case True
      then show ?thesis unfolding mat agg using dl size by simp
    next
      case False
      then have rem: "0 < remaining - consumed" by (simp add: consumed_def min_def split: if_splits)
      note ih = Cons.IH[OF rem, of "num + sum_at value_or_zero vs ?here" "den + sum_at one_if_valid vs ?here" "map_option (bump start e) delta"]
      show ?thesis
      proof (cases "materialize_loop hours block starts (remaining - consumed)")
        case (Inl err)
        then show ?thesis unfolding mat agg using ih False by simp
      next
        case (Inr rest)
        then obtain delta' where d': "aggregate_loop ?vp ?np hours block starts (remaining - consumed)
            (num + sum_at value_or_zero vs ?here) (den + sum_at one_if_valid vs ?here) (map_option (bump start e) delta)
            = Inr (num + sum_at value_or_zero vs ?here + sum_at value_or_zero vs rest,
                   den + sum_at one_if_valid vs ?here + sum_at one_if_valid vs rest, delta')"
          "delta_counts hours (map_option (bump start e) delta) delta' rest"
          and rest: "int (length rest) = remaining - consumed" "set rest \<subseteq> {0..<hours}"
          using ih by auto
        have "delta_counts hours delta delta' (?here @ rest)"
          using dl d'(2) by (auto simp: delta_counts_def split: option.splits)
        moreover have "sum_at f vs (?here @ rest) = sum_at f vs ?here + sum_at f vs rest" for f by (simp add: sum_at_def)
        ultimately show ?thesis unfolding mat agg using Inr False d'(1) rest size by (simp add: add.assoc)
      qed
    qed
  qed
qed

lemma aggregate_materialize:
  assumes "hours = int (length vs)"
  shows "case materialize_resampled_indices starts hours block of
      Inl e \<Rightarrow> aggregate_prefixes (fst (prefixes vs)) (snd (prefixes vs)) starts hours block delta = Inl e
    | Inr idx \<Rightarrow> (\<exists>delta'. aggregate_prefixes (fst (prefixes vs)) (snd (prefixes vs)) starts hours block delta
          = Inr (sum_at value_or_zero vs idx, sum_at one_if_valid vs idx, delta')
        \<and> delta_counts hours delta delta' idx) \<and> int (length idx) = hours \<and> set idx \<subseteq> {0..<hours}"
proof (cases "0 < block \<and> block \<le> hours")
  case True
  then have g: "validate_geometry hours block = Inr ()" and h: "0 < hours" by (auto simp: validate_geometry_def)
  show ?thesis
    using aggregate_loop_materialize[OF _ _ assms h, of block starts 0 0 delta] True
    by (cases "materialize_loop hours block starts hours")
      (simp_all add: materialize_resampled_indices_def aggregate_prefixes_def g)
next
  case False
  then show ?thesis by (auto simp: materialize_resampled_indices_def aggregate_prefixes_def validate_geometry_def)
qed

section \<open>The interval\<close>

lemma sorted_nth_counts:
  fixes xs :: "'a :: linorder list"
  assumes "sorted xs" "k < length xs"
  shows "length (filter (\<lambda>x. x < xs ! k) xs) \<le> k" "k < length (filter (\<lambda>x. x \<le> xs ! k) xs)"
proof -
  have split: "xs = take k xs @ drop k xs" by simp
  have mono: "xs ! k \<le> xs ! (k + i)" if "k + i < length xs" for i
    using assms that by (intro sorted_nth_mono) auto
  have "filter (\<lambda>x. x < xs ! k) (drop k xs) = []"
    using mono by (auto simp: filter_empty_conv in_set_conv_nth not_less)
  then have "length (filter (\<lambda>x. x < xs ! k) xs) = length (filter (\<lambda>x. x < xs ! k) (take k xs))"
    by (subst split) (simp only: filter_append length_append list.size(3) add_0_right)
  then show "length (filter (\<lambda>x. x < xs ! k) xs) \<le> k"
    using length_filter_le[of "\<lambda>x. x < xs ! k" "take k xs"] assms(2) by simp
  have "filter (\<lambda>x. x \<le> xs ! k) (take (Suc k) xs) = take (Suc k) xs"
  proof -
    have "xs ! i \<le> xs ! k" if "i < Suc k" for i using assms that by (intro sorted_nth_mono) auto
    then show ?thesis by (auto simp: filter_id_conv in_set_conv_nth)
  qed
  moreover have "xs = take (Suc k) xs @ drop (Suc k) xs" by simp
  then have "filter (\<lambda>x. x \<le> xs ! k) xs = filter (\<lambda>x. x \<le> xs ! k) (take (Suc k) xs) @ filter (\<lambda>x. x \<le> xs ! k) (drop (Suc k) xs)"
    by (metis filter_append)
  ultimately show "k < length (filter (\<lambda>x. x \<le> xs ! k) xs)" using assms(2) by simp
qed

lemma nearest_rank_spec:
  assumes "nearest_rank_interval means = Inr (low, high)"
  shows "low \<in> set means" "high \<in> set means" "low \<le> high"
    and "40 * length (filter (\<lambda>m. m < low) means) < length means" "length means \<le> 40 * length (filter (\<lambda>m. m \<le> low) means)"
    and "40 * length (filter (\<lambda>m. m < high) means) < 39 * length means" "39 * length means \<le> 40 * length (filter (\<lambda>m. m \<le> high) means)"
proof -
  let ?s = "sort means" and ?n = "length means"
  define a b where "a = (?n + 39) div 40 - 1" and "b = (39 * ?n + 39) div 40 - 1"
  have ne: "means \<noteq> []" and lh: "low = ?s ! a" "high = ?s ! b"
    using assms by (auto simp: nearest_rank_interval_def Let_def a_def b_def add.commute split: if_splits)
  have ab: "a < ?n" "b < ?n" "a \<le> b" "40 * a < ?n" "40 * b < 39 * ?n" "?n \<le> 40 * Suc a" "39 * ?n \<le> 40 * Suc b"
    using ne by (auto simp: a_def b_def simp flip: length_greater_0_conv)
  show "low \<in> set means" "high \<in> set means" using ab lh by (metis length_sort nth_mem set_sort)+
  show "low \<le> high" using ab lh by (simp add: sorted_nth_mono)
  have cnt: "length (filter p ?s) = length (filter p means)" for p
    by (metis mset_filter mset_sort size_mset)
  note la = sorted_nth_counts[of ?s a] and lb = sorted_nth_counts[of ?s b]
  show "40 * length (filter (\<lambda>m. m < low) means) < ?n" "?n \<le> 40 * length (filter (\<lambda>m. m \<le> low) means)"
    using la ab lh by (auto simp: cnt)
  show "40 * length (filter (\<lambda>m. m < high) means) < 39 * ?n" "39 * ?n \<le> 40 * length (filter (\<lambda>m. m \<le> high) means)"
    using lb ab lh by (auto simp: cnt)
qed

section \<open>Resampled means stay within the data\<close>

definition values_between :: "int \<Rightarrow> int \<Rightarrow> int option list \<Rightarrow> bool" where
  "values_between lo hi vs \<longleftrightarrow> (\<forall>x. Some x \<in> set vs \<longrightarrow> lo \<le> x \<and> x \<le> hi)"

definition lane_ok :: "int \<Rightarrow> int \<Rightarrow> lane \<Rightarrow> bool" where
  "lane_ok lo hi l \<longleftrightarrow> values_between lo hi (py_values (lane_year l))
     \<and> py_value_prefix (lane_year l) = fst (prefixes (py_values (lane_year l)))
     \<and> py_valid_prefix (lane_year l) = snd (prefixes (py_values (lane_year l)))"

lemma sum_at_bounds:
  assumes "values_between lo hi vs" "set idx \<subseteq> {0..<int (length vs)}"
  shows "0 \<le> sum_at one_if_valid vs idx" "lo * sum_at one_if_valid vs idx \<le> sum_at value_or_zero vs idx"
    "sum_at value_or_zero vs idx \<le> hi * sum_at one_if_valid vs idx"
proof -
  have each: "0 \<le> one_if_valid v \<and> lo * one_if_valid v \<le> value_or_zero v \<and> value_or_zero v \<le> hi * one_if_valid v"
    if "v \<in> set vs" for v
  proof (cases v)
    case (Some x)
    then have "lo \<le> x \<and> x \<le> hi" using that assms(1) by (simp add: values_between_def)
    then show ?thesis by (simp add: Some one_if_valid_def value_or_zero_def)
  qed (simp add: one_if_valid_def value_or_zero_def)
  have "0 \<le> sum_at one_if_valid vs idx \<and> lo * sum_at one_if_valid vs idx \<le> sum_at value_or_zero vs idx
    \<and> sum_at value_or_zero vs idx \<le> hi * sum_at one_if_valid vs idx"
    using assms(2)
  proof (induction idx)
    case (Cons i idx)
    then have "vs ! nat i \<in> set vs" by (auto intro: nth_mem)
    then show ?case using each[of "vs ! nat i"] Cons by (auto simp: sum_at_def algebra_simps)
  qed (simp add: sum_at_def)
  then show "0 \<le> sum_at one_if_valid vs idx" "lo * sum_at one_if_valid vs idx \<le> sum_at value_or_zero vs idx"
    "sum_at value_or_zero vs idx \<le> hi * sum_at one_if_valid vs idx" by auto
qed

lemma resample_lane_bounds:
  assumes "resample_lane block k l = Inr (l', num, den)" "lane_ok lo hi l"
  shows "lane_ok lo hi l'" "0 < den" "lo * den \<le> num" "num \<le> hi * den"
proof -
  let ?y = "lane_year l"
  obtain starts s' delta where a: "aggregate_prefixes (py_value_prefix ?y) (py_valid_prefix ?y) starts
      (int (length (py_values ?y))) block (Some (lane_delta l)) = Inr (num, den, delta)"
    and l': "l' = l\<lparr>lane_stream := s', lane_delta := the delta\<rparr>" and den: "den \<noteq> 0"
    using assms(1) by (auto simp: resample_lane_def Let_def res_simps split: if_splits)
  show "lane_ok lo hi l'" using assms(2) by (simp add: lane_ok_def l')
  obtain idx where idx: "num = sum_at value_or_zero (py_values ?y) idx" "den = sum_at one_if_valid (py_values ?y) idx"
    "set idx \<subseteq> {0..<int (length (py_values ?y))}"
    using aggregate_materialize[OF refl, of "py_values ?y" starts block "Some (lane_delta l)"] a assms(2)
    by (auto simp: lane_ok_def split: sum.splits)
  have w: "values_between lo hi (py_values ?y)" using assms(2) by (simp add: lane_ok_def)
  show "0 < den" "lo * den \<le> num" "num \<le> hi * den" using sum_at_bounds[OF w idx(3)] den idx(1,2) by auto
qed

lemma ratio_bounds:
  fixes num den lo hi :: int
  assumes "0 < den" "lo * den \<le> num" "num \<le> hi * den"
  shows "(of_int lo :: rat) / of_int STORAGE_SCALE \<le> of_int num / of_int (den * STORAGE_SCALE)"
    and "(of_int num :: rat) / of_int (den * STORAGE_SCALE) \<le> of_int hi / of_int STORAGE_SCALE"
proof -
  have "(of_int (lo * den) :: rat) \<le> of_int num" "(of_int num :: rat) \<le> of_int (hi * den)"
    using assms by (simp_all only: of_int_le_iff)
  then show "(of_int lo :: rat) / of_int STORAGE_SCALE \<le> of_int num / of_int (den * STORAGE_SCALE)"
    and "(of_int num :: rat) / of_int (den * STORAGE_SCALE) \<le> of_int hi / of_int STORAGE_SCALE"
    using assms(1) by (simp_all add: STORAGE_SCALE_def field_simps)
qed

lemma resample_once_bounds:
  assumes "resample_once block k lanes = Inr (m, lanes')" "list_all (lane_ok lo hi) lanes" "lanes \<noteq> []"
  shows "list_all (lane_ok lo hi) lanes'" "lanes' \<noteq> []" "of_int lo / of_int STORAGE_SCALE \<le> m" "m \<le> of_int hi / of_int STORAGE_SCALE"
proof -
  obtain rs where rs: "mapE (resample_lane block k) lanes = Inr rs"
    and m: "m = of_int (sum_list (map (\<lambda>(_, n, _). n) rs)) / of_int (sum_list (map (\<lambda>(_, _, d). d) rs) * STORAGE_SCALE)"
    and lanes': "lanes' = map fst rs"
    using assms(1) by (auto simp: resample_once_def Let_def res_simps)
  have each: "\<forall>(l, n, d) \<in> set rs. lane_ok lo hi l \<and> 0 < d \<and> lo * d \<le> n \<and> n \<le> hi * d"
  proof
    fix r assume "r \<in> set rs"
    then obtain i where i: "i < length lanes" "r = rs ! i" using mapE_length[OF rs] by (auto simp: in_set_conv_nth)
    then have "lanes ! i \<in> set lanes" "resample_lane block k (lanes ! i) = Inr r" using mapE_nth[OF rs] by auto
    then show "case r of (l, n, d) \<Rightarrow> lane_ok lo hi l \<and> 0 < d \<and> lo * d \<le> n \<and> n \<le> hi * d"
      using resample_lane_bounds assms(2) by (cases r) (auto simp: list_all_iff)
  qed
  have ne: "rs \<noteq> []" using mapE_length[OF rs] assms(3) by auto
  show "list_all (lane_ok lo hi) lanes'" "lanes' \<noteq> []" using each ne by (auto simp: lanes' list_all_iff)
  have sums: "0 \<le> sum_list (map (\<lambda>(_, _, d). d) qs) \<and> (qs \<noteq> [] \<longrightarrow> 0 < sum_list (map (\<lambda>(_, _, d). d) qs))
      \<and> lo * sum_list (map (\<lambda>(_, _, d). d) qs) \<le> sum_list (map (\<lambda>(_, n, _). n) qs)
      \<and> sum_list (map (\<lambda>(_, n, _). n) qs) \<le> hi * sum_list (map (\<lambda>(_, _, d). d) qs)"
    if "\<forall>(l, n, d) \<in> set qs. lane_ok lo hi l \<and> 0 < d \<and> lo * d \<le> n \<and> n \<le> hi * d" for qs :: "(lane \<times> int \<times> int) list"
    using that by (induction qs) (auto simp: algebra_simps)
  show "of_int lo / of_int STORAGE_SCALE \<le> m"
    unfolding m using sums[OF each] ne by (intro ratio_bounds(1)[where hi = hi]) auto
  show "m \<le> of_int hi / of_int STORAGE_SCALE"
    unfolding m using sums[OF each] ne by (intro ratio_bounds(2)[where lo = lo]) auto
qed

lemma resample_loop_bounds:
  assumes "resample_loop block k i lanes = Inr (means, final)" "list_all (lane_ok lo hi) lanes" "lanes \<noteq> []"
  shows "length means = k \<and> (\<forall>m \<in> set means. of_int lo / of_int STORAGE_SCALE \<le> m \<and> m \<le> of_int hi / of_int STORAGE_SCALE)"
  using assms
proof (induction k arbitrary: i lanes means final)
  case (Suc k)
  then obtain m lanes' ms where r: "resample_once block i lanes = Inr (m, lanes')"
    "resample_loop block k (i + 1) lanes' = Inr (ms, final)" "means = m # ms"
    by (auto simp: res_simps)
  note b = resample_once_bounds[OF r(1) Suc.prems(2,3)]
  show ?case using Suc.IH[OF r(2) b(1,2)] b(3,4) r(3) by simp
qed simp

lemma prepare_year_Inr:
  assumes "prepare_year ambient year vals = Inr y"
  shows "mapE (scaled_integer ambient) vals = Inr (py_values y)" "py_year y = year"
    "py_value_prefix y = fst (prefixes (py_values y))" "py_valid_prefix y = snd (prefixes (py_values y))"
  using assms by (auto simp: prepare_year_def Let_def res_simps)

lemma check_year_Inr:
  assumes "check_year ambient block g = Inr y"
  shows "prepare_year ambient (fst g) (snd g) = Inr y"
  using assms by (auto simp: check_year_def res_simps split: if_splits)

lemma bootstrap_Inr:
  assumes "bootstrap_b4 ambient sha grids cid resamples block = Inr r"
    and "\<forall>g \<in> set grids. \<forall>v \<in> set (snd g). \<forall>x. scaled_integer ambient v = Inr (Some x) \<longrightarrow> lo \<le> x \<and> x \<le> hi"
  shows "0 < resamples" "length (b_replicate_means r) = nat resamples"
    "\<forall>m \<in> set (b_replicate_means r). of_int lo / of_int STORAGE_SCALE \<le> m \<and> m \<le> of_int hi / of_int STORAGE_SCALE"
    "nearest_rank_interval (b_replicate_means r) = Inr (b_ci_lower r, b_ci_upper r)"
    "b_p_value r = of_nat (1 + length (filter (\<lambda>m. 2 * b_observed_mean r \<le> m) (b_replicate_means r))) / of_int (resamples + 1)"
proof -
  have c: "0 < resamples" "grids \<noteq> []" using assms(1) by (auto simp: bootstrap_b4_def split: if_splits)
  obtain prepared lanes final where p: "mapE (check_year ambient block) (sort_key fst grids) = Inr prepared"
    and l: "mapE (make_lane sha cid) prepared = Inr lanes"
    and loop: "resample_loop block (nat resamples) 0 (map snd lanes) = Inr (b_replicate_means r, final)"
    and ci: "nearest_rank_interval (b_replicate_means r) = Inr (b_ci_lower r, b_ci_upper r)"
    and pv: "b_p_value r = of_nat (1 + length (filter (\<lambda>m. 2 * b_observed_mean r \<le> m) (b_replicate_means r))) / of_int (resamples + 1)"
    using assms(1) by (auto simp: bootstrap_b4_def Let_def res_simps split: if_splits)
  have ok: "lane_ok lo hi (snd l)" if "l \<in> set lanes" for l
  proof -
    from that obtain i where i: "i < length lanes" "l = lanes ! i" by (auto simp: in_set_conv_nth)
    then have ip: "i < length prepared" using mapE_length[OF l] by simp
    have "make_lane sha cid (prepared ! i) = Inr l" using mapE_nth[OF l ip] i by simp
    then have y: "lane_year (snd l) = prepared ! i" by (auto simp: make_lane_def res_simps)
    have ig: "i < length (sort_key fst grids)" using ip mapE_length[OF p] by simp
    define g where "g = sort_key fst grids ! i"
    have g: "g \<in> set grids" using ig nth_mem[OF ig] by (simp add: g_def)
    have "check_year ambient block g = Inr (prepared ! i)" using mapE_nth[OF p ig] by (simp add: g_def)
    note pr = prepare_year_Inr[OF check_year_Inr[OF this]]
    have "values_between lo hi (py_values (prepared ! i))"
      unfolding values_between_def
    proof (intro allI impI)
      fix x assume "Some x \<in> set (py_values (prepared ! i))"
      then obtain j where j: "j < length (py_values (prepared ! i))" "py_values (prepared ! i) ! j = Some x"
        by (auto simp: in_set_conv_nth)
      then have "j < length (snd g)" using mapE_length[OF pr(1)] by simp
      then show "lo \<le> x \<and> x \<le> hi" using mapE_nth[OF pr(1), of j] j(2) by (intro assms(2)[rule_format, OF g, of "snd g ! j"]) auto
    qed
    then show ?thesis using pr(3,4) by (simp add: lane_ok_def y)
  qed
  have "map snd lanes \<noteq> []" using mapE_length[OF l] mapE_length[OF p] c(2) by auto
  note b = resample_loop_bounds[OF loop _ this, of lo hi]
  show "0 < resamples" by (rule c)
  show "length (b_replicate_means r) = nat resamples"
    "\<forall>m \<in> set (b_replicate_means r). of_int lo / of_int STORAGE_SCALE \<le> m \<and> m \<le> of_int hi / of_int STORAGE_SCALE"
    using b ok by (auto simp: list_all_iff)
  show "nearest_rank_interval (b_replicate_means r) = Inr (b_ci_lower r, b_ci_upper r)" by (rule ci)
  show "b_p_value r = of_nat (1 + length (filter (\<lambda>m. 2 * b_observed_mean r \<le> m) (b_replicate_means r))) / of_int (resamples + 1)"
    by (rule pv)
qed

section \<open>The observed mean\<close>

text \<open>The scaled values of a list of losses, once all of them are accepted.\<close>

definition scaled_or_none :: "dctx \<Rightarrow> loss \<Rightarrow> int option" where
  "scaled_or_none ambient v = (case scaled_integer ambient v of Inr x \<Rightarrow> x | Inl _ \<Rightarrow> None)"

lemma mapE_scaled:
  "mapE (scaled_integer ambient) vs = Inr xs \<Longrightarrow> xs = map (scaled_or_none ambient) vs \<and> (\<forall>v \<in> set vs. \<exists>x. scaled_integer ambient v = Inr x)"
  by (induction vs arbitrary: xs) (auto simp: res_simps scaled_or_none_def)

lemma last_prefixes:
  "last (fst (prefixes vs)) = sum_list (map value_or_zero vs)" "last (snd (prefixes vs)) = sum_list (map one_if_valid vs)"
  using prefixes_from_spec[of 0 0 vs] by (auto simp: prefixes_def last_conv_nth simp flip: length_greater_0_conv)

lemma valid_values:
  "sum_list (List.map_filter (\<lambda>v. v) vs) = sum_list (map value_or_zero vs)"
  "int (length (List.map_filter (\<lambda>v. v) vs)) = sum_list (map one_if_valid vs)"
  by (induction vs) (auto simp: List.map_filter_simps value_or_zero_def one_if_valid_def split: option.splits)

lemma check_year_spec:
  assumes "check_year ambient block g = Inr y"
  shows "\<forall>v \<in> set (snd g). \<exists>x. scaled_integer ambient v = Inr x"
    "py_numerator y = sum_list (map (value_or_zero \<circ> scaled_or_none ambient) (snd g))"
    "py_denominator y = sum_list (map (one_if_valid \<circ> scaled_or_none ambient) (snd g))" "block \<le> py_denominator y"
proof -
  have m: "mapE (scaled_integer ambient) (snd g) = Inr (py_values y)"
    "py_numerator y = last (fst (prefixes (py_values y)))" "py_denominator y = last (snd (prefixes (py_values y)))"
    and "block \<le> py_denominator y"
    using assms by (auto simp: check_year_def prepare_year_def Let_def res_simps split: if_splits)
  with mapE_scaled[OF m(1)]
  show "\<forall>v \<in> set (snd g). \<exists>x. scaled_integer ambient v = Inr x"
    "py_numerator y = sum_list (map (value_or_zero \<circ> scaled_or_none ambient) (snd g))"
    "py_denominator y = sum_list (map (one_if_valid \<circ> scaled_or_none ambient) (snd g))" "block \<le> py_denominator y"
    by (auto simp: last_prefixes comp_def)
qed

lemma check_years_sums:
  assumes "mapE (check_year ambient block) gs = Inr prepared"
  shows "\<forall>g \<in> set gs. \<forall>v \<in> set (snd g). \<exists>x. scaled_integer ambient v = Inr x"
    "sum_list (map py_numerator prepared) = sum_list (map (\<lambda>g. sum_list (map (value_or_zero \<circ> scaled_or_none ambient) (snd g))) gs)"
    "sum_list (map py_denominator prepared) = sum_list (map (\<lambda>g. sum_list (map (one_if_valid \<circ> scaled_or_none ambient) (snd g))) gs)"
    "block * int (length gs) \<le> sum_list (map py_denominator prepared)"
  using assms
proof (induction gs arbitrary: prepared)
  case (Cons g gs)
  {
    case 1
    with Cons show ?case using check_year_spec(1)[of ambient block g] by (auto simp: res_simps)
  next
    case 2
    with Cons show ?case using check_year_spec(2)[of ambient block g] by (auto simp: res_simps comp_def)
  next
    case 3
    with Cons show ?case using check_year_spec(3)[of ambient block g] by (auto simp: res_simps comp_def)
  next
    case 4
    with Cons show ?case using check_year_spec(4)[of ambient block g] by (fastforce simp: res_simps algebra_simps)
  }
qed simp_all

lemma sum_list_sort_key: "sum_list (map f (sort_key k xs)) = sum_list (map (f :: _ \<Rightarrow> int) xs)"
  by (metis mset_map mset_sort sum_mset_sum_list)

lemma bootstrap_observed:
  assumes "bootstrap_b4 ambient sha grids cid resamples block = Inr r"
  shows "pooled_observed_mean ambient grids = Inr (b_observed_mean r * of_int STORAGE_SCALE)"
proof -
  obtain prepared where p: "mapE (check_year ambient block) (sort_key fst grids) = Inr prepared"
    and m: "b_observed_mean r = of_int (sum_list (map py_numerator prepared))
        / of_int (sum_list (map py_denominator prepared) * STORAGE_SCALE)" and c: "block = 168" "grids \<noteq> []"
    using assms by (auto simp: bootstrap_b4_def Let_def res_simps split: if_splits)
  let ?vs = "concat (map snd grids)" and ?s = "scaled_or_none ambient"
  note sums = check_years_sums[OF p]
  have "\<exists>x. scaled_integer ambient v = Inr x" if "v \<in> set ?vs" for v using sums(1) that by fastforce
  then have vs: "mapE (scaled_integer ambient) ?vs = Inr (map ?s ?vs)"
    by (intro mapE_all_Inr) (fastforce simp: scaled_or_none_def)
  have flat: "sum_list (map f ?vs) = sum_list (map (\<lambda>g. sum_list (map f (snd g))) grids)" for f :: "loss \<Rightarrow> int"
    by (induction grids) auto
  have num: "sum_list (List.map_filter (\<lambda>v. v) (map ?s ?vs)) = sum_list (map py_numerator prepared)"
    unfolding valid_values sums(2) sum_list_sort_key flat[symmetric] by (simp add: comp_assoc)
  have den: "int (length (List.map_filter (\<lambda>v. v) (map ?s ?vs))) = sum_list (map py_denominator prepared)"
    unfolding valid_values sums(3) sum_list_sort_key flat[symmetric] by (simp add: comp_assoc)
  have "0 < int (length grids)" using c(2) by simp
  then have pos: "0 < sum_list (map py_denominator prepared)"
    using sums(4) unfolding c(1) length_sort by linarith
  then have "List.map_filter (\<lambda>v. v) (map ?s ?vs) \<noteq> []" using den by auto
  moreover have "(of_nat (length (List.map_filter (\<lambda>v. v) (map ?s ?vs))) :: rat) = of_int (sum_list (map py_denominator prepared))"
    by (simp only: den[symmetric] of_int_of_nat_eq)
  ultimately show ?thesis
    unfolding pooled_observed_mean_def vs m using num pos by (simp add: STORAGE_SCALE_def Let_def)
qed

section \<open>Complete grids always resample\<close>

definition sample_ctx :: dctx where
  "sample_ctx = \<lparr>cprec = 28, cEmin = - 999999, cEmax = 999999\<rparr>"


lemma draw_starts_total:
  assumes "0 < eligible" "eligible \<le> 2 ^ 64"
  shows "\<exists>rs s'. draw_starts k eligible s = Inr (rs, s') \<and> length rs = k \<and> (\<forall>r \<in> set rs. 0 \<le> r \<and> r < eligible)"
proof (induction k arbitrary: s)
  case (Suc k)
  obtain r s' where r: "draw_below s eligible = Inr (r, s')" using draw_below_total[OF assms] by blast
  then have "0 \<le> r \<and> r < eligible" using draw_below_Inr by blast
  moreover obtain rs s'' where "draw_starts k eligible s' = Inr (rs, s'')" "length rs = k" "\<forall>r \<in> set rs. 0 \<le> r \<and> r < eligible"
    using Suc by blast
  ultimately show ?case by (simp add: r)
qed simp

lemma materialize_total:
  assumes "0 < block" "\<forall>r \<in> set starts. 0 \<le> r \<and> r \<le> hours - block" "0 < remaining" "remaining \<le> block * int (length starts)"
  shows "\<exists>idx. materialize_loop hours block starts remaining = Inr idx"
  using assms(2-)
proof (induction starts arbitrary: remaining)
  case (Cons s starts)
  have v: "validate_start s hours block = Inr ()" using Cons.prems(1) by (simp add: validate_start_def)
  show ?case
  proof (cases "remaining \<le> block")
    case True
    then show ?thesis by (simp add: v Let_def)
  next
    case False
    then have "\<exists>idx. materialize_loop hours block starts (remaining - block) = Inr idx"
      using Cons.prems by (intro Cons.IH) (auto simp: algebra_simps)
    then show ?thesis using False by (auto simp: v Let_def)
  qed
qed simp

definition full_lane :: "lane \<Rightarrow> bool" where
  "full_lane l \<longleftrightarrow> None \<notin> set (py_values (lane_year l)) \<and> 168 \<le> length (py_values (lane_year l))
     \<and> int (length (py_values (lane_year l))) \<le> 2 ^ 64
     \<and> py_value_prefix (lane_year l) = fst (prefixes (py_values (lane_year l)))
     \<and> py_valid_prefix (lane_year l) = snd (prefixes (py_values (lane_year l)))"

lemma sum_at_full: "None \<notin> set vs \<Longrightarrow> set idx \<subseteq> {0..<int (length vs)} \<Longrightarrow> sum_at one_if_valid vs idx = int (length idx)"
proof (induction idx)
  case (Cons i idx)
  then have "vs ! nat i \<in> set vs" by (auto intro: nth_mem)
  then have "vs ! nat i \<noteq> None" using Cons.prems(1) by metis
  then have "one_if_valid (vs ! nat i) = 1" by (auto simp: one_if_valid_def)
  then show ?case using Cons by (simp add: sum_at_def)
qed (simp add: sum_at_def)

lemma resample_lane_total:
  assumes "full_lane l"
  shows "\<exists>l' n d. resample_lane 168 k l = Inr (l', n, d) \<and> full_lane l'"
proof -
  let ?vs = "py_values (lane_year l)"
  define hours where "hours = int (length ?vs)"
  have h: "168 \<le> hours" "hours \<le> 2 ^ 64" using assms by (auto simp: full_lane_def hours_def)
  define draws where "draws = nat ((hours + 168 - 1) div 168)"
  obtain starts s' where st: "draw_starts draws (hours - 168 + 1) (lane_stream l) = Inr (starts, s')"
    "length starts = draws" "\<forall>r \<in> set starts. 0 \<le> r \<and> r < hours - 168 + 1"
    using draw_starts_total[of "hours - 168 + 1" draws "lane_stream l"] h by auto
  have g: "validate_geometry hours 168 = Inr ()" using h by (simp add: validate_geometry_def)
  have "int draws = (hours + 168 - 1) div 168" using h by (simp add: draws_def pos_imp_zdiv_nonneg_iff)
  then have "hours \<le> 168 * int draws" by presburger
  moreover have "\<forall>r \<in> set starts. 0 \<le> r \<and> r \<le> hours - 168" using st(3) by auto
  ultimately obtain idx where idx: "materialize_loop hours 168 starts hours = Inr idx"
    using materialize_total[of 168 starts hours hours] st(2) h by auto
  then obtain delta where d: "aggregate_prefixes (fst (prefixes ?vs)) (snd (prefixes ?vs)) starts hours 168 (Some (lane_delta l))
      = Inr (sum_at value_or_zero ?vs idx, sum_at one_if_valid ?vs idx, delta)" "int (length idx) = hours" "set idx \<subseteq> {0..<hours}"
    using aggregate_materialize[OF hours_def, of starts 168 "Some (lane_delta l)"]
    by (auto simp: materialize_resampled_indices_def g)
  have "sum_at one_if_valid ?vs idx = hours"
    using sum_at_full[of ?vs idx] assms d by (simp add: full_lane_def hours_def)
  moreover have "sample_block_starts (lane_stream l) hours 168 = Inr (starts, s')"
    using st(1) by (simp only: sample_block_starts_def g bindE.simps draws_def[symmetric])
  ultimately have "resample_lane 168 k l = Inr (l\<lparr>lane_stream := s', lane_delta := the delta\<rparr>, sum_at value_or_zero ?vs idx, hours)"
    using d h assms by (simp add: resample_lane_def Let_def hours_def[symmetric] full_lane_def)
  then show ?thesis using assms by (simp add: full_lane_def)
qed

lemma resample_loop_total:
  "\<forall>l \<in> set lanes. full_lane l \<Longrightarrow> \<exists>ms final. resample_loop 168 k i lanes = Inr (ms, final)"
proof (induction k arbitrary: i lanes)
  case (Suc k)
  have "\<exists>rs. mapE (resample_lane 168 i) lanes = Inr rs \<and> (\<forall>r \<in> set rs. full_lane (fst r))"
    using Suc.prems
  proof (induction lanes)
    case (Cons l lanes)
    then obtain l' n d rs where "resample_lane 168 i l = Inr (l', n, d)" "full_lane l'"
      "mapE (resample_lane 168 i) lanes = Inr rs" "\<forall>r \<in> set rs. full_lane (fst r)"
      using resample_lane_total[of l i] by auto
    then show ?case by auto
  qed simp
  then obtain rs where rs: "mapE (resample_lane 168 i) lanes = Inr rs" "\<forall>l \<in> set (map fst rs). full_lane l" by auto
  then obtain m where "resample_once 168 i lanes = Inr (m, map fst rs)" by (simp add: resample_once_def Let_def)
  then show ?case using Suc.IH[OF rs(2), of "i + 1"] by auto
qed simp

lemma nominal_hours_range: "nominal_hours year = Inr h \<Longrightarrow> 168 \<le> h \<and> h \<le> 2 ^ 64"
proof -
  assume a: "nominal_hours year = Inr h"
  define p where "p = int (nat year) - 1"
  have "h = 24 * (365 + ((p + 1) div 4 - p div 4) - ((p + 1) div 100 - p div 100) + ((p + 1) div 400 - p div 400))"
    using a by (auto simp: nominal_hours_def days_before_year_def Let_def p_def split: if_splits)
  moreover have "0 \<le> (p + 1) div k - p div k \<and> (p + 1) div k - p div k \<le> 1" if "0 < k" for k
  proof -
    have "p div k \<le> (p + 1) div k" "(p + 1) div k \<le> (p + k) div k" using that by (intro zdiv_mono1; simp)+
    then show ?thesis using that by simp
  qed
  from this[of 4] this[of 100] this[of 400] have "0 \<le> (p + 1) div 4 - p div 4" "(p + 1) div 4 - p div 4 \<le> 1"
    "0 \<le> (p + 1) div 100 - p div 100" "(p + 1) div 100 - p div 100 \<le> 1"
    "0 \<le> (p + 1) div 400 - p div 400" "(p + 1) div 400 - p div 400 \<le> 1" by simp_all
  moreover have "168 \<le> 24 * (365 + a - b + c) \<and> 24 * (365 + a - b + c) \<le> 2 ^ 64"
    if "0 \<le> a" "a \<le> 1" "0 \<le> b" "b \<le> 1" "0 \<le> c" "c \<le> 1" for a b c :: int
    using that by simp
  ultimately show ?thesis by simp
qed

lemma bootstrap_total:
  assumes "0 < resamples" "grids \<noteq> []" "cid \<noteq> []" "\<not> is_err (ascii_encode cid)"
    and "\<And>g. g \<in> set grids \<Longrightarrow> nominal_hours (fst g) = Inr (int (length (snd g)))"
    and "\<And>g v. g \<in> set grids \<Longrightarrow> v \<in> set (snd g) \<Longrightarrow> \<exists>x. v = LossInt x"
  shows "\<exists>r. bootstrap_b4 ambient sha grids cid resamples 168 = Inr r"
proof -
  have year: "\<exists>y l seed. check_year ambient 168 g = Inr y \<and> make_lane sha cid y = Inr (seed, l) \<and> full_lane l" if g: "g \<in> set grids" for g
  proof -
    note hrs = nominal_hours_range[OF assms(5)[OF g]]
    define vs where "vs = map (\<lambda>v. case v of LossInt x \<Rightarrow> Some x | _ \<Rightarrow> None) (snd g)"
    have sc: "mapE (scaled_integer ambient) (snd g) = Inr vs"
      unfolding vs_def
    proof (rule mapE_all_Inr)
      fix v assume "v \<in> set (snd g)"
      then obtain x where "v = LossInt x" using assms(6)[OF g] by blast
      then show "scaled_integer ambient v = Inr (case v of LossInt x \<Rightarrow> Some x | _ \<Rightarrow> None)" by (simp add: scaled_integer_def)
    qed
    have full: "None \<notin> set vs" "length vs = length (snd g)" using assms(6)[OF g] by (force simp: vs_def)+
    obtain y where y: "prepare_year ambient (fst g) (snd g) = Inr y" by (simp add: prepare_year_def sc Let_def)
    note pr = prepare_year_Inr[OF y]
    have yv: "py_values y = vs" using pr(1) sc by simp
    have "py_denominator y = last (snd (prefixes vs))" using y yv by (auto simp: prepare_year_def sc Let_def)
    also have "\<dots> = sum_at one_if_valid vs [0..int (length vs) - 1]"
    proof -
      have len: "length (snd (prefixes vs)) = Suc (length vs)" and first: "snd (prefixes vs) ! 0 = 0"
        using prefixes_from_spec[of 0 0 vs] by (auto simp: prefixes_def)
      then have "last (snd (prefixes vs)) = snd (prefixes vs) ! length vs"
        by (metis diff_Suc_1 last_conv_nth list.size(3) nat.distinct(1))
      then show ?thesis using prefix_block(2)[of 0 "int (length vs)" vs] first by simp
    qed
    also have "\<dots> = int (length vs)" by (subst sum_at_full[OF full(1)]) auto
    finally have "check_year ambient 168 g = Inr y"
      using hrs full(2) y assms(5)[OF g] by (simp add: check_year_def)
    moreover obtain seed l where "make_lane sha cid y = Inr (seed, l)" "lane_year l = y"
      using assms(3,4) by (auto simp: make_lane_def derive_stream_seed_def Let_def)
    moreover have "full_lane l" if "lane_year l = y" for l
      using that hrs full pr(3,4) yv by (auto simp: full_lane_def)
    ultimately show ?thesis by blast
  qed
  have "\<exists>prepared lanes. mapE (check_year ambient 168) gs = Inr prepared \<and> mapE (make_lane sha cid) prepared = Inr lanes
      \<and> (\<forall>l \<in> set (map snd lanes). full_lane l)" if "set gs \<subseteq> set grids" for gs
    using that
  proof (induction gs)
    case (Cons g gs)
    then obtain prepared lanes where "mapE (check_year ambient 168) gs = Inr prepared" "mapE (make_lane sha cid) prepared = Inr lanes"
      "\<forall>l \<in> set (map snd lanes). full_lane l" by auto
    moreover obtain y l seed where "check_year ambient 168 g = Inr y" "make_lane sha cid y = Inr (seed, l)" "full_lane l"
      using year[of g] Cons.prems by auto
    ultimately show ?case by auto
  qed simp
  from this[of "sort_key fst grids"] obtain prepared lanes where
    p: "mapE (check_year ambient 168) (sort_key fst grids) = Inr prepared" "mapE (make_lane sha cid) prepared = Inr lanes"
    "\<forall>l \<in> set (map snd lanes). full_lane l" by auto
  obtain ms final where ms: "resample_loop 168 (nat resamples) 0 (map snd lanes) = Inr (ms, final)"
    using resample_loop_total[OF p(3)] by blast
  have "map snd lanes \<noteq> []" using assms(2) mapE_length[OF p(1)] mapE_length[OF p(2)] by auto
  have "ms \<noteq> []"
  proof -
    have "length ms' = k" if "resample_loop 168 k i ls = Inr (ms', fin)" for k i ls ms' fin
      using that by (induction k arbitrary: i ls ms' fin) (auto simp: res_simps)
    then show ?thesis using ms assms(1) by fastforce
  qed
  then obtain low high where "nearest_rank_interval ms = Inr (low, high)" by (simp add: nearest_rank_interval_def Let_def)
  then show ?thesis using assms(1,2) p ms by (simp add: bootstrap_b4_def Let_def)
qed

section \<open>Properties\<close>

text \<open>C21: aggregating a replicate over prefix sums gives exactly the sum and the number of valid
  values at the materialized indices (with the same refusals), every index lies on the grid and as
  many are drawn as the grid has positions; and the difference array that feeds the digest counts
  every materialized index.\<close>

theorem aggregate_equals_materialized:
  "case materialize_resampled_indices starts (int (length vs)) block of
      Inl e \<Rightarrow> aggregate_prefixes (fst (prefixes vs)) (snd (prefixes vs)) starts (int (length vs)) block delta = Inl e
    | Inr idx \<Rightarrow> (\<exists>delta'. aggregate_prefixes (fst (prefixes vs)) (snd (prefixes vs)) starts (int (length vs)) block delta
          = Inr (sum_at value_or_zero vs idx, sum_at one_if_valid vs idx, delta')
        \<and> delta_counts (int (length vs)) delta delta' idx)
        \<and> int (length idx) = int (length vs) \<and> set idx \<subseteq> {0..<int (length vs)}"
  by (rule aggregate_materialize) simp

text \<open>C22: a bootstrap result is what the method defines. The observed mean is the pooled mean of the
  valid differences (in storage units, which \<open>STORAGE_SCALE\<close> divides out). There are as many
  replicate means as were asked for, each within the range of the observed differences. The ends of
  the interval are the replicate means at the nearest ranks of 2.5% and 97.5%: fewer than 1/40
  (39/40) of the replicates lie below such an end and at least 1/40 (39/40) do not lie above it,
  which determines the value. The p-value is one plus the number of replicates whose distance above
  the observed mean is at least that mean, over one plus the number of replicates.\<close>

theorem bootstrap_result_sound:
  assumes "bootstrap_b4 ambient sha grids cid resamples block = Inr r"
    and "\<forall>g \<in> set grids. \<forall>v \<in> set (snd g). \<forall>x. scaled_integer ambient v = Inr (Some x) \<longrightarrow> lo \<le> x \<and> x \<le> hi"
  shows "pooled_observed_mean ambient grids = Inr (b_observed_mean r * of_int STORAGE_SCALE)
    \<and> length (b_replicate_means r) = nat resamples \<and> 0 < resamples
    \<and> (\<forall>m \<in> set (b_replicate_means r). of_int lo / of_int STORAGE_SCALE \<le> m \<and> m \<le> of_int hi / of_int STORAGE_SCALE)
    \<and> {b_ci_lower r, b_ci_upper r} \<subseteq> set (b_replicate_means r) \<and> b_ci_lower r \<le> b_ci_upper r
    \<and> 40 * length (filter (\<lambda>m. m < b_ci_lower r) (b_replicate_means r)) < nat resamples
    \<and> nat resamples \<le> 40 * length (filter (\<lambda>m. m \<le> b_ci_lower r) (b_replicate_means r))
    \<and> 40 * length (filter (\<lambda>m. m < b_ci_upper r) (b_replicate_means r)) < 39 * nat resamples
    \<and> 39 * nat resamples \<le> 40 * length (filter (\<lambda>m. m \<le> b_ci_upper r) (b_replicate_means r))
    \<and> b_p_value r * of_int (resamples + 1)
        = 1 + of_nat (length (filter (\<lambda>m. b_observed_mean r \<le> m - b_observed_mean r) (b_replicate_means r)))
    \<and> 0 < b_p_value r \<and> b_p_value r \<le> 1"
proof -
  note b = bootstrap_Inr[OF assms]
  note n = nearest_rank_spec[OF b(4)]
  have "length (filter (\<lambda>m. 2 * b_observed_mean r \<le> m) (b_replicate_means r)) \<le> nat resamples"
    using length_filter_le[of _ "b_replicate_means r"] b(2) by simp
  then have "int (1 + length (filter (\<lambda>m. 2 * b_observed_mean r \<le> m) (b_replicate_means r))) \<le> resamples + 1"
    using b(1) by linarith
  then have "(of_nat (1 + length (filter (\<lambda>m. 2 * b_observed_mean r \<le> m) (b_replicate_means r))) :: rat) \<le> of_int (resamples + 1)"
    by (metis of_int_le_iff of_int_of_nat_eq)
  moreover have pos: "(0 :: rat) < of_int (resamples + 1)" using b(1) by simp
  ultimately have p: "0 < b_p_value r \<and> b_p_value r \<le> 1" unfolding b(5) by (simp add: divide_le_eq_1)
  have "(\<lambda>m. b_observed_mean r \<le> m - b_observed_mean r) = (\<lambda>m. 2 * b_observed_mean r \<le> m)" by auto
  then have "b_p_value r * of_int (resamples + 1)
      = 1 + of_nat (length (filter (\<lambda>m. b_observed_mean r \<le> m - b_observed_mean r) (b_replicate_means r)))"
    using pos unfolding b(5) by simp
  with p show ?thesis using b(1-3) n bootstrap_observed[OF assms(1)] by simp
qed

theorem bootstrap_result_sound_witness:
  "\<exists>r. bootstrap_b4 sample_ctx (\<lambda>b. replicate 32 0) [(2023, replicate 8760 (LossInt 5))] (cps ''c'') 3 168 = Inr r
     \<and> length (b_replicate_means r) = 3 \<and> b_ci_lower r \<le> b_ci_upper r"
proof -
  have h: "nominal_hours 2023 = Inr 8760" by code_simp
  have "\<exists>r. bootstrap_b4 sample_ctx (\<lambda>b. replicate 32 0) [(2023, replicate 8760 (LossInt 5))] (cps ''c'') 3 168 = Inr r"
    by (rule bootstrap_total) (auto simp: h ascii_encode_def cps_def)
  then obtain r where r: "bootstrap_b4 sample_ctx (\<lambda>b. replicate 32 0) [(2023, replicate 8760 (LossInt 5))] (cps ''c'') 3 168 = Inr r" ..
  have "length (b_replicate_means r) = nat 3 \<and> b_ci_lower r \<le> b_ci_upper r"
    using bootstrap_result_sound[OF r, of 5 5] by (auto simp: scaled_integer_def)
  then show ?thesis using r by auto
qed

end
