(* ===== verification/Descriptor.thy ===== *)
theory Descriptor
  imports Calendar
begin

text \<open>
  src/quantara/descriptor.py: the strict dataset-descriptor loader and the provider-rights
  record. A document is what \<open>yaml.safe_load\<close> returned, a \<open>pyval\<close> whose mapping keys are
  strings; date-times are \<open>utc\<close> records. Every rejection is \<open>DescriptorError\<close>; the few places
  where the code raises a plain \<open>ValueError\<close> or \<open>TypeError\<close> are kept. Lemmas: what an accepted
  descriptor and a permitted operation guarantee.
\<close>

section \<open>Constants\<close>

definition V1_SCHEMA :: string where "V1_SCHEMA = ''quantara.dataset-descriptor/v1''"
definition V2_SCHEMA :: string where "V2_SCHEMA = ''quantara.dataset-descriptor/v2''"

definition HEADERLESS_CSV_HEADER_VALUE :: string where
  "HEADERLESS_CSV_HEADER_VALUE = ''absent''"

definition ID_2024_01 :: string where "ID_2024_01 = ''binance_usdm_btcusdt_klines_1m_2024_01''"
definition ID_2024_Q1 :: string where "ID_2024_Q1 = ''binance_usdm_btcusdt_klines_1m_2024_q1''"
definition ID_2024 :: string where "ID_2024 = ''binance_usdm_btcusdt_klines_1m_2024''"
definition ID_2020 :: string where "ID_2020 = ''binance_usdm_btcusdt_klines_1m_2020''"
definition ID_2021 :: string where "ID_2021 = ''binance_usdm_btcusdt_klines_1m_2021''"
definition ID_2022 :: string where "ID_2022 = ''binance_usdm_btcusdt_klines_1m_2022''"
definition ID_2023 :: string where "ID_2023 = ''binance_usdm_btcusdt_klines_1m_2023''"

definition HEADERLESS_SOURCE_DATASET_IDS :: "string list" where
  "HEADERLESS_SOURCE_DATASET_IDS = [ID_2020, ID_2021]"

definition COMMON_APPROVED_IDENTITIES :: "(string \<times> string) list" where
  "COMMON_APPROVED_IDENTITIES =
    [(''provider'', ''binance''), (''market_type'', ''usd_m_futures''),
     (''instrument_id'', ''binance:usd_m_futures:BTCUSDT:perpetual''),
     (''provider_symbol'', ''BTCUSDT''), (''base_asset'', ''BTC''), (''quote_asset'', ''USDT''),
     (''settlement_asset'', ''USDT''), (''contract_type'', ''perpetual''),
     (''dataset_type'', ''klines''), (''interval'', ''1m''),
     (''schema_version'', ''binance_usdm_kline_1m_v1''),
     (''timestamp_semantics'', ''closed_interval_v1'')]"

definition identity_table :: "string \<Rightarrow> string \<Rightarrow> (string \<times> string) list" where
  "identity_table schema dataset_id =
     (''schema'', schema) # (''dataset_id'', dataset_id) # COMMON_APPROVED_IDENTITIES"

definition APPROVED_IDENTITIES :: "(string \<times> string) list" where
  "APPROVED_IDENTITIES = identity_table V1_SCHEMA ID_2024_01"

definition V2_IDENTITY_TABLES :: "(string \<times> string) list list" where
  "V2_IDENTITY_TABLES = map (identity_table V2_SCHEMA)
     [ID_2024_Q1, ID_2024, ID_2020, ID_2021, ID_2022, ID_2023]"

definition DESCRIPTOR_KEYS :: "string list" where
  "DESCRIPTOR_KEYS = map fst APPROVED_IDENTITIES
     @ [''period'', ''source'', ''quality_policy_version'', ''legal_record'']"

definition V2_DESCRIPTOR_KEYS :: "string list" where
  "V2_DESCRIPTOR_KEYS = ''months'' # DESCRIPTOR_KEYS"

definition V2_YEAR_DESCRIPTOR_KEYS :: "string list" where
  "V2_YEAR_DESCRIPTOR_KEYS = ''quality_approval'' # V2_DESCRIPTOR_KEYS"

definition approval_path :: "string \<Rightarrow> string" where
  "approval_path year = ''configs/quality/approvals/binance-usdm-btcusdt-1m-'' @ year @ ''-zero-volume.v1.yaml''"

definition V2_YEAR_APPROVED_QUALITY_APPROVALS :: "(string \<times> string) list" where
  "V2_YEAR_APPROVED_QUALITY_APPROVALS =
    [(ID_2024, approval_path ''2024''), (ID_2020, approval_path ''2020''),
     (ID_2021, approval_path ''2021''), (ID_2022, approval_path ''2022''), (ID_2023, approval_path ''2023'')]"

definition V2_EXTENDED_YEARS :: "string list" where
  "V2_EXTENDED_YEARS = [ID_2020, ID_2021, ID_2022, ID_2023]"

section \<open>The descriptor\<close>

record dataset_descriptor =
  d_schema :: string
  dataset_id :: string
  provider :: string
  market_type :: string
  instrument_id :: string
  provider_symbol :: string
  base_asset :: string
  quote_asset :: string
  settlement_asset :: string
  contract_type :: string
  dataset_type :: string
  interval :: string
  start_utc :: utc
  end_utc :: utc
  archive_url :: ustr
  checksum_url :: ustr
  allowed_hosts :: "ustr list"
  member_pattern :: ustr
  months :: "ustr list"
  archive_urls :: "ustr list"
  checksum_urls :: "ustr list"
  member_patterns :: "ustr list"
  schema_version :: string
  timestamp_semantics :: string
  quality_policy_version :: ustr
  legal_record :: ustr
  quality_approval :: "string option"
  csv_header_absent :: bool

definition expected_row_count :: "dataset_descriptor \<Rightarrow> int" where
  "expected_row_count d = (epoch_seconds (end_utc d) - epoch_seconds (start_utc d)) div 60"

definition start_ms :: "dataset_descriptor \<Rightarrow> int" where
  "start_ms d = epoch_ms_of (start_utc d)"

definition end_ms :: "dataset_descriptor \<Rightarrow> int" where
  "end_ms d = epoch_ms_of (end_utc d)"

text \<open>\<open>_v2_identity_table_for\<close>; an unknown identity is rejected.\<close>

definition v2_identity_table_for :: "pyval \<Rightarrow> (string \<times> string) list res" where
  "v2_identity_table_for i =
     (case filter (\<lambda>t. Some i = map_option py_str (map_of t ''dataset_id'')) V2_IDENTITY_TABLES of
        t # _ \<Rightarrow> Inr t | [] \<Rightarrow> Inl DescriptorError)"

definition canonical_semantics :: "dataset_descriptor \<Rightarrow> ustr res" where
  "canonical_semantics d =
     bindE (if d_schema d = V1_SCHEMA then Inr APPROVED_IDENTITIES
            else v2_identity_table_for (py_str (dataset_id d))) (\<lambda>identities.
     canonicalize (PyDict (
       map (\<lambda>(k, v). (cps k, py_str v)) identities
       @ (if d_schema d = V1_SCHEMA then [] else [(cps ''months'', PyList (map PyStr (months d)))])
       @ [(cps ''period'', PyDict [(cps ''start'', PyStr (strftime_utc (start_utc d))),
                                   (cps ''end'', PyStr (strftime_utc (end_utc d)))]),
          (cps ''source'', PyDict (
             if d_schema d = V1_SCHEMA
             then [(cps ''archive_url'', PyStr (archive_url d)), (cps ''checksum_url'', PyStr (checksum_url d)),
                   (cps ''allowed_hosts'', PyList (map PyStr (allowed_hosts d))),
                   (cps ''member_pattern'', PyStr (member_pattern d))]
             else (cps ''allowed_hosts'', PyList (map PyStr (allowed_hosts d)))
                  # (if csv_header_absent d
                     then [(cps ''csv_header'', py_str HEADERLESS_CSV_HEADER_VALUE)] else []))),
          (cps ''quality_policy_version'', PyStr (quality_policy_version d)),
          (cps ''legal_record'', PyStr (legal_record d))]
       @ (case quality_approval d of None \<Rightarrow> [] | Some q \<Rightarrow> [(cps ''quality_approval'', py_str q)]))))"

section \<open>Field checks\<close>

definition py_get :: "(ustr \<times> pyval) list \<Rightarrow> string \<Rightarrow> pyval option" where
  "py_get doc k = map_of doc (cps k)"

definition keys_of :: "(ustr \<times> pyval) list \<Rightarrow> ustr set" where
  "keys_of doc = fst ` set doc"

definition require :: "bool \<Rightarrow> unit res" where
  "require ok = checkE ok DescriptorError"

definition lower_alnum :: "nat \<Rightarrow> bool" where
  "lower_alnum c \<longleftrightarrow> in_range 97 122 c \<or> in_range 48 57 c"

text \<open>\<open>^[a-z0-9][a-z0-9.\-]*$\<close> with \<open>match\<close>: one trailing newline is let through.\<close>

definition hostname_shape :: "ustr \<Rightarrow> bool" where
  "hostname_shape s = (case s of [] \<Rightarrow> False
     | c # cs \<Rightarrow> lower_alnum c \<and> list_all (\<lambda>x. lower_alnum x \<or> x = 46 \<or> x = 45) cs)"

definition matches_hostname :: "ustr \<Rightarrow> bool" where
  "matches_hostname s \<longleftrightarrow> hostname_shape s \<or> hostname_shape (strip_newline s)"

definition hosts_of :: "pyval option \<Rightarrow> ustr list res" where
  "hosts_of v = (case v of
      Some (PyList hs) \<Rightarrow>
        if hs \<noteq> [] \<and> list_all (\<lambda>h. case h of PyStr s \<Rightarrow> matches_hostname s | _ \<Rightarrow> False) hs
        then Inr (map (\<lambda>h. case h of PyStr s \<Rightarrow> s | _ \<Rightarrow> []) hs) else Inl DescriptorError
    | _ \<Rightarrow> Inl DescriptorError)"

definition parse_period :: "pyval option \<Rightarrow> (utc \<times> utc) res" where
  "parse_period raw = (case raw of
      Some (PyDict kvs) \<Rightarrow>
        bindE (require (keys_of kvs = {cps ''start'', cps ''end''})) (\<lambda>_.
        case (py_get kvs ''start'', py_get kvs ''end'') of
          (Some (PyStr s), Some (PyStr e)) \<Rightarrow>
            bindE (require (matches_utc_timestamp s)) (\<lambda>_.
            bindE (require (matches_utc_timestamp e)) (\<lambda>_.
            bindE (strptime_utc s) (\<lambda>su. bindE (strptime_utc e) (\<lambda>eu.
            bindE (require (epoch_seconds su < epoch_seconds eu)) (\<lambda>_. Inr (su, eu))))))
        | _ \<Rightarrow> Inl DescriptorError)
    | _ \<Rightarrow> Inl DescriptorError)"

definition archive_url_for :: "ustr \<Rightarrow> ustr \<Rightarrow> ustr \<Rightarrow> ustr" where
  "archive_url_for symbol ivl month =
     cps ''https://data.binance.vision/data/futures/um/monthly/klines/'' @ symbol @ cps ''/'' @ ivl
     @ cps ''/'' @ symbol @ cps ''-'' @ ivl @ cps ''-'' @ month @ cps ''.zip''"

definition checksum_url_for :: "ustr \<Rightarrow> ustr \<Rightarrow> ustr \<Rightarrow> ustr" where
  "checksum_url_for symbol ivl month = archive_url_for symbol ivl month @ cps ''.CHECKSUM''"

definition member_pattern_for :: "ustr \<Rightarrow> ustr \<Rightarrow> ustr \<Rightarrow> ustr" where
  "member_pattern_for symbol ivl month =
     cps ''^'' @ symbol @ cps ''-'' @ ivl @ cps ''-'' @ month @ cps [CHR 0x5C] @ cps ''.csv$''"

text \<open>\<open>urlparse\<close> on an absolute URL: what stands before \<open>://\<close>, the network location up to the
  first of \<open>/ ? #\<close>, and whether a query, a fragment or credentials occur.\<close>

fun url_scheme :: "ustr \<Rightarrow> ustr" where
  "url_scheme s = (if take 3 s = cps ''://'' \<or> s = [] then [] else hd s # url_scheme (tl s))"

declare url_scheme.simps [simp del]

definition url_rest :: "ustr \<Rightarrow> ustr" where
  "url_rest s = drop (length (url_scheme s) + 3) s"

definition url_netloc :: "ustr \<Rightarrow> ustr" where
  "url_netloc s = takeWhile (\<lambda>c. c \<notin> {47, 63, 35}) (url_rest s)"

definition url_hostname :: "ustr \<Rightarrow> ustr" where
  "url_hostname s = map lower_cp (takeWhile (\<lambda>c. c \<noteq> 58) (rev (takeWhile (\<lambda>c. c \<noteq> 64) (rev (url_netloc s)))))"

definition url_plain :: "ustr \<Rightarrow> bool" where
  "url_plain s \<longleftrightarrow> 63 \<notin> set (url_rest s) \<and> 35 \<notin> set (url_rest s) \<and> 64 \<notin> set (url_netloc s)"

definition validate_url :: "pyval option \<Rightarrow> ustr \<Rightarrow> ustr list \<Rightarrow> unit res" where
  "validate_url provided expected hosts =
     bindE (require (provided = Some (PyStr expected))) (\<lambda>_.
     bindE (require (url_scheme expected = cps ''https'' \<and> url_hostname expected \<in> set hosts)) (\<lambda>_.
     require (url_plain expected)))"

definition validate_urls ::
    "(ustr \<times> pyval) list \<Rightarrow> ustr \<Rightarrow> ustr \<Rightarrow> ustr \<Rightarrow> (ustr \<times> ustr \<times> ustr list) res" where
  "validate_urls src symbol ivl month =
     bindE (hosts_of (py_get src ''allowed_hosts'')) (\<lambda>hosts.
     bindE (validate_url (py_get src ''archive_url'') (archive_url_for symbol ivl month) hosts) (\<lambda>_.
     bindE (validate_url (py_get src ''checksum_url'') (checksum_url_for symbol ivl month) hosts) (\<lambda>_.
     Inr (archive_url_for symbol ivl month, checksum_url_for symbol ivl month, hosts))))"

definition month_start :: "ustr \<Rightarrow> utc res" where
  "month_start m =
     bindE (require (month_shape m)) (\<lambda>_.
     case strptime_month m of Inl _ \<Rightarrow> Inl DescriptorError | Inr u \<Rightarrow> Inr u)"

text \<open>The chain test stops at the first month that is not the successor of the one before it.\<close>

fun months_consecutive :: "utc list \<Rightarrow> unit res" where
  "months_consecutive (a # b # us) =
     bindE (next_month a) (\<lambda>n. bindE (require (b = n)) (\<lambda>_. months_consecutive (b # us)))"
| "months_consecutive _ = Inr ()"

definition parse_months :: "pyval option \<Rightarrow> utc \<Rightarrow> utc \<Rightarrow> ustr list res" where
  "parse_months raw su eu = (case raw of
      Some (PyList ms) \<Rightarrow>
        bindE (require (ms \<noteq> [] \<and> list_all (\<lambda>m. case m of PyStr _ \<Rightarrow> True | _ \<Rightarrow> False) ms)) (\<lambda>_.
        let names = map (\<lambda>m. case m of PyStr s \<Rightarrow> s | _ \<Rightarrow> []) ms in
        bindE (mapE month_start names) (\<lambda>starts.
        bindE (require (distinct names)) (\<lambda>_.
        bindE (require (successively (\<lambda>a b. epoch_seconds a < epoch_seconds b) starts)) (\<lambda>_.
        bindE (months_consecutive starts) (\<lambda>_.
        bindE (require (su = hd starts)) (\<lambda>_.
        bindE (next_month (last starts)) (\<lambda>n.
        bindE (require (eu = n)) (\<lambda>_. Inr names))))))))
    | _ \<Rightarrow> Inl DescriptorError)"

definition validate_allowed_hosts :: "(ustr \<times> pyval) list \<Rightarrow> string \<Rightarrow> (ustr list \<times> bool) res" where
  "validate_allowed_hosts src did =
     bindE (require (keys_of src \<subseteq> {cps ''allowed_hosts'', cps ''csv_header''}
                     \<and> cps ''allowed_hosts'' \<in> keys_of src)) (\<lambda>_.
     bindE (hosts_of (py_get src ''allowed_hosts'')) (\<lambda>hosts.
     case py_get src ''csv_header'' of
       None \<Rightarrow> Inr (hosts, False)
      | Some v \<Rightarrow>
         bindE (require (v = py_str HEADERLESS_CSV_HEADER_VALUE)) (\<lambda>_.
         bindE (require (did \<in> set HEADERLESS_SOURCE_DATASET_IDS)) (\<lambda>_. Inr (hosts, True)))))"

text \<open>The policy and approval combination; \<open>path_ok\<close> is \<open>validate_approval_path\<close> of
  quality_approval.py on the approved path.\<close>

definition policy_approval ::
    "(string \<Rightarrow> bool) \<Rightarrow> string \<Rightarrow> string \<Rightarrow> ustr \<Rightarrow> pyval option \<Rightarrow> string option res" where
  "policy_approval path_ok schema did policy approval =
     (let approved = map_of V2_YEAR_APPROVED_QUALITY_APPROVALS did;
          with_approval = (case approved of
              None \<Rightarrow> Inl PyKeyError
            | Some p \<Rightarrow> bindE (require (approval = Some (py_str p))) (\<lambda>_.
                         bindE (require (path_ok p)) (\<lambda>_. Inr (Some p))))
      in if schema = V1_SCHEMA then
           bindE (require (policy = cps ''1'')) (\<lambda>_. bindE (require (approval = None)) (\<lambda>_. Inr None))
         else if did = ID_2024_Q1 then
           bindE (require (policy = cps ''1'')) (\<lambda>_. bindE (require (approval = None)) (\<lambda>_. Inr None))
         else if did = ID_2024 then
           bindE (require (policy = cps ''2'')) (\<lambda>_. with_approval)
         else if did \<in> set V2_EXTENDED_YEARS then
           (if policy = cps ''1'' then bindE (require (approval = None)) (\<lambda>_. Inr None)
            else if policy = cps ''2'' then with_approval
            else Inl DescriptorError)
         else Inl DescriptorError)"

section \<open>Loading\<close>

text \<open>Which identity table, which keys and which optional keys apply.\<close>

definition descriptor_lane ::
    "string \<Rightarrow> pyval option \<Rightarrow> ((string \<times> string) list \<times> string list \<times> string list) res" where
  "descriptor_lane schema did =
     (if schema = V1_SCHEMA then Inr (APPROVED_IDENTITIES, DESCRIPTOR_KEYS, [])
      else if did = Some (py_str ID_2024)
        then Inr (identity_table V2_SCHEMA ID_2024, V2_YEAR_DESCRIPTOR_KEYS, [])
      else case did of
          Some (PyList _) \<Rightarrow> Inl PyTypeError
        | Some (PyDict _) \<Rightarrow> Inl PyTypeError
        | None \<Rightarrow> Inl DescriptorError
        | Some v \<Rightarrow>
            bindE (v2_identity_table_for v) (\<lambda>t.
            if v \<in> set (map py_str V2_EXTENDED_YEARS) then Inr (t, V2_YEAR_DESCRIPTOR_KEYS, [''quality_approval''])
            else Inr (t, V2_DESCRIPTOR_KEYS, [])))"

definition nonempty_str :: "pyval option \<Rightarrow> ustr res" where
  "nonempty_str v = (case v of Some (PyStr s) \<Rightarrow> if s = [] then Inl DescriptorError else Inr s
                     | _ \<Rightarrow> Inl DescriptorError)"

definition source_block ::
    "string \<Rightarrow> string \<Rightarrow> (ustr \<times> pyval) list \<Rightarrow> (ustr \<times> pyval) list \<Rightarrow> utc \<Rightarrow> utc \<Rightarrow> ustr \<Rightarrow> ustr
       \<Rightarrow> (ustr list \<times> ustr list \<times> bool) res" where
  "source_block schema did doc src su eu symbol ivl =
     (if schema = V1_SCHEMA then
        bindE (require (py_get src ''csv_header'' = None)) (\<lambda>_.
        let month = strftime_month su in
        bindE (validate_urls src symbol ivl month) (\<lambda>(a, c, hosts).
        bindE (require (py_get src ''member_pattern'' = Some (PyStr (member_pattern_for symbol ivl month)))) (\<lambda>_.
        Inr ([month], hosts, False))))
      else
        bindE (parse_months (py_get doc ''months'') su eu) (\<lambda>ms.
        bindE (validate_allowed_hosts src did) (\<lambda>(hosts, absent). Inr (ms, hosts, absent))))"

text \<open>The record an accepted document becomes; \<open>field\<close> reads the approved identities.\<close>

definition build_descriptor ::
    "(string \<times> string) list \<Rightarrow> string \<Rightarrow> utc \<times> utc \<Rightarrow> ustr list \<times> ustr list \<times> bool \<Rightarrow> ustr \<Rightarrow> ustr
       \<Rightarrow> string option \<Rightarrow> dataset_descriptor" where
  "build_descriptor identities schema period parts policy legal approval =
     (let field = (\<lambda>k. the (map_of identities k)); (ms, hosts, absent) = parts;
          symbol = cps (field ''provider_symbol''); ivl = cps (field ''interval'');
          urls = map (archive_url_for symbol ivl) ms; cks = map (checksum_url_for symbol ivl) ms;
          pats = map (member_pattern_for symbol ivl) ms in
      \<lparr>d_schema = schema, dataset_id = field ''dataset_id'', provider = field ''provider'',
       market_type = field ''market_type'', instrument_id = field ''instrument_id'',
       provider_symbol = field ''provider_symbol'', base_asset = field ''base_asset'',
       quote_asset = field ''quote_asset'', settlement_asset = field ''settlement_asset'',
       contract_type = field ''contract_type'', dataset_type = field ''dataset_type'',
       interval = field ''interval'', start_utc = fst period, end_utc = snd period,
       archive_url = hd urls, checksum_url = hd cks, allowed_hosts = hosts,
       member_pattern = hd pats, months = ms, archive_urls = urls, checksum_urls = cks,
       member_patterns = pats, schema_version = field ''schema_version'',
       timestamp_semantics = field ''timestamp_semantics'', quality_policy_version = policy,
       legal_record = legal, quality_approval = approval, csv_header_absent = absent\<rparr>)"

definition load_descriptor :: "(string \<Rightarrow> bool) \<Rightarrow> pyval \<Rightarrow> dataset_descriptor res" where
  "load_descriptor path_ok document = (case document of
      PyDict doc \<Rightarrow>
        bindE (if py_get doc ''schema'' = Some (py_str V1_SCHEMA) then Inr V1_SCHEMA
               else if py_get doc ''schema'' = Some (py_str V2_SCHEMA) then Inr V2_SCHEMA
               else Inl DescriptorError) (\<lambda>schema.
        bindE (descriptor_lane schema (py_get doc ''dataset_id'')) (\<lambda>(identities, keys, optional).
        bindE (require (set (map cps keys) - set (map cps optional) \<subseteq> keys_of doc)) (\<lambda>_.
        bindE (require (keys_of doc \<subseteq> set (map cps keys))) (\<lambda>_.
        bindE (require (list_all (\<lambda>(k, v). py_get doc k = Some (py_str v)) identities)) (\<lambda>_.
        let field = (\<lambda>k. the (map_of identities k)); did = field ''dataset_id'' in
        bindE (parse_period (py_get doc ''period'')) (\<lambda>(su, eu).
        bindE (case py_get doc ''source'' of Some (PyDict src) \<Rightarrow> Inr src | _ \<Rightarrow> Inl DescriptorError) (\<lambda>src.
        bindE (source_block schema did doc src su eu (cps (field ''provider_symbol'')) (cps (field ''interval''))) (\<lambda>parts.
        bindE (nonempty_str (py_get doc ''quality_policy_version'')) (\<lambda>policy.
        bindE (nonempty_str (py_get doc ''legal_record'')) (\<lambda>legal.
        bindE (policy_approval path_ok schema did policy (py_get doc ''quality_approval'')) (\<lambda>approval.
        Inr (build_descriptor identities schema (su, eu) parts policy legal approval))))))))))))
    | _ \<Rightarrow> Inl DescriptorError)"

section \<open>Provider rights\<close>

definition RIGHTS_SCHEMA :: string where "RIGHTS_SCHEMA = ''quantara.provider-rights/v1''"

definition RIGHTS_TOP_LEVEL_KEYS :: "string list" where
  "RIGHTS_TOP_LEVEL_KEYS = [''schema'', ''record_id'', ''provider'', ''reviewer'', ''review_date'', ''operations'']"

definition RIGHTS_OPERATION_KEYS :: "string list" where
  "RIGHTS_OPERATION_KEYS = [''state'', ''source_terms'', ''review_date'', ''reviewer'', ''rationale'']"

definition RIGHTS_STATES :: "string list" where
  "RIGHTS_STATES = [''ALLOWED'', ''OWNER_APPROVED_PENDING_COUNSEL'', ''PROHIBITED'', ''UNKNOWN'']"

definition RIGHTS_OPERATIONS :: "string list" where
  "RIGHTS_OPERATIONS = [''acquire_internal'', ''retain_raw_internal'', ''normalize_internal'',
     ''analyze_internal'', ''model_train_internal'', ''commercial_production_eligible'',
     ''customer_display'', ''raw_redistribution'']"

definition APPROVED_INTERNAL_OPERATIONS :: "string list" where
  "APPROVED_INTERNAL_OPERATIONS = [''acquire_internal'', ''retain_raw_internal'', ''normalize_internal'',
     ''analyze_internal'', ''model_train_internal'']"

text \<open>The free-text fields pass through \<open>str\<close>; they are kept as the values they came from.\<close>

record rights_operation =
  ro_state :: string
  ro_source_terms :: pyval
  ro_review_date :: pyval
  ro_reviewer :: pyval
  ro_rationale :: pyval

record rights_record =
  rr_record_id :: pyval
  rr_provider :: pyval
  rr_reviewer :: pyval
  rr_review_date :: pyval
  rr_operations :: "(string \<times> rights_operation) list"

definition permits :: "rights_record \<Rightarrow> string \<Rightarrow> bool" where
  "permits r operation = (case map_of (rr_operations r) operation of
      None \<Rightarrow> False
    | Some entry \<Rightarrow>
        if operation \<in> set APPROVED_INTERNAL_OPERATIONS
        then ro_state entry \<in> {''ALLOWED'', ''OWNER_APPROVED_PENDING_COUNSEL''}
        else ro_state entry = ''ALLOWED'')"

definition load_operation :: "(ustr \<times> pyval) list \<Rightarrow> string \<Rightarrow> (string \<times> rights_operation) res" where
  "load_operation ops name = (case py_get ops name of
      Some (PyDict entry) \<Rightarrow>
        bindE (require (keys_of entry = set (map cps RIGHTS_OPERATION_KEYS))) (\<lambda>_.
        case filter (\<lambda>s. py_get entry ''state'' = Some (py_str s)) RIGHTS_STATES of
          [] \<Rightarrow> Inl DescriptorError
        | s # _ \<Rightarrow> Inr (name, \<lparr>ro_state = s, ro_source_terms = the (py_get entry ''source_terms''),
              ro_review_date = the (py_get entry ''review_date''), ro_reviewer = the (py_get entry ''reviewer''),
              ro_rationale = the (py_get entry ''rationale'')\<rparr>))
    | _ \<Rightarrow> Inl DescriptorError)"

definition load_rights_record :: "pyval \<Rightarrow> rights_record res" where
  "load_rights_record document = (case document of
      PyDict doc \<Rightarrow>
        bindE (require (keys_of doc = set (map cps RIGHTS_TOP_LEVEL_KEYS))) (\<lambda>_.
        bindE (require (py_get doc ''schema'' = Some (py_str RIGHTS_SCHEMA))) (\<lambda>_.
        case py_get doc ''operations'' of
          Some (PyDict ops) \<Rightarrow>
            bindE (require (keys_of ops = set (map cps RIGHTS_OPERATIONS))) (\<lambda>_.
            bindE (mapE (load_operation ops) RIGHTS_OPERATIONS) (\<lambda>entries.
            Inr \<lparr>rr_record_id = the (py_get doc ''record_id''), rr_provider = the (py_get doc ''provider''),
                 rr_reviewer = the (py_get doc ''reviewer''), rr_review_date = the (py_get doc ''review_date''),
                 rr_operations = entries\<rparr>))
        | _ \<Rightarrow> Inl DescriptorError))
    | _ \<Rightarrow> Inl DescriptorError)"

section \<open>What an accepted descriptor guarantees\<close>

lemma require_Inr [simp]: "require ok = Inr u \<longleftrightarrow> ok"
  by (simp add: require_def res_simps)

lemma bindE_require: "bindE (require ok) f = Inr y \<longleftrightarrow> ok \<and> f () = Inr y"
  by (simp add: require_def checkE_def)

lemma load_descriptor_Inr:
  assumes "load_descriptor path_ok document = Inr d"
  obtains doc src identities keys optional where
    "document = PyDict doc"
    "d_schema d \<in> {V1_SCHEMA, V2_SCHEMA}"
    "descriptor_lane (d_schema d) (py_get doc ''dataset_id'') = Inr (identities, keys, optional)"
    "list_all (\<lambda>(k, v). py_get doc k = Some (py_str v)) identities"
    "dataset_id d = the (map_of identities ''dataset_id'')"
    "provider_symbol d = the (map_of identities ''provider_symbol'')"
    "interval d = the (map_of identities ''interval'')"
    "parse_period (py_get doc ''period'') = Inr (start_utc d, end_utc d)"
    "source_block (d_schema d) (dataset_id d) doc src (start_utc d) (end_utc d)
       (cps (provider_symbol d)) (cps (interval d)) = Inr (months d, allowed_hosts d, csv_header_absent d)"
    "policy_approval path_ok (d_schema d) (dataset_id d) (quality_policy_version d)
       (py_get doc ''quality_approval'') = Inr (quality_approval d)"
    "archive_urls d = map (archive_url_for (cps (provider_symbol d)) (cps (interval d))) (months d)"
    "checksum_urls d = map (checksum_url_for (cps (provider_symbol d)) (cps (interval d))) (months d)"
proof -
  from assms obtain doc where doc: "document = PyDict doc"
    by (cases document) (auto simp: load_descriptor_def)
  obtain schema where schema: "schema \<in> {V1_SCHEMA, V2_SCHEMA}"
    "(if py_get doc ''schema'' = Some (py_str V1_SCHEMA) then Inr V1_SCHEMA
      else if py_get doc ''schema'' = Some (py_str V2_SCHEMA) then Inr V2_SCHEMA
      else Inl DescriptorError) = (Inr schema :: string res)"
    using assms by (auto simp: load_descriptor_def doc res_simps split: if_splits)
  obtain identities keys optional where lane:
    "descriptor_lane schema (py_get doc ''dataset_id'') = Inr (identities, keys, optional)"
    using assms by (auto simp: load_descriptor_def doc schema(2) bindE_Inr_iff)
  let ?did = "the (map_of identities ''dataset_id'')"
  let ?sym = "cps (the (map_of identities ''provider_symbol''))" and ?ivl = "cps (the (map_of identities ''interval''))"
  have ids: "list_all (\<lambda>(k, v). py_get doc k = Some (py_str v)) identities"
    using assms by (auto simp: load_descriptor_def doc schema(2) lane bindE_require Let_def)
  obtain su eu src parts policy legal approval where 2:
    "parse_period (py_get doc ''period'') = Inr (su, eu)"
    "source_block schema ?did doc src su eu ?sym ?ivl = Inr parts"
    "policy_approval path_ok schema ?did policy (py_get doc ''quality_approval'') = Inr approval"
    "d = build_descriptor identities schema (su, eu) parts policy legal approval"
    using assms by (auto simp: load_descriptor_def doc schema(2) lane bindE_require Let_def bindE_Inr_iff)
  obtain ms hosts absent where parts: "parts = (ms, hosts, absent)" by (cases parts) auto
  show thesis
    by (rule that[OF doc _ _ ids]) (use schema(1) lane 2 in \<open>simp_all add: parts build_descriptor_def Let_def\<close>)
qed

lemma next_month_valid: "next_month u = Inr v \<Longrightarrow> utc_valid u \<Longrightarrow> 1 \<le> umonth v \<and> umonth v \<le> 12"
  by (auto simp: next_month_def utc_valid_def split: if_splits)

lemma months_consecutive_span:
  assumes "months_consecutive (u # us) = Inr ()" "\<forall>v \<in> set (u # us). utc_valid v"
    and "next_month (last (u # us)) = Inr e"
  shows "epoch_seconds e = epoch_seconds u
     + (\<Sum>v \<leftarrow> u # us. 86400 * int (days_in_month (uyear v) (umonth v)))"
  using assms
proof (induction us arbitrary: u)
  case Nil
  then show ?case by (simp add: next_month_days utc_valid_def)
next
  case (Cons w us)
  then have w: "next_month u = Inr w" and rest: "months_consecutive (w # us) = Inr ()"
    by (auto simp: res_simps bindE_require)
  have "epoch_seconds w = epoch_seconds u + 86400 * int (days_in_month (uyear u) (umonth u))"
    using next_month_days[OF w] Cons.prems(2) by (simp add: utc_valid_def)
  with Cons.IH[OF rest] Cons.prems show ?case by simp
qed

definition month_minutes :: "ustr \<Rightarrow> int" where
  "month_minutes m = (case strptime_month m of
      Inl _ \<Rightarrow> 0 | Inr u \<Rightarrow> 1440 * int (days_in_month (uyear u) (umonth u)))"

lemma mapE_month_start:
  assumes "mapE month_start names = Inr us"
  shows "list_all2 (\<lambda>m u. strptime_month m = Inr u \<and> month_shape m \<and> utc_valid u) names us"
  using assms unfolding mapE_Inr_iff
  by (rule list_all2_mono)
    (auto simp: month_start_def bindE_require strptime_month_start split: sum.splits)

lemma sum_month_minutes:
  "list_all2 (\<lambda>m u. strptime_month m = Inr u \<and> P m u) names us \<Longrightarrow>
   (\<Sum>v \<leftarrow> us. 86400 * int (days_in_month (uyear v) (umonth v))) = 60 * (\<Sum>m \<leftarrow> names. month_minutes m)"
  by (induction rule: list_all2_induct) (simp_all add: month_minutes_def)

lemma parse_months_Inr:
  assumes "parse_months raw su eu = Inr ms"
  shows "epoch_seconds eu - epoch_seconds su = 60 * (\<Sum>m \<leftarrow> ms. month_minutes m)
    \<and> ms \<noteq> [] \<and> distinct ms \<and> list_all month_shape ms"
proof -
  from assms obtain ls where raw: "raw = Some (PyList ls)"
    by (auto simp: parse_months_def split: option.splits pyval.splits)
  define names where "names = map (\<lambda>m. case m of PyStr s \<Rightarrow> s | _ \<Rightarrow> []) ls"
  obtain us where us: "mapE month_start names = Inr us" "months_consecutive us = Inr ()"
    "su = hd us" "next_month (last us) = Inr eu" "distinct names" "names \<noteq> []" "ms = names"
    using assms unfolding parse_months_def raw by (auto simp: bindE_require bindE_Inr_iff Let_def names_def)
  have all2: "list_all2 (\<lambda>m u. strptime_month m = Inr u \<and> month_shape m \<and> utc_valid u) names us"
    by (rule mapE_month_start[OF us(1)])
  have ne: "us \<noteq> []" using us(6) all2 by auto
  then obtain u vs where uvs: "us = u # vs" by (cases us) auto
  have "\<forall>v \<in> set us. utc_valid v" using all2 by (auto simp: list_all2_conv_all_nth in_set_conv_nth)
  then have "epoch_seconds eu = epoch_seconds su + (\<Sum>v \<leftarrow> us. 86400 * int (days_in_month (uyear v) (umonth v)))"
    using months_consecutive_span[of u vs eu] us uvs by simp
  moreover have "list_all month_shape names"
    using all2 by (auto simp: list_all2_conv_all_nth list_all_length)
  ultimately show ?thesis using sum_month_minutes[OF all2] us by simp
qed

section \<open>Properties\<close>

text \<open>A descriptor of the first quarter of 2024, as the repository's configuration writes it.\<close>

definition sample_document :: pyval where
  "sample_document = PyDict (map (\<lambda>(k, v). (cps k, py_str v)) (identity_table V2_SCHEMA ID_2024_Q1)
     @ [(cps ''months'', PyList [py_str ''2024-01'', py_str ''2024-02'', py_str ''2024-03'']),
        (cps ''period'', PyDict [(cps ''start'', py_str ''2024-01-01T00:00:00Z''),
                                 (cps ''end'', py_str ''2024-04-01T00:00:00Z'')]),
        (cps ''source'', PyDict [(cps ''allowed_hosts'', PyList [py_str ''data.binance.vision''])]),
        (cps ''quality_policy_version'', py_str ''1''),
        (cps ''legal_record'', py_str ''configs/legal/binance.yaml'')])"

definition sample_descriptor :: dataset_descriptor where
  "sample_descriptor = (case load_descriptor (\<lambda>_. True) sample_document of Inr d \<Rightarrow> d | Inl _ \<Rightarrow> undefined)"

lemma sample_loaded: "load_descriptor (\<lambda>_. True) sample_document = Inr sample_descriptor
   \<and> d_schema sample_descriptor = V2_SCHEMA \<and> months sample_descriptor = map cps [''2024-01'', ''2024-02'', ''2024-03'']
   \<and> quality_approval sample_descriptor = None"
proof -
  have "(case load_descriptor (\<lambda>_. True) sample_document of Inl _ \<Rightarrow> False
     | Inr d \<Rightarrow> d_schema d = V2_SCHEMA \<and> months d = map cps [''2024-01'', ''2024-02'', ''2024-03'']
        \<and> quality_approval d = None)"
    by code_simp
  then show ?thesis by (auto simp: sample_descriptor_def split: sum.splits)
qed

lemma archive_url_prefix:
  "url_scheme (archive_url_for symbol ivl month) = cps ''https''
   \<and> url_hostname (archive_url_for symbol ivl month) = cps ''data.binance.vision''
   \<and> url_scheme (checksum_url_for symbol ivl month) = cps ''https''
   \<and> url_hostname (checksum_url_for symbol ivl month) = cps ''data.binance.vision''"
  by (simp add: archive_url_for_def checksum_url_for_def cps_def url_hostname_def url_netloc_def url_rest_def
      lower_cp_def url_scheme.simps)

lemma lane_identity:
  assumes "descriptor_lane schema did = Inr (identities, keys, optional)" "schema \<in> {V1_SCHEMA, V2_SCHEMA}"
  shows "identities \<in> set (APPROVED_IDENTITIES # V2_IDENTITY_TABLES)
    \<and> (schema = V1_SCHEMA \<longleftrightarrow> identities = APPROVED_IDENTITIES)"
proof -
  have v2: "t \<in> set V2_IDENTITY_TABLES" if "v2_identity_table_for v = Inr t" for v t
  proof -
    let ?xs = "filter (\<lambda>t. Some v = map_option py_str (map_of t ''dataset_id'')) V2_IDENTITY_TABLES"
    from that obtain ys where "?xs = t # ys"
      unfolding v2_identity_table_for_def by (auto split: list.splits)
    then have "t \<in> set ?xs" by simp
    then show ?thesis by simp
  qed
  have y: "identity_table V2_SCHEMA ID_2024 \<in> set V2_IDENTITY_TABLES" by (simp add: V2_IDENTITY_TABLES_def)
  have n: "APPROVED_IDENTITIES \<notin> set V2_IDENTITY_TABLES" by code_simp
  show ?thesis
    using assms v2 y n
    by (auto simp: descriptor_lane_def bindE_Inr_iff split: if_splits option.splits pyval.splits)
qed

lemma identity_tables_fields:
  "\<forall>t \<in> set (APPROVED_IDENTITIES # V2_IDENTITY_TABLES).
     map_of t ''provider_symbol'' = Some ''BTCUSDT'' \<and> map_of t ''interval'' = Some ''1m''"
  by code_simp

text \<open>C4: an accepted range descriptor covers exactly the calendar months it lists: the expected
  row count is the sum of the minutes of those months, leap years included, and no month is listed
  twice.\<close>

theorem descriptor_months_cover_period:
  assumes "load_descriptor path_ok document = Inr d" "d_schema d = V2_SCHEMA"
  shows "expected_row_count d = (\<Sum>m \<leftarrow> months d. month_minutes m)
    \<and> months d \<noteq> [] \<and> distinct (months d) \<and> list_all month_shape (months d)"
proof -
  have ne: "V2_SCHEMA \<noteq> V1_SCHEMA" by code_simp
  obtain doc src where "source_block (d_schema d) (dataset_id d) doc src (start_utc d) (end_utc d)
       (cps (provider_symbol d)) (cps (interval d)) = Inr (months d, allowed_hosts d, csv_header_absent d)"
    by (rule load_descriptor_Inr[OF assms(1)])
  then have "parse_months (py_get doc ''months'') (start_utc d) (end_utc d) = Inr (months d)"
    using assms(2) ne by (auto simp: source_block_def bindE_Inr_iff)
  from parse_months_Inr[OF this] show ?thesis by (simp add: expected_row_count_def)
qed

theorem descriptor_months_cover_period_witness:
  "expected_row_count sample_descriptor = 131040 \<and> d_schema sample_descriptor = V2_SCHEMA"
proof -
  have m: "month_minutes (cps ''2024-01'') = 44640" "month_minutes (cps ''2024-02'') = 41760"
    "month_minutes (cps ''2024-03'') = 44640" by code_simp+
  show ?thesis
    using descriptor_months_cover_period[of "\<lambda>_. True" sample_document sample_descriptor] sample_loaded m by simp
qed

text \<open>Every archive and checksum URL of an accepted descriptor is an https URL on the data
  provider's host, one per month in the order of the months: no descriptor field can redirect a
  download.\<close>

theorem descriptor_urls_fixed:
  assumes "load_descriptor path_ok document = Inr d"
  shows "archive_urls d = map (archive_url_for (cps ''BTCUSDT'') (cps ''1m'')) (months d)
    \<and> checksum_urls d = map (\<lambda>u. u @ cps ''.CHECKSUM'') (archive_urls d)
    \<and> list_all (\<lambda>u. url_scheme u = cps ''https'' \<and> url_hostname u = cps ''data.binance.vision'')
        (archive_urls d @ checksum_urls d)"
proof -
  obtain doc identities keys optional where d:
    "d_schema d \<in> {V1_SCHEMA, V2_SCHEMA}"
    "descriptor_lane (d_schema d) (py_get doc ''dataset_id'') = Inr (identities, keys, optional)"
    "provider_symbol d = the (map_of identities ''provider_symbol'')" "interval d = the (map_of identities ''interval'')"
    "archive_urls d = map (archive_url_for (cps (provider_symbol d)) (cps (interval d))) (months d)"
    "checksum_urls d = map (checksum_url_for (cps (provider_symbol d)) (cps (interval d))) (months d)"
    by (rule load_descriptor_Inr[OF assms])
  have "provider_symbol d = ''BTCUSDT'' \<and> interval d = ''1m''"
    using lane_identity[OF d(2,1)] identity_tables_fields d(3,4) by auto
  then have urls: "archive_urls d = map (archive_url_for (cps ''BTCUSDT'') (cps ''1m'')) (months d)"
    "checksum_urls d = map (checksum_url_for (cps ''BTCUSDT'') (cps ''1m'')) (months d)"
    using d(5,6) by simp_all
  moreover have "checksum_urls d = map (\<lambda>u. u @ cps ''.CHECKSUM'') (archive_urls d)"
    unfolding urls by (simp add: checksum_url_for_def)
  moreover have "list_all (\<lambda>u. url_scheme u = cps ''https'' \<and> url_hostname u = cps ''data.binance.vision'')
      (archive_urls d @ checksum_urls d)"
    unfolding urls list_all_iff by (auto simp: archive_url_prefix)
  ultimately show ?thesis by blast
qed

theorem descriptor_urls_fixed_witness:
  "length (archive_urls sample_descriptor) = 3
   \<and> list_all (\<lambda>u. url_hostname u = cps ''data.binance.vision'') (checksum_urls sample_descriptor)"
  using descriptor_urls_fixed[of "\<lambda>_. True" sample_document sample_descriptor] sample_loaded by (simp add: list_all_iff)

text \<open>The quality policy of an accepted descriptor is one of the two registered combinations:
  policy 1 without an approval, or policy 2 with the approval path registered for exactly that
  dataset identity, after the path itself was validated. The full year 2024 always needs policy 2.\<close>

theorem descriptor_policy_registered:
  assumes "load_descriptor path_ok document = Inr d"
  shows "(case quality_approval d of
      None \<Rightarrow> quality_policy_version d = cps ''1'' \<and> (d_schema d = V2_SCHEMA \<longrightarrow> dataset_id d \<noteq> ID_2024)
    | Some p \<Rightarrow> quality_policy_version d = cps ''2'' \<and> d_schema d = V2_SCHEMA \<and> path_ok p
        \<and> map_of V2_YEAR_APPROVED_QUALITY_APPROVALS (dataset_id d) = Some p)"
proof -
  have ne: "ID_2024 \<noteq> ID_2024_Q1" "ID_2024 \<notin> set V2_EXTENDED_YEARS" "V1_SCHEMA \<noteq> V2_SCHEMA" by code_simp+
  obtain doc where d: "d_schema d \<in> {V1_SCHEMA, V2_SCHEMA}"
    "policy_approval path_ok (d_schema d) (dataset_id d) (quality_policy_version d)
       (py_get doc ''quality_approval'') = Inr (quality_approval d)"
    by (rule load_descriptor_Inr[OF assms])
  then show ?thesis
    using ne by (cases "quality_approval d")
      (auto simp: policy_approval_def Let_def bindE_require split: if_splits option.splits)
qed

theorem descriptor_policy_registered_witness:
  "quality_approval sample_descriptor = None \<and> quality_policy_version sample_descriptor = cps ''1''"
  using descriptor_policy_registered[of "\<lambda>_. True" sample_document sample_descriptor] sample_loaded
  by simp

text \<open>C5: the rights gate only opens for what the rights record says: a permitted operation is one of
  the registered operations, its recorded state is ALLOWED, or it is an internal operation whose
  state is OWNER_APPROVED_PENDING_COUNSEL. Display, redistribution and commercial use need ALLOWED.\<close>

theorem rights_gate_sound:
  assumes "load_rights_record document = Inr r" "permits r operation"
  shows "operation \<in> set RIGHTS_OPERATIONS
    \<and> (\<exists>doc ops entry. document = PyDict doc \<and> py_get doc ''operations'' = Some (PyDict ops)
        \<and> py_get ops operation = Some (PyDict entry)
        \<and> (py_get entry ''state'' = Some (py_str ''ALLOWED'')
           \<or> operation \<in> set APPROVED_INTERNAL_OPERATIONS
             \<and> py_get entry ''state'' = Some (py_str ''OWNER_APPROVED_PENDING_COUNSEL'')))"
proof -
  obtain doc ops entries where doc: "document = PyDict doc" "py_get doc ''operations'' = Some (PyDict ops)"
    "mapE (load_operation ops) RIGHTS_OPERATIONS = Inr entries" "rr_operations r = entries"
    using assms(1) by (auto simp: load_rights_record_def bindE_require bindE_Inr_iff
        split: pyval.splits option.splits)
  obtain ro where ro: "(operation, ro) \<in> set entries"
    "ro_state ro = ''ALLOWED'' \<or> operation \<in> set APPROVED_INTERNAL_OPERATIONS
       \<and> ro_state ro = ''OWNER_APPROVED_PENDING_COUNSEL''"
    using assms(2) unfolding permits_def doc(4)
    by (auto dest!: map_of_SomeD split: option.splits if_splits)
  obtain name where name: "name \<in> set RIGHTS_OPERATIONS" "load_operation ops name = Inr (operation, ro)"
    using doc(3) ro(1) unfolding mapE_Inr_iff list_all2_conv_all_nth in_set_conv_nth by metis
  obtain entry s ss where e: "py_get ops name = Some (PyDict entry)" "name = operation"
    "filter (\<lambda>s. py_get entry ''state'' = Some (py_str s)) RIGHTS_STATES = s # ss" "ro_state ro = s"
    using name(2) by (auto simp: load_operation_def bindE_require split: option.splits pyval.splits list.splits)
  have "s \<in> set (filter (\<lambda>s. py_get entry ''state'' = Some (py_str s)) RIGHTS_STATES)"
    by (simp only: e(3) list.set_intros)
  then have "py_get entry ''state'' = Some (py_str s)" by simp
  with doc e ro(2) name(1) show ?thesis by auto
qed

definition sample_rights :: pyval where
  "sample_rights = PyDict ((cps ''schema'', py_str RIGHTS_SCHEMA)
     # map (\<lambda>k. (cps k, py_str ''x'')) [''record_id'', ''provider'', ''reviewer'', ''review_date'']
     @ [(cps ''operations'', PyDict (map (\<lambda>op. (cps op, PyDict (
          (cps ''state'', py_str (if op \<in> set APPROVED_INTERNAL_OPERATIONS
                                 then ''OWNER_APPROVED_PENDING_COUNSEL'' else ''UNKNOWN''))
          # map (\<lambda>k. (cps k, py_str ''x'')) [''source_terms'', ''review_date'', ''reviewer'', ''rationale'']))) RIGHTS_OPERATIONS))])"

theorem rights_gate_sound_witness:
  "\<exists>r. load_rights_record sample_rights = Inr r \<and> permits r ''acquire_internal''
     \<and> \<not> permits r ''customer_display'' \<and> ''acquire_internal'' \<in> set RIGHTS_OPERATIONS"
proof -
  have "case load_rights_record sample_rights of Inl _ \<Rightarrow> False
    | Inr r \<Rightarrow> permits r ''acquire_internal'' \<and> \<not> permits r ''customer_display''" by code_simp
  then show ?thesis using rights_gate_sound by (fastforce split: sum.splits)
qed

end
