(* ===== verification/Parsing.thy ===== *)
theory Parsing
  imports Descriptor
begin

text \<open>
  src/quantara/parsing.py: member decoding, Python's csv reader (the state machine of the standard
  library with the default dialect), the numeric and timestamp policies and the row parser. Texts
  are code-point lists; \<open>int(text)\<close> refuses more than 4300 digits as Python 3.11 does. Lemmas: a
  parsed number is the exact value of its text and fits decimal128(38,18); printing and parsing a
  canonical rendering agree; the csv reader reads back what it splits; every accepted row lies in
  the half-open period with a one-minute span.
\<close>

section \<open>Constants and rows\<close>

definition HEADER :: "string list" where
  "HEADER = [''open_time'', ''open'', ''high'', ''low'', ''close'', ''volume'', ''close_time'', ''quote_volume'',
     ''count'', ''taker_buy_volume'', ''taker_buy_quote_volume'', ''ignore'']"

definition INT64_MIN :: int where "INT64_MIN = - (2 ^ 63)"
definition INT64_MAX :: int where "INT64_MAX = 2 ^ 63 - 1"
definition MAX_INTEGER_PLACES :: nat where "MAX_INTEGER_PLACES = 20"
definition MAX_FRACTIONAL_PLACES :: nat where "MAX_FRACTIONAL_PLACES = 18"
definition MAX_TOTAL_FIXED_POINT_DIGITS :: nat where "MAX_TOTAL_FIXED_POINT_DIGITS = 38"

record source_row =
  s_open_time :: int
  s_close_time :: int
  s_open :: dec
  s_high :: dec
  s_low :: dec
  s_close :: dec
  s_base_volume :: dec
  s_quote_volume :: dec
  s_trade_count :: int
  s_taker_base :: dec
  s_taker_quote :: dec
  s_ignore :: ustr

section \<open>Decoding a member\<close>

text \<open>\<open>utf8_decode\<close> is \<open>bytes.decode("utf-8")\<close>: it refuses truncated and overlong sequences,
  surrogates and code points past \<open>0x10FFFF\<close>.\<close>

definition is_cont :: "nat \<Rightarrow> bool" where
  "is_cont b \<longleftrightarrow> 0x80 \<le> b \<and> b < 0xC0"

fun utf8_decode :: "bytes \<Rightarrow> ustr res" where
  "utf8_decode [] = Inr []"
| "utf8_decode (a # r) =
     (if a < 0x80 then bindE (utf8_decode r) (\<lambda>s. Inr (a # s))
      else if a < 0xC2 then Inl PyUnicodeError
      else if a < 0xE0 then
        (case r of b # r' \<Rightarrow>
            if is_cont b then bindE (utf8_decode r') (\<lambda>s. Inr (((a - 0xC0) * 64 + (b - 0x80)) # s))
            else Inl PyUnicodeError
         | _ \<Rightarrow> Inl PyUnicodeError)
      else if a < 0xF0 then
        (case r of b # c # r' \<Rightarrow>
            let u = ((a - 0xE0) * 64 + (b - 0x80)) * 64 + (c - 0x80) in
            if is_cont b \<and> is_cont c \<and> 0x800 \<le> u \<and> \<not> is_surrogate u
            then bindE (utf8_decode r') (\<lambda>s. Inr (u # s)) else Inl PyUnicodeError
         | _ \<Rightarrow> Inl PyUnicodeError)
      else if a < 0xF5 then
        (case r of b # c # d # r' \<Rightarrow>
            let u = (((a - 0xF0) * 64 + (b - 0x80)) * 64 + (c - 0x80)) * 64 + (d - 0x80) in
            if is_cont b \<and> is_cont c \<and> is_cont d \<and> 0x10000 \<le> u \<and> u < 0x110000
            then bindE (utf8_decode r') (\<lambda>s. Inr (u # s)) else Inl PyUnicodeError
         | _ \<Rightarrow> Inl PyUnicodeError)
      else Inl PyUnicodeError)"

definition decode_member :: "bytes \<Rightarrow> ustr res" where
  "decode_member data =
     (if take 3 data = [0xEF, 0xBB, 0xBF] then Inl SourceHeaderMismatch
      else case utf8_decode data of Inl _ \<Rightarrow> Inl SourceHeaderMismatch | Inr s \<Rightarrow> Inr s)"

section \<open>The csv reader\<close>

text \<open>States of the reader of the standard library that the default dialect reaches: comma, double
  quote doubled inside quotes, no escape character, not strict. \<open>EOL\<close> is the end-of-line signal
  the reader feeds itself after the characters of a line.\<close>

datatype csv_state = StartRecord | StartField | InField | InQuotedField | QuoteInQuotedField | EatCrnl

datatype csv_input = Chr nat | EOL

text \<open>A parser: its state, the finished fields and the current field, both in reading order.\<close>

type_synonym csv_parser = "csv_state \<times> ustr list \<times> ustr"

definition CSV_FIELD_LIMIT :: nat where "CSV_FIELD_LIMIT = 131072"

definition is_newline :: "csv_input \<Rightarrow> bool" where
  "is_newline i \<longleftrightarrow> i = Chr 10 \<or> i = Chr 13"

definition csv_add :: "csv_state \<Rightarrow> ustr list \<Rightarrow> ustr \<Rightarrow> nat \<Rightarrow> csv_parser res" where
  "csv_add st fs cur c =
     (if CSV_FIELD_LIMIT \<le> length cur then Inl CsvError else Inr (st, fs, cur @ [c]))"

text \<open>At the start of a field and, for the shared cases, inside an unquoted one.\<close>

definition csv_start_field :: "ustr list \<Rightarrow> ustr \<Rightarrow> csv_input \<Rightarrow> csv_parser res" where
  "csv_start_field fs cur i =
     (if i = EOL then Inr (StartRecord, fs @ [cur], [])
      else if is_newline i then Inr (EatCrnl, fs @ [cur], [])
      else case i of
          Chr c \<Rightarrow> if c = 34 then Inr (InQuotedField, fs, cur)
                   else if c = 44 then Inr (StartField, fs @ [cur], [])
                   else csv_add InField fs cur c
        | EOL \<Rightarrow> Inr (StartRecord, fs @ [cur], []))"

fun csv_step :: "csv_parser \<Rightarrow> csv_input \<Rightarrow> csv_parser res" where
  "csv_step (StartRecord, fs, cur) i =
     (if i = EOL then Inr (StartRecord, fs, cur)
      else if is_newline i then Inr (EatCrnl, fs, cur) else csv_start_field fs cur i)"
| "csv_step (StartField, fs, cur) i = csv_start_field fs cur i"
| "csv_step (InField, fs, cur) EOL = Inr (StartRecord, fs @ [cur], [])"
| "csv_step (InField, fs, cur) (Chr c) =
     (if c = 10 \<or> c = 13 then Inr (EatCrnl, fs @ [cur], [])
      else if c = 44 then Inr (StartField, fs @ [cur], []) else csv_add InField fs cur c)"
| "csv_step (InQuotedField, fs, cur) EOL = Inr (InQuotedField, fs, cur)"
| "csv_step (InQuotedField, fs, cur) (Chr c) =
     (if c = 34 then Inr (QuoteInQuotedField, fs, cur) else csv_add InQuotedField fs cur c)"
| "csv_step (QuoteInQuotedField, fs, cur) EOL = Inr (StartRecord, fs @ [cur], [])"
| "csv_step (QuoteInQuotedField, fs, cur) (Chr c) =
     (if c = 34 then csv_add InQuotedField fs cur c
      else if c = 44 then Inr (StartField, fs @ [cur], [])
      else if c = 10 \<or> c = 13 then Inr (EatCrnl, fs @ [cur], [])
      else csv_add InField fs cur c)"
| "csv_step (EatCrnl, fs, cur) EOL = Inr (StartRecord, fs, cur)"
| "csv_step (EatCrnl, fs, cur) (Chr c) = (if c = 10 \<or> c = 13 then Inr (EatCrnl, fs, cur) else Inl CsvError)"

text \<open>\<open>io.StringIO(text, newline="")\<close> hands out lines with their terminators: a line ends after a
  newline, after a carriage return, or after the pair.\<close>

fun split_lines_from :: "ustr \<Rightarrow> ustr \<Rightarrow> ustr list" where
  "split_lines_from cur [] = (if cur = [] then [] else [cur])"
| "split_lines_from cur (c # cs) =
     (if c = 10 then (cur @ [c]) # split_lines_from [] cs
      else if c = 13 then
        (if cs \<noteq> [] \<and> hd cs = 10 then (cur @ [13, 10]) # split_lines_from [] (tl cs)
         else (cur @ [c]) # split_lines_from [] cs)
      else split_lines_from (cur @ [c]) cs)"

definition split_lines :: "ustr \<Rightarrow> ustr list" where
  "split_lines t = split_lines_from [] t"

text \<open>One record consumes lines until the parser is back at the start; at the end of the input an
  open field is closed. \<open>csv_next\<close> is \<open>next(reader)\<close>: the record with the lines left, or None at
  the end.\<close>

fun csv_record :: "csv_parser \<Rightarrow> ustr list \<Rightarrow> (ustr list \<times> ustr list) option res" where
  "csv_record (st, fs, cur) [] =
     (if cur \<noteq> [] \<or> st = InQuotedField then Inr (Some (fs @ [cur], [])) else Inr None)"
| "csv_record p (l # ls) =
     bindE (foldE csv_step p (map Chr l @ [EOL])) (\<lambda>(st, fs, cur).
     if st = StartRecord then Inr (Some (fs, ls)) else csv_record (st, fs, cur) ls)"

definition csv_next :: "ustr list \<Rightarrow> (ustr list \<times> ustr list) option res" where
  "csv_next ls = csv_record (StartRecord, [], []) ls"

lemma csv_record_shorter: "csv_record p ls = Inr (Some (r, ls')) \<Longrightarrow> ls \<noteq> [] \<Longrightarrow> length ls' < length ls"
proof (induction p ls rule: csv_record.induct)
  case (1 st fs cur)
  then show ?case by simp
next
  case (2 p l ls)
  from "2.prems" obtain st fs cur where step: "foldE csv_step p (map Chr l @ [EOL]) = Inr (st, fs, cur)"
    "(if st = StartRecord then Inr (Some (fs, ls)) else csv_record (st, fs, cur) ls) = Inr (Some (r, ls'))"
    by (auto simp: bindE_Inr_iff)
  show ?case
  proof (cases "st = StartRecord")
    case True
    with step show ?thesis by simp
  next
    case False
    then have "ls \<noteq> [] \<Longrightarrow> length ls' < length ls" using "2.IH" step by simp
    moreover have "ls = [] \<Longrightarrow> ls' = []" using False step by (auto split: if_splits)
    ultimately show ?thesis by fastforce
  qed
qed

section \<open>Numbers\<close>

definition ascii_digits :: "ustr \<Rightarrow> bool" where
  "ascii_digits s \<longleftrightarrow> s \<noteq> [] \<and> list_all (in_range 48 57) s"

definition digits_value :: "ustr \<Rightarrow> nat" where
  "digits_value s = foldl (\<lambda>acc c. 10 * acc + (c - 48)) 0 s"

text \<open>\<open>int(text)\<close> of a text of ASCII digits.\<close>

definition py_int_digits :: "ustr \<Rightarrow> nat res" where
  "py_int_digits s = (if 4300 < length s then Inl PyValueError else Inr (digits_value s))"

definition strip_sign :: "ustr \<Rightarrow> bool \<times> ustr" where
  "strip_sign s = (case s of c # r \<Rightarrow> if c = 45 then (True, r) else if c = 43 then (False, r) else (False, s)
                   | [] \<Rightarrow> (False, []))"

text \<open>\<open>str.partition("."\<close>): the parts around the first dot.\<close>

definition before_dot :: "ustr \<Rightarrow> ustr" where
  "before_dot s = takeWhile (\<lambda>c. c \<noteq> 46) s"

definition after_dot :: "ustr \<Rightarrow> ustr" where
  "after_dot s = drop 1 (dropWhile (\<lambda>c. c \<noteq> 46) s)"

text \<open>\<open>NUMERIC_PATTERN\<close>: an integer without leading zeros and an optional non-empty fraction.\<close>

definition numeric_shape :: "ustr \<Rightarrow> bool" where
  "numeric_shape s \<longleftrightarrow>
     ascii_digits (before_dot s) \<and> (before_dot s = [48] \<or> hd (before_dot s) \<noteq> 48)
     \<and> (46 \<in> set s \<longrightarrow> ascii_digits (after_dot s))"

text \<open>\<open>_SCIENTIFIC_PATTERN\<close>: mantissa, exponent sign and exponent digits.\<close>

definition scientific_parts :: "ustr \<Rightarrow> (bool \<times> ustr \<times> bool \<times> ustr) option" where
  "scientific_parts s =
     (let m = takeWhile (\<lambda>c. c \<noteq> 101 \<and> c \<noteq> 69) s; r = dropWhile (\<lambda>c. c \<noteq> 101 \<and> c \<noteq> 69) s;
          (neg, mant) = strip_sign m; (eneg, edig) = strip_sign (drop 1 r)
      in if r \<noteq> [] \<and> numeric_shape mant \<and> ascii_digits edig then Some (neg, mant, eneg, edig) else None)"

definition expand_scientific :: "ustr \<Rightarrow> ustr option res" where
  "expand_scientific s = (case scientific_parts s of
      None \<Rightarrow> Inr None
    | Some (neg, mant, eneg, edig) \<Rightarrow>
        bindE (py_int_digits edig) (\<lambda>e.
        let digits = before_dot mant @ after_dot mant;
            point = int (length (before_dot mant)) + (if eneg then - int e else int e);
            result = (if int (length digits) \<le> point
                      then digits @ replicate (nat (point - int (length digits))) 48
                      else if point \<le> 0 then [48, 46] @ replicate (nat (- point)) 48 @ digits
                      else take (nat point) digits @ 46 # drop (nat point) digits)
        in Inr (Some ((if neg then [45] else []) @ result))))"

definition lstrip_zeros :: "ustr \<Rightarrow> ustr" where
  "lstrip_zeros s = dropWhile (\<lambda>c. c = 48) s"

definition rstrip_zeros :: "ustr \<Rightarrow> ustr" where
  "rstrip_zeros s = rev (dropWhile (\<lambda>c. c = 48) (rev s))"

text \<open>The policy on a fixed-point text; \<open>Decimal(text)\<close> keeps every digit.\<close>

definition parse_fixed :: "ustr \<Rightarrow> dec res" where
  "parse_fixed s =
     (let ip = before_dot s; fp = after_dot s; places = length (lstrip_zeros ip) in
      if \<not> numeric_shape s then Inl MalformedNumeric
      else if MAX_FRACTIONAL_PLACES < length (rstrip_zeros fp) then Inl DecimalOverflow
      else if MAX_INTEGER_PLACES < places then Inl DecimalOverflow
      else if MAX_TOTAL_FIXED_POINT_DIGITS < places + length fp then Inl DecimalOverflow
      else Inr (Dec False (digits_value (ip @ fp)) (- int (length fp))))"

definition parse_numeric :: "ustr \<Rightarrow> dec res" where
  "parse_numeric s =
     bindE (expand_scientific s) (\<lambda>x. parse_fixed (case x of None \<Rightarrow> s | Some t \<Rightarrow> t))"

definition parse_timestamp_ms :: "ustr \<Rightarrow> int res" where
  "parse_timestamp_ms s =
     bindE (checkE (ascii_digits s) MalformedTimestamp) (\<lambda>_. bindE (py_int_digits s) (\<lambda>n. Inr (int n)))"

text \<open>\<open>SIGNED_INT_PATTERN\<close> and the 64-bit bound.\<close>

definition parse_count :: "ustr \<Rightarrow> int res" where
  "parse_count s =
     (let neg = (s \<noteq> [] \<and> hd s = 45); body = (if neg then tl s else s) in
      bindE (checkE (ascii_digits body) MalformedNumeric) (\<lambda>_.
      bindE (py_int_digits body) (\<lambda>n.
      let v = (if neg then - int n else int n) in
      bindE (checkE (INT64_MIN \<le> v \<and> v \<le> INT64_MAX) MalformedNumeric) (\<lambda>_. Inr v))))"

section \<open>Rows\<close>

definition parse_row :: "int \<Rightarrow> int \<Rightarrow> ustr list \<Rightarrow> source_row res" where
  "parse_row su eu flds = (case flds of
      [f_open_time, f_open, f_high, f_low, f_close, f_volume, f_close_time, f_quote, f_count, f_tb, f_tq, f_ignore] \<Rightarrow>
        bindE (parse_timestamp_ms f_open_time) (\<lambda>open_ms.
        bindE (parse_timestamp_ms f_close_time) (\<lambda>close_ms.
        bindE (checkE (close_ms = open_ms + 59999) MalformedTimestamp) (\<lambda>_.
        bindE (checkE (su \<le> open_ms \<and> open_ms < eu) MalformedTimestamp) (\<lambda>_.
        bindE (parse_count f_count) (\<lambda>n.
        bindE (parse_numeric f_open) (\<lambda>o'. bindE (parse_numeric f_high) (\<lambda>h.
        bindE (parse_numeric f_low) (\<lambda>l. bindE (parse_numeric f_close) (\<lambda>c.
        bindE (parse_numeric f_volume) (\<lambda>v. bindE (parse_numeric f_quote) (\<lambda>q.
        bindE (parse_numeric f_tb) (\<lambda>tb. bindE (parse_numeric f_tq) (\<lambda>tq.
        Inr \<lparr>s_open_time = open_ms, s_close_time = close_ms, s_open = o', s_high = h, s_low = l, s_close = c,
             s_base_volume = v, s_quote_volume = q, s_trade_count = n, s_taker_base = tb,
             s_taker_quote = tq, s_ignore = f_ignore\<rparr>)))))))))))))
    | _ \<Rightarrow> Inl SourceHeaderMismatch)"

text \<open>The data rows, read lazily: a malformed row is reported before a later csv error.\<close>

function parse_data :: "int \<Rightarrow> int \<Rightarrow> ustr list \<Rightarrow> source_row list res" where
  "parse_data su eu ls =
     (if ls = [] then Inr []
      else case csv_next ls of
          Inl e \<Rightarrow> Inl e
        | Inr None \<Rightarrow> Inr []
        | Inr (Some (flds, ls')) \<Rightarrow>
            if flds = [] then parse_data su eu ls'
            else bindE (parse_row su eu flds) (\<lambda>row.
                 bindE (parse_data su eu ls') (\<lambda>rows. Inr (row # rows))))"
  by pat_completeness auto
termination
  by (relation "measure (\<lambda>(su, eu, ls). length ls)") (auto simp: csv_next_def dest: csv_record_shorter)

declare parse_data.simps [simp del]

definition parse_rows :: "ustr \<Rightarrow> dataset_descriptor \<Rightarrow> source_row list res" where
  "parse_rows text' d =
     (let su = start_ms d; eu = end_ms d in
      case csv_next (split_lines text') of
        Inl e \<Rightarrow> Inl e
      | Inr None \<Rightarrow> Inl SourceHeaderMismatch
      | Inr (Some (first, ls)) \<Rightarrow>
          if csv_header_absent d then
            (if first = map cps HEADER then Inl SourceHeaderMismatch
             else if first = [] then parse_data su eu ls
             else bindE (parse_row su eu first) (\<lambda>row.
                  bindE (parse_data su eu ls) (\<lambda>rows. Inr (row # rows))))
          else if first = map cps HEADER then parse_data su eu ls
          else Inl SourceHeaderMismatch)"

section \<open>Digit strings\<close>

lemma digits_value_append: "digits_value (s @ t) = digits_value s * 10 ^ length t + digits_value t"
proof (induction t rule: rev_induct)
  case Nil
  show ?case by (simp add: digits_value_def)
next
  case (snoc c t)
  have "digits_value (s @ t @ [c]) = 10 * digits_value (s @ t) + (c - 48)"
    unfolding digits_value_def append_assoc[symmetric] by simp
  moreover have "digits_value (t @ [c]) = 10 * digits_value t + (c - 48)"
    by (simp add: digits_value_def)
  ultimately show ?case using snoc by (simp add: algebra_simps)
qed

lemma digits_value_zeros [simp]: "digits_value (replicate k 48) = 0"
proof (induction k)
  case 0
  show ?case by (simp add: digits_value_def)
next
  case (Suc k)
  have "digits_value [48] = 0" by (simp add: digits_value_def)
  with Suc digits_value_append[of "[48]" "replicate k 48"] show ?case by simp
qed

lemma digits_value_bound: "list_all (in_range 48 57) s \<Longrightarrow> digits_value s < 10 ^ length s"
proof (induction s rule: rev_induct)
  case Nil
  show ?case by (simp add: digits_value_def)
next
  case (snoc c s)
  then have "digits_value s < 10 ^ length s" "c - 48 < 10" by (auto simp: in_range_def)
  moreover have "digits_value (s @ [c]) = 10 * digits_value s + (c - 48)" by (simp add: digits_value_def)
  ultimately show ?case by simp
qed

lemma digits_value_cps: "digits_value (cps s) = read_nat s"
  unfolding digits_value_def cps_def read_nat_def foldl_map digit_val_def ..

lemma lstrip_zeros_value: "digits_value (lstrip_zeros s) = digits_value s"
proof -
  have "s = takeWhile (\<lambda>c. c = 48) s @ lstrip_zeros s" by (simp add: lstrip_zeros_def)
  moreover have "takeWhile (\<lambda>c. c = 48) s = replicate (length (takeWhile (\<lambda>c. c = 48) s)) 48"
    using set_takeWhileD by (intro replicate_length_same[symmetric]) fastforce
  ultimately have "digits_value s = digits_value (replicate (length (takeWhile (\<lambda>c. c = 48) s)) 48 @ lstrip_zeros s)"
    by metis
  then show ?thesis by (simp add: digits_value_append)
qed

lemma rstrip_zeros_split: "\<exists>k. s = rstrip_zeros s @ replicate k 48"
proof -
  let ?z = "takeWhile (\<lambda>c. c = 48) (rev s)"
  have "rev s = ?z @ dropWhile (\<lambda>c. c = 48) (rev s)" by simp
  then have "s = rstrip_zeros s @ rev ?z" by (metis rev_append rev_rev_ident rstrip_zeros_def)
  moreover have "?z = replicate (length ?z) 48"
    using set_takeWhileD by (intro replicate_length_same[symmetric]) fastforce
  ultimately show ?thesis by (metis rev_replicate)
qed

lemma lstrip_zeros_subset: "set (lstrip_zeros s) \<subseteq> set s"
  by (auto simp: lstrip_zeros_def dest: set_dropWhileD)

section \<open>The value of a numeric text\<close>

text \<open>The number a fixed-point text denotes, and a scientific one; stated without the expansion.\<close>

definition fixed_value :: "ustr \<Rightarrow> rat" where
  "fixed_value s = of_nat (digits_value (before_dot s @ after_dot s)) / 10 ^ length (after_dot s)"

definition text_value :: "ustr \<Rightarrow> rat" where
  "text_value s = (case scientific_parts s of
      None \<Rightarrow> fixed_value s
    | Some (neg, mant, eneg, edig) \<Rightarrow>
        (if neg then - 1 else 1) * fixed_value mant
        * 10 powi (if eneg then - int (digits_value edig) else int (digits_value edig)))"

lemma dot_split: "46 \<notin> set a \<Longrightarrow> before_dot (a @ 46 # b) = a \<and> after_dot (a @ 46 # b) = b"
  unfolding before_dot_def after_dot_def
  by (subst takeWhile_append2, blast, subst dropWhile_append2, blast) simp

lemma no_dot: "46 \<notin> set a \<Longrightarrow> before_dot a = a \<and> after_dot a = []"
proof -
  assume "46 \<notin> set a"
  then have "takeWhile (\<lambda>c. c \<noteq> 46) a = a" "dropWhile (\<lambda>c. c \<noteq> 46) a = []"
    by (auto simp: takeWhile_eq_all_conv dropWhile_eq_Nil_conv)
  then show ?thesis unfolding before_dot_def after_dot_def by (simp only: drop_Nil simp_thms)
qed

lemma digits_no_dot: "list_all (in_range 48 57) s \<Longrightarrow> 46 \<notin> set s"
  by (auto simp: list_all_iff in_range_def)

lemma numeric_shape_digits:
  "numeric_shape s \<Longrightarrow> list_all (in_range 48 57) (before_dot s) \<and> list_all (in_range 48 57) (after_dot s)"
proof (cases "46 \<in> set s")
  case False
  assume "numeric_shape s"
  with False no_dot[OF False] show ?thesis by (simp add: numeric_shape_def ascii_digits_def)
qed (simp add: numeric_shape_def ascii_digits_def)

lemma expand_value:
  assumes "numeric_shape mant" and "point = int (length (before_dot mant)) + e"
    and "digits = before_dot mant @ after_dot mant"
    and "t = (if int (length digits) \<le> point then digits @ replicate (nat (point - int (length digits))) 48
              else if point \<le> 0 then [48, 46] @ replicate (nat (- point)) 48 @ digits
              else take (nat point) digits @ 46 # drop (nat point) digits)"
  shows "fixed_value t = fixed_value mant * 10 powi e"
proof -
  let ?b = "length (before_dot mant)" and ?a = "length (after_dot mant)" and ?v = "digits_value digits"
  have dig: "list_all (in_range 48 57) digits" using numeric_shape_digits[OF assms(1)] assms(3) by simp
  have zeros: "list_all (in_range 48 57) (replicate k 48)" for k by (simp add: in_range_def list_all_iff)
  have len: "length digits = ?b + ?a" using assms(3) by simp
  have mant: "fixed_value mant = of_nat ?v * 10 powi (- int ?a)"
    using assms(3) by (simp add: fixed_value_def power_int_minus field_simps)
  have pa: "(10 :: rat) powi (- int ?a + e) = 10 powi (- int ?a) * 10 powi e"
    by (rule power_int_add) simp
  consider "int (length digits) \<le> point" | "\<not> int (length digits) \<le> point" "point \<le> 0"
    | "\<not> int (length digits) \<le> point" "0 < point" by linarith
  then show ?thesis
  proof cases
    case 1
    define k where "k = nat (point - int (length digits))"
    then have t: "t = digits @ replicate k 48" and k: "int k = e - int ?a"
      using 1 assms(2,4) len by auto
    have "46 \<notin> set t" using digits_no_dot dig zeros[of k] by (simp add: t)
    then have "fixed_value t = of_nat ?v * 10 powi int k"
      using no_dot[of t] by (simp add: fixed_value_def t digits_value_append)
    then show ?thesis unfolding mant k by (simp add: power_int_diff power_int_minus field_simps)
  next
    case 2
    define k where "k = nat (- point)"
    then have t: "t = [48] @ 46 # (replicate k 48 @ digits)" and k: "int k = - int ?b - e"
      using 2 assms(2,4) by auto
    have "before_dot t = [48]" "after_dot t = replicate k 48 @ digits"
      using dot_split[of "[48]"] by (simp_all add: t)
    moreover have "digits_value ([48] @ replicate k 48 @ digits) = ?v"
      using digits_value_append[of "replicate (Suc k) 48" digits] digits_value_zeros[of "Suc k"] by simp
    moreover have "(10 :: rat) powi (- int (k + length digits)) = 1 / 10 ^ (k + length digits)"
      by (simp only: power_int_minus power_int_of_nat divide_inverse mult_1)
    ultimately have "fixed_value t = of_nat ?v * 10 powi (- int (k + length digits))"
      by (simp add: fixed_value_def)
    moreover have "- int (k + length digits) = - int ?a + e" using k len by simp
    ultimately show ?thesis unfolding mant by (simp only: pa mult.assoc)
  next
    case 3
    then have t: "t = take (nat point) digits @ 46 # drop (nat point) digits" using assms(4) by simp
    have "46 \<notin> set (take (nat point) digits)" using digits_no_dot[OF dig] by (meson in_set_takeD)
    from dot_split[OF this] have "before_dot t @ after_dot t = digits" "after_dot t = drop (nat point) digits"
      by (simp_all add: t)
    then have "fixed_value t = of_nat ?v * 10 powi (- int (length digits - nat point))"
      by (simp add: fixed_value_def power_int_minus field_simps)
    moreover have "- int (length digits - nat point) = - int ?a + e" using 3 assms(2) len by auto
    ultimately show ?thesis unfolding mant by (simp only: pa mult.assoc)
  qed
qed

section \<open>What an accepted number is\<close>

lemma parse_fixed_spec:
  assumes "parse_fixed s = Inr d"
  shows "numeric_shape s \<and> d = Dec False (digits_value (before_dot s @ after_dot s)) (- int (length (after_dot s)))
    \<and> dval d = fixed_value s \<and> dval d < 10 ^ 20 \<and> dval d * 10 ^ 18 \<in> \<int> \<and> dec_sane d"
proof -
  let ?ip = "before_dot s" and ?fp = "after_dot s"
  have ok: "numeric_shape s" "length (rstrip_zeros ?fp) \<le> 18" "length (lstrip_zeros ?ip) \<le> 20"
    "length (lstrip_zeros ?ip) + length ?fp \<le> 38"
    and d: "d = Dec False (digits_value (?ip @ ?fp)) (- int (length ?fp))"
    using assms by (auto simp: parse_fixed_def Let_def MAX_FRACTIONAL_PLACES_def MAX_INTEGER_PLACES_def
        MAX_TOTAL_FIXED_POINT_DIGITS_def split: if_splits)
  have val: "dval d = fixed_value s"
    by (simp add: d dval_def fixed_value_def power_int_minus field_simps)
  have dig: "list_all (in_range 48 57) ?ip" "list_all (in_range 48 57) ?fp"
    using numeric_shape_digits[OF ok(1)] by blast+
  have "list_all (in_range 48 57) (lstrip_zeros ?ip)"
    using dig(1) lstrip_zeros_subset by (auto simp: list_all_iff)
  then have "digits_value ?ip < 10 ^ length (lstrip_zeros ?ip)"
    using digits_value_bound[of "lstrip_zeros ?ip"] by (simp add: lstrip_zeros_value)
  then have ip: "digits_value ?ip + 1 \<le> 10 ^ length (lstrip_zeros ?ip)" by simp
  have fp: "digits_value ?fp < 10 ^ length ?fp" using digits_value_bound[OF dig(2)] .
  have coef: "digits_value (?ip @ ?fp) < 10 ^ (length (lstrip_zeros ?ip) + length ?fp)"
  proof -
    have "digits_value (?ip @ ?fp) < (digits_value ?ip + 1) * 10 ^ length ?fp"
      using fp by (simp add: digits_value_append)
    also have "\<dots> \<le> 10 ^ length (lstrip_zeros ?ip) * 10 ^ length ?fp" using ip by (rule mult_le_mono1)
    finally show ?thesis by (simp add: power_add)
  qed
  have "dval d < 10 ^ length (lstrip_zeros ?ip)"
  proof -
    have "(of_nat (digits_value (?ip @ ?fp)) :: rat) < of_nat (10 ^ (length (lstrip_zeros ?ip) + length ?fp))"
      using coef by (simp only: of_nat_less_iff)
    then show ?thesis by (simp add: val fixed_value_def power_add pos_divide_less_eq)
  qed
  also have "(10 :: rat) ^ length (lstrip_zeros ?ip) \<le> 10 ^ 20" using ok(3) by (intro power_increasing) auto
  finally have bound: "dval d < 10 ^ 20" .
  obtain k where k: "?fp = rstrip_zeros ?fp @ replicate k 48" using rstrip_zeros_split by blast
  then have kl: "length ?fp = length (rstrip_zeros ?fp) + k" by (metis length_append length_replicate)
  have "digits_value (?ip @ ?fp) = digits_value (?ip @ rstrip_zeros ?fp) * 10 ^ k"
    by (subst k, subst append_assoc[symmetric], subst digits_value_append) simp
  then have "dval d = of_nat (digits_value (?ip @ rstrip_zeros ?fp)) / 10 ^ length (rstrip_zeros ?fp)"
    by (simp add: val fixed_value_def kl power_add)
  moreover have "(10 :: rat) ^ 18 = 10 ^ length (rstrip_zeros ?fp) * 10 ^ (18 - length (rstrip_zeros ?fp))"
    unfolding power_add[symmetric] using ok(2) by simp
  ultimately have "dval d * 10 ^ 18 = of_nat (digits_value (?ip @ rstrip_zeros ?fp)) / 10 ^ length (rstrip_zeros ?fp)
      * (10 ^ length (rstrip_zeros ?fp) * 10 ^ (18 - length (rstrip_zeros ?fp)))"
    by (simp only:)
  then have "dval d * 10 ^ 18 = of_nat (digits_value (?ip @ rstrip_zeros ?fp) * 10 ^ (18 - length (rstrip_zeros ?fp)))"
    by simp
  then have int: "dval d * 10 ^ 18 \<in> \<int>" by (metis Ints_of_nat)
  have "ndigits (dcoef d) \<le> 39"
  proof -
    have "(10 :: nat) ^ (length (lstrip_zeros ?ip) + length ?fp) \<le> 10 ^ 39"
      using ok(4) by (intro power_increasing) auto
    with coef have "dcoef d < 10 ^ 39" by (simp add: d)
    then show ?thesis by (simp add: ndigits_le_iff)
  qed
  moreover have "\<bar>dexp d\<bar> \<le> 38" using ok(4) by (simp add: d)
  ultimately have "dec_sane d" by (simp add: dec_sane_def)
  with ok(1) d val bound int show ?thesis by blast
qed

lemma parse_numeric_spec:
  assumes "parse_numeric s = Inr d"
  shows "dval d = text_value s \<and> \<not> dneg d \<and> dval d < 10 ^ 20 \<and> dval d * 10 ^ 18 \<in> \<int> \<and> dec_sane d"
proof (cases "scientific_parts s")
  case None
  then have "parse_fixed s = Inr d" using assms by (simp add: parse_numeric_def expand_scientific_def)
  from parse_fixed_spec[OF this] None show ?thesis by (auto simp: text_value_def)
next
  case (Some p)
  obtain neg mant eneg edig where p: "p = (neg, mant, eneg, edig)" by (cases p) auto
  have mant: "numeric_shape mant"
    using Some p by (auto simp: scientific_parts_def Let_def split: prod.splits if_splits)
  define e where "e = (if eneg then - int (digits_value edig) else int (digits_value edig))"
  define digits where "digits = before_dot mant @ after_dot mant"
  define point where "point = int (length (before_dot mant)) + e"
  define t where "t = (if int (length digits) \<le> point then digits @ replicate (nat (point - int (length digits))) 48
              else if point \<le> 0 then [48, 46] @ replicate (nat (- point)) 48 @ digits
              else take (nat point) digits @ 46 # drop (nat point) digits)"
  have "parse_fixed ((if neg then [45] else []) @ t) = Inr d"
    using assms by (auto simp: parse_numeric_def expand_scientific_def Some p py_int_digits_def Let_def
        t_def point_def digits_def e_def split: if_splits)
  moreover from this have "\<not> neg"
  proof (rule contrapos_pn)
    assume neg
    have "before_dot (45 # t) = 45 # before_dot t" by (simp add: before_dot_def)
    then have "\<not> numeric_shape (45 # t)" by (simp add: numeric_shape_def ascii_digits_def in_range_def)
    with \<open>neg\<close> show "parse_fixed ((if neg then [45] else []) @ t) \<noteq> Inr d" by (simp add: parse_fixed_def Let_def)
  qed
  ultimately have f: "parse_fixed t = Inr d" "\<not> neg" by simp_all
  have "fixed_value t = fixed_value mant * 10 powi e"
    by (rule expand_value[OF mant point_def digits_def t_def])
  with parse_fixed_spec[OF f(1)] f(2) show ?thesis by (auto simp: text_value_def Some p e_def)
qed

section \<open>Reading back a rendering\<close>

lemma cps_digits: "\<forall>c \<in> set s. is_digit c \<Longrightarrow> list_all (in_range 48 57) (cps s)"
  by (auto simp: cps_def list_all_iff is_digit_def in_range_def)

lemma parse_q18_text:
  assumes "m < 10 ^ 38"
  shows "parse_numeric (cps (q18_text (int m))) = Inr (Dec False m (- 18))"
proof -
  define D where "D = rjust19 (show_nat m)"
  define ip where "ip = cps (take (length D - 18) D)"
  define fp where "fp = cps (drop (length D - 18) D)"
  have text': "cps (q18_text (int m)) = ip @ 46 # fp"
    by (simp add: q18_text_def q18_layout_def D_def ip_def fp_def Let_def cps_def)
  have sn: "\<forall>c \<in> set (show_nat m). is_digit c" by (rule show_nat_digits)
  then have "\<forall>c \<in> set D. is_digit c" by (auto simp: D_def rjust19_def is_digit_def)
  then have dig: "list_all (in_range 48 57) ip" "list_all (in_range 48 57) fp"
    unfolding ip_def fp_def by (auto intro!: cps_digits dest: in_set_takeD in_set_dropD)
  have len: "19 \<le> length D" "length D \<le> 38"
    using ndigits_le_iff[of 38 m] assms by (auto simp: D_def rjust19_def length_show_nat)
  have lens: "length fp = 18" "length ip = length D - 18" using len by (simp_all add: ip_def fp_def cps_def)
  have nz: "ip = [48] \<or> hd ip \<noteq> 48"
  proof (cases "length (show_nat m) \<le> 18")
    case True
    then have "D = CHR ''0'' # replicate (18 - length (show_nat m)) (CHR ''0'') @ show_nat m" "length D = 19"
      by (simp_all add: D_def rjust19_def Suc_diff_le flip: replicate_Suc)
    then show ?thesis by (simp add: ip_def cps_def)
  next
    case False
    then have "D = show_nat m" by (simp add: D_def rjust19_def)
    moreover have "0 < m" using False by (cases "m = 0") (simp_all add: show_nat.simps)
    ultimately have "hd D \<noteq> CHR ''0''" using show_nat_hd by simp
    moreover have "hd ip = of_char (hd D)" using len unfolding ip_def cps_def
      by (cases D; cases "length D - 18") auto
    moreover have "(of_char (hd D) :: nat) = of_char (CHR ''0'') \<longleftrightarrow> hd D = CHR ''0''" by (rule of_char_eq_iff)
    ultimately show ?thesis by simp
  qed
  have bd: "before_dot (ip @ 46 # fp) = ip" "after_dot (ip @ 46 # fp) = fp"
    using dot_split[OF digits_no_dot[OF dig(1)]] by blast+
  have shape: "numeric_shape (ip @ 46 # fp)"
    using bd dig nz lens len by (auto simp: numeric_shape_def ascii_digits_def)
  have "\<forall>c \<in> set (ip @ 46 # fp). c \<noteq> 101 \<and> c \<noteq> 69"
    using dig by (auto simp: list_all_iff in_range_def)
  then have none: "scientific_parts (ip @ 46 # fp) = None"
    by (auto simp: scientific_parts_def Let_def dropWhile_eq_Nil_conv split: prod.splits)
  have "length (rstrip_zeros fp) \<le> 18" using lens(1) rstrip_zeros_split[of fp] by (metis le_add1 length_append)
  moreover have "length (lstrip_zeros ip) \<le> length ip" by (simp add: lstrip_zeros_def length_dropWhile_le)
  moreover have "digits_value (ip @ fp) = m"
  proof -
    have "ip @ fp = cps D" by (simp add: ip_def fp_def cps_def flip: map_append)
    then show ?thesis
      using rjust19_nat[of m] by (auto simp: digits_value_cps D_def read_nat_append)
  qed
  ultimately show ?thesis
    using shape lens len unfolding text'
    by (simp add: parse_numeric_def expand_scientific_def none parse_fixed_def bd Let_def
        MAX_FRACTIONAL_PLACES_def MAX_INTEGER_PLACES_def MAX_TOTAL_FIXED_POINT_DIGITS_def)
qed

section \<open>The csv reader on plain lines\<close>

text \<open>A field that needs no quoting.\<close>

definition plain_field :: "ustr \<Rightarrow> bool" where
  "plain_field f \<longleftrightarrow> list_all (\<lambda>c. c \<notin> {10, 13, 34, 44}) f \<and> length f \<le> CSV_FIELD_LIMIT"

definition csv_line :: "ustr list \<Rightarrow> ustr" where
  "csv_line flds = join [44] flds @ [10]"

lemma csv_in_field:
  assumes "list_all (\<lambda>c. c \<notin> {10, 13, 34, 44}) f" "length cur + length f \<le> CSV_FIELD_LIMIT"
  shows "foldE csv_step (InField, fs, cur) (map Chr f) = Inr (InField, fs, cur @ f)"
  using assms by (induction f arbitrary: cur) (auto simp: csv_add_def)

text \<open>After a separator or at the start of the line.\<close>

lemma csv_field:
  assumes "plain_field f"
  shows "\<exists>st. foldE csv_step (StartField, fs, []) (map Chr f) = Inr (st, fs, f)
    \<and> (if f = [] then st = StartField else st = InField)"
proof (cases f)
  case (Cons c r)
  then have "csv_step (StartField, fs, []) (Chr c) = Inr (InField, fs, [c])"
    using assms by (auto simp: csv_start_field_def is_newline_def csv_add_def plain_field_def CSV_FIELD_LIMIT_def)
  with csv_in_field[of r "[c]" fs] Cons assms show ?thesis by (auto simp: plain_field_def)
qed simp

lemma csv_close:
  assumes "if f = [] then st = StartField else st = InField"
  shows "csv_step (st, fs, f) (Chr 44) = Inr (StartField, fs @ [f], [])"
    and "foldE csv_step (st, fs, f) [Chr 10, EOL] = Inr (StartRecord, fs @ [f], [])"
  using assms by (auto simp: csv_start_field_def is_newline_def split: if_splits)

lemma csv_fields:
  assumes "list_all plain_field flds" "flds \<noteq> []"
  shows "foldE csv_step (StartField, fs, []) (map Chr (csv_line flds) @ [EOL]) = Inr (StartRecord, fs @ flds, [])"
  using assms
proof (induction flds arbitrary: fs)
  case (Cons f flds)
  then obtain st where st: "foldE csv_step (StartField, fs, []) (map Chr f) = Inr (st, fs, f)"
    "if f = [] then st = StartField else st = InField"
    using csv_field[of f fs] by auto
  show ?case
  proof (cases "flds = []")
    case True
    then have "map Chr (csv_line (f # flds)) @ [EOL] = map Chr f @ [Chr 10, EOL]" by (simp add: csv_line_def)
    then show ?thesis using st(1) csv_close(2)[OF st(2)] True by (simp only: foldE_append bindE.simps append_Nil2)
  next
    case False
    then have "map Chr (csv_line (f # flds)) @ [EOL] = map Chr f @ Chr 44 # (map Chr (csv_line flds) @ [EOL])"
      by (simp add: csv_line_def join_Cons)
    then show ?thesis
      using st(1) csv_close(1)[OF st(2)] Cons.IH[of "fs @ [f]"] Cons.prems False
      by (simp add: foldE_append del: csv_step.simps)
  qed
qed simp

lemma csv_next_line:
  assumes "list_all plain_field flds" "flds \<noteq> []" "flds \<noteq> [[]]"
  shows "csv_next (csv_line flds # ls) = Inr (Some (flds, ls))"
proof -
  obtain c r where line: "map Chr (csv_line flds) @ [EOL] = Chr c # r" "c \<noteq> 10" "c \<noteq> 13"
  proof (cases flds)
    case (Cons f fs)
    show ?thesis
    proof (cases f)
      case Nil
      with Cons assms(3) show ?thesis by (intro that[of 44]) (auto simp: csv_line_def join_Cons)
    next
      case (Cons d ds)
      with \<open>flds = f # fs\<close> assms(1) show ?thesis
        by (intro that[of d]) (auto simp: csv_line_def join_Cons plain_field_def)
    qed
  qed (use assms(2) in simp)
  then have "csv_step (StartRecord, [], []) (Chr c) = csv_step (StartField, [], []) (Chr c)"
    by (simp add: is_newline_def)
  then have "foldE csv_step (StartRecord, [], []) (map Chr (csv_line flds) @ [EOL]) = Inr (StartRecord, flds, [])"
    using csv_fields[OF assms(1,2), of "[]"] unfolding line(1) by simp
  then show ?thesis unfolding csv_next_def csv_record.simps by simp
qed

lemma split_lines_plain:
  "list_all (\<lambda>c. c \<noteq> 10 \<and> c \<noteq> 13) l \<Longrightarrow> split_lines_from cur (l @ 10 # t) = (cur @ l @ [10]) # split_lines_from [] t"
  by (induction l arbitrary: cur) auto

lemma split_lines_csv:
  assumes "\<forall>flds \<in> set rows. list_all plain_field flds"
  shows "split_lines (concat (map csv_line rows)) = map csv_line rows"
  using assms
proof (induction rows)
  case Nil
  show ?case by (simp add: split_lines_def)
next
  case (Cons flds rows)
  have "list_all (\<lambda>c. c \<noteq> 10 \<and> c \<noteq> 13) (join [44] flds)"
  proof -
    have "list_all plain_field flds" using Cons.prems by simp
    then have "\<forall>f \<in> set flds. \<forall>c \<in> set f. c \<noteq> 10 \<and> c \<noteq> 13" by (auto simp: list_all_iff plain_field_def)
    then show ?thesis using set_join[of "[44]" flds] by (fastforce simp: list_all_iff)
  qed
  from split_lines_plain[OF this, of "[]" "concat (map csv_line rows)"]
  have "split_lines_from [] (csv_line flds @ concat (map csv_line rows))
      = csv_line flds # split_lines_from [] (concat (map csv_line rows))"
    by (simp add: csv_line_def[of flds])
  with Cons show ?case by (simp add: split_lines_def)
qed

section \<open>Accepted rows\<close>

text \<open>A number the storage type decimal128(38,18) holds exactly.\<close>

definition dec_in_policy :: "dec \<Rightarrow> bool" where
  "dec_in_policy d \<longleftrightarrow> \<not> dneg d \<and> dval d < 10 ^ 20 \<and> dval d * 10 ^ 18 \<in> \<int> \<and> dec_sane d"

definition source_decs :: "source_row \<Rightarrow> dec list" where
  "source_decs r = [s_open r, s_high r, s_low r, s_close r, s_base_volume r, s_quote_volume r, s_taker_base r, s_taker_quote r]"

definition row_valid :: "int \<Rightarrow> int \<Rightarrow> source_row \<Rightarrow> bool" where
  "row_valid su eu r \<longleftrightarrow> su \<le> s_open_time r \<and> s_open_time r < eu \<and> s_close_time r = s_open_time r + 59999
     \<and> INT64_MIN \<le> s_trade_count r \<and> s_trade_count r \<le> INT64_MAX \<and> (\<forall>d \<in> set (source_decs r). dec_in_policy d)"

lemma parse_numeric_in_policy: "parse_numeric s = Inr d \<Longrightarrow> dec_in_policy d"
  unfolding dec_in_policy_def by (drule parse_numeric_spec) blast

lemma parse_count_bounds: "parse_count s = Inr v \<Longrightarrow> INT64_MIN \<le> v \<and> v \<le> INT64_MAX"
  by (auto simp: parse_count_def Let_def bindE_Inr_iff res_simps)

lemma parse_row_valid:
  assumes "parse_row su eu flds = Inr r"
  shows "row_valid su eu r"
proof -
  have "length flds = 12"
    using assms by (auto simp: parse_row_def split: list.splits)
  then obtain a b c d e f g h i j k l where flds: "flds = [a, b, c, d, e, f, g, h, i, j, k, l]"
    by (auto simp: numeral_eq_Suc length_Suc_conv)
  from assms[unfolded parse_row_def flds] show ?thesis
    by (auto simp: bindE_Inr_iff res_simps row_valid_def source_decs_def
        dest!: parse_numeric_in_policy parse_count_bounds)
qed

lemma parse_data_valid: "parse_data su eu ls = Inr rows \<Longrightarrow> \<forall>r \<in> set rows. row_valid su eu r"
proof (induction su eu ls arbitrary: rows rule: parse_data.induct)
  case (1 su eu ls)
  show ?case
  proof (cases "ls = []")
    case True
    with "1.prems" show ?thesis by (simp add: parse_data.simps)
  next
    case False
    with "1.prems" consider "rows = []"
      | flds ls' where "csv_next ls = Inr (Some (flds, ls'))" "flds = []" "parse_data su eu ls' = Inr rows"
      | flds ls' row rows' where "csv_next ls = Inr (Some (flds, ls'))" "flds \<noteq> []"
          "parse_row su eu flds = Inr row" "parse_data su eu ls' = Inr rows'" "rows = row # rows'"
      by (auto simp: parse_data.simps[of su eu ls] bindE_Inr_iff split: sum.splits option.splits if_splits)
    then show ?thesis
    proof cases
      case 2
      then show ?thesis using "1.IH"(1)[OF False] by simp
    next
      case 3
      then show ?thesis using "1.IH"(2)[OF False] parse_row_valid by simp
    qed simp
  qed
qed

lemma parse_data_lines:
  assumes "\<forall>flds \<in> set rows. list_all plain_field flds \<and> length flds = 12"
  shows "parse_data su eu (map csv_line rows) = mapE (parse_row su eu) rows"
  using assms
proof (induction rows)
  case Nil
  show ?case by (simp add: parse_data.simps)
next
  case (Cons flds rows)
  then have "csv_next (csv_line flds # map csv_line rows) = Inr (Some (flds, map csv_line rows))"
    by (intro csv_next_line) auto
  moreover have "flds \<noteq> []" using Cons.prems by auto
  ultimately show ?case using Cons by (simp add: parse_data.simps[of su eu "_ # _"])
qed

section \<open>UTF-8 decoding\<close>

lemma utf8_decode_char:
  assumes "scalar_value c"
  shows "utf8_decode (utf8_char c @ x) = bindE (utf8_decode x) (\<lambda>s. Inr (c # s))"
proof -
  have c: "c < 0x110000" "\<not> is_surrogate c" using assms by (simp_all add: scalar_value_def)
  have d1: "c div 4096 = c div 64 div 64" and d2: "c div 262144 = c div 64 div 64 div 64"
    by (simp_all flip: div_mult2_eq)
  have e: "c div 64 * 64 + c mod 64 = c" "c div 64 div 64 * 64 + c div 64 mod 64 = c div 64"
    "c div 64 div 64 div 64 * 64 + c div 64 div 64 mod 64 = c div 64 div 64"
    by (rule div_mult_mod_eq)+
  consider "c < 0x80" | "0x80 \<le> c" "c < 0x800" | "0x800 \<le> c" "c < 0x10000" | "0x10000 \<le> c"
    by linarith
  then show ?thesis
  proof cases
    case 2
    then have "c div 64 < 32" "2 \<le> c div 64" by (simp_all add: less_mult_imp_div_less div_le_mono[of 128 c 64, simplified])
    with 2 e show ?thesis by (simp add: utf8_char_def is_cont_def)
  next
    case 3
    then have "c div 64 div 64 < 16" by (simp add: less_mult_imp_div_less flip: div_mult2_eq)
    with 3 e c show ?thesis by (simp add: utf8_char_def d1 is_cont_def Let_def)
  next
    case 4
    have lt: "c div 64 div 64 div 64 < 5" using c(1) by (simp add: less_mult_imp_div_less flip: div_mult2_eq)
    have eq: "4096 * (c div 64 div 64) + c div 64 mod 64 * 64 + c mod 64 = c" using e by linarith
    show ?thesis using 4 e c lt
      by (simp add: utf8_char_def d1 d2 is_cont_def Let_def) (simp only: eq simp_thms if_True)
  qed (simp add: utf8_char_def)
qed

section \<open>Properties\<close>

text \<open>Decoding a member inverts UTF-8 encoding on every text of Unicode scalar values, except that
  a leading byte-order mark is refused.\<close>

theorem decode_member_roundtrip:
  assumes "list_all scalar_value s" "utf8_encode s = Inr b"
  shows "decode_member b = (if take 3 b = [0xEF, 0xBB, 0xBF] then Inl SourceHeaderMismatch else Inr s)"
proof -
  have "utf8_decode (concat (map utf8_char s)) = Inr s" using assms(1)
  proof (induction s)
    case (Cons c s)
    then show ?case using utf8_decode_char[of c "concat (map utf8_char s)"] by simp
  qed simp
  then show ?thesis using assms(2) by (auto simp: decode_member_def utf8_encode_def split: if_splits)
qed

theorem decode_member_roundtrip_witness:
  "decode_member [0xE2, 0x82, 0xAC, 0x31] = Inr [0x20AC, 0x31]"
proof -
  have "list_all scalar_value [0x20AC, 0x31]" "utf8_encode [0x20AC, 0x31] = Inr [0xE2, 0x82, 0xAC, 0x31]" by code_simp+
  from decode_member_roundtrip[OF this] show ?thesis by simp
qed

text \<open>C6: a number is either refused or parsed to exactly the value its text denotes, in fixed-point
  and in scientific notation alike: it is never rounded, and it always fits decimal128(38,18):
  non-negative, below 10^20 and a multiple of 1E-18.\<close>

theorem parse_numeric_exact:
  assumes "parse_numeric s = Inr d"
  shows "dval d = text_value s \<and> 0 \<le> dval d \<and> dval d < 10 ^ 20 \<and> dval d * 10 ^ 18 \<in> \<int>"
proof -
  have "0 \<le> dval d" using parse_numeric_spec[OF assms] dval_nonneg_iff[of d] by blast
  with parse_numeric_spec[OF assms] show ?thesis by blast
qed

theorem parse_numeric_exact_witness:
  "text_value (cps ''8.4E-7'') = dval (Dec False 84 (- 8)) \<and> dval (Dec False 84 (- 8)) < 10 ^ 20"
proof -
  have "parse_numeric (cps ''8.4E-7'') = Inr (Dec False 84 (- 8))" by code_simp
  from parse_numeric_exact[OF this] show ?thesis by simp
qed

text \<open>C7: an accepted number survives the round trip through its canonical rendering: it always has
  an 18-digit rendering, the parser accepts that text again, and the value is the same.\<close>

theorem numeric_render_roundtrip:
  assumes "parse_numeric s = Inr d"
  shows "\<exists>t d'. render_decimal_18_python d = Inr t \<and> parse_numeric (cps t) = Inr d' \<and> dval d' = dval d"
proof -
  have d: "\<not> dneg d" "dval d < 10 ^ 20" "dval d * 10 ^ 18 \<in> \<int>" "dec_sane d"
    using parse_numeric_spec[OF assms] by blast+
  obtain z where z: "dval d * 10 ^ 18 = of_int z" using d(3) by (rule Ints_cases)
  have "0 \<le> dval d" using d(1) by (simp add: dval_nonneg_iff)
  then have "0 \<le> (of_int z :: rat)" unfolding z[symmetric] by simp
  then obtain m where m: "z = int m" using nonneg_int_cases by auto
  have "dval d * 10 ^ 18 < 10 ^ 20 * 10 ^ 18" using d(2) by simp
  then have "(of_nat m :: rat) < of_nat (10 ^ 38)" unfolding z m by simp
  then have "m < 10 ^ 38" by (simp only: of_nat_less_iff)
  moreover have "int_printable (int m)" using \<open>m < 10 ^ 38\<close> by (intro int_printable_small) simp
  then have "render_decimal_18_python d = Inr (q18_text (int m))"
    using d(3) unfolding render_decimal_18_unfold[OF d(4)] z m floor_of_int by simp
  moreover have "dval (Dec False m (- 18)) = dval d"
    using z by (simp add: dval_Dec m power_int_minus field_simps)
  ultimately show ?thesis using parse_q18_text by metis
qed

theorem numeric_render_roundtrip_witness:
  "\<exists>t d'. render_decimal_18_python (Dec False 1250 (- 2)) = Inr t \<and> parse_numeric (cps t) = Inr d' \<and> dval d' = 25 / 2"
proof -
  have "parse_numeric (cps ''12.50'') = Inr (Dec False 1250 (- 2))" by code_simp
  from numeric_render_roundtrip[OF this] show ?thesis by (simp add: dval_def power_int_minus)
qed

text \<open>On a member whose lines are comma-joined plain fields under the exact header, the csv reader
  and the row loop do nothing but apply the row parser to each line in order; the first malformed
  row is the error.\<close>

theorem parse_rows_of_lines:
  assumes "\<forall>flds \<in> set rows. list_all plain_field flds \<and> length flds = 12" "\<not> csv_header_absent d"
  shows "parse_rows (concat (map csv_line (map cps HEADER # rows))) d = mapE (parse_row (start_ms d) (end_ms d)) rows"
proof -
  have h: "list_all plain_field (map cps HEADER)" "map cps HEADER \<noteq> []" "map cps HEADER \<noteq> [[]]" by code_simp+
  have "split_lines (concat (map csv_line (map cps HEADER # rows))) = csv_line (map cps HEADER) # map csv_line rows"
    using split_lines_csv[of "map cps HEADER # rows"] assms(1) h(1) by simp
  moreover have "csv_next (csv_line (map cps HEADER) # map csv_line rows) = Inr (Some (map cps HEADER, map csv_line rows))"
    by (rule csv_next_line[OF h])
  ultimately show ?thesis
    using parse_data_lines[OF assms(1)] assms(2) unfolding parse_rows_def Let_def
    by (simp only: sum.case option.case prod.case if_True if_False refl)
qed

definition sample_fields :: "ustr list" where
  "sample_fields = map cps [''1704067200000'', ''1.5'', ''2'', ''1'', ''1.25'', ''10'', ''1704067259999'', ''15'',
     ''3'', ''4'', ''6'', ''0'']"

theorem parse_rows_of_lines_witness:
  "parse_rows (concat (map csv_line [map cps HEADER, sample_fields])) sample_descriptor
     = mapE (parse_row (start_ms sample_descriptor) (end_ms sample_descriptor)) [sample_fields]"
proof -
  have "\<forall>flds \<in> set [sample_fields]. list_all plain_field flds \<and> length flds = 12" by code_simp
  moreover have "\<not> csv_header_absent sample_descriptor" by code_simp
  ultimately show ?thesis using parse_rows_of_lines[of "[sample_fields]" sample_descriptor] by simp
qed

text \<open>C8: every row the parser accepts opens inside the half-open period, closes exactly one minute
  later less a millisecond, has a trade count in the 64-bit range, and carries eight numbers the
  storage type holds exactly. One bad row refuses the whole member.\<close>

theorem parse_rows_valid:
  assumes "parse_rows t d = Inr rows"
  shows "list_all (row_valid (start_ms d) (end_ms d)) rows"
  using assms unfolding list_all_iff parse_rows_def Let_def
  by (auto simp: bindE_Inr_iff dest!: parse_data_valid parse_row_valid split: sum.splits option.splits prod.splits if_splits)

theorem parse_rows_valid_witness:
  "\<exists>r. parse_rows (concat (map csv_line [map cps HEADER, sample_fields])) sample_descriptor = Inr [r]
     \<and> row_valid (start_ms sample_descriptor) (end_ms sample_descriptor) r \<and> s_open_time r = 1704067200000"
proof -
  have "case parse_rows (concat (map csv_line [map cps HEADER, sample_fields])) sample_descriptor of
      Inr [r] \<Rightarrow> s_open_time r = 1704067200000 | _ \<Rightarrow> False" by code_simp
  then obtain r where r: "parse_rows (concat (map csv_line [map cps HEADER, sample_fields])) sample_descriptor = Inr [r]"
    "s_open_time r = 1704067200000"
    by (auto split: sum.splits list.splits)
  from parse_rows_valid[OF r(1)] r show ?thesis by auto
qed

end
