(* ===== verification/Canonical.thy ===== *)
theory Canonical
  imports Parsing
begin

text \<open>
  src/quantara/canonical.py: assembling canonical rows from source rows, their content arrays, the
  columns written to and read from the columnar file, and the reconciliation of source rows with
  what was read back. The file library is a parameter: a writer from columns to a file and a reader
  from a file to schema and columns. Lemmas: assembly sorts a permutation and refuses exactly the
  duplicates; reconciliation accepts exactly numerically equal rows; reading in batches gives the
  same verdict as reading at once.
\<close>

record canonical_row =
  c_identity :: "ustr list"
  c_open_ms :: int
  c_close_ms :: int
  c_available_ms :: int
  c_open :: dec
  c_high :: dec
  c_low :: dec
  c_close :: dec
  c_base_volume :: dec
  c_quote_volume :: dec
  c_trade_count :: int
  c_taker_base :: dec
  c_taker_quote :: dec
  c_ignore :: ustr

text \<open>A value of a content array or of a persisted row.\<close>

datatype cell = CStr ustr | CInt int | CDec dec | CFloat "64 word"

definition price_decs :: "canonical_row \<Rightarrow> dec list" where
  "price_decs r = [c_open r, c_high r, c_low r, c_close r, c_base_volume r, c_quote_volume r]"

definition taker_decs :: "canonical_row \<Rightarrow> dec list" where
  "taker_decs r = [c_taker_base r, c_taker_quote r]"

text \<open>Rendering uses the Python kernel.\<close>

definition render_text :: "dec \<Rightarrow> cell res" where
  "render_text d = bindE (render_decimal_18_python d) (\<lambda>t. Inr (CStr (cps t)))"

definition to_content_array :: "canonical_row \<Rightarrow> cell list res" where
  "to_content_array r =
     bindE (mapE render_text (price_decs r)) (\<lambda>ps.
     bindE (mapE render_text (taker_decs r)) (\<lambda>ts.
     Inr (map CStr (c_identity r) @ map CInt [c_open_ms r, c_close_ms r, c_available_ms r] @ ps
          @ [CInt (c_trade_count r)] @ ts @ [CStr (c_ignore r)])))"

definition build_canonical_row :: "source_row \<Rightarrow> dataset_descriptor \<Rightarrow> canonical_row" where
  "build_canonical_row s d =
     \<lparr>c_identity = map cps [provider d, market_type d, instrument_id d, provider_symbol d, base_asset d,
        quote_asset d, settlement_asset d, contract_type d, interval d, schema_version d],
      c_open_ms = s_open_time s, c_close_ms = s_close_time s, c_available_ms = s_open_time s + 60000,
      c_open = s_open s, c_high = s_high s, c_low = s_low s, c_close = s_close s,
      c_base_volume = s_base_volume s, c_quote_volume = s_quote_volume s, c_trade_count = s_trade_count s,
      c_taker_base = s_taker_base s, c_taker_quote = s_taker_quote s, c_ignore = s_ignore s\<rparr>"

definition assemble_canonical_rows ::
    "source_row list \<Rightarrow> dataset_descriptor \<Rightarrow> (canonical_row list \<times> bool) res" where
  "assemble_canonical_rows rows d =
     (let built = map (\<lambda>s. build_canonical_row s d) rows; times = map c_open_ms built;
          order_ok = successively (<) times in
      if order_ok then Inr (built, True)
      else if card (set times) \<noteq> length times then Inl DuplicateOpenTime
      else Inr (sort_key c_open_ms built, False))"

section \<open>Columns\<close>

datatype arrow_type = ArrowString | ArrowTimestampMsUtc | ArrowDecimal128 | ArrowInt64

definition arrow_type_of :: "string \<Rightarrow> arrow_type res" where
  "arrow_type_of t = (if t = ''utf8'' then Inr ArrowString
     else if t = ''timestamp_ms_utc'' then Inr ArrowTimestampMsUtc
     else if t = ''decimal128_38_18'' then Inr ArrowDecimal128
     else if t = ''int64_nonnegative'' then Inr ArrowInt64 else Inl ParquetFailure)"

definition parquet_schema :: "(string \<times> arrow_type) list res" where
  "parquet_schema = mapE (\<lambda>(name, t). bindE (arrow_type_of t) (\<lambda>a. Inr (name, a))) CANONICAL_COLUMNS"

text \<open>One row as the 23 cells of its columns.\<close>

definition row_cells :: "canonical_row \<Rightarrow> cell list" where
  "row_cells r = map CStr (c_identity r) @ map CInt [c_open_ms r, c_close_ms r, c_available_ms r]
     @ map CDec (price_decs r) @ [CInt (c_trade_count r)] @ map CDec (taker_decs r) @ [CStr (c_ignore r)]"

definition columns_of :: "canonical_row list \<Rightarrow> cell list list" where
  "columns_of rows = map (\<lambda>i. map (\<lambda>r. row_cells r ! i) rows) [0..<23]"

definition write_canonical_parquet ::
    "((string \<times> arrow_type) list \<Rightarrow> cell list list \<Rightarrow> 'file option) \<Rightarrow> canonical_row list \<Rightarrow> 'file res" where
  "write_canonical_parquet pq_write rows =
     bindE parquet_schema (\<lambda>schema.
     case pq_write schema (columns_of rows) of None \<Rightarrow> Inl ParquetFailure | Some f \<Rightarrow> Inr f)"

text \<open>\<open>zip(*columns, strict=True)\<close>: the rows of columns of equal length.\<close>

definition zip_columns :: "cell list list \<Rightarrow> cell list list res" where
  "zip_columns cols = (case cols of
      [] \<Rightarrow> Inr []
    | c # _ \<Rightarrow> if list_all (\<lambda>x. length x = length c) cols
               then Inr (map (\<lambda>i. map (\<lambda>col. col ! i) cols) [0..<length c])
               else Inl PyValueError)"

definition read_canonical_rows ::
    "('file \<Rightarrow> ((string \<times> arrow_type) list \<times> cell list list) option) \<Rightarrow> 'file \<Rightarrow> cell list list res" where
  "read_canonical_rows pq_read f = (case pq_read f of
      None \<Rightarrow> Inl ParquetFailure
    | Some (schema, cols) \<Rightarrow>
        bindE parquet_schema (\<lambda>expected.
        bindE (checkE (schema = expected) ParquetFailure) (\<lambda>_. zip_columns cols)))"

section \<open>Reconciliation\<close>

definition render_cell :: "cell \<Rightarrow> cell res" where
  "render_cell c = (case c of CDec d \<Rightarrow> render_text d | _ \<Rightarrow> Inr c)"

text \<open>One position; a width difference only shows when the differing columns are listed.\<close>

definition reconcile_row :: "canonical_row \<Rightarrow> cell list \<Rightarrow> unit res" where
  "reconcile_row s p =
     bindE (to_content_array s) (\<lambda>expected.
     bindE (mapE render_cell p) (\<lambda>rendered.
     if expected = rendered then Inr ()
     else if length expected \<noteq> length rendered then Inl PyValueError
     else Inl ReconciliationMismatch))"

definition reconcile_rows :: "canonical_row list \<Rightarrow> cell list list \<Rightarrow> unit res" where
  "reconcile_rows src ps =
     (if length src \<noteq> length ps then Inl ReconciliationMismatch
      else bindE (mapE (\<lambda>(s, p). reconcile_row s p) (zip src ps)) (\<lambda>_. Inr ()))"

text \<open>The batched reader: rows past the end of the source are counted but not compared; any other
  exception becomes \<open>ParquetFailure\<close>.\<close>

definition reconcile_step :: "canonical_row list \<Rightarrow> nat \<Rightarrow> cell list \<Rightarrow> nat res" where
  "reconcile_step src k p =
     (if k < length src
      then (case reconcile_row (src ! k) p of
              Inr _ \<Rightarrow> Inr (Suc k)
            | Inl e \<Rightarrow> Inl (if e = ReconciliationMismatch then e else ParquetFailure))
      else Inr (Suc k))"

definition reconcile_parquet ::
    "canonical_row list \<Rightarrow> (string \<times> arrow_type) list \<Rightarrow> cell list list list \<Rightarrow> unit res" where
  "reconcile_parquet src schema batches =
     bindE parquet_schema (\<lambda>expected.
     bindE (checkE (schema = expected) ParquetFailure) (\<lambda>_.
     bindE (foldE (foldE (reconcile_step src)) 0 batches) (\<lambda>n.
     checkE (n = length src) ReconciliationMismatch)))"

section \<open>Lemmas\<close>

lemma sort_key_strict:
  fixes f :: "'a \<Rightarrow> 'b :: linorder"
  assumes "distinct (map f xs)"
  shows "sorted_wrt (<) (map f (sort_key f xs))"
proof -
  have "mset (map f (sort_key f xs)) = mset (map f xs)" by (simp only: mset_map mset_sort)
  then have "distinct (map f (sort_key f xs))" using assms by (metis distinct_count_atmost_1 set_mset_mset)
  then show ?thesis using strict_sorted_iff sorted_sort_key by blast
qed

lemma foldE_concat: "foldE (foldE f) s xss = foldE f s (concat xss)"
  by (induction xss arbitrary: s) (simp_all add: foldE_append)

lemma reconcile_steps:
  "foldE (reconcile_step src) n ps = Inr m \<longleftrightarrow>
   m = n + length ps \<and> (\<forall>i < length ps. n + i < length src \<longrightarrow> reconcile_row (src ! (n + i)) (ps ! i) = Inr ())"
proof (induction ps arbitrary: n)
  case Nil
  show ?case by auto
next
  case (Cons p ps)
  have split: "(\<forall>i < length (p # ps). n + i < length src \<longrightarrow> reconcile_row (src ! (n + i)) ((p # ps) ! i) = Inr ())
    \<longleftrightarrow> (n < length src \<longrightarrow> reconcile_row (src ! n) p = Inr ())
      \<and> (\<forall>i < length ps. Suc n + i < length src \<longrightarrow> reconcile_row (src ! (Suc n + i)) (ps ! i) = Inr ())"
    by (auto simp: less_Suc_eq_0_disj nth_Cons' split: if_splits)
  have "foldE (reconcile_step src) n (p # ps) = Inr m \<longleftrightarrow>
    (n < length src \<longrightarrow> reconcile_row (src ! n) p = Inr ()) \<and> foldE (reconcile_step src) (Suc n) ps = Inr m"
    by (auto simp: reconcile_step_def bindE_Inr_iff split: sum.splits)
  then show ?case unfolding split Cons.IH by auto
qed

lemma reconcile_rows_iff:
  "reconcile_rows src ps = Inr () \<longleftrightarrow> list_all2 (\<lambda>s p. reconcile_row s p = Inr ()) src ps"
proof -
  have "(\<exists>us. mapE (\<lambda>(s, p). reconcile_row s p) (zip src ps) = Inr us)
    \<longleftrightarrow> (\<forall>i < length (zip src ps). reconcile_row (fst (zip src ps ! i)) (snd (zip src ps ! i)) = Inr ())"
    unfolding mapE_Inr_iff list_all2_conv_all_nth case_prod_beta
    by (auto intro!: exI[of _ "replicate (length (zip src ps)) ()"])
  then show ?thesis
    by (auto simp: reconcile_rows_def bindE_Inr_iff list_all2_conv_all_nth)
qed

text \<open>Numeric equality of cells.\<close>

definition same_cell :: "cell \<Rightarrow> cell \<Rightarrow> bool" where
  "same_cell a b = (case (a, b) of (CDec x, CDec y) \<Rightarrow> dval x = dval y | _ \<Rightarrow> a = b)"

lemma render_cell_same:
  assumes "dec_sane x" "dec_sane y" "render_text x = Inr t"
  shows "render_text y = Inr t \<longleftrightarrow> dval x = dval y"
proof -
  obtain u where u: "render_decimal_18_python x = Inr u" "t = CStr (cps u)"
    using assms(3) by (auto simp: render_text_def bindE_Inr_iff)
  from render_decimal_18_eq_iff[OF assms(1,2) u(1)] show ?thesis
    by (auto simp: render_text_def bindE_Inr_iff u(2))
qed

lemma content_array_cells: "to_content_array r = mapE render_cell (row_cells r)"
proof -
  have strs: "mapE render_cell (map CStr xs) = Inr (map CStr xs)" for xs
    by (induction xs) (simp_all add: render_cell_def)
  have ints: "mapE render_cell (map CInt xs) = Inr (map CInt xs)" for xs
    by (induction xs) (simp_all add: render_cell_def)
  have decs: "mapE render_cell (map CDec xs) = mapE render_text xs" for xs
    by (induction xs) (simp_all add: render_cell_def)
  show ?thesis
    unfolding to_content_array_def row_cells_def mapE_append strs ints decs
    by (cases "mapE render_text (price_decs r)"; cases "mapE render_text (taker_decs r)")
      (simp_all add: render_cell_def)
qed

lemma reconcile_row_iff:
  "reconcile_row s p = Inr () \<longleftrightarrow> list_all2 (\<lambda>a b. \<exists>t. render_cell a = Inr t \<and> render_cell b = Inr t) (row_cells s) p"
proof -
  have "reconcile_row s p = Inr () \<longleftrightarrow>
    (\<exists>ts. mapE render_cell (row_cells s) = Inr ts \<and> mapE render_cell p = Inr ts)"
    by (auto simp: reconcile_row_def content_array_cells bindE_Inr_iff split: if_splits)
  also have "\<dots> \<longleftrightarrow> list_all2 (\<lambda>a b. \<exists>t. render_cell a = Inr t \<and> render_cell b = Inr t) (row_cells s) p"
  proof
    assume "\<exists>ts. mapE render_cell (row_cells s) = Inr ts \<and> mapE render_cell p = Inr ts"
    then show "list_all2 (\<lambda>a b. \<exists>t. render_cell a = Inr t \<and> render_cell b = Inr t) (row_cells s) p"
      by (auto simp: mapE_Inr_iff list_all2_conv_all_nth)
  next
    assume l: "list_all2 (\<lambda>a b. \<exists>t. render_cell a = Inr t \<and> render_cell b = Inr t) (row_cells s) p"
    then have "list_all2 (\<lambda>a t. render_cell a = Inr t) (row_cells s) (map (\<lambda>b. projr (render_cell b)) p)"
      "list_all2 (\<lambda>b t. render_cell b = Inr t) p (map (\<lambda>b. projr (render_cell b)) p)"
      by (fastforce simp: list_all2_conv_all_nth)+
    then show "\<exists>ts. mapE render_cell (row_cells s) = Inr ts \<and> mapE render_cell p = Inr ts"
      by (auto simp: mapE_Inr_iff)
  qed
  finally show ?thesis .
qed

text \<open>The cell kinds of the file schema; decimals come back as sane decimals.\<close>

definition cell_conforms :: "arrow_type \<Rightarrow> cell \<Rightarrow> bool" where
  "cell_conforms t c = (case c of
      CStr _ \<Rightarrow> t = ArrowString
    | CInt _ \<Rightarrow> t \<in> {ArrowTimestampMsUtc, ArrowInt64}
    | CDec d \<Rightarrow> t = ArrowDecimal128 \<and> dec_sane d
    | CFloat _ \<Rightarrow> False)"

definition schema_types :: "arrow_type list" where
  "schema_types = replicate 10 ArrowString @ replicate 3 ArrowTimestampMsUtc @ replicate 6 ArrowDecimal128
     @ [ArrowInt64] @ replicate 2 ArrowDecimal128 @ [ArrowString]"

definition cells_conform :: "cell list \<Rightarrow> bool" where
  "cells_conform p \<longleftrightarrow> list_all2 cell_conforms schema_types p"

lemma parquet_schema_types: "\<exists>schema. parquet_schema = Inr schema \<and> map snd schema = schema_types"
  by (simp add: parquet_schema_def CANONICAL_COLUMNS_def arrow_type_of_def DECIMAL_TYPE_def schema_types_def
      numeral_eq_Suc)

text \<open>A row the pipeline can hold: ten identity strings and numbers within the storage type.\<close>

definition storable_row :: "canonical_row \<Rightarrow> bool" where
  "storable_row r \<longleftrightarrow> length (c_identity r) = 10
     \<and> (\<forall>d \<in> set (price_decs r @ taker_decs r). dec_sane d \<and> dval d * 10 ^ 18 \<in> \<int>
          \<and> int_printable \<lfloor>dval d * 10 ^ 18\<rfloor>)"

lemma render_text_storable:
  "dec_sane d \<Longrightarrow> dval d * 10 ^ 18 \<in> \<int> \<Longrightarrow> int_printable \<lfloor>dval d * 10 ^ 18\<rfloor> \<Longrightarrow> \<exists>t. render_text d = Inr t"
  by (simp add: render_text_def render_decimal_18_unfold)

lemma row_cells_conform:
  assumes "storable_row r"
  shows "cells_conform (row_cells r)"
    and "\<forall>c \<in> set (row_cells r). \<exists>t. render_cell c = Inr t"
proof -
  obtain a b c d e f g h i j where id: "c_identity r = [a, b, c, d, e, f, g, h, i, j]"
    using assms by (auto simp: storable_row_def numeral_eq_Suc length_Suc_conv)
  have decs: "\<forall>d \<in> set (price_decs r @ taker_decs r). dec_sane d \<and> dval d * 10 ^ 18 \<in> \<int>
      \<and> int_printable \<lfloor>dval d * 10 ^ 18\<rfloor>"
    using assms by (simp add: storable_row_def)
  then show "cells_conform (row_cells r)"
    by (simp add: cells_conform_def schema_types_def row_cells_def id price_decs_def taker_decs_def cell_conforms_def
        numeral_eq_Suc)
  show "\<forall>c \<in> set (row_cells r). \<exists>t. render_cell c = Inr t"
    using decs render_text_storable by (auto simp: row_cells_def render_cell_def)
qed

lemma rendered_same:
  assumes "cell_conforms t a" "cell_conforms t b" "\<exists>x. render_cell a = Inr x"
  shows "(\<exists>x. render_cell a = Inr x \<and> render_cell b = Inr x) \<longleftrightarrow> same_cell a b"
proof (cases a)
  case (CDec d)
  then obtain e where b: "b = CDec e" "dec_sane d" "dec_sane e"
    using assms(1,2) by (auto simp: cell_conforms_def split: cell.splits)
  then show ?thesis
    using render_cell_same[OF b(2,3)] assms(3) CDec by (auto simp: render_cell_def same_cell_def)
qed (use assms in \<open>auto simp: cell_conforms_def render_cell_def same_cell_def split: cell.splits\<close>)

lemma reconcile_row_numeric:
  assumes "storable_row s" "cells_conform p"
  shows "reconcile_row s p = Inr () \<longleftrightarrow> list_all2 same_cell (row_cells s) p"
proof -
  have len: "length (row_cells s) = length schema_types" "length p = length schema_types"
    using row_cells_conform(1)[OF assms(1)] assms(2) unfolding cells_conform_def by (auto dest: list_all2_lengthD)
  have "(\<exists>t. render_cell (row_cells s ! i) = Inr t \<and> render_cell (p ! i) = Inr t) \<longleftrightarrow> same_cell (row_cells s ! i) (p ! i)"
    if "i < length p" for i
  proof (rule rendered_same)
    show "cell_conforms (schema_types ! i) (row_cells s ! i)" "cell_conforms (schema_types ! i) (p ! i)"
      using row_cells_conform(1)[OF assms(1)] assms(2) len that
      by (auto simp: cells_conform_def list_all2_conv_all_nth)
    show "\<exists>x. render_cell (row_cells s ! i) = Inr x"
      using row_cells_conform(2)[OF assms(1)] len that by (metis nth_mem)
  qed
  then show ?thesis
    using len unfolding reconcile_row_iff list_all2_conv_all_nth by auto
qed

section \<open>Writing and reading back\<close>

text \<open>What the file library promises: the reader returns the schema and, cell for cell, the columns
  that were written, a decimal possibly with another exponent but the same value.\<close>

definition same_stored :: "cell \<Rightarrow> cell \<Rightarrow> bool" where
  "same_stored a b \<longleftrightarrow> same_cell a b
     \<and> (case (a, b) of (CDec x, CDec y) \<Rightarrow> dec_sane x \<longrightarrow> dec_sane y | _ \<Rightarrow> True)"

definition store_faithful ::
    "((string \<times> arrow_type) list \<Rightarrow> cell list list \<Rightarrow> 'file option)
     \<Rightarrow> ('file \<Rightarrow> ((string \<times> arrow_type) list \<times> cell list list) option) \<Rightarrow> bool" where
  "store_faithful pq_write pq_read \<longleftrightarrow> (\<forall>schema cols f. pq_write schema cols = Some f \<longrightarrow>
     (\<exists>cols'. pq_read f = Some (schema, cols') \<and> list_all2 (list_all2 same_stored) cols cols'))"

lemma same_cell_conforms: "same_stored a b \<Longrightarrow> cell_conforms t a \<Longrightarrow> cell_conforms t b"
  by (auto simp: same_stored_def same_cell_def cell_conforms_def split: cell.splits)

lemma read_back_rows:
  assumes "store_faithful pq_write pq_read" "write_canonical_parquet pq_write rows = Inr f"
    and "list_all storable_row rows"
  shows "\<exists>ps. read_canonical_rows pq_read f = Inr ps
    \<and> list_all2 (\<lambda>r p. list_all2 same_stored (row_cells r) p) rows ps"
proof -
  let ?n = "length rows"
  obtain schema where schema: "parquet_schema = Inr schema" using parquet_schema_types by blast
  obtain cols where cols: "pq_read f = Some (schema, cols)" "list_all2 (list_all2 same_stored) (columns_of rows) cols"
    using assms(1,2) by (fastforce simp: write_canonical_parquet_def schema store_faithful_def split: option.splits)
  have len: "length cols = 23" using list_all2_lengthD[OF cols(2)] by (simp add: columns_of_def)
  have col: "length (cols ! i) = ?n" "\<And>j. j < ?n \<Longrightarrow> same_stored (row_cells (rows ! j) ! i) (cols ! i ! j)" if "i < 23" for i
  proof -
    have "list_all2 same_stored (columns_of rows ! i) (cols ! i)"
      using cols(2) that by (simp add: list_all2_conv_all_nth columns_of_def)
    moreover have "columns_of rows ! i = map (\<lambda>r. row_cells r ! i) rows" using that by (simp add: columns_of_def)
    ultimately show "length (cols ! i) = ?n" "\<And>j. j < ?n \<Longrightarrow> same_stored (row_cells (rows ! j) ! i) (cols ! i ! j)"
      by (auto simp: list_all2_conv_all_nth)
  qed
  have ne: "cols \<noteq> []" using len by auto
  then have hd: "length (hd cols) = ?n" using col(1)[of 0] by (simp add: hd_conv_nth)
  have "zip_columns cols = Inr (map (\<lambda>j. map (\<lambda>c. c ! j) cols) [0..<?n])"
    using ne hd col(1) len by (cases cols) (auto simp: zip_columns_def list_all_length)
  then have "read_canonical_rows pq_read f = Inr (map (\<lambda>j. map (\<lambda>c. c ! j) cols) [0..<?n])"
    by (simp add: read_canonical_rows_def cols(1) schema checkE_def)
  moreover have "list_all2 same_stored (row_cells (rows ! j)) (map (\<lambda>c. c ! j) cols)" if j: "j < ?n" for j
  proof -
    have "cells_conform (row_cells (rows ! j))"
      using assms(3) j by (intro row_cells_conform(1)) (simp add: list_all_length)
    then have "length (row_cells (rows ! j)) = 23"
      by (auto simp: cells_conform_def schema_types_def dest: list_all2_lengthD)
    then show ?thesis using col(2) j len by (auto simp: list_all2_conv_all_nth)
  qed
  then have "list_all2 (\<lambda>r p. list_all2 same_stored (row_cells r) p) rows (map (\<lambda>j. map (\<lambda>c. c ! j) cols) [0..<?n])"
    by - (rule list_all2_all_nthI, simp_all)
  ultimately show ?thesis by blast
qed

lemma list_all2_update_refl:
  "(\<And>x. P x x) \<Longrightarrow> i < length xs \<Longrightarrow> list_all2 P xs (xs[i := y]) \<longleftrightarrow> P (xs ! i) y"
  by (auto simp: list_all2_conv_all_nth nth_list_update)

lemma q18_multiple: "- 18 \<le> dexp d \<Longrightarrow> dval d * 10 ^ 18 \<in> \<int>"
proof -
  assume "- 18 \<le> dexp d"
  then have "dval d = of_int (dint (- 18) d) * 10 powi (- 18)" by (rule dint_val)
  then have "dval d * 10 ^ 18 = of_int (dint (- 18) d)" by (simp add: power_int_minus)
  then show ?thesis by (metis Ints_of_int)
qed

section \<open>Properties\<close>

text \<open>C9: assembly returns every source row once, in strictly ascending time order, reports whether
  the source was already in that order, and refuses exactly the inputs with a duplicate open time.\<close>

theorem assemble_sorts_permutation:
  "case assemble_canonical_rows rows d of
     Inr (built, ok) \<Rightarrow> sorted_wrt (<) (map c_open_ms built)
       \<and> mset built = image_mset (\<lambda>s. build_canonical_row s d) (mset rows)
       \<and> ok = successively (<) (map s_open_time rows) \<and> distinct (map s_open_time rows)
   | Inl e \<Rightarrow> e = DuplicateOpenTime \<and> \<not> distinct (map s_open_time rows)"
proof -
  define built where "built = map (\<lambda>s. build_canonical_row s d) rows"
  have times: "map c_open_ms built = map s_open_time rows" by (simp add: built_def build_canonical_row_def)
  have "successively (<) (map s_open_time rows) \<Longrightarrow> sorted_wrt (<) (map s_open_time rows)"
    by (simp only: successively_less_iff)
  moreover have "card (set (map s_open_time rows)) = length (map s_open_time rows) \<longleftrightarrow> distinct (map s_open_time rows)"
    using card_distinct distinct_card by blast
  moreover have "distinct (map s_open_time rows) \<Longrightarrow> sorted_wrt (<) (map c_open_ms (sort_key c_open_ms built))"
    using sort_key_strict[of c_open_ms built] times by simp
  moreover have "mset built = image_mset (\<lambda>s. build_canonical_row s d) (mset rows)"
    unfolding built_def by (rule mset_map)
  ultimately show ?thesis
    unfolding assemble_canonical_rows_def Let_def built_def[symmetric] times
    by (auto simp del: mset_map simp: times dest: sorted_wrt_less_distinct)
qed

text \<open>Reconciliation accepts exactly the read-back rows that agree with the source rows in number
  and, cell for cell, in text, integer and numeric value; no rounding or truncation goes unnoticed.\<close>

theorem reconcile_rows_numeric:
  assumes "list_all storable_row src" "list_all cells_conform ps"
  shows "reconcile_rows src ps = Inr () \<longleftrightarrow> list_all2 (\<lambda>r p. list_all2 same_cell (row_cells r) p) src ps"
proof -
  have "(reconcile_row r p = Inr ()) = list_all2 same_cell (row_cells r) p" if "r \<in> set src" "p \<in> set ps" for r p
    using that assms by (intro reconcile_row_numeric) (auto simp: list_all_iff)
  then show ?thesis
    unfolding reconcile_rows_iff list_all2_conv_all_nth[of _ src ps] by (metis nth_mem)
qed

definition sample_bar :: "canonical_row" where
  "sample_bar = \<lparr>c_identity = replicate 10 (cps ''x''), c_open_ms = 60000, c_close_ms = 119999, c_available_ms = 120000,
     c_open = Dec False 15 (- 1), c_high = Dec False 2 0, c_low = Dec False 1 0, c_close = Dec False 125 (- 2),
     c_base_volume = Dec False 10 0, c_quote_volume = Dec False 15 0, c_trade_count = 3,
     c_taker_base = Dec False 4 0, c_taker_quote = Dec False 6 0, c_ignore = cps ''0''\<rparr>"

lemma floor_printable:
  assumes "\<bar>x\<bar> \<le> (10 :: rat) ^ 20"
  shows "int_printable \<lfloor>x * 10 ^ 18\<rfloor>"
proof -
  define y where "y = x * 10 ^ 18"
  have "\<bar>y\<bar> \<le> 10 ^ 20 * 10 ^ 18" unfolding y_def abs_mult using assms by (intro mult_mono) simp_all
  then have "y \<le> 10 ^ 38" "- (10 ^ 38) \<le> y" by (simp_all add: abs_le_iff)
  moreover have "of_int \<lfloor>y\<rfloor> \<le> y" "y < of_int \<lfloor>y\<rfloor> + 1" using floor_correct[of y] by simp_all
  ultimately have "of_int \<lfloor>y\<rfloor> < (10 :: rat) ^ 40" "- ((10 :: rat) ^ 40) < of_int \<lfloor>y\<rfloor>" by simp_all
  then have "(of_int \<lfloor>y\<rfloor> :: rat) < of_int (10 ^ 40)" "(of_int (- (10 ^ 40)) :: rat) < of_int \<lfloor>y\<rfloor>"
    by simp_all
  then have "\<lfloor>y\<rfloor> < 10 ^ 40" "- (10 ^ 40) < \<lfloor>y\<rfloor>" unfolding of_int_less_iff .
  then show ?thesis unfolding y_def[symmetric] by (intro int_printable_small) (simp only: abs_less_iff minus_less_iff)
qed

lemma dec_printable: "dcoef d < 10 ^ 20 \<Longrightarrow> dexp d \<le> 0 \<Longrightarrow> int_printable \<lfloor>dval d * 10 ^ 18\<rfloor>"
proof (rule floor_printable)
  assume d: "dcoef d < 10 ^ 20" "dexp d \<le> 0"
  have "(of_nat (dcoef d) :: rat) \<le> of_nat (10 ^ 20)" using d(1) by (simp only: of_nat_le_iff)
  moreover have "(10 :: rat) powi dexp d \<le> 1" using d(2) power_int_increasing[of "dexp d" 0 "10 :: rat"] by simp
  ultimately have "of_nat (dcoef d) * (10 :: rat) powi dexp d \<le> of_nat (10 ^ 20) * 1" by (intro mult_mono) simp_all
  then show "\<bar>dval d\<bar> \<le> 10 ^ 20" by (simp add: dval_def abs_mult)
qed

lemma sample_bar_storable: "storable_row sample_bar"
proof -
  show ?thesis
    by (simp add: storable_row_def sample_bar_def price_decs_def taker_decs_def dec_sane_def ndigits.simps q18_multiple[simplified] dec_printable[simplified])
qed

theorem reconcile_rows_numeric_witness:
  "reconcile_rows [sample_bar] [(row_cells sample_bar)[13 := CDec (Dec False 1500 (- 3))]] = Inr ()
   \<and> reconcile_rows [sample_bar] [(row_cells sample_bar)[13 := CDec (Dec False 1501 (- 3))]] \<noteq> Inr ()"
proof -
  have c: "cells_conform ((row_cells sample_bar)[13 := CDec (Dec False n (- 3))])" if "n < 10000" for n
  proof -
    have "ndigits n \<le> 4" using that by (simp add: ndigits_le_iff)
    then have "cell_conforms ArrowDecimal128 (CDec (Dec False n (- 3)))" by (simp add: cell_conforms_def dec_sane_def)
    with row_cells_conform(1)[OF sample_bar_storable]
    have "list_all2 cell_conforms (schema_types[13 := ArrowDecimal128]) ((row_cells sample_bar)[13 := CDec (Dec False n (- 3))])"
      unfolding cells_conform_def by (intro list_all2_update_cong)
    moreover have "schema_types[13 := ArrowDecimal128] = schema_types" by code_simp
    ultimately show ?thesis by (simp add: cells_conform_def)
  qed
  have v: "dval (Dec False 1500 (- 3)) = dval (Dec False 15 (- 1))" "dval (Dec False 1501 (- 3)) \<noteq> dval (Dec False 15 (- 1))"
    by (simp_all add: dval_def power_int_def power_one_over)
  have at: "13 < length (row_cells sample_bar)" "row_cells sample_bar ! 13 = CDec (Dec False 15 (- 1))"
    by code_simp+
  have "same_cell a a" for a by (simp add: same_cell_def split: cell.splits)
  then have "list_all2 same_cell (row_cells sample_bar) ((row_cells sample_bar)[13 := CDec (Dec False n (- 3))])
      \<longleftrightarrow> dval (Dec False 15 (- 1)) = dval (Dec False n (- 3))" for n
    using list_all2_update_refl[of same_cell 13 "row_cells sample_bar" "CDec (Dec False n (- 3))"] at
    by (simp add: same_cell_def)
  then show ?thesis
    using reconcile_rows_numeric[of "[sample_bar]" "[(row_cells sample_bar)[13 := CDec (Dec False 1500 (- 3))]]"]
      reconcile_rows_numeric[of "[sample_bar]" "[(row_cells sample_bar)[13 := CDec (Dec False 1501 (- 3))]]"]
      sample_bar_storable c v by simp
qed

text \<open>Reconciling a file batch by batch, whatever the batch boundaries, gives the same verdict as
  reconciling all of its rows at once.\<close>

theorem reconcile_batches_equivalent:
  "reconcile_parquet src schema batches = Inr () \<longleftrightarrow>
   parquet_schema = Inr schema \<and> reconcile_rows src (concat batches) = Inr ()"
proof -
  have "reconcile_parquet src schema batches = Inr () \<longleftrightarrow> parquet_schema = Inr schema
    \<and> length (concat batches) = length src
    \<and> (\<forall>i < length (concat batches). reconcile_row (src ! i) (concat batches ! i) = Inr ())"
    by (auto simp: reconcile_parquet_def bindE_Inr_iff res_simps foldE_concat reconcile_steps)
  then show ?thesis by (auto simp: reconcile_rows_iff list_all2_conv_all_nth)
qed

text \<open>C10: what the pipeline writes it reads back: with a faithful file library, writing storable rows
  column by column and reading them row by row always succeeds and always reconciles.\<close>

theorem parquet_write_read_reconciles:
  assumes "store_faithful pq_write pq_read" "list_all storable_row rows"
    and "write_canonical_parquet pq_write rows = Inr f"
  shows "\<exists>ps. read_canonical_rows pq_read f = Inr ps \<and> reconcile_rows rows ps = Inr ()"
proof -
  obtain ps where ps: "read_canonical_rows pq_read f = Inr ps"
    "list_all2 (\<lambda>r p. list_all2 same_stored (row_cells r) p) rows ps"
    using read_back_rows[OF assms(1,3,2)] by blast
  have "reconcile_row r p = Inr ()" if r: "r \<in> set rows" and p: "list_all2 same_stored (row_cells r) p" for r p
  proof -
    have st: "storable_row r" using assms(2) r by (simp add: list_all_iff)
    have "cells_conform p"
      using row_cells_conform(1)[OF st] p same_cell_conforms unfolding cells_conform_def list_all2_conv_all_nth
      by metis
    moreover have "list_all2 same_cell (row_cells r) p"
      using p by (rule list_all2_mono) (simp add: same_stored_def)
    ultimately show ?thesis using reconcile_row_numeric[OF st] by blast
  qed
  then have "list_all2 (\<lambda>r p. reconcile_row r p = Inr ()) rows ps"
    using ps(2) unfolding list_all2_conv_all_nth by (metis nth_mem)
  with ps(1) show ?thesis by (auto simp: reconcile_rows_iff)
qed

theorem parquet_write_read_reconciles_witness:
  "\<exists>f ps. write_canonical_parquet (\<lambda>schema cols. Some (schema, cols)) [sample_bar] = Inr f
     \<and> read_canonical_rows Some f = Inr ps \<and> reconcile_rows [sample_bar] ps = Inr ()"
proof -
  have "same_stored a a" for a by (simp add: same_stored_def same_cell_def split: cell.splits)
  then have "list_all2 (list_all2 same_stored) cols cols" for cols by (intro list_all2_refl)
  then have faithful: "store_faithful (\<lambda>schema cols. Some (schema, cols)) Some" by (simp add: store_faithful_def)
  obtain schema where s: "parquet_schema = Inr schema" using parquet_schema_types by blast
  have f: "write_canonical_parquet (\<lambda>schema cols. Some (schema, cols)) [sample_bar]
      = Inr (schema, columns_of [sample_bar])" by (simp add: write_canonical_parquet_def s)
  have "list_all storable_row [sample_bar]" using sample_bar_storable by simp
  from parquet_write_read_reconciles[OF faithful this f] f show ?thesis by blast
qed

end
