(* ===== verification/Aggregation.thy ===== *)
theory Aggregation
  imports Canonical
begin

text \<open>
  src/quantara/aggregation.py: exact aggregation of one-minute rows into bars. Rows come from
  persisted tuples; the minutes must be strictly ascending; a bucket is an epoch-aligned half-open
  window and must be complete and contiguous. Lemmas: sums in the private 80-digit context are
  exact; an accepted aggregation covers every bucket completely, keeps minutes and volumes, and
  carries the open, extreme and close prices of its minutes.
\<close>

definition sum_ctx :: dctx where
  "sum_ctx = \<lparr>cprec = 80, cEmin = - 999999999999999999, cEmax = 999999999999999999\<rparr>"

definition exact_trade_count :: "canonical_row list \<Rightarrow> int res" where
  "exact_trade_count members =
     (let n = sum_list (map c_trade_count members)
      in if n < 0 \<or> INT64_MAX < n then Inl IntegerPrecisionOverflow else Inr n)"

definition exact_volume_sum :: "dec list \<Rightarrow> dec res" where
  "exact_volume_sum xs =
     bindE (foldE (dec_add sum_ctx) (Dec False 0 0) xs) (\<lambda>s.
     bindE (dec_scaleb sum_ctx s 18) (\<lambda>scaled.
     if \<not> dec_eq scaled (dec_to_integral scaled) then Inl DecimalPrecisionOrScaleOverflow
     else if 10 ^ 38 \<le> \<bar>dec_to_int scaled\<bar> then Inl DecimalPrecisionOrScaleOverflow
     else Inr s))"

text \<open>Positional reconstruction. Width and float checks come first, as in the code; a tuple whose
  cells have other kinds than the file schema has is refused here.\<close>

definition cell_str :: "cell \<Rightarrow> ustr res" where
  "cell_str c = (case c of CStr s \<Rightarrow> Inr s | _ \<Rightarrow> Inl PyTypeError)"

definition cell_int :: "cell \<Rightarrow> int res" where
  "cell_int c = (case c of CInt n \<Rightarrow> Inr n | _ \<Rightarrow> Inl PyTypeError)"

definition cell_dec :: "cell \<Rightarrow> dec res" where
  "cell_dec c = (case c of CDec d \<Rightarrow> Inr d | _ \<Rightarrow> Inl PyTypeError)"

definition restore_row :: "cell list \<Rightarrow> canonical_row res" where
  "restore_row cs =
     (if length cs \<noteq> 23 then Inl QuantaraBase
      else if \<exists>c \<in> set cs. (case c of CFloat _ \<Rightarrow> True | _ \<Rightarrow> False) then Inl QuantaraBase
      else
        bindE (mapE cell_str (take 10 cs)) (\<lambda>ids. bindE (mapE cell_int (take 3 (drop 10 cs))) (\<lambda>ts.
        bindE (mapE cell_dec (take 6 (drop 13 cs))) (\<lambda>ps. bindE (cell_int (cs ! 19)) (\<lambda>n.
        bindE (mapE cell_dec (take 2 (drop 20 cs))) (\<lambda>tk. bindE (cell_str (cs ! 22)) (\<lambda>ig.
        Inr \<lparr>c_identity = ids, c_open_ms = ts ! 0, c_close_ms = ts ! 1, c_available_ms = ts ! 2,
             c_open = ps ! 0, c_high = ps ! 1, c_low = ps ! 2, c_close = ps ! 3, c_base_volume = ps ! 4,
             c_quote_volume = ps ! 5, c_trade_count = n, c_taker_base = tk ! 0, c_taker_quote = tk ! 1,
             c_ignore = ig\<rparr>)))))))"

definition rows_from_persisted :: "cell list list \<Rightarrow> canonical_row list res" where
  "rows_from_persisted rows = mapE restore_row rows"

text \<open>The order check stops at the first pair that does not ascend.\<close>

fun check_ascending :: "int list \<Rightarrow> unit res" where
  "check_ascending (a # b # ts) =
     (if b < a then Inl UnorderedMinuteInput else if b = a then Inl DuplicateOpenTime
      else check_ascending (b # ts))"
| "check_ascending _ = Inr ()"

definition bucket_of :: "int \<Rightarrow> canonical_row \<Rightarrow> int" where
  "bucket_of tf r = c_open_ms r - c_open_ms r mod tf"

definition members_of :: "int \<Rightarrow> canonical_row list \<Rightarrow> int \<Rightarrow> canonical_row list" where
  "members_of tf minutes b = filter (\<lambda>r. bucket_of tf r = b) minutes"

definition contiguous :: "int \<Rightarrow> int \<Rightarrow> int list \<Rightarrow> bool" where
  "contiguous tf b ts \<longleftrightarrow> hd ts = b \<and> successively (\<lambda>p c. c - p = 60000) ts \<and> last ts = b + tf - 60000"

definition aggregate_bucket :: "ustr list \<Rightarrow> int \<Rightarrow> int \<Rightarrow> canonical_row list \<Rightarrow> canonical_row res" where
  "aggregate_bucket ident tf b members =
     (if int (length members) \<noteq> tf div 60000 then Inl IncompleteGroup
      else if \<not> contiguous tf b (map c_open_ms members) then Inl IncompleteGroup
      else if \<exists>m \<in> set members. c_ignore m \<noteq> cps ''0'' then Inl NonzeroSourceIgnoreInGroup
      else
        bindE (exact_volume_sum (map c_base_volume members)) (\<lambda>bv.
        bindE (exact_volume_sum (map c_quote_volume members)) (\<lambda>qv.
        bindE (exact_trade_count members) (\<lambda>n.
        bindE (exact_volume_sum (map c_taker_base members)) (\<lambda>tb.
        bindE (exact_volume_sum (map c_taker_quote members)) (\<lambda>tq.
        Inr \<lparr>c_identity = ident, c_open_ms = b, c_close_ms = b + tf - 1, c_available_ms = b + tf,
             c_open = c_open (hd members), c_high = py_max dec_lt (map c_high members),
             c_low = py_min dec_lt (map c_low members), c_close = c_close (last members),
             c_base_volume = bv, c_quote_volume = qv, c_trade_count = n, c_taker_base = tb,
             c_taker_quote = tq, c_ignore = cps ''0''\<rparr>))))))"

definition aggregate_timeframe ::
    "canonical_row list \<Rightarrow> ustr list \<Rightarrow> int \<Rightarrow> canonical_row list res" where
  "aggregate_timeframe minutes ident tf =
     bindE (check_ascending (map c_open_ms minutes)) (\<lambda>_.
     bindE (checkE (minutes = [] \<or> tf \<noteq> 0) DivisionByZero) (\<lambda>_.
     mapE (\<lambda>b. aggregate_bucket ident tf b (members_of tf minutes b))
          (sorted_list_of_set (set (map (bucket_of tf) minutes)))))"

section \<open>Sums are exact\<close>

text \<open>A number as the canonical file holds it: below \<open>10^20\<close>, at most 38 fractional digits.\<close>

definition dec_narrow :: "dec \<Rightarrow> bool" where
  "dec_narrow d \<longleftrightarrow> \<bar>dval d\<bar> < 10 ^ 20 \<and> - 38 \<le> dexp d \<and> dexp d \<le> 0"

lemma dcoef_bound:
  assumes "\<bar>dval d\<bar> \<le> x" "- int b \<le> dexp d"
  shows "(of_nat (dcoef d) :: rat) \<le> x * 10 ^ b"
proof -
  have "(10 :: rat) powi (- int b) \<le> 10 powi dexp d" using assms(2) by (intro power_int_increasing) auto
  then have "of_nat (dcoef d) * (10 :: rat) powi (- int b) \<le> of_nat (dcoef d) * 10 powi dexp d"
    by (intro mult_left_mono) auto
  also have "\<dots> = \<bar>dval d\<bar>" by (simp add: dval_def abs_mult)
  also have "\<dots> \<le> x" by (rule assms(1))
  finally show ?thesis by (simp add: power_int_minus field_simps)
qed

lemma exact_sum_loop:
  assumes "list_all dec_narrow xs" "length xs \<le> 10 ^ 9"
  shows "\<exists>s. foldE (dec_add sum_ctx) (Dec False 0 0) xs = Inr s \<and> dval s = sum_list (map dval xs)
    \<and> - 38 \<le> dexp s \<and> dexp s \<le> 0"
  using assms
proof (induction xs rule: rev_induct)
  case Nil
  show ?case by (simp add: dval_def)
next
  case (snoc v xs)
  then obtain s where s: "foldE (dec_add sum_ctx) (Dec False 0 0) xs = Inr s"
    "dval s = sum_list (map dval xs)" "- 38 \<le> dexp s" "dexp s \<le> 0" by auto
  have v: "dec_narrow v" using snoc.prems by simp
  let ?r = "dec_add_exact s v"
  have bound: "\<bar>sum_list (map dval vs)\<bar> \<le> of_nat (length vs) * 10 ^ 20" if "list_all dec_narrow vs" for vs
    using that by (induction vs) (auto simp: dec_narrow_def algebra_simps intro: order_trans[OF abs_triangle_ineq])
  have "\<bar>dval ?r\<bar> = \<bar>sum_list (map dval (xs @ [v]))\<bar>" by (simp add: s(2))
  also have "\<dots> \<le> of_nat (length (xs @ [v])) * 10 ^ 20" by (rule bound[OF snoc.prems(1)])
  also have "\<dots> \<le> of_nat (10 ^ 9) * 10 ^ 20"
    using snoc.prems(2) by (intro mult_right_mono) (simp_all only: of_nat_le_iff, simp)
  finally have "(of_nat (dcoef ?r) :: rat) \<le> of_nat (10 ^ 9) * 10 ^ 20 * 10 ^ 38"
    using s(3) v by (intro dcoef_bound) (auto simp: dec_narrow_def)
  then have "(of_nat (dcoef ?r) :: rat) \<le> of_nat (10 ^ 67)" by simp
  then have "dcoef ?r \<le> 10 ^ 67" by (simp only: of_nat_le_iff)
  then have "dec_fits sum_ctx ?r"
    using s v by (simp add: dec_fits_def sum_ctx_def Etiny_def Etop_def dec_narrow_def)
  then have "dec_add sum_ctx s v = Inr ?r" by (simp add: dec_add_def dec_exact)
  then show ?case using s v by (auto simp: foldE_append dec_narrow_def)
qed

lemma dec_to_int_Ints:
  assumes "dval d \<in> \<int>"
  shows "of_int (dec_to_int d) = dval d"
proof (cases "0 \<le> dexp d")
  case True
  then show ?thesis by (rule dec_to_int_val)
next
  case False
  define k where "k = nat (- dexp d)"
  have e: "dexp d = - int k" using False by (simp add: k_def)
  have abs: "\<bar>dval d\<bar> = of_nat (dcoef d) / 10 ^ k" by (simp add: dval_def e abs_mult power_int_minus divide_inverse)
  obtain z where z: "\<bar>dval d\<bar> = of_int z" using assms by (auto elim!: Ints_cases simp flip: of_int_abs)
  then have "(of_nat (dcoef d) :: rat) = of_int (z * 10 ^ k)" using abs by (simp add: field_simps)
  then have "int (dcoef d) = z * 10 ^ k" by (metis of_int_eq_iff of_int_of_nat_eq)
  then have "int (dcoef d div 10 ^ k) = z" by (simp add: zdiv_int)
  then have "(of_nat (dcoef d div 10 ^ k) :: rat) = of_nat (dcoef d) / 10 ^ k"
    using z abs by (metis of_int_of_nat_eq)
  then show ?thesis
    by (simp add: dec_to_int_def e dval_def power_int_minus divide_inverse)
qed

lemma exact_volume_sum_spec:
  assumes "list_all dec_narrow xs" "length xs \<le> 10 ^ 9"
  shows "case exact_volume_sum xs of
     Inr s \<Rightarrow> dval s = sum_list (map dval xs) \<and> \<bar>dval s\<bar> < 10 ^ 20 \<and> dval s * 10 ^ 18 \<in> \<int>
   | Inl e \<Rightarrow> e = DecimalPrecisionOrScaleOverflow
       \<and> (10 ^ 20 \<le> \<bar>sum_list (map dval xs)\<bar> \<or> sum_list (map dval xs) * 10 ^ 18 \<notin> \<int>)"
proof -
  obtain s where s: "foldE (dec_add sum_ctx) (Dec False 0 0) xs = Inr s"
    "dval s = sum_list (map dval xs)" "- 38 \<le> dexp s" "dexp s \<le> 0"
    using exact_sum_loop[OF assms] by blast
  define u where "u = Dec (dneg s) (dcoef s) (dexp s + 18)"
  have "\<bar>dval s\<bar> \<le> 10 ^ 30"
  proof -
    have "\<bar>sum_list (map dval vs)\<bar> \<le> of_nat (length vs) * 10 ^ 20" if "list_all dec_narrow vs" for vs
      using that by (induction vs) (auto simp: dec_narrow_def algebra_simps intro: order_trans[OF abs_triangle_ineq])
    from this[OF assms(1)] have "\<bar>dval s\<bar> \<le> of_nat (length xs) * 10 ^ 20" by (simp only: s(2))
    also have "\<dots> \<le> of_nat (10 ^ 9) * 10 ^ 20"
      using assms(2) by (intro mult_right_mono) (simp_all only: of_nat_le_iff, simp)
    finally show ?thesis by simp
  qed
  then have "(of_nat (dcoef s) :: rat) \<le> 10 ^ 30 * 10 ^ 38"
    using s(3) by (intro dcoef_bound) auto
  then have "(of_nat (dcoef s) :: rat) \<le> of_nat (10 ^ 68)" by simp
  then have "dcoef s \<le> 10 ^ 68" by (simp only: of_nat_le_iff)
  then have "dec_fits sum_ctx u"
    using s by (simp add: dec_fits_def sum_ctx_def Etiny_def Etop_def u_def)
  then have u: "dec_scaleb sum_ctx s 18 = Inr u"
    by (simp add: dec_scaleb_def dec_exact u_def[symmetric]) (simp add: sum_ctx_def)
  have val: "dval u = dval s * 10 ^ 18" by (simp add: u_def dval_def power_int_add)
  have int: "dec_eq u (dec_to_integral u) \<longleftrightarrow> dval s * 10 ^ 18 \<in> \<int>"
    using dec_to_integral_eq_iff[of u] by (auto simp: dec_eq_iff val)
  have trunc: "10 ^ 38 \<le> \<bar>dec_to_int u\<bar> \<longleftrightarrow> 10 ^ 20 \<le> \<bar>dval s\<bar>" if "dval s * 10 ^ 18 \<in> \<int>"
  proof -
    have "of_int \<bar>dec_to_int u\<bar> = \<bar>dval s\<bar> * 10 ^ 18"
      using dec_to_int_Ints[of u] that val by (simp add: abs_mult)
    then have "10 ^ 38 \<le> \<bar>dec_to_int u\<bar> \<longleftrightarrow> (10 :: rat) ^ 38 \<le> \<bar>dval s\<bar> * 10 ^ 18"
      by (metis of_int_le_iff of_int_numeral of_int_power)
    then show ?thesis by simp
  qed
  show ?thesis
    using int trunc s(2) by (auto simp: exact_volume_sum_def s(1) u)
qed

section \<open>Buckets partition the minutes\<close>

lemma check_ascending_iff: "check_ascending ts = Inr () \<longleftrightarrow> sorted_wrt (<) ts"
proof -
  have "check_ascending ts = Inr () \<longleftrightarrow> successively (<) ts"
    by (induction ts rule: check_ascending.induct) auto
  then show ?thesis by (simp only: successively_less_iff)
qed

lemma concat_filter_sorted:
  fixes f :: "'a \<Rightarrow> 'b :: linorder"
  assumes "sorted (map f xs)"
  shows "concat (map (\<lambda>k. filter (\<lambda>x. f x = k) xs) (sorted_list_of_set (set (map f xs)))) = xs"
  using assms
proof (induction xs)
  case Nil
  show ?case by simp
next
  case (Cons x xs)
  let ?S = "set (map f xs)" and ?k = "f x"
  have least: "\<forall>k \<in> ?S. ?k \<le> k" using Cons.prems by auto
  have ins: "sorted_list_of_set (insert ?k A) = ?k # sorted_list_of_set (A - {?k})" if "finite A" "\<forall>k \<in> A. ?k \<le> k" for A
    using that by (simp add: sorted_list_of_set_insert_remove insort_is_Cons)
  let ?rest = "concat (map (\<lambda>k. filter (\<lambda>x. f x = k) xs) (sorted_list_of_set (?S - {?k})))"
  have rest: "map (\<lambda>k. filter (\<lambda>y. f y = k) (x # xs)) (sorted_list_of_set (?S - {?k}))
    = map (\<lambda>k. filter (\<lambda>y. f y = k) xs) (sorted_list_of_set (?S - {?k}))"
    by (rule map_cong[OF refl]) (auto simp: sorted_list_of_set.set_sorted_key_list_of_set)
  have all: "sorted_list_of_set (set (map f (x # xs))) = ?k # sorted_list_of_set (?S - {?k})"
    using ins[of ?S] least by simp
  have "concat (map (\<lambda>k. filter (\<lambda>y. f y = k) (x # xs)) (sorted_list_of_set (set (map f (x # xs)))))
    = filter (\<lambda>y. f y = ?k) (x # xs) @ concat (map (\<lambda>k. filter (\<lambda>y. f y = k) (x # xs)) (sorted_list_of_set (?S - {?k})))"
    unfolding all by (simp only: list.map concat.simps)
  then have "concat (map (\<lambda>k. filter (\<lambda>y. f y = k) (x # xs)) (sorted_list_of_set (set (map f (x # xs)))))
    = x # filter (\<lambda>y. f y = ?k) xs @ ?rest"
    unfolding rest by simp
  moreover have "filter (\<lambda>y. f y = ?k) xs @ ?rest = xs"
  proof (cases "?k \<in> ?S")
    case True
    then have "sorted_list_of_set ?S = ?k # sorted_list_of_set (?S - {?k})"
      using ins[of ?S] least by (simp add: insert_absorb)
    with Cons show ?thesis by simp
  next
    case False
    then have "\<forall>y \<in> set xs. f y \<noteq> ?k" by (metis image_eqI set_map)
    then have "filter (\<lambda>y. f y = ?k) xs = []" by (simp add: filter_empty_conv)
    moreover have "?S - {?k} = ?S" using False by simp
    ultimately show ?thesis using Cons by simp
  qed
  ultimately show ?case by simp
qed

lemma bucket_mono:
  assumes "0 < tf" "c_open_ms r \<le> c_open_ms s"
  shows "bucket_of tf r \<le> bucket_of tf s"
proof -
  have "bucket_of tf x = tf * (c_open_ms x div tf)" for x
    by (simp add: bucket_of_def minus_mod_eq_mult_div)
  moreover have "c_open_ms r div tf \<le> c_open_ms s div tf" using assms by (intro zdiv_mono1) auto
  ultimately show ?thesis using assms(1) by simp
qed

lemma buckets_sorted:
  assumes "0 < tf" "sorted_wrt (<) (map c_open_ms minutes)"
  shows "sorted (map (bucket_of tf) minutes)"
  using assms(2) by (induction minutes) (auto intro: bucket_mono[OF assms(1)] less_imp_le)

lemma aggregate_bucket_Inr:
  assumes "aggregate_bucket ident tf b ms = Inr bar"
  shows "c_open_ms bar = b \<and> c_close_ms bar = b + tf - 1 \<and> c_available_ms bar = b + tf \<and> c_identity bar = ident
    \<and> int (length ms) = tf div 60000 \<and> contiguous tf b (map c_open_ms ms) \<and> (\<forall>m \<in> set ms. c_ignore m = cps ''0'')
    \<and> c_open bar = c_open (hd ms) \<and> c_close bar = c_close (last ms)
    \<and> c_high bar = py_max dec_lt (map c_high ms) \<and> c_low bar = py_min dec_lt (map c_low ms)
    \<and> exact_volume_sum (map c_base_volume ms) = Inr (c_base_volume bar)
    \<and> exact_volume_sum (map c_quote_volume ms) = Inr (c_quote_volume bar)
    \<and> exact_trade_count ms = Inr (c_trade_count bar)
    \<and> exact_volume_sum (map c_taker_base ms) = Inr (c_taker_base bar)
    \<and> exact_volume_sum (map c_taker_quote ms) = Inr (c_taker_quote bar) \<and> c_ignore bar = cps ''0''"
  using assms by (auto simp: aggregate_bucket_def bindE_Inr_iff split: if_splits)

text \<open>The shape of an accepted aggregation: one bar per bucket, in order.\<close>

lemma aggregate_Inr:
  assumes "aggregate_timeframe minutes ident tf = Inr bars" "0 < tf"
  shows "sorted_wrt (<) (map c_open_ms minutes)"
    and "map c_open_ms bars = sorted_list_of_set (set (map (bucket_of tf) minutes))"
    and "\<And>bar. bar \<in> set bars \<Longrightarrow> aggregate_bucket ident tf (c_open_ms bar) (members_of tf minutes (c_open_ms bar)) = Inr bar"
    and "concat (map (\<lambda>bar. members_of tf minutes (c_open_ms bar)) bars) = minutes"
proof -
  let ?bs = "sorted_list_of_set (set (map (bucket_of tf) minutes))"
  show asc: "sorted_wrt (<) (map c_open_ms minutes)"
    using assms(1) by (auto simp: aggregate_timeframe_def bindE_Inr_iff check_ascending_iff)
  have all2: "list_all2 (\<lambda>b bar. aggregate_bucket ident tf b (members_of tf minutes b) = Inr bar) ?bs bars"
    using assms(1) by (auto simp: aggregate_timeframe_def bindE_Inr_iff mapE_Inr_iff)
  then have "list_all2 (\<lambda>b bar. c_open_ms bar = b) ?bs bars"
    by (rule list_all2_mono) (use aggregate_bucket_Inr in blast)
  then show opens: "map c_open_ms bars = ?bs"
    by (simp add: list_eq_iff_nth_eq list_all2_conv_all_nth)
  show "aggregate_bucket ident tf (c_open_ms bar) (members_of tf minutes (c_open_ms bar)) = Inr bar"
    if "bar \<in> set bars" for bar
  proof -
    from that obtain i where i: "i < length bars" "bar = bars ! i" by (auto simp: in_set_conv_nth)
    with all2 have "aggregate_bucket ident tf (?bs ! i) (members_of tf minutes (?bs ! i)) = Inr bar"
      by (simp add: list_all2_conv_all_nth)
    moreover have "?bs ! i = c_open_ms bar" using i opens[symmetric] by simp
    ultimately show ?thesis by simp
  qed
  have "concat (map (members_of tf minutes) ?bs) = minutes"
    unfolding members_of_def by (rule concat_filter_sorted[OF buckets_sorted[OF assms(2) asc]])
  then show "concat (map (\<lambda>bar. members_of tf minutes (c_open_ms bar)) bars) = minutes"
    unfolding opens[symmetric] by (simp add: comp_def)
qed

lemma contiguous_times:
  assumes "contiguous tf b ts" "ts \<noteq> []"
  shows "ts = map (\<lambda>i. b + 60000 * int i) [0..<length ts]"
proof (rule nth_equalityI)
  fix i assume "i < length ts"
  then show "ts ! i = map (\<lambda>i. b + 60000 * int i) [0..<length ts] ! i"
    using successively_step_nth[of 60000 ts i] assms(1) by (simp add: contiguous_def)
qed simp

section \<open>Values of a bar\<close>

lemma py_max_dec:
  assumes "xs \<noteq> []"
  shows "py_max dec_lt xs \<in> set xs" and "\<forall>x \<in> set xs. dval x \<le> dval (py_max dec_lt xs)"
  using py_max_mem[OF assms] py_max_ge[of _ xs dval] by (simp_all add: dec_lt_iff[abs_def])

lemma py_min_dec:
  assumes "xs \<noteq> []"
  shows "py_min dec_lt xs \<in> set xs" and "\<forall>x \<in> set xs. dval (py_min dec_lt xs) \<le> dval x"
  using py_min_mem[OF assms] py_min_le[of _ xs dval] by (simp_all add: dec_lt_iff[abs_def])

text \<open>Volumes and counts of a row, as the storage holds them.\<close>

definition narrow_row :: "canonical_row \<Rightarrow> bool" where
  "narrow_row r \<longleftrightarrow> list_all dec_narrow [c_base_volume r, c_quote_volume r, c_taker_base r, c_taker_quote r]"

lemma exact_volume_sum_Inr:
  assumes "exact_volume_sum xs = Inr s" "list_all dec_narrow xs" "length xs \<le> 10 ^ 9"
  shows "dval s = sum_list (map dval xs)"
  using exact_volume_sum_spec[OF assms(2,3)] assms(1) by simp

lemma exact_trade_count_Inr: "exact_trade_count ms = Inr n \<Longrightarrow> n = sum_list (map c_trade_count ms) \<and> 0 \<le> n"
  by (auto simp: exact_trade_count_def Let_def split: if_splits)

lemma aggregate_values:
  assumes "aggregate_timeframe minutes ident tf = Inr bars" "60000 \<le> tf" "tf \<le> 60000 * 10 ^ 9"
    and "list_all narrow_row minutes" "bar \<in> set bars"
    and "ms = members_of tf minutes (c_open_ms bar)"
  shows "c_open bar = c_open (hd ms) \<and> c_close bar = c_close (last ms)
    \<and> c_high bar \<in> c_high ` set ms \<and> (\<forall>m \<in> set ms. dval (c_high m) \<le> dval (c_high bar))
    \<and> c_low bar \<in> c_low ` set ms \<and> (\<forall>m \<in> set ms. dval (c_low bar) \<le> dval (c_low m))
    \<and> dval (c_base_volume bar) = (\<Sum>m \<leftarrow> ms. dval (c_base_volume m))
    \<and> dval (c_quote_volume bar) = (\<Sum>m \<leftarrow> ms. dval (c_quote_volume m))
    \<and> dval (c_taker_base bar) = (\<Sum>m \<leftarrow> ms. dval (c_taker_base m))
    \<and> dval (c_taker_quote bar) = (\<Sum>m \<leftarrow> ms. dval (c_taker_quote m))
    \<and> c_trade_count bar = (\<Sum>m \<leftarrow> ms. c_trade_count m) \<and> 0 \<le> c_trade_count bar \<and> c_trade_count bar \<le> INT64_MAX"
proof -
  have tf: "0 < tf" using assms(2) by simp
  note b = aggregate_bucket_Inr[OF aggregate_Inr(3)[OF assms(1) tf assms(5)], folded assms(6)]
  have ne: "ms \<noteq> []" using b assms(2) by (auto dest: zdiv_mono1[of 60000 tf 60000])
  have len: "length ms \<le> 10 ^ 9" using b zdiv_mono1[OF assms(3), of 60000] by simp
  have "list_all narrow_row ms" using assms(4) by (auto simp: assms(6) members_of_def list_all_iff)
  then have nar: "list_all dec_narrow (map c_base_volume ms)" "list_all dec_narrow (map c_quote_volume ms)"
    "list_all dec_narrow (map c_taker_base ms)" "list_all dec_narrow (map c_taker_quote ms)"
    by (auto simp: list_all_iff narrow_row_def)
  have "map c_high ms \<noteq> []" "map c_low ms \<noteq> []" using ne by simp_all
  note hi = py_max_dec[OF this(1)] and lo = py_min_dec[OF this(2)]
  have v: "exact_volume_sum (map c_base_volume ms) = Inr (c_base_volume bar)"
    "exact_volume_sum (map c_quote_volume ms) = Inr (c_quote_volume bar)"
    "exact_volume_sum (map c_taker_base ms) = Inr (c_taker_base bar)"
    "exact_volume_sum (map c_taker_quote ms) = Inr (c_taker_quote bar)"
    "exact_trade_count ms = Inr (c_trade_count bar)"
    "c_high bar = py_max dec_lt (map c_high ms)" "c_low bar = py_min dec_lt (map c_low ms)"
    "c_open bar = c_open (hd ms)" "c_close bar = c_close (last ms)"
    using b by blast+
  have sums: "dval (c_base_volume bar) = (\<Sum>m \<leftarrow> ms. dval (c_base_volume m))"
    "dval (c_quote_volume bar) = (\<Sum>m \<leftarrow> ms. dval (c_quote_volume m))"
    "dval (c_taker_base bar) = (\<Sum>m \<leftarrow> ms. dval (c_taker_base m))"
    "dval (c_taker_quote bar) = (\<Sum>m \<leftarrow> ms. dval (c_taker_quote m))"
    using len exact_volume_sum_Inr[OF v(1) nar(1)] exact_volume_sum_Inr[OF v(2) nar(2)]
      exact_volume_sum_Inr[OF v(3) nar(3)] exact_volume_sum_Inr[OF v(4) nar(4)]
    by (simp_all add: comp_def)
  have n: "c_trade_count bar = (\<Sum>m \<leftarrow> ms. c_trade_count m) \<and> 0 \<le> c_trade_count bar \<and> c_trade_count bar \<le> INT64_MAX"
    using v(5) by (auto simp: exact_trade_count_def Let_def split: if_splits)
  have "c_high bar \<in> c_high ` set ms" "\<forall>m \<in> set ms. dval (c_high m) \<le> dval (c_high bar)"
    "c_low bar \<in> c_low ` set ms" "\<forall>m \<in> set ms. dval (c_low bar) \<le> dval (c_low m)"
    using hi lo unfolding v(6,7) by simp_all
  with sums n v(8,9) show ?thesis by blast
qed

section \<open>Properties\<close>

text \<open>The volume sum never rounds: it returns exactly the rational sum of its inputs, and refuses
  exactly when that sum does not fit decimal128(38,18).\<close>

theorem exact_volume_sum_exact:
  assumes "list_all dec_narrow xs" "length xs \<le> 10 ^ 9"
  shows "case exact_volume_sum xs of
     Inr s \<Rightarrow> dval s = sum_list (map dval xs) \<and> \<bar>dval s\<bar> < 10 ^ 20 \<and> dval s * 10 ^ 18 \<in> \<int>
   | Inl e \<Rightarrow> e = DecimalPrecisionOrScaleOverflow
       \<and> (10 ^ 20 \<le> \<bar>sum_list (map dval xs)\<bar> \<or> sum_list (map dval xs) * 10 ^ 18 \<notin> \<int>)"
  by (rule exact_volume_sum_spec[OF assms])

theorem exact_volume_sum_exact_witness:
  "(case exact_volume_sum [Dec False 1 (- 1), Dec False 25 (- 2)] of Inr s \<Rightarrow> dval s = 7 / 20 | Inl _ \<Rightarrow> False)"
proof -
  have "list_all dec_narrow [Dec False 1 (- 1), Dec False 25 (- 2)]"
    by (simp add: dec_narrow_def dval_def power_int_minus)
  moreover have "case exact_volume_sum [Dec False 1 (- 1), Dec False 25 (- 2)] of Inr s \<Rightarrow> True | Inl _ \<Rightarrow> False"
    by code_simp
  ultimately show ?thesis
    using exact_volume_sum_exact[of "[Dec False 1 (- 1), Dec False 25 (- 2)]"]
    by (auto simp: dval_def power_int_minus split: sum.splits)
qed

text \<open>C11: an accepted aggregation is complete and order-preserving: the bars ascend, each bar opens on
  a timeframe boundary and is built from exactly the minutes B, B+1min, ..., and the minutes of the
  bars, one bar after the other, are the input minutes: nothing is dropped, repeated, reordered or
  interpolated. No minute of an accepted aggregation carries a source ignore marker other than 0,
  and no bar does.\<close>

theorem aggregate_complete:
  assumes "aggregate_timeframe minutes ident tf = Inr bars" "0 < tf"
  shows "sorted_wrt (<) (map c_open_ms bars)
    \<and> concat (map (\<lambda>bar. members_of tf minutes (c_open_ms bar)) bars) = minutes
    \<and> list_all (\<lambda>row. c_ignore row = cps ''0'') (minutes @ bars)
    \<and> (\<forall>bar \<in> set bars. tf dvd c_open_ms bar \<and> c_close_ms bar = c_open_ms bar + tf - 1
        \<and> map c_open_ms (members_of tf minutes (c_open_ms bar))
          = map (\<lambda>i. c_open_ms bar + 60000 * int i) [0..<nat (tf div 60000)])"
proof (intro conjI ballI)
  note agg = aggregate_Inr[OF assms]
  show "sorted_wrt (<) (map c_open_ms bars)" unfolding agg(2) by (rule strict_sorted_list_of_set)
  show "concat (map (\<lambda>bar. members_of tf minutes (c_open_ms bar)) bars) = minutes" by (rule agg(4))
  have mem: "c_ignore bar = cps ''0'' \<and> (\<forall>m \<in> set (members_of tf minutes (c_open_ms bar)). c_ignore m = cps ''0'')"
    if "bar \<in> set bars" for bar
    using aggregate_bucket_Inr[OF agg(3)[OF that]] by blast
  moreover have "c_ignore m = cps ''0''" if "m \<in> set minutes" for m
  proof -
    have "m \<in> set (concat (map (\<lambda>bar. members_of tf minutes (c_open_ms bar)) bars))" using that agg(4) by simp
    with mem show ?thesis by auto
  qed
  ultimately show "list_all (\<lambda>row. c_ignore row = cps ''0'') (minutes @ bars)" by (auto simp: list_all_iff)
  fix bar assume bar: "bar \<in> set bars"
  then have "c_open_ms bar \<in> set (sorted_list_of_set (set (map (bucket_of tf) minutes)))"
    unfolding agg(2)[symmetric] by simp
  then obtain m where m: "m \<in> set minutes" "c_open_ms bar = bucket_of tf m" by auto
  then show "tf dvd c_open_ms bar" by (simp add: bucket_of_def minus_mod_eq_mult_div)
  let ?ms = "members_of tf minutes (c_open_ms bar)"
  have b: "c_close_ms bar = c_open_ms bar + tf - 1" "int (length ?ms) = tf div 60000"
    "contiguous tf (c_open_ms bar) (map c_open_ms ?ms)"
    using aggregate_bucket_Inr[OF agg(3)[OF bar]] by blast+
  show "c_close_ms bar = c_open_ms bar + tf - 1" by (rule b(1))
  have "map c_open_ms ?ms \<noteq> []" using m by (auto simp: members_of_def filter_empty_conv)
  from contiguous_times[OF b(3) this] b(2)
  show "map c_open_ms ?ms = map (\<lambda>i. c_open_ms bar + 60000 * int i) [0..<nat (tf div 60000)]"
    by (metis length_map nat_int)
qed

text \<open>Two consecutive minutes for the witnesses, aggregated into a two-minute bar.\<close>

definition sample_minutes :: "canonical_row list" where
  "sample_minutes = [sample_bar\<lparr>c_open_ms := 120000, c_close_ms := 179999\<rparr>,
     sample_bar\<lparr>c_open_ms := 180000, c_close_ms := 239999, c_high := Dec False 3 0\<rparr>]"

lemma sample_aggregates: "\<exists>bar. aggregate_timeframe sample_minutes [] 120000 = Inr [bar] \<and> c_high bar = Dec False 3 0"
proof -
  have "case aggregate_timeframe sample_minutes [] 120000 of Inr [bar] \<Rightarrow> c_high bar = Dec False 3 0 | _ \<Rightarrow> False"
    by code_simp
  then show ?thesis by (auto split: sum.splits list.splits)
qed

theorem aggregate_complete_witness:
  "\<exists>bar. aggregate_timeframe sample_minutes [] 120000 = Inr [bar] \<and> members_of 120000 sample_minutes (c_open_ms bar) = sample_minutes"
  using sample_aggregates aggregate_complete[of sample_minutes "[]" 120000] by fastforce

text \<open>C12: a bar carries what its minutes say: the first open, the last close, a high and a low that
  are attained and bound every minute, the exact sums of the volumes and the exact sum of the trade
  counts, which fits 64 bits.\<close>

theorem aggregate_bar_values:
  assumes "aggregate_timeframe minutes ident tf = Inr bars" "60000 \<le> tf" "tf \<le> 60000 * 10 ^ 9"
    and "list_all narrow_row minutes" "bar \<in> set bars"
    and "ms = members_of tf minutes (c_open_ms bar)"
  shows "c_open bar = c_open (hd ms) \<and> c_close bar = c_close (last ms)
    \<and> c_high bar \<in> c_high ` set ms \<and> (\<forall>m \<in> set ms. dval (c_high m) \<le> dval (c_high bar))
    \<and> c_low bar \<in> c_low ` set ms \<and> (\<forall>m \<in> set ms. dval (c_low bar) \<le> dval (c_low m))
    \<and> dval (c_base_volume bar) = (\<Sum>m \<leftarrow> ms. dval (c_base_volume m))
    \<and> dval (c_quote_volume bar) = (\<Sum>m \<leftarrow> ms. dval (c_quote_volume m))
    \<and> dval (c_taker_base bar) = (\<Sum>m \<leftarrow> ms. dval (c_taker_base m))
    \<and> dval (c_taker_quote bar) = (\<Sum>m \<leftarrow> ms. dval (c_taker_quote m))
    \<and> c_trade_count bar = (\<Sum>m \<leftarrow> ms. c_trade_count m) \<and> 0 \<le> c_trade_count bar \<and> c_trade_count bar \<le> INT64_MAX"
  by (rule aggregate_values[OF assms])

lemma sample_narrow: "list_all narrow_row sample_minutes"
  by (simp add: sample_minutes_def sample_bar_def narrow_row_def dec_narrow_def dval_def)

theorem aggregate_bar_values_witness:
  "\<exists>bar. aggregate_timeframe sample_minutes [] 120000 = Inr [bar] \<and> c_trade_count bar = 6 \<and> dval (c_base_volume bar) = 20"
proof -
  obtain bar where bar: "aggregate_timeframe sample_minutes [] 120000 = Inr [bar]" using sample_aggregates by blast
  have "members_of 120000 sample_minutes (c_open_ms bar) = sample_minutes"
    using aggregate_Inr(4)[OF bar] by simp
  then show ?thesis
    using aggregate_bar_values[OF bar _ _ sample_narrow, of bar sample_minutes] bar
    by (auto simp: sample_minutes_def sample_bar_def dval_def)
qed

text \<open>Aggregation conserves volume: the bars together trade exactly what the minutes trade.\<close>

theorem aggregate_conserves_volume:
  assumes "aggregate_timeframe minutes ident tf = Inr bars" "60000 \<le> tf" "tf \<le> 60000 * 10 ^ 9"
    and "list_all narrow_row minutes"
  shows "(\<Sum>bar \<leftarrow> bars. dval (c_base_volume bar)) = (\<Sum>m \<leftarrow> minutes. dval (c_base_volume m))"
proof -
  have tf: "0 < tf" using assms(2) by simp
  have "dval (c_base_volume bar) = (\<Sum>m \<leftarrow> members_of tf minutes (c_open_ms bar). dval (c_base_volume m))"
    if bar: "bar \<in> set bars" for bar
  proof -
    let ?ms = "members_of tf minutes (c_open_ms bar)"
    note b = aggregate_bucket_Inr[OF aggregate_Inr(3)[OF assms(1) tf bar]]
    have "length ?ms \<le> 10 ^ 9" using b zdiv_mono1[OF assms(3), of 60000] by simp
    moreover have "list_all dec_narrow (map c_base_volume ?ms)"
      using assms(4) by (auto simp: members_of_def list_all_iff narrow_row_def)
    ultimately show ?thesis using exact_volume_sum_Inr[of "map c_base_volume ?ms"] b by (simp add: comp_def)
  qed
  then have "(\<Sum>bar \<leftarrow> bars. dval (c_base_volume bar))
    = (\<Sum>bar \<leftarrow> bars. \<Sum>m \<leftarrow> members_of tf minutes (c_open_ms bar). dval (c_base_volume m))"
    by (simp cong: map_cong)
  also have "\<dots> = (\<Sum>m \<leftarrow> concat (map (\<lambda>bar. members_of tf minutes (c_open_ms bar)) bars). dval (c_base_volume m))"
    by (induction bars) simp_all
  finally show ?thesis unfolding aggregate_Inr(4)[OF assms(1) tf] .
qed

theorem aggregate_conserves_volume_witness:
  "\<exists>bar. aggregate_timeframe sample_minutes [] 120000 = Inr [bar] \<and> dval (c_base_volume bar) = 20"
proof -
  obtain bar where bar: "aggregate_timeframe sample_minutes [] 120000 = Inr [bar]" using sample_aggregates by blast
  from aggregate_conserves_volume[OF bar _ _ sample_narrow] bar show ?thesis
    by (simp add: sample_minutes_def sample_bar_def dval_def)
qed

text \<open>Rows survive persistence: the cells a row is written as are restored to the same row, and a
  tuple of another width or with a binary float is refused.\<close>

theorem persisted_rows_roundtrip:
  assumes "list_all (\<lambda>r. length (c_identity r) = 10) rows"
  shows "rows_from_persisted (map row_cells rows) = Inr rows"
proof -
  have maps: "mapE cell_str (map CStr xs) = Inr xs" for xs by (induction xs) (simp_all add: cell_str_def)
  have mapi: "mapE cell_int (map CInt xs) = Inr xs" for xs by (induction xs) (simp_all add: cell_int_def)
  have mapd: "mapE cell_dec (map CDec xs) = Inr xs" for xs by (induction xs) (simp_all add: cell_dec_def)
  have "restore_row (row_cells r) = Inr r" if id: "length (c_identity r) = 10" for r
  proof -
    let ?c = "row_cells r" and ?ts = "[c_open_ms r, c_close_ms r, c_available_ms r]"
    have parts: "take 10 ?c = map CStr (c_identity r)" "take 3 (drop 10 ?c) = map CInt ?ts"
      "take 6 (drop 13 ?c) = map CDec (price_decs r)" "?c ! 19 = CInt (c_trade_count r)"
      "take 2 (drop 20 ?c) = map CDec (taker_decs r)" "?c ! 22 = CStr (c_ignore r)" "length ?c = 23"
      using id by (simp_all add: row_cells_def price_decs_def taker_decs_def nth_append)
    moreover have "\<not> (\<exists>c \<in> set ?c. case c of CFloat _ \<Rightarrow> True | _ \<Rightarrow> False)"
      by (auto simp: row_cells_def price_decs_def taker_decs_def)
    ultimately show ?thesis
      unfolding restore_row_def parts maps mapi mapd bindE.simps
      by (simp add: cell_int_def cell_str_def price_decs_def taker_decs_def)
  qed
  with assms show ?thesis
    by (simp add: rows_from_persisted_def mapE_Inr_iff list_all2_conv_all_nth list_all_length)
qed

theorem persisted_rows_roundtrip_witness: "rows_from_persisted [row_cells sample_bar] = Inr [sample_bar]"
  using persisted_rows_roundtrip[of "[sample_bar]"] by (simp add: sample_bar_def)

end
