(* ===== verification/Quality.thy ===== *)
theory Quality
  imports Aggregation
begin

text \<open>
  src/quantara/quality.py: the quality evaluator of canonical rows, one finding per check, and the
  interface every evaluator of the program shares: a list of findings and a verdict computed from
  their outcomes (locale \<open>quality_policy\<close>). Lemmas: the verdict PASS holds exactly when every check
  holds, which for a complete month means the exact minute grid of the period.
\<close>

section \<open>Findings and verdicts\<close>

datatype outcome = Pass | Warn | Fail | NotEvaluated

datatype severity = Hard | Warning

record finding =
  f_check :: string
  f_outcome :: outcome
  f_severity :: severity
  f_count :: int
  f_evidence :: "(string \<times> pyval) list"

definition outcome_text :: "outcome \<Rightarrow> string" where
  "outcome_text p = (case p of Pass \<Rightarrow> ''pass'' | Warn \<Rightarrow> ''warn'' | Fail \<Rightarrow> ''fail'' | NotEvaluated \<Rightarrow> ''not_evaluated'')"

definition severity_text :: "severity \<Rightarrow> string" where
  "severity_text p = (case p of Hard \<Rightarrow> ''hard'' | Warning \<Rightarrow> ''warning'')"

definition finding_dict :: "finding \<Rightarrow> (ustr \<times> pyval) list" where
  "finding_dict f = [(cps ''check_id'', py_str (f_check f)), (cps ''count'', PyInt (f_count f)),
     (cps ''evidence'', PyDict (map (\<lambda>(k, v). (cps k, v)) (f_evidence f))),
     (cps ''outcome'', py_str (outcome_text (f_outcome f))), (cps ''severity'', py_str (severity_text (f_severity f)))]"

definition report_identity :: "finding list \<Rightarrow> ustr res" where
  "report_identity fs = quality_identity (map finding_dict fs)"

text \<open>The helpers \<open>record\<close> and \<open>warn\<close>.\<close>

definition record_check :: "string \<Rightarrow> bool \<Rightarrow> int \<Rightarrow> (string \<times> pyval) list \<Rightarrow> finding" where
  "record_check cid ok n evidence =
     \<lparr>f_check = cid, f_outcome = (if ok then Pass else Fail), f_severity = Hard, f_count = n,
      f_evidence = (if evidence = [] then [(''violations'', PyInt n)] else evidence)\<rparr>"

definition warn_check :: "string \<Rightarrow> int \<Rightarrow> (string \<times> pyval) list \<Rightarrow> finding" where
  "warn_check cid n evidence =
     \<lparr>f_check = cid, f_outcome = (if n = 0 then Pass else Warn), f_severity = Warning, f_count = n,
      f_evidence = evidence @ [(''occurrences'', PyInt n)]\<rparr>"

definition quality_state :: "finding list \<Rightarrow> string" where
  "quality_state fs =
     (if \<exists>f \<in> set fs. f_outcome f = Fail then ''FAIL''
      else if \<exists>f \<in> set fs. f_outcome f = Warn then ''WARN_BLOCKED'' else ''PASS'')"

text \<open>What the gates of the program rely on: a verdict that only looks at outcomes and orders them by
  severity. \<open>blocking\<close> says which outcomes short of a failure block publication.\<close>

locale quality_policy =
  fixes blocking :: "outcome \<Rightarrow> bool" and verdict :: "finding list \<Rightarrow> string"
  assumes fails: "\<exists>f \<in> set fs. f_outcome f = Fail \<Longrightarrow> verdict fs = ''FAIL''"
    and blocks: "\<forall>f \<in> set fs. f_outcome f \<noteq> Fail \<Longrightarrow> \<exists>f \<in> set fs. blocking (f_outcome f) \<Longrightarrow> verdict fs = ''WARN_BLOCKED''"
    and passes: "\<forall>f \<in> set fs. f_outcome f \<noteq> Fail \<and> \<not> blocking (f_outcome f) \<Longrightarrow> verdict fs = ''PASS''"
    and pass_free: "\<not> blocking Pass" and warn_blocks: "blocking Warn"
begin

lemma pass_iff: "verdict fs = ''PASS'' \<longleftrightarrow> (\<forall>f \<in> set fs. f_outcome f \<noteq> Fail \<and> \<not> blocking (f_outcome f))"
  using fails[of fs] blocks[of fs] passes[of fs] by fastforce

lemma fail_iff: "verdict fs = ''FAIL'' \<longleftrightarrow> (\<exists>f \<in> set fs. f_outcome f = Fail)"
  using fails[of fs] blocks[of fs] passes[of fs] by fastforce

lemma verdict_range: "verdict fs \<in> {''PASS'', ''WARN_BLOCKED'', ''FAIL''}"
  using fails[of fs] blocks[of fs] passes[of fs] by blast

text \<open>A further finding never improves the verdict.\<close>

lemma more_findings: "verdict (fs @ gs) = ''PASS'' \<Longrightarrow> verdict fs = ''PASS''"
  by (simp add: pass_iff)

lemma same_findings: "set fs = set gs \<Longrightarrow> verdict fs = verdict gs"
  using fails[of fs] blocks[of fs] passes[of fs] fails[of gs] blocks[of gs] passes[of gs]
  by (metis (no_types, lifting))

lemma all_pass: "\<forall>f \<in> set fs. f_outcome f = Pass \<Longrightarrow> verdict fs = ''PASS''"
  by (rule passes) (auto simp: pass_free)

end

interpretation month: quality_policy "\<lambda>p. p = Warn" quality_state
  by unfold_locales (auto simp: quality_state_def)

lemma record_check_outcome [simp]: "f_outcome (record_check c ok n ev) = (if ok then Pass else Fail)"
  by (simp add: record_check_def)

lemma warn_check_outcome [simp]: "f_outcome (warn_check c n ev) = (if n = 0 then Pass else Warn)"
  by (simp add: warn_check_def)

section \<open>Row checks\<close>

definition ohlc_ok :: "canonical_row \<Rightarrow> bool" where
  "ohlc_ok r \<longleftrightarrow> dec_le (c_open r) (c_high r) \<and> dec_le (c_close r) (c_high r) \<and> dec_le (c_low r) (c_open r)
     \<and> dec_le (c_low r) (c_close r) \<and> dec_le (c_low r) (c_high r)"

definition dec_zero :: dec where "dec_zero = Dec False 0 0"

definition prices_positive :: "canonical_row \<Rightarrow> bool" where
  "prices_positive r \<longleftrightarrow> list_all (dec_lt dec_zero) [c_open r, c_high r, c_low r, c_close r]"

definition volumes_nonnegative :: "canonical_row \<Rightarrow> bool" where
  "volumes_nonnegative r \<longleftrightarrow>
     list_all (dec_le dec_zero) [c_base_volume r, c_quote_volume r, c_taker_base r, c_taker_quote r]"

definition taker_within :: "canonical_row \<Rightarrow> bool" where
  "taker_within r \<longleftrightarrow> dec_le (c_taker_base r) (c_base_volume r) \<and> dec_le (c_taker_quote r) (c_quote_volume r)"

definition zero_volume :: "canonical_row \<Rightarrow> bool" where
  "zero_volume r \<longleftrightarrow> dec_eq (c_base_volume r) dec_zero \<and> dec_eq (c_quote_volume r) dec_zero"

definition count_if :: "('a \<Rightarrow> bool) \<Rightarrow> 'a list \<Rightarrow> int" where
  "count_if p xs = int (length (filter p xs))"

lemma count_if_zero: "count_if p xs = 0 \<longleftrightarrow> list_all (\<lambda>x. \<not> p x) xs"
  by (simp add: count_if_def filter_empty_conv list_all_iff)

lemma count_if_nonneg [simp]: "0 \<le> count_if p xs"
  by (simp add: count_if_def)

text \<open>A row with a negative volume and a negative count counts twice.\<close>

definition volume_violations :: "canonical_row list \<Rightarrow> int" where
  "volume_violations rows = count_if (\<lambda>r. \<not> volumes_nonnegative r) rows + count_if (\<lambda>r. c_trade_count r < 0) rows"

section \<open>The evaluator\<close>

definition boundary_findings ::
    "int \<Rightarrow> int \<Rightarrow> canonical_row list \<Rightarrow> bool \<Rightarrow> finding list" where
  "boundary_findings su eu rows whole =
     (if rows \<noteq> [] \<and> whole then
        [record_check ''first_boundary_exact'' (c_open_ms (hd rows) = su) 0
           [(''observed_first_open'', PyInt (c_open_ms (hd rows))), (''approved_start'', PyInt su)],
         record_check ''last_boundary_exact'' (c_open_ms (last rows) = eu - 60000) 0
           [(''observed_last_open'', PyInt (c_open_ms (last rows))), (''approved_last_open'', PyInt (eu - 60000))]]
      else if rows = [] then
        [record_check ''first_boundary_exact'' False 0 [(''reason'', py_str ''no rows'')],
         record_check ''last_boundary_exact'' False 0 [(''reason'', py_str ''no rows'')]]
      else
        [record_check ''first_boundary_exact'' True 0 [(''skipped'', py_str ''incomplete fixture'')],
         record_check ''last_boundary_exact'' True 0 [(''skipped'', py_str ''incomplete fixture'')]])"

definition evaluate_quality ::
    "canonical_row list \<Rightarrow> dataset_descriptor \<Rightarrow> bool \<Rightarrow> int option \<Rightarrow> finding list \<times> string" where
  "evaluate_quality rows d source_order_valid expected_count =
     (let n = int (length rows); times = map c_open_ms rows; su = start_ms d; eu = end_ms d;
          dups = n - int (card (set times));
          outside = count_if (\<lambda>t. \<not> (su \<le> t \<and> t < eu)) times;
          ohlc = count_if (\<lambda>r. \<not> ohlc_ok r) rows; prices = count_if (\<lambda>r. \<not> prices_positive r) rows;
          vols = volume_violations rows;
          closes = count_if (\<lambda>r. c_close_ms r \<noteq> c_open_ms r + 59999) rows;
          takers = count_if (\<lambda>r. \<not> taker_within r) rows;
          findings =
            [case expected_count of
               None \<Rightarrow> record_check ''row_count_matches_expected'' True n
                         [(''skipped'', py_str ''row-count enforcement disabled'')]
             | Some e \<Rightarrow> record_check ''row_count_matches_expected'' (n = e) n
                         [(''approved_rows'', PyInt e), (''actual_rows'', PyInt n)]]
            @ boundary_findings su eu rows (expected_count = Some n)
            @ [record_check ''unique_open_times'' (dups = 0) dups [],
               record_check ''strictly_ascending_open_times'' (successively (<) times) 0 [],
               record_check ''adjacency_exactly_60000ms'' (successively (\<lambda>a b. b - a = 60000) times) 0 [],
               record_check ''period_membership_respected'' (outside = 0) outside [],
               record_check ''ohlc_bounds_hold'' (ohlc = 0) ohlc [],
               record_check ''prices_strictly_positive'' (prices = 0) prices [],
               record_check ''volumes_and_counts_nonnegative'' (vols = 0) vols [],
               record_check ''close_time_equals_open_plus_59999'' (closes = 0) closes [],
               record_check ''taker_buy_within_counterpart_volumes'' (takers = 0) takers [],
               warn_check ''source_order_invalid'' (if source_order_valid then 0 else 1)
                 [(''note'', py_str ''complete unique source rows required sorting'')],
               warn_check ''zero_volume_candle'' (count_if zero_volume rows) [],
               warn_check ''nonzero_source_ignore'' (count_if (\<lambda>r. c_ignore r \<noteq> cps ''0'') rows) []]
      in (findings, quality_state findings))"

section \<open>What the verdicts mean\<close>

text \<open>A row without any violation.\<close>

definition clean_row :: "canonical_row \<Rightarrow> bool" where
  "clean_row r \<longleftrightarrow> ohlc_ok r \<and> prices_positive r \<and> volumes_nonnegative r \<and> 0 \<le> c_trade_count r
     \<and> c_close_ms r = c_open_ms r + 59999 \<and> taker_within r"

text \<open>The minute grid of a period.\<close>

definition minute_grid :: "int \<Rightarrow> nat \<Rightarrow> int list" where
  "minute_grid su n = map (\<lambda>i. su + 60000 * int i) [0..<n]"

lemma grid_iff:
  "(rows = [] \<or> hd rows = su) \<and> successively (\<lambda>a b. b - a = 60000) rows \<longleftrightarrow> rows = minute_grid su (length rows)"
proof
  assume l: "(rows = [] \<or> hd rows = su) \<and> successively (\<lambda>a b. b - a = 60000) rows"
  show "rows = minute_grid su (length rows)"
  proof (rule nth_equalityI)
    fix i assume "i < length rows"
    then show "rows ! i = minute_grid su (length rows) ! i"
      using successively_step_nth[of 60000 rows i] l by (auto simp: minute_grid_def)
  qed (simp add: minute_grid_def)
next
  assume r: "rows = minute_grid su (length rows)"
  have "hd (minute_grid su n) = su" if "0 < n" for n using that by (simp add: minute_grid_def hd_map)
  moreover have "successively (\<lambda>a b. b - a = 60000) (minute_grid su n)" for n
    by (simp add: successively_conv_nth minute_grid_def)
  ultimately show "(rows = [] \<or> hd rows = su) \<and> successively (\<lambda>a b. b - a = 60000) rows"
    using r by (metis length_greater_0_conv)
qed

lemma grid_ascending: "sorted_wrt (<) (minute_grid su n)"
  by (simp add: minute_grid_def sorted_wrt_iff_nth_less)

lemma last_grid: "0 < n \<Longrightarrow> last (minute_grid su n) = su + 60000 * (int n - 1)"
  by (simp add: minute_grid_def last_map last_upt of_nat_diff algebra_simps)

lemma card_zero_iff: "int (length ts) - int (card (set ts)) = 0 \<longleftrightarrow> distinct ts"
  using card_distinct[of ts] distinct_card[of ts] by auto

text \<open>The conditions the hard checks of a complete month amount to.\<close>

definition month_clean :: "canonical_row list \<Rightarrow> dataset_descriptor \<Rightarrow> int \<Rightarrow> bool" where
  "month_clean rows d n \<longleftrightarrow> rows \<noteq> [] \<and> int (length rows) = n
     \<and> map c_open_ms rows = minute_grid (start_ms d) (length rows) \<and> end_ms d = start_ms d + 60000 * n
     \<and> list_all clean_row rows"

definition month_warning :: "canonical_row list \<Rightarrow> bool \<Rightarrow> bool" where
  "month_warning rows source_order_valid \<longleftrightarrow>
     \<not> source_order_valid \<or> (\<exists>r \<in> set rows. zero_volume r \<or> c_ignore r \<noteq> cps ''0'')"

lemma volume_violations_zero:
  "volume_violations rows = 0 \<longleftrightarrow> list_all (\<lambda>r. volumes_nonnegative r \<and> 0 \<le> c_trade_count r) rows"
proof -
  have "volume_violations rows = 0 \<longleftrightarrow>
      count_if (\<lambda>r. \<not> volumes_nonnegative r) rows = 0 \<and> count_if (\<lambda>r. c_trade_count r < 0) rows = 0"
    unfolding volume_violations_def by (rule add_nonneg_eq_0_iff) simp_all
  then show ?thesis by (auto simp: count_if_zero list_all_iff not_less)
qed

lemma check_not_fail:
  "(f_outcome (record_check c ok k ev) \<noteq> Fail) = ok" "(f_outcome (warn_check c k ev) \<noteq> Fail) = True"
  by simp_all

lemma clean_rows:
  "list_all clean_row rows \<longleftrightarrow> list_all ohlc_ok rows \<and> list_all prices_positive rows
    \<and> list_all (\<lambda>r. volumes_nonnegative r \<and> 0 \<le> c_trade_count r) rows
    \<and> list_all (\<lambda>r. c_close_ms r = c_open_ms r + 59999) rows \<and> list_all taker_within rows"
  by (auto simp: list_all_iff clean_row_def)

lemma hard_checks:
  "(\<forall>f \<in> set (fst (evaluate_quality rows d ok (Some n))). f_outcome f \<noteq> Fail) \<longleftrightarrow> month_clean rows d n"
proof -
  let ?ts = "map c_open_ms rows" and ?n = "int (length rows)"
  have checks: "(\<forall>f \<in> set (fst (evaluate_quality rows d ok (Some n))). f_outcome f \<noteq> Fail) \<longleftrightarrow>
    ?n = n \<and> rows \<noteq> [] \<and> c_open_ms (hd rows) = start_ms d \<and> c_open_ms (last rows) = end_ms d - 60000
    \<and> distinct ?ts \<and> successively (<) ?ts \<and> successively (\<lambda>a b. b - a = 60000) ?ts
    \<and> list_all (\<lambda>t. start_ms d \<le> t \<and> t < end_ms d) ?ts \<and> list_all clean_row rows"
  proof -
    have b: "(\<forall>f \<in> set (boundary_findings (start_ms d) (end_ms d) rows (Some n = Some ?n)). f_outcome f \<noteq> Fail) \<longleftrightarrow>
      rows \<noteq> [] \<and> (?n = n \<longrightarrow> c_open_ms (hd rows) = start_ms d \<and> c_open_ms (last rows) = end_ms d - 60000)"
      by (auto simp: boundary_findings_def)
    show ?thesis
      unfolding evaluate_quality_def Let_def fst_conv set_append ball_Un b option.case clean_rows
      by (simp only: list.set ball_simps check_not_fail count_if_zero volume_violations_zero not_not
          card_zero_iff[of ?ts, unfolded length_map] list.pred_map comp_def) blast
  qed
  have grid: "rows \<noteq> [] \<and> c_open_ms (hd rows) = start_ms d \<and> successively (\<lambda>a b. b - a = 60000) ?ts
    \<longleftrightarrow> rows \<noteq> [] \<and> ?ts = minute_grid (start_ms d) (length rows)"
  proof (cases "rows = []")
    case False
    have h: "hd ?ts = c_open_ms (hd rows)" by (rule hd_map[OF False])
    show ?thesis using False grid_iff[of ?ts "start_ms d"] unfolding h length_map map_is_Nil_conv by blast
  qed simp
  have lst: "(c_open_ms (last rows) = end_ms d - 60000) = (end_ms d = start_ms d + 60000 * ?n)"
    if "rows \<noteq> []" "?ts = minute_grid (start_ms d) (length rows)"
  proof -
    have "c_open_ms (last rows) = start_ms d + 60000 * (?n - 1)"
      using last_grid[of "length rows" "start_ms d"] that by (metis last_map length_greater_0_conv)
    then show ?thesis by (auto simp: right_diff_distrib)
  qed
  have asc: "distinct ?ts \<and> successively (<) ?ts" if "?ts = minute_grid (start_ms d) (length rows)"
    using grid_ascending[of "start_ms d" "length rows"]
    unfolding that by (simp add: successively_less_iff sorted_wrt_less_distinct)
  have period: "list_all (\<lambda>t. start_ms d \<le> t \<and> t < end_ms d) ?ts"
    if "?ts = minute_grid (start_ms d) (length rows)" "end_ms d = start_ms d + 60000 * ?n"
    unfolding that(1) using that(2) by (auto simp: minute_grid_def list_all_iff)
  show ?thesis
    unfolding checks month_clean_def
  proof (intro iffI)
    assume l: "?n = n \<and> rows \<noteq> [] \<and> c_open_ms (hd rows) = start_ms d \<and> c_open_ms (last rows) = end_ms d - 60000
      \<and> distinct ?ts \<and> successively (<) ?ts \<and> successively (\<lambda>a b. b - a = 60000) ?ts
      \<and> list_all (\<lambda>t. start_ms d \<le> t \<and> t < end_ms d) ?ts \<and> list_all clean_row rows"
    then show "rows \<noteq> [] \<and> ?n = n \<and> ?ts = minute_grid (start_ms d) (length rows)
      \<and> end_ms d = start_ms d + 60000 * n \<and> list_all clean_row rows"
      using grid lst by blast
  next
    assume r: "rows \<noteq> [] \<and> ?n = n \<and> ?ts = minute_grid (start_ms d) (length rows)
      \<and> end_ms d = start_ms d + 60000 * n \<and> list_all clean_row rows"
    then have "c_open_ms (hd rows) = start_ms d \<and> successively (\<lambda>a b. b - a = 60000) ?ts" using grid by blast
    moreover have "c_open_ms (last rows) = end_ms d - 60000" "list_all (\<lambda>t. start_ms d \<le> t \<and> t < end_ms d) ?ts"
      using r lst period by blast+
    ultimately show "?n = n \<and> rows \<noteq> [] \<and> c_open_ms (hd rows) = start_ms d \<and> c_open_ms (last rows) = end_ms d - 60000
      \<and> distinct ?ts \<and> successively (<) ?ts \<and> successively (\<lambda>a b. b - a = 60000) ?ts
      \<and> list_all (\<lambda>t. start_ms d \<le> t \<and> t < end_ms d) ?ts \<and> list_all clean_row rows"
      using r asc by blast
  qed
qed

lemma warning_checks:
  "(\<exists>f \<in> set (fst (evaluate_quality rows d ok e)). f_outcome f = Warn) \<longleftrightarrow> month_warning rows ok"
proof -
  have b: "(\<exists>f \<in> set (boundary_findings su eu rs c). f_outcome f = Warn) = False" for su eu rs c
    by (auto simp: boundary_findings_def split: if_splits)
  have z: "count_if p rows = 0 \<longleftrightarrow> (\<forall>r \<in> set rows. \<not> p r)" for p
    by (simp add: count_if_zero list_all_iff)
  show ?thesis
    unfolding evaluate_quality_def Let_def fst_conv set_append bex_Un b
    by (cases e) (simp_all add: z month_warning_def, blast+)
qed

lemma quality_verdict_value:
  "snd (evaluate_quality rows d ok (Some n)) =
    (if \<not> month_clean rows d n then ''FAIL'' else if month_warning rows ok then ''WARN_BLOCKED'' else ''PASS'')"
proof -
  let ?fs = "fst (evaluate_quality rows d ok (Some n))"
  have "snd (evaluate_quality rows d ok (Some n)) = quality_state ?fs"
    by (simp add: evaluate_quality_def Let_def)
  moreover have "(\<exists>f \<in> set ?fs. f_outcome f = Fail) \<longleftrightarrow> \<not> month_clean rows d n"
    using hard_checks[of rows d ok n] by blast
  ultimately show ?thesis
    using warning_checks[of rows d ok "Some n"] by (simp add: quality_state_def)
qed

section \<open>Properties\<close>

text \<open>The verdict of the quality evaluator on an expected number of rows. PASS means exactly: the
  rows are the complete minute grid of the period and every row is clean, with no warning;
  WARN_BLOCKED means the same with a warning (source order, a zero-volume candle, a nonzero source
  ignore field); everything else is FAIL.\<close>

theorem quality_verdict_meaning:
  "snd (evaluate_quality rows d ok (Some n)) =
    (if \<not> month_clean rows d n then ''FAIL'' else if month_warning rows ok then ''WARN_BLOCKED'' else ''PASS'')"
  by (rule quality_verdict_value)

end
