(* ===== verification/Derive_Quality.thy ===== *)
theory Derive_Quality
  imports Quality
begin

text \<open>
  src/quantara/derive_quality.py: the evaluator of aggregated bars. It adds an outcome for checks
  that could not run, which blocks like a warning (second interpretation of \<open>quality_policy\<close>).
  Lemmas: PASS means exactly the complete clean bar grid; bars aggregated from minutes that pass
  the month evaluator pass this one.
\<close>

definition derived_state :: "finding list \<Rightarrow> string" where
  "derived_state fs =
     (if \<exists>f \<in> set fs. f_outcome f = Fail then ''FAIL''
      else if \<exists>f \<in> set fs. f_outcome f \<in> {Warn, NotEvaluated} then ''WARN_BLOCKED'' else ''PASS'')"

interpretation derived: quality_policy "\<lambda>p. p \<in> {Warn, NotEvaluated}" derived_state
  by unfold_locales (auto simp: derived_state_def)

definition not_evaluated :: "string \<Rightarrow> string \<Rightarrow> finding" where
  "not_evaluated cid reason = \<lparr>f_check = cid, f_outcome = NotEvaluated, f_severity = Warning, f_count = 0,
     f_evidence = [(''reason'', py_str reason)]\<rparr>"

lemma not_evaluated_outcome [simp]: "f_outcome (not_evaluated c r) = NotEvaluated"
  by (simp add: not_evaluated_def)

definition derived_boundaries :: "int \<Rightarrow> int \<Rightarrow> canonical_row list \<Rightarrow> bool \<Rightarrow> finding list" where
  "derived_boundaries tf su rows whole =
     (let e = su + int (length rows) * tf - 1 in
      if rows \<noteq> [] \<and> whole then
        [record_check ''derived_first_boundary_exact'' (c_open_ms (hd rows) = su) 0
           [(''observed_first_open'', PyInt (c_open_ms (hd rows))), (''approved_first_open'', PyInt su)],
         record_check ''derived_last_boundary_exact'' (c_close_ms (last rows) = e) 0
           [(''observed_last_close'', PyInt (c_close_ms (last rows))), (''approved_last_close'', PyInt e)]]
      else if rows = [] then
        [not_evaluated ''derived_first_boundary_exact'' ''no rows'',
         not_evaluated ''derived_last_boundary_exact'' ''no rows'']
      else
        [not_evaluated ''derived_first_boundary_exact'' ''incomplete series; exact first boundary undecidable'',
         not_evaluated ''derived_last_boundary_exact'' ''incomplete series; exact last boundary undecidable''])"

definition evaluate_derived_quality ::
    "canonical_row list \<Rightarrow> int \<Rightarrow> int \<Rightarrow> int option \<Rightarrow> bool \<Rightarrow> finding list \<times> string" where
  "evaluate_derived_quality rows tf su expected_count reconciliation_ok =
     (let n = int (length rows); times = map c_open_ms rows; dups = n - int (card (set times));
          ohlc = count_if (\<lambda>r. \<not> ohlc_ok r) rows; prices = count_if (\<lambda>r. \<not> prices_positive r) rows;
          vols = count_if (\<lambda>r. c_trade_count r < 0 \<or> \<not> volumes_nonnegative r) rows;
          takers = count_if (\<lambda>r. \<not> taker_within r) rows;
          closes = count_if (\<lambda>r. c_close_ms r \<noteq> c_open_ms r + tf - 1) rows;
          findings =
            [case expected_count of
               None \<Rightarrow> not_evaluated ''derived_row_count_matches_expected''
                         ''expected bucket count unavailable; row-count enforcement disabled''
             | Some e \<Rightarrow> record_check ''derived_row_count_matches_expected'' (n = e) n
                         [(''approved_rows'', PyInt e), (''actual_rows'', PyInt n)]]
            @ derived_boundaries tf su rows (expected_count = Some n)
            @ [record_check ''derived_unique_open_times'' (dups = 0) dups [],
               record_check ''derived_strictly_ascending_open_times'' (successively (<) times) 0 [],
               record_check ''derived_adjacency_exactly_timeframe_ms'' (successively (\<lambda>a b. b - a = tf) times) 0 [],
               record_check ''derived_ohlc_bounds_hold'' (ohlc = 0) ohlc [],
               record_check ''derived_prices_strictly_positive'' (prices = 0) prices [],
               record_check ''derived_volumes_and_counts_nonnegative'' (vols = 0) vols [],
               record_check ''derived_taker_buy_within_counterpart_volumes'' (takers = 0) takers [],
               record_check ''derived_close_time_relation'' (closes = 0) closes [],
               warn_check ''derived_zero_volume_bucket'' (count_if zero_volume rows) [],
               record_check ''derived_reconciliation_matches'' reconciliation_ok
                 (if reconciliation_ok then 0 else 1) []]
      in (findings, derived_state findings))"

section \<open>What PASS means\<close>

definition clean_bar :: "int \<Rightarrow> canonical_row \<Rightarrow> bool" where
  "clean_bar tf r \<longleftrightarrow> ohlc_ok r \<and> prices_positive r \<and> volumes_nonnegative r \<and> 0 \<le> c_trade_count r
     \<and> taker_within r \<and> c_close_ms r = c_open_ms r + tf - 1"

definition bar_grid :: "int \<Rightarrow> int \<Rightarrow> nat \<Rightarrow> int list" where
  "bar_grid tf su n = map (\<lambda>i. su + tf * int i) [0..<n]"

lemma bar_grid_iff:
  "(ts = [] \<or> hd ts = su) \<and> successively (\<lambda>a b. b - a = tf) ts \<longleftrightarrow> ts = bar_grid tf su (length ts)"
proof
  assume l: "(ts = [] \<or> hd ts = su) \<and> successively (\<lambda>a b. b - a = tf) ts"
  show "ts = bar_grid tf su (length ts)"
  proof (rule nth_equalityI)
    fix i assume "i < length ts"
    then show "ts ! i = bar_grid tf su (length ts) ! i"
      using successively_step_nth[of tf ts i] l by (auto simp: bar_grid_def algebra_simps)
  qed (simp add: bar_grid_def)
next
  assume r: "ts = bar_grid tf su (length ts)"
  have "hd (bar_grid tf su n) = su" if "0 < n" for n using that by (simp add: bar_grid_def hd_map)
  moreover have "successively (\<lambda>a b. b - a = tf) (bar_grid tf su n)" for n
    by (simp add: successively_conv_nth bar_grid_def algebra_simps)
  ultimately show "(ts = [] \<or> hd ts = su) \<and> successively (\<lambda>a b. b - a = tf) ts"
    using r by (metis length_greater_0_conv)
qed

lemma bar_grid_ascending: "0 < tf \<Longrightarrow> sorted_wrt (<) (bar_grid tf su n)"
  by (simp add: bar_grid_def sorted_wrt_iff_nth_less)

lemma clean_bars:
  "list_all (clean_bar tf) rows \<longleftrightarrow> list_all ohlc_ok rows \<and> list_all prices_positive rows
    \<and> list_all (\<lambda>r. \<not> (c_trade_count r < 0 \<or> \<not> volumes_nonnegative r)) rows \<and> list_all taker_within rows
    \<and> list_all (\<lambda>r. c_close_ms r = c_open_ms r + tf - 1) rows"
  by (auto simp: list_all_iff clean_bar_def)

text \<open>What the checks that can fail say of a series with rows.\<close>

lemma derived_hard_iff:
  assumes "0 < tf" "rows \<noteq> []"
  shows "(\<forall>f \<in> set (fst (evaluate_derived_quality rows tf su (Some n) rec)). f_outcome f \<noteq> Fail) \<longleftrightarrow>
    int (length rows) = n \<and> map c_open_ms rows = bar_grid tf su (length rows) \<and> list_all (clean_bar tf) rows \<and> rec"
proof -
  let ?ts = "map c_open_ms rows" and ?n = "int (length rows)"
  let ?ok = "\<lambda>f. f_outcome f \<noteq> Fail"
  have b: "?n = n \<Longrightarrow> (\<forall>f \<in> set (derived_boundaries tf su rows (Some n = Some ?n)). ?ok f) \<longleftrightarrow>
    c_open_ms (hd rows) = su \<and> c_close_ms (last rows) = su + ?n * tf - 1"
    using assms(2) by (auto simp: derived_boundaries_def Let_def)
  have checks: "(\<forall>f \<in> set (fst (evaluate_derived_quality rows tf su (Some n) rec)). ?ok f) \<longleftrightarrow>
    ?n = n \<and> (\<forall>f \<in> set (derived_boundaries tf su rows (Some n = Some ?n)). ?ok f)
    \<and> distinct ?ts \<and> successively (<) ?ts \<and> successively (\<lambda>a b. b - a = tf) ?ts \<and> list_all (clean_bar tf) rows \<and> rec"
    unfolding evaluate_derived_quality_def Let_def fst_conv set_append ball_Un option.case clean_bars
    by (simp add: count_if_zero card_zero_iff[of ?ts, unfolded length_map, simplified])
  have grid: "c_open_ms (hd rows) = su \<and> successively (\<lambda>a b. b - a = tf) ?ts \<longleftrightarrow> ?ts = bar_grid tf su (length rows)"
  proof -
    have h: "hd ?ts = c_open_ms (hd rows)" by (rule hd_map[OF assms(2)])
    show ?thesis using assms(2) bar_grid_iff[of ?ts su tf] unfolding h length_map map_is_Nil_conv by blast
  qed
  have asc: "distinct ?ts \<and> successively (<) ?ts" if "?ts = bar_grid tf su (length rows)"
    using bar_grid_ascending[OF assms(1), of su "length rows"]
    unfolding that by (simp add: successively_less_iff sorted_wrt_less_distinct)
  have lst: "c_close_ms (last rows) = su + ?n * tf - 1"
    if "?ts = bar_grid tf su (length rows)" "list_all (clean_bar tf) rows"
  proof -
    have "c_open_ms (last rows) = last (bar_grid tf su (length rows))" using that(1) assms(2) by (metis last_map)
    also have "\<dots> = su + tf * (?n - 1)" using assms(2) by (cases rows) (simp_all add: bar_grid_def last_map last_upt)
    finally show ?thesis using that(2) assms(2) by (simp add: list_all_iff clean_bar_def algebra_simps)
  qed
  show ?thesis unfolding checks using b grid asc lst by blast
qed

text \<open>Warnings and checks that could not run, of a series with the expected number of rows.\<close>

lemma derived_soft:
  assumes "rows \<noteq> []" "int (length rows) = n"
  shows "filter (\<lambda>f. f_outcome f = Warn) (fst (evaluate_derived_quality rows tf su (Some n) rec)) =
      (if list_all (\<lambda>r. \<not> zero_volume r) rows then []
       else [warn_check ''derived_zero_volume_bucket'' (count_if zero_volume rows) []])"
    and "\<forall>f \<in> set (fst (evaluate_derived_quality rows tf su (Some n) rec)). f_outcome f \<noteq> NotEvaluated"
  using assms
  by (auto simp: evaluate_derived_quality_def derived_boundaries_def Let_def count_if_zero)

lemma derived_verdict: "snd (evaluate_derived_quality rows tf su e rec) = derived_state (fst (evaluate_derived_quality rows tf su e rec))"
  by (simp add: evaluate_derived_quality_def Let_def)

lemma derived_pass_iff:
  assumes "0 < tf"
  shows "snd (evaluate_derived_quality rows tf su (Some n) rec) = ''PASS'' \<longleftrightarrow>
    rows \<noteq> [] \<and> int (length rows) = n \<and> map c_open_ms rows = bar_grid tf su (length rows)
    \<and> list_all (clean_bar tf) rows \<and> list_all (\<lambda>r. \<not> zero_volume r) rows \<and> rec"
proof (cases "rows = []")
  case True
  have "\<exists>f \<in> set (fst (evaluate_derived_quality rows tf su (Some n) rec)). f_outcome f = NotEvaluated"
    using True by (simp add: evaluate_derived_quality_def Let_def derived_boundaries_def)
  then show ?thesis using True by (auto simp: derived_verdict derived.pass_iff)
next
  case False
  let ?fs = "fst (evaluate_derived_quality rows tf su (Some n) rec)"
  have soft: "(\<forall>f \<in> set ?fs. f_outcome f \<notin> {Warn, NotEvaluated}) \<longleftrightarrow> list_all (\<lambda>r. \<not> zero_volume r) rows"
    if n: "int (length rows) = n"
  proof -
    have "(\<forall>f \<in> set ?fs. f_outcome f \<noteq> Warn) \<longleftrightarrow> list_all (\<lambda>r. \<not> zero_volume r) rows"
      unfolding filter_empty_conv[symmetric] derived_soft(1)[OF False n] by simp
    then show ?thesis using derived_soft(2)[OF False n, of tf su rec] by simp
  qed
  show ?thesis
    unfolding derived_verdict derived.pass_iff ball_conj_distrib derived_hard_iff[OF assms False]
    using soft False by (cases "int (length rows) = n") (simp_all add: conj_ac)
qed

section \<open>Bars of a passing month\<close>

lemmas row_check_defs = ohlc_ok_def prices_positive_def volumes_nonnegative_def taker_within_def zero_volume_def

lemma dval_zero [simp]: "dval dec_zero = 0"
  by (simp add: dec_zero_def dval_def)

text \<open>The values of one bar, given the facts \<open>aggregate_bar_values\<close> states.\<close>

lemma bar_clean:
  assumes ms: "ms \<noteq> []" "\<forall>m \<in> set ms. clean_row m \<and> \<not> zero_volume m"
    and prices: "c_open bar = c_open (hd ms)" "c_close bar = c_close (last ms)"
      "c_high bar \<in> c_high ` set ms" "\<forall>m \<in> set ms. dval (c_high m) \<le> dval (c_high bar)"
      "c_low bar \<in> c_low ` set ms" "\<forall>m \<in> set ms. dval (c_low bar) \<le> dval (c_low m)"
    and sums: "dval (c_base_volume bar) = (\<Sum>m \<leftarrow> ms. dval (c_base_volume m))"
      "dval (c_quote_volume bar) = (\<Sum>m \<leftarrow> ms. dval (c_quote_volume m))"
      "dval (c_taker_base bar) = (\<Sum>m \<leftarrow> ms. dval (c_taker_base m))"
      "dval (c_taker_quote bar) = (\<Sum>m \<leftarrow> ms. dval (c_taker_quote m))"
    and rest: "0 \<le> c_trade_count bar" "c_close_ms bar = c_open_ms bar + tf - 1"
  shows "clean_bar tf bar \<and> \<not> zero_volume bar"
proof -
  have hl: "hd ms \<in> set ms" "last ms \<in> set ms" using ms(1) by simp_all
  have m: "dval (c_low m) \<le> dval (c_open m) \<and> dval (c_low m) \<le> dval (c_close m) \<and> dval (c_open m) \<le> dval (c_high m)
      \<and> dval (c_close m) \<le> dval (c_high m) \<and> 0 < dval (c_open m) \<and> 0 < dval (c_close m) \<and> 0 < dval (c_high m)
      \<and> 0 < dval (c_low m) \<and> 0 \<le> dval (c_base_volume m) \<and> 0 \<le> dval (c_quote_volume m)
      \<and> 0 \<le> dval (c_taker_base m) \<and> 0 \<le> dval (c_taker_quote m) \<and> dval (c_taker_base m) \<le> dval (c_base_volume m)
      \<and> dval (c_taker_quote m) \<le> dval (c_quote_volume m)" if "m \<in> set ms" for m
    using ms(2) that by (auto simp: clean_row_def row_check_defs dec_cmp)
  have o: "dval (c_low bar) \<le> dval (c_open bar)" "dval (c_open bar) \<le> dval (c_high bar)"
    "dval (c_low bar) \<le> dval (c_close bar)" "dval (c_close bar) \<le> dval (c_high bar)"
    using m hl prices by (metis order_trans)+
  then have ohlc: "ohlc_ok bar" by (auto simp: row_check_defs dec_cmp)
  have "0 < dval (c_low bar)" using prices(5) m by auto
  then have pos: "prices_positive bar" using o by (auto simp: row_check_defs dec_cmp)
  have vol: "volumes_nonnegative bar"
    using m by (auto simp: row_check_defs dec_cmp sums intro!: sum_list_nonneg)
  have tak: "taker_within bar"
    using m by (auto simp: row_check_defs dec_cmp sums intro!: sum_list_mono)
  have "\<not> zero_volume bar"
  proof
    assume "zero_volume bar"
    then have "(\<Sum>m \<leftarrow> ms. dval (c_base_volume m)) = 0" "(\<Sum>m \<leftarrow> ms. dval (c_quote_volume m)) = 0"
      by (auto simp: row_check_defs dec_cmp sums)
    moreover have "dval (f (hd ms)) = 0" if "\<forall>m \<in> set ms. 0 \<le> dval (f m)" "(\<Sum>m \<leftarrow> ms. dval (f m)) = 0" for f
      using sum_list_nonneg_eq_0_iff[of "map (\<lambda>m. dval (f m)) ms"] that hl(1) by auto
    ultimately have "dval (c_base_volume (hd ms)) = 0" "dval (c_quote_volume (hd ms)) = 0"
      using m by blast+
    then have "zero_volume (hd ms)" by (simp add: row_check_defs dec_cmp)
    with ms(2) hl(1) show False by blast
  qed
  with ohlc pos vol tak rest show ?thesis by (simp add: clean_bar_def)
qed

lemma grid_buckets:
  assumes "tf = 60000 * k" "0 < k" "tf dvd su" "n = k * m"
  shows "(\<lambda>t. t - t mod tf) ` set (minute_grid su (nat n)) = set (bar_grid tf su (nat m))"
proof -
  obtain q where q: "su = tf * q" using assms(3) by (auto elim: dvdE)
  have bucket: "t - t mod tf = su + tf * (j div k)" if "t = su + 60000 * j" for t j
  proof -
    have "t div tf = q + j div k"
      using that assms(1,2) q by (simp add: div_mult2_eq[symmetric] div_mult_mult1)
    then show ?thesis by (simp add: minus_mod_eq_mult_div q distrib_left)
  qed
  show ?thesis
  proof (intro equalityI subsetI)
    fix b assume "b \<in> (\<lambda>t. t - t mod tf) ` set (minute_grid su (nat n))"
    then obtain i where i: "i < nat n" "b = su + tf * (int i div k)" using bucket by (auto simp: minute_grid_def)
    have "k * (int i div k) \<le> int i" using assms(2) by (simp flip: minus_mod_eq_mult_div)
    also have "int i < k * m" using i(1) assms(4) by simp
    finally have "int i div k < m" using assms(2) by (simp add: mult_less_cancel_left_pos)
    moreover have "0 \<le> int i div k" using assms(2) by (simp add: pos_imp_zdiv_nonneg_iff)
    ultimately show "b \<in> set (bar_grid tf su (nat m))"
      using i(2) by (auto simp: bar_grid_def intro!: image_eqI[of _ _ "nat (int i div k)"])
  next
    fix b assume "b \<in> set (bar_grid tf su (nat m))"
    then obtain i where i: "i < nat m" "b = su + tf * int i" by (auto simp: bar_grid_def)
    define j where "j = k * int i"
    have "j < n" using i(1) assms(2,4) by (simp add: j_def)
    moreover have "0 \<le> j" using assms(2) by (simp add: j_def)
    moreover have "b = su + tf * (j div k)" using i(2) assms(2) by (simp add: j_def)
    ultimately show "b \<in> (\<lambda>t. t - t mod tf) ` set (minute_grid su (nat n))"
      using bucket[of "su + 60000 * j" j]
      by (intro image_eqI[of _ _ "su + 60000 * j"]) (auto simp: minute_grid_def intro!: image_eqI[of _ _ "nat j"])
  qed
qed

section \<open>Properties\<close>

text \<open>C13: the derived verdict PASS means exactly: the expected number of bars, on the complete bar grid
  from the start, every bar clean and none without volume, and a reconciliation that matched. A check
  that could not run never counts as passed.\<close>

theorem derived_pass_meaning:
  assumes "0 < tf"
  shows "snd (evaluate_derived_quality rows tf su expected rec) = ''PASS'' \<longleftrightarrow>
    rows \<noteq> [] \<and> expected = Some (int (length rows)) \<and> map c_open_ms rows = bar_grid tf su (length rows)
    \<and> list_all (clean_bar tf) rows \<and> list_all (\<lambda>r. \<not> zero_volume r) rows \<and> rec"
proof (cases expected)
  case None
  have "\<exists>f \<in> set (fst (evaluate_derived_quality rows tf su None rec)). f_outcome f = NotEvaluated"
    by (simp add: evaluate_derived_quality_def Let_def)
  moreover have "snd (evaluate_derived_quality rows tf su None rec) = derived_state (fst (evaluate_derived_quality rows tf su None rec))"
    by (simp add: evaluate_derived_quality_def Let_def)
  ultimately show ?thesis using None by (auto simp: derived.pass_iff)
next
  case (Some n)
  then show ?thesis using derived_pass_iff[OF assms, of rows su n rec] by auto
qed

definition sample_bars :: "canonical_row list" where
  "sample_bars = [sample_bar\<lparr>c_open_ms := 120000, c_close_ms := 239999\<rparr>]"

theorem derived_pass_meaning_witness:
  "snd (evaluate_derived_quality sample_bars 120000 120000 (Some 1) True) = ''PASS''
   \<and> snd (evaluate_derived_quality sample_bars 120000 120000 None True) \<noteq> ''PASS''"
proof -
  have "map c_open_ms sample_bars = bar_grid 120000 120000 (length sample_bars)" by code_simp
  moreover have "list_all (clean_bar 120000) sample_bars \<and> list_all (\<lambda>r. \<not> zero_volume r) sample_bars" by code_simp
  moreover have "sample_bars \<noteq> []" "length sample_bars = 1" by (simp_all add: sample_bars_def)
  ultimately show ?thesis using derived_pass_meaning[of 120000 sample_bars 120000] by simp
qed

text \<open>C14: the two evaluators fit together: when a month of minutes passes its evaluator and aggregation
  over an aligned timeframe succeeds, the bars pass the derived evaluator with the count the calendar
  predicts. No aggregated month is blocked by its own derived checks.\<close>

theorem aggregated_month_passes:
  assumes "snd (evaluate_quality minutes d ok (Some n)) = ''PASS''"
    and "aggregate_timeframe minutes ident tf = Inr bars"
    and "tf = 60000 * k" "0 < k" "k \<le> 10 ^ 9" "tf dvd start_ms d" "n = k * m"
    and "list_all narrow_row minutes"
  shows "snd (evaluate_derived_quality bars tf (start_ms d) (Some m) True) = ''PASS''"
proof -
  have tf: "0 < tf" "60000 \<le> tf" "tf \<le> 60000 * 10 ^ 9" using assms(3-5) by auto
  have month: "month_clean minutes d n" "\<not> month_warning minutes ok"
    using assms(1) by (auto simp: quality_verdict_value split: if_splits)
  have grid: "map c_open_ms minutes = minute_grid (start_ms d) (nat n)" "minutes \<noteq> []" "0 < n"
    using month(1) by (auto simp: month_clean_def)
  have clean: "\<forall>r \<in> set minutes. clean_row r \<and> \<not> zero_volume r"
    using month by (auto simp: month_clean_def month_warning_def list_all_iff)
  note agg = aggregate_Inr[OF assms(2) tf(1)]
  have "0 < m" using grid(3) assms(4,7) by (simp add: zero_less_mult_iff)
  have "bucket_of tf ` set minutes = (\<lambda>t. t - t mod tf) ` set (map c_open_ms minutes)"
    by (simp add: bucket_of_def image_image)
  also have "\<dots> = set (bar_grid tf (start_ms d) (nat m))"
    unfolding grid(1) by (rule grid_buckets[OF assms(3,4,6,7)])
  finally have "map c_open_ms bars = sorted_list_of_set (set (bar_grid tf (start_ms d) (nat m)))"
    unfolding agg(2) by simp
  also have "\<dots> = bar_grid tf (start_ms d) (nat m)"
    using bar_grid_ascending[OF tf(1), of "start_ms d" "nat m"] strict_sorted_iff
    by (intro sorted_list_of_set.idem_if_sorted_distinct) auto
  finally have opens: "map c_open_ms bars = bar_grid tf (start_ms d) (nat m)" .
  then have len: "length bars = nat m" using length_map[of c_open_ms bars] by (simp add: bar_grid_def)
  have "clean_bar tf bar \<and> \<not> zero_volume bar" if bar: "bar \<in> set bars" for bar
  proof -
    let ?ms = "members_of tf minutes (c_open_ms bar)"
    have "int (length ?ms) = tf div 60000" "c_close_ms bar = c_open_ms bar + tf - 1"
      using aggregate_bucket_Inr[OF agg(3)[OF bar]] by blast+
    moreover from this(1) have "?ms \<noteq> []" using assms(3,4) by auto
    moreover have "\<forall>m \<in> set ?ms. clean_row m \<and> \<not> zero_volume m" using clean by (auto simp: members_of_def)
    ultimately show ?thesis
      using aggregate_values[OF assms(2) tf(2,3) assms(8) bar refl] by (intro bar_clean[of ?ms]) blast+
  qed
  then show ?thesis
    using derived_pass_iff[OF tf(1), of bars "start_ms d" m True] opens len \<open>0 < m\<close>
    by (auto simp: list_all_iff)
qed

definition two_minutes :: dataset_descriptor where
  "two_minutes = sample_descriptor
     \<lparr>start_utc := \<lparr>uyear = 1970, umonth = 1, uday = 1, uhour = 0, uminute = 2, usecond = 0\<rparr>,
      end_utc := \<lparr>uyear = 1970, umonth = 1, uday = 1, uhour = 0, uminute = 4, usecond = 0\<rparr>\<rparr>"

theorem aggregated_month_passes_witness:
  "\<exists>bars. aggregate_timeframe sample_minutes [] 120000 = Inr bars
     \<and> snd (evaluate_quality sample_minutes two_minutes True (Some 2)) = ''PASS''
     \<and> snd (evaluate_derived_quality bars 120000 (start_ms two_minutes) (Some 1) True) = ''PASS''"
proof -
  have st: "start_ms two_minutes = 120000" "end_ms two_minutes = 240000"
    by (simp_all add: two_minutes_def start_ms_def end_ms_def epoch_ms_of_def epoch_seconds_def to_ordinal_def
        days_before_year_def days_before_month_def)
  have "list_all clean_row sample_minutes" "\<not> month_warning sample_minutes True"
    "map c_open_ms sample_minutes = minute_grid 120000 (length sample_minutes)" "sample_minutes \<noteq> []"
    "int (length sample_minutes) = 2" by code_simp+
  then have pass: "snd (evaluate_quality sample_minutes two_minutes True (Some 2)) = ''PASS''"
    by (simp add: quality_verdict_value month_clean_def st)
  obtain bar where bar: "aggregate_timeframe sample_minutes [] 120000 = Inr [bar]" using sample_aggregates by blast
  from aggregated_month_passes[OF pass bar, of 2 1] sample_narrow pass bar st show ?thesis by simp
qed

end
