(* ===== verification/Commit_Identity.thy ===== *)
theory Commit_Identity
  imports Derive_Quality
begin

text \<open>
  The commit addresses of the pipelines (\<open>*_commit_identity\<close> in derive_pipeline.py,
  research_pipeline.py, validation_pipeline.py, evaluation_pipeline.py and training_quality.py) and
  the hashes of training_quality.py. Each address is SHA-256 (the parameter \<open>H\<close>) over the canonical
  JSON of a domain, a content hash and a lineage. Lemmas: equal canonical bytes come from values
  equal up to key order, hence an address determines its domain, content and lineage unless two
  different byte strings with one digest exist.
\<close>

section \<open>Equal canonical bytes\<close>

abbreviation unicode :: "nat set" where
  "unicode \<equiv> {..<0x110000}"

lemma utf8_encode_inj:
  assumes "utf8_encode s = Inr b" "utf8_encode t = Inr b" "set s \<subseteq> unicode" "set t \<subseteq> unicode"
  shows "s = t"
proof -
  have "concat (map utf8_char s) @ [] = concat (map utf8_char t) @ []"
    using assms(1,2) by (simp add: utf8_encode_def split: if_splits)
  moreover have "utf8_char c \<noteq> []" if "c < 0x110000" for c using utf8.enc_head[OF that] by auto
  ultimately show ?thesis using assms(3,4)
  proof (induction s arbitrary: t)
    case Nil
    then show ?case by (cases t) auto
  next
    case (Cons c s)
    then obtain d t' where t: "t = d # t'" by (cases t) auto
    have "c = d \<and> concat (map utf8_char s) = concat (map utf8_char t')"
      using Cons.prems t by (intro utf8.enc_prefix) auto
    then show ?case using Cons.IH[of t'] Cons.prems t by auto
  qed
qed

lemma jcs_utf8_text: "jcs_utf8 v = Inr b \<longleftrightarrow> jcs_ok v \<and> utf8_encode (jcs_text (jcs_norm v)) = Inr b"
  by (auto simp: jcs_utf8_def bindE_Inr_iff canonicalize_iff)

lemma str_points_norm [simp]: "str_points (jcs_norm v) = str_points v"
  by (induction v rule: jcs_norm.induct) auto

lemma jcs_utf8_same:
  assumes "jcs_utf8 v = Inr b" "jcs_utf8 w = Inr b" "str_points v \<subseteq> unicode" "str_points w \<subseteq> unicode"
  shows "jcs_norm v = jcs_norm w"
proof -
  have p: "set (jcs_text (jcs_norm u)) \<subseteq> unicode" if "str_points u \<subseteq> unicode" for u
    using jcs_text_points[of "jcs_norm u"] that by (auto simp: printable_def)
  have "jcs_text (jcs_norm v) = jcs_text (jcs_norm w)"
    using assms p by (intro utf8_encode_inj[of _ b]) (auto simp: jcs_utf8_text)
  moreover have "canonicalize v = Inr (jcs_text (jcs_norm v))" "canonicalize w = Inr (jcs_text (jcs_norm w))"
    using assms by (simp_all add: canonicalize_iff jcs_utf8_text)
  ultimately show ?thesis using canonicalize_same_text by metis
qed

text \<open>A collision of the digest: two byte strings with one digest.\<close>

definition byte_string :: "bytes \<Rightarrow> bool" where
  "byte_string b \<longleftrightarrow> list_all (\<lambda>x. x < 256) b"

definition collision :: "(bytes \<Rightarrow> string) \<Rightarrow> bool" where
  "collision H \<longleftrightarrow> (\<exists>b b'. byte_string b \<and> byte_string b' \<and> b \<noteq> b' \<and> H b = H b')"

lemma utf8_char_byte: "c < 0x110000 \<Longrightarrow> x \<in> set (utf8_char c) \<Longrightarrow> x < 256"
  by (auto simp: utf8_char_def less_mult_imp_div_less split: if_splits)

lemma utf8_encode_bytes:
  assumes "utf8_encode s = Inr b" "set s \<subseteq> unicode"
  shows "byte_string b"
proof -
  have "b = concat (map utf8_char s)" using assms(1) by (simp add: utf8_encode_def split: if_splits)
  moreover have "\<forall>c \<in> set s. c < 0x110000" using assms(2) by blast
  ultimately show ?thesis using utf8_char_byte by (fastforce simp: byte_string_def list_all_iff)
qed

lemma jcs_utf8_bytes:
  assumes "jcs_utf8 v = Inr b" "str_points v \<subseteq> unicode"
  shows "byte_string b"
  using assms jcs_text_points[of "jcs_norm v"]
  by (intro utf8_encode_bytes[of "jcs_text (jcs_norm v)"]) (auto simp: jcs_utf8_text printable_def)

lemma same_digest:
  assumes "jcs_utf8 v = Inr b" "jcs_utf8 w = Inr b'" "H b = H b'"
    and "str_points v \<subseteq> unicode" "str_points w \<subseteq> unicode"
  shows "collision H \<or> jcs_norm v = jcs_norm w"
  using assms jcs_utf8_same[of v b w] jcs_utf8_bytes unfolding collision_def by metis

text \<open>A value of the JSON kinds without surrogates always has bytes.\<close>

lemma jcs_utf8_exists:
  assumes "jcs_ok v" "str_points v \<subseteq> {..<0xD800}"
  shows "\<exists>b. jcs_utf8 v = Inr b"
proof -
  have "\<not> is_surrogate c" if "c \<in> set (jcs_text (jcs_norm v))" for c
    using that jcs_text_points[of "jcs_norm v"] assms(2) by (force simp: printable_def is_surrogate_def)
  then show ?thesis using assms(1) by (simp add: jcs_utf8_text utf8_encode_def)
qed

lemma cps_points [simp]: "set (cps s) \<subseteq> {..<0xD800}"
proof -
  have "(of_char c :: nat) < 0xD800" for c using nat_of_char_less_256[of c] by linarith
  then show ?thesis by (auto simp: cps_def)
qed

lemma cps_not_surrogate [simp]: "c \<in> set (cps s) \<Longrightarrow> \<not> is_surrogate c"
  using subsetD[OF cps_points, of c s] by (auto simp: is_surrogate_def)

section \<open>The addresses\<close>

definition commit_address :: "(bytes \<Rightarrow> string) \<Rightarrow> string \<Rightarrow> string \<Rightarrow> ustr \<Rightarrow> pyval \<Rightarrow> string res" where
  "commit_address H domain field content lineage =
     bindE (jcs_utf8 (PyDict [(cps ''domain'', py_str domain), (cps ''canonical_content_hash'', PyStr content),
                              (cps field, lineage)])) (\<lambda>b. Inr (H b))"

definition derived_commit_identity :: "(bytes \<Rightarrow> string) \<Rightarrow> ustr \<Rightarrow> pyval \<Rightarrow> string res" where
  "derived_commit_identity H content lineage =
     commit_address H ''quantara-derived-commit-identity-v1'' ''derived_from'' (map lower_cp content) lineage"

definition research_commit_identity :: "(bytes \<Rightarrow> string) \<Rightarrow> ustr \<Rightarrow> pyval \<Rightarrow> string res" where
  "research_commit_identity H content lineage =
     commit_address H ''quantara-research-commit-identity-v1'' ''research_from'' (map lower_cp content) lineage"

definition validation_commit_identity :: "(bytes \<Rightarrow> string) \<Rightarrow> ustr \<Rightarrow> pyval \<Rightarrow> string res" where
  "validation_commit_identity H content lineage =
     commit_address H ''quantara-validation-commit-identity-v1'' ''validation_from'' (map lower_cp content) lineage"

definition lower_hex :: "nat \<Rightarrow> bool" where
  "lower_hex c \<longleftrightarrow> 48 \<le> c \<and> c \<le> 57 \<or> 97 \<le> c \<and> c \<le> 102"

definition evaluation_commit_identity :: "(bytes \<Rightarrow> string) \<Rightarrow> ustr \<Rightarrow> pyval \<Rightarrow> string res" where
  "evaluation_commit_identity H content lineage =
     bindE (checkE (length content = 64 \<and> list_all lower_hex content) HashPayloadError) (\<lambda>_.
     bindE (checkE (case lineage of PyDict _ \<Rightarrow> True | _ \<Rightarrow> False) HashPayloadError) (\<lambda>_.
     commit_address H ''quantara-evaluation-commit-identity-v1'' ''evaluation_from'' content lineage))"

definition training_commit_identity :: "(bytes \<Rightarrow> string) \<Rightarrow> ustr \<Rightarrow> pyval \<Rightarrow> string res" where
  "training_commit_identity H content lineage =
     commit_address H ''quantara-training-commit-identity-v1'' ''training_from'' content lineage"

section \<open>Training hashes\<close>

definition training_schema_fingerprint :: "(bytes \<Rightarrow> string) \<Rightarrow> pyval \<Rightarrow> ustr \<Rightarrow> ustr \<Rightarrow> string res" where
  "training_schema_fingerprint H contract parent schema =
     bindE (jcs_utf8 (PyDict [(cps ''domain'', py_str ''quantara-training-schema-fingerprint-v1''),
       (cps ''parent_validation_fingerprint'', PyStr parent), (cps ''artifact_schema'', PyStr schema),
       (cps ''decimal_contract'', contract)])) (\<lambda>b. Inr (H b))"

definition training_content_hash :: "(bytes \<Rightarrow> string) \<Rightarrow> ustr \<Rightarrow> bytes \<Rightarrow> string res" where
  "training_content_hash H fingerprint artifact =
     bindE (ascii_encode fingerprint) (\<lambda>fp.
     Inr (H (cps ''quantara-training-content-v1'' @ 0 # fp @ 0 # artifact)))"

section \<open>Lemmas\<close>

lemma cps_unicode [simp]: "set (cps s) \<subseteq> unicode"
proof -
  have "(of_char c :: nat) < 0x110000" for c using nat_of_char_less_256[of c] by linarith
  then show ?thesis by (auto simp: cps_def)
qed

lemma commit_address_binds:
  assumes "commit_address H d k c l = Inr h" "commit_address H d' k' c' l' = Inr h"
    and "{k, k'} \<inter> {''domain'', ''canonical_content_hash''} = {}"
    and "set c \<union> set c' \<union> str_points l \<union> str_points l' \<subseteq> unicode"
  shows "collision H \<or> d = d' \<and> c = c' \<and> (k = k' \<longrightarrow> jcs_norm l = jcs_norm l')"
proof -
  let ?P = "\<lambda>d k c l. [(cps ''domain'', py_str d), (cps ''canonical_content_hash'', PyStr c), (cps k, l)]"
  obtain b b' where b: "jcs_utf8 (PyDict (?P d k c l)) = Inr b" "jcs_utf8 (PyDict (?P d' k' c' l')) = Inr b'" "H b = H b'"
    using assms(1,2) by (auto simp: commit_address_def bindE_Inr_iff)
  have ascii: "set (cps s) \<subseteq> unicode" for s by (rule cps_unicode)
  have p: "str_points (PyDict (?P d k c l)) \<subseteq> unicode" "str_points (PyDict (?P d' k' c' l')) \<subseteq> unicode"
    using assms(4) ascii by auto
  show ?thesis
  proof (cases "collision H")
    case False
    then have n: "jcs_norm (PyDict (?P d k c l)) = jcs_norm (PyDict (?P d' k' c' l'))" using same_digest[OF b p] by blast
    have dist: "distinct (map fst (?P d k c l))" "distinct (map fst (?P d' k' c' l'))" using assms(3) by auto
    note look = jcs_norm_lookup[OF n dist]
    have "d = d'" "c = c'" using look[of "cps ''domain''"] look[of "cps ''canonical_content_hash''"] by simp_all
    moreover have "jcs_norm l = jcs_norm l'" if "k = k'"
      using look[of "cps k"] that assms(3) by (auto split: if_splits)
    ultimately show ?thesis by blast
  qed simp
qed

definition commit_identities :: "((bytes \<Rightarrow> string) \<Rightarrow> ustr \<Rightarrow> pyval \<Rightarrow> string res) list" where
  "commit_identities = [derived_commit_identity, research_commit_identity, validation_commit_identity,
     evaluation_commit_identity, training_commit_identity]"

lemma lower_cp_idem [simp]: "lower_cp (lower_cp c) = lower_cp c"
  by (auto simp: lower_cp_def)

lemma lower_cp_unicode: "set c \<subseteq> unicode \<Longrightarrow> set (map lower_cp c) \<subseteq> unicode"
  by (auto simp: lower_cp_def)

lemma commit_identity_address:
  assumes "i < 5" "(commit_identities ! i) H c l = Inr h"
  defines "ds \<equiv> [(''quantara-derived-commit-identity-v1'', ''derived_from''),
    (''quantara-research-commit-identity-v1'', ''research_from''),
    (''quantara-validation-commit-identity-v1'', ''validation_from''),
    (''quantara-evaluation-commit-identity-v1'', ''evaluation_from''),
    (''quantara-training-commit-identity-v1'', ''training_from'')]"
  obtains c0 where "commit_address H (fst (ds ! i)) (snd (ds ! i)) c0 l = Inr h" "c0 \<in> {c, map lower_cp c}"
proof -
  have "i \<in> {0, 1, 2, 3, 4}" using assms(1) by auto
  then have "commit_address H (fst (ds ! i)) (snd (ds ! i)) c l = Inr h
    \<or> commit_address H (fst (ds ! i)) (snd (ds ! i)) (map lower_cp c) l = Inr h"
    using assms(2) unfolding ds_def commit_identities_def
    by (auto simp: derived_commit_identity_def research_commit_identity_def validation_commit_identity_def
        evaluation_commit_identity_def training_commit_identity_def bindE_Inr_iff)
  with that show thesis by blast
qed

text \<open>A commit address names one stage, one content hash and one lineage: when two of the five
  address functions give the same address, they are the same function, on content hashes equal up to
  letter case and lineages equal up to key order, or the digest has a collision.\<close>

theorem commit_identities_bind:
  assumes "i < 5" "j < 5" "(commit_identities ! i) H c l = Inr h" "(commit_identities ! j) H c' l' = Inr h"
    and "set c \<union> set c' \<union> str_points l \<union> str_points l' \<subseteq> unicode"
  shows "collision H \<or> i = j \<and> map lower_cp c = map lower_cp c' \<and> jcs_norm l = jcs_norm l'"
proof -
  let ?ds = "[(''quantara-derived-commit-identity-v1'', ''derived_from''),
    (''quantara-research-commit-identity-v1'', ''research_from''),
    (''quantara-validation-commit-identity-v1'', ''validation_from''),
    (''quantara-evaluation-commit-identity-v1'', ''evaluation_from''),
    (''quantara-training-commit-identity-v1'', ''training_from'')]"
  obtain a where a: "commit_address H (fst (?ds ! i)) (snd (?ds ! i)) a l = Inr h" "a \<in> {c, map lower_cp c}"
    using commit_identity_address[OF assms(1,3)] by blast
  obtain b where b: "commit_address H (fst (?ds ! j)) (snd (?ds ! j)) b l' = Inr h" "b \<in> {c', map lower_cp c'}"
    using commit_identity_address[OF assms(2,4)] by blast
  have ij: "i \<in> {0, 1, 2, 3, 4}" "j \<in> {0, 1, 2, 3, 4}" using assms(1,2) by auto
  then have k: "{snd (?ds ! i), snd (?ds ! j)} \<inter> {''domain'', ''canonical_content_hash''} = {}" by auto
  have u: "set a \<union> set b \<union> str_points l \<union> str_points l' \<subseteq> unicode"
    using a(2) b(2) assms(5) lower_cp_unicode[of c] lower_cp_unicode[of c'] unfolding Un_subset_iff by blast
  have "fst (?ds ! i) = fst (?ds ! j) \<Longrightarrow> i = j" using ij by auto
  moreover have "a = b \<Longrightarrow> map lower_cp c = map lower_cp c'" using a(2) b(2) by (auto simp: comp_def)
  ultimately show ?thesis using commit_address_binds[OF a(1) b(1) k u] by auto
qed

theorem commit_identities_bind_witness:
  "\<exists>h. derived_commit_identity (map char_of) (cps ''0A'') (PyDict []) = Inr h
     \<and> derived_commit_identity (map char_of) (cps ''0a'') (PyDict []) = Inr h
     \<and> research_commit_identity (map char_of) (cps ''0a'') (PyDict []) \<noteq> Inr h"
proof -
  have "map (of_char :: char \<Rightarrow> nat) (map char_of b) = b" if "byte_string b" for b
    using that by (induction b) (auto simp: byte_string_def)
  then have "\<not> collision (map char_of)" unfolding collision_def by metis
  moreover have "case derived_commit_identity (map char_of) (cps ''0A'') (PyDict []) of Inl _ \<Rightarrow> False
    | Inr h \<Rightarrow> derived_commit_identity (map char_of) (cps ''0a'') (PyDict []) = Inr h" by code_simp
  ultimately show ?thesis
    using commit_identities_bind[of 0 1 "map char_of" "cps ''0A''" "PyDict []" _ "cps ''0a''" "PyDict []"] cps_unicode
    by (auto simp: commit_identities_def split: sum.splits)
qed

end
