(* ===== verification/Derive_Descriptor.thy ===== *)
theory Derive_Descriptor
  imports Descriptor
begin

text \<open>
  The derived-dataset descriptor (src/quantara/derive_descriptor.py). Documents are YAML values as
  in the base loader. \<open>base_of\<close> reads the document the \<open>base_descriptor\<close> path resolves to, \<open>None\<close>
  when no file is found; \<open>text_of\<close> gives Python's \<open>str\<close> of values that are neither texts nor
  integers, booleans or \<open>None\<close>; \<open>path_ok\<close> and \<open>approval_ok\<close> are the path check of
  quality_approval.py. Both error classes of the module carry the descriptor's identifier.
\<close>

section \<open>Constants\<close>

definition DERIVED_SCHEMA :: string where "DERIVED_SCHEMA = ''quantara.derived-dataset-descriptor/v1''"
definition TRANSFORMATION_NAME :: string where "TRANSFORMATION_NAME = ''multi_timeframe_aggregation''"
definition TRANSFORMATION_VERSION :: string where "TRANSFORMATION_VERSION = ''1''"

definition SUPPORTED_TIMEFRAMES :: "(string \<times> int) list" where
  "SUPPORTED_TIMEFRAMES = [(''1h'', 3600000), (''1d'', 86400000)]"

definition IDENTITY_FIELDS :: "string list" where
  "IDENTITY_FIELDS = [''provider'', ''market_type'', ''instrument_id'', ''provider_symbol'', ''base_asset'',
     ''quote_asset'', ''settlement_asset'', ''contract_type'', ''dataset_type'']"

definition DERIVED_KEYS :: "string list" where
  "DERIVED_KEYS = [''schema'', ''dataset_id''] @ IDENTITY_FIELDS
     @ [''interval'', ''base_dataset_id'', ''base_descriptor'', ''period'', ''transformation'', ''schema_version'',
        ''timestamp_semantics'', ''quality_policy_version'', ''legal_record'']"

definition DERIVED_OPTIONAL_KEYS :: "string list" where
  "DERIVED_OPTIONAL_KEYS = [''quality_approval'']"

section \<open>Lenient timestamps\<close>

text \<open>\<open>datetime.strptime\<close> without a preceding pattern check: fields of one or two characters, letters
  in either case.\<close>

definition cut_at :: "nat set \<Rightarrow> ustr \<Rightarrow> (ustr \<times> ustr) option" where
  "cut_at seps s =
     (case dropWhile (\<lambda>c. c \<notin> seps) s of [] \<Rightarrow> None | _ # rest \<Rightarrow> Some (takeWhile (\<lambda>c. c \<notin> seps) s, rest))"

definition short_field :: "(nat \<Rightarrow> nat \<Rightarrow> bool) \<Rightarrow> (nat \<Rightarrow> bool) \<Rightarrow> ustr \<Rightarrow> nat option" where
  "short_field two_ok one_ok s = (case s of
      [a] \<Rightarrow> if one_ok a then Some (udigit_val a) else None
    | [a, b] \<Rightarrow> if two_ok a b then Some (two a b) else None
    | _ \<Rightarrow> None)"

definition day_text :: "ustr \<Rightarrow> nat option" where
  "day_text s = (case s of
      [a, b] \<Rightarrow> if a = 32 \<and> in_range 49 57 b then Some (b - 48)
                else if day_field a b then Some (two a b) else None
    | [a] \<Rightarrow> if in_range 49 57 a then Some (a - 48) else None
    | _ \<Rightarrow> None)"

definition strptime_fields :: "ustr \<Rightarrow> utc option" where
  "strptime_fields s =
     Option.bind (cut_at {45} s) (\<lambda>(y, r).
     Option.bind (cut_at {45} r) (\<lambda>(mo, r).
     Option.bind (cut_at {84, 116} r) (\<lambda>(d, r).
     Option.bind (cut_at {58} r) (\<lambda>(h, r).
     Option.bind (cut_at {58} r) (\<lambda>(mi, r).
     Option.bind (cut_at {90, 122} r) (\<lambda>(sec, r).
     if length y \<noteq> 4 \<or> \<not> list_all is_unicode_digit y \<or> r \<noteq> [] then None
     else
       Option.bind (short_field month_field (in_range 49 57) mo) (\<lambda>month.
       Option.bind (day_text d) (\<lambda>day.
       Option.bind (short_field hour_field is_unicode_digit h) (\<lambda>hour.
       Option.bind (short_field minute_field is_unicode_digit mi) (\<lambda>minute.
       Option.bind (short_field second_field is_unicode_digit sec) (\<lambda>second.
       Some \<lparr>uyear = read_udigits y, umonth = month, uday = day, uhour = hour, uminute = minute, usecond = second\<rparr>)))))))))))"

definition parse_utc :: "pyval option \<Rightarrow> utc res" where
  "parse_utc v = (case v of
      Some (PyStr s) \<Rightarrow>
        (case strptime_fields s of
           Some u \<Rightarrow> if utc_valid u then Inr u else Inl DescriptorError
         | None \<Rightarrow> Inl DescriptorError)
    | _ \<Rightarrow> Inl DescriptorError)"

text \<open>Python's \<open>str\<close>.\<close>

definition py_text :: "(pyval \<Rightarrow> ustr) \<Rightarrow> pyval \<Rightarrow> ustr" where
  "py_text text_of v = (case v of
      PyStr s \<Rightarrow> s
    | PyInt i \<Rightarrow> cps (show_int i)
    | PyBool b \<Rightarrow> cps (if b then ''True'' else ''False'')
    | PyNone \<Rightarrow> cps ''None''
    | _ \<Rightarrow> text_of v)"

section \<open>The descriptor\<close>

record derived_descriptor =
  dd_dataset_id :: pyval
  dd_interval :: string
  dd_timeframe_ms :: int
  dd_start :: utc
  dd_end :: utc
  dd_base_path :: ustr
  dd_base :: dataset_descriptor
  dd_schema_version :: string
  dd_timestamp_semantics :: pyval
  dd_policy :: ustr
  dd_legal_record :: pyval
  dd_approval :: "ustr option"

text \<open>The identity fields equal the base descriptor's; they are read from it.\<close>

definition identity_values :: "dataset_descriptor \<Rightarrow> string list" where
  "identity_values b = [provider b, market_type b, instrument_id b, provider_symbol b, base_asset b,
     quote_asset b, settlement_asset b, contract_type b, dataset_type b]"

definition derived_row_count :: "derived_descriptor \<Rightarrow> int" where
  "derived_row_count d = (epoch_ms_of (dd_end d) - epoch_ms_of (dd_start d)) div dd_timeframe_ms d"

definition identity_tuple :: "derived_descriptor \<Rightarrow> string list" where
  "identity_tuple d = take 8 (identity_values (dd_base d)) @ [dd_interval d, dd_schema_version d]"

definition period_dict :: "utc \<Rightarrow> utc \<Rightarrow> pyval" where
  "period_dict su eu = PyDict [(cps ''start'', PyStr (strftime_utc su)), (cps ''end'', PyStr (strftime_utc eu))]"

definition derived_semantics :: "(bytes \<Rightarrow> string) \<Rightarrow> derived_descriptor \<Rightarrow> ustr res" where
  "derived_semantics sha_hex d =
     bindE (canonical_semantics (dd_base d)) (\<lambda>base_text.
     bindE (descriptor_hash sha_hex base_text) (\<lambda>base_hash.
     canonicalize (PyDict (
       [(cps ''schema'', py_str DERIVED_SCHEMA), (cps ''dataset_id'', dd_dataset_id d)]
       @ map (\<lambda>(k, v). (cps k, py_str v)) (zip IDENTITY_FIELDS (identity_values (dd_base d)))
       @ [(cps ''interval'', py_str (dd_interval d)),
          (cps ''period'', period_dict (dd_start d) (dd_end d)),
          (cps ''transformation'', PyDict [(cps ''name'', py_str TRANSFORMATION_NAME), (cps ''version'', py_str TRANSFORMATION_VERSION)]),
          (cps ''schema_version'', py_str (dd_schema_version d)),
          (cps ''timestamp_semantics'', dd_timestamp_semantics d),
          (cps ''quality_policy_version'', PyStr (dd_policy d)),
          (cps ''legal_record'', dd_legal_record d),
          (cps ''base_binding'', PyDict
            [(cps ''dataset_id'', py_str (dataset_id (dd_base d))),
             (cps ''descriptor_path'', PyStr (dd_base_path d)),
             (cps ''descriptor_sha256'', py_str base_hash)])]
       @ (case dd_approval d of None \<Rightarrow> [] | Some q \<Rightarrow> [(cps ''quality_approval'', PyStr q)])))))"

section \<open>Loading\<close>

definition derived_interval :: "pyval option \<Rightarrow> (string \<times> int) res" where
  "derived_interval v = (case v of
      Some (PyList _) \<Rightarrow> Inl PyTypeError
    | Some (PyDict _) \<Rightarrow> Inl PyTypeError
    | _ \<Rightarrow> (case filter (\<lambda>(k, ms). v = Some (py_str k)) SUPPORTED_TIMEFRAMES of
              kms # _ \<Rightarrow> Inr kms | [] \<Rightarrow> Inl UnsupportedTimeframe))"

definition derived_approval :: "(ustr \<Rightarrow> bool) \<Rightarrow> ustr \<Rightarrow> pyval option \<Rightarrow> ustr option res" where
  "derived_approval approval_ok policy approval =
     (if policy = cps ''1'' then bindE (require (approval = None)) (\<lambda>_. Inr None)
      else if policy = cps ''2'' then
        (case approval of
           Some (PyStr q) \<Rightarrow> bindE (require (q \<noteq> [])) (\<lambda>_. bindE (require (approval_ok q)) (\<lambda>_. Inr (Some q)))
         | _ \<Rightarrow> Inl DescriptorError)
      else Inl DescriptorError)"

definition derived_period :: "pyval option \<Rightarrow> int \<Rightarrow> dataset_descriptor \<Rightarrow> (utc \<times> utc) res" where
  "derived_period v tf b = (case v of
      Some (PyDict kvs) \<Rightarrow>
        bindE (require (keys_of kvs = {cps ''start'', cps ''end''})) (\<lambda>_.
        bindE (parse_utc (py_get kvs ''start'')) (\<lambda>su.
        bindE (parse_utc (py_get kvs ''end'')) (\<lambda>eu.
        let length_ms = epoch_ms_of eu - epoch_ms_of su in
        bindE (require (0 < length_ms \<and> length_ms mod tf = 0)) (\<lambda>_.
        bindE (require ((su, eu) = (start_utc b, end_utc b))) (\<lambda>_. Inr (su, eu))))))
    | _ \<Rightarrow> Inl DescriptorError)"

definition named_version_block :: "(pyval \<Rightarrow> ustr) \<Rightarrow> string \<Rightarrow> string \<Rightarrow> pyval option \<Rightarrow> bool" where
  "named_version_block text_of name version v = (case v of
      Some (PyDict kvs) \<Rightarrow> keys_of kvs = {cps ''name'', cps ''version''} \<and> py_get kvs ''name'' = Some (py_str name)
        \<and> py_text text_of (the (py_get kvs ''version'')) = cps version
    | _ \<Rightarrow> False)"

text \<open>A relative path that resolves nowhere is rejected; an absolute one fails when it is read.\<close>

definition resolve_base :: "(ustr \<Rightarrow> pyval option) \<Rightarrow> ustr \<Rightarrow> pyval res" where
  "resolve_base base_of path = (case base_of path of
      Some v \<Rightarrow> Inr v
    | None \<Rightarrow> Inl (if path \<noteq> [] \<and> hd path = 47 then PyOSError else DescriptorError))"

definition load_derived_descriptor ::
    "(string \<Rightarrow> bool) \<Rightarrow> (ustr \<Rightarrow> bool) \<Rightarrow> (pyval \<Rightarrow> ustr) \<Rightarrow> (ustr \<Rightarrow> pyval option) \<Rightarrow> pyval \<Rightarrow> derived_descriptor res" where
  "load_derived_descriptor path_ok approval_ok text_of base_of document = (case document of
      PyDict doc \<Rightarrow>
        bindE (require (keys_of doc \<subseteq> set (map cps (DERIVED_KEYS @ DERIVED_OPTIONAL_KEYS)))) (\<lambda>_.
        bindE (require (set (map cps DERIVED_KEYS) \<subseteq> keys_of doc)) (\<lambda>_.
        bindE (require (py_get doc ''schema'' = Some (py_str DERIVED_SCHEMA))) (\<lambda>_.
        bindE (derived_interval (py_get doc ''interval'')) (\<lambda>(ivl, tf).
        bindE (case py_get doc ''base_descriptor'' of Some (PyStr p) \<Rightarrow> Inr p | _ \<Rightarrow> Inl PyTypeError) (\<lambda>path.
        bindE (resolve_base base_of path) (\<lambda>base_document.
        bindE (load_descriptor path_ok base_document) (\<lambda>b.
        bindE (require (list_all (\<lambda>(k, v). py_get doc k = Some (py_str v)) (zip IDENTITY_FIELDS (identity_values b)))) (\<lambda>_.
        bindE (require (py_text text_of (the (py_get doc ''timestamp_semantics'')) = cps (timestamp_semantics b))) (\<lambda>_.
        bindE (require (py_text text_of (the (py_get doc ''legal_record'')) = legal_record b)) (\<lambda>_.
        let policy = py_text text_of (the (py_get doc ''quality_policy_version'')) in
        bindE (derived_approval approval_ok policy (py_get doc ''quality_approval'')) (\<lambda>approval.
        bindE (derived_period (py_get doc ''period'') tf b) (\<lambda>(su, eu).
        bindE (require (py_get doc ''schema_version'' = Some (py_str (''binance_usdm_kline_'' @ ivl @ ''_v1'')))) (\<lambda>_.
        bindE (require (py_get doc ''base_dataset_id'' = Some (py_str (dataset_id b)))) (\<lambda>_.
        bindE (require (named_version_block text_of TRANSFORMATION_NAME TRANSFORMATION_VERSION (py_get doc ''transformation''))) (\<lambda>_.
        Inr \<lparr>dd_dataset_id = the (py_get doc ''dataset_id''), dd_interval = ivl, dd_timeframe_ms = tf,
             dd_start = su, dd_end = eu, dd_base_path = path, dd_base = b,
             dd_schema_version = ''binance_usdm_kline_'' @ ivl @ ''_v1'',
             dd_timestamp_semantics = the (py_get doc ''timestamp_semantics''), dd_policy = policy,
             dd_legal_record = the (py_get doc ''legal_record''), dd_approval = approval\<rparr>)))))))))))))))
    | _ \<Rightarrow> Inl DescriptorError)"

section \<open>What an accepted derived descriptor guarantees\<close>

lemma derived_interval_Inr: "derived_interval v = Inr (k, tf) \<Longrightarrow> (k, tf) \<in> set SUPPORTED_TIMEFRAMES"
  by (auto simp: derived_interval_def SUPPORTED_TIMEFRAMES_def split: option.splits pyval.splits if_splits list.splits)

lemma derived_period_Inr:
  "derived_period v tf b = Inr (su, eu) \<Longrightarrow> su = start_utc b \<and> eu = end_utc b
     \<and> 0 < epoch_ms_of eu - epoch_ms_of su \<and> (epoch_ms_of eu - epoch_ms_of su) mod tf = 0"
  by (auto simp: derived_period_def Let_def bindE_require bindE_Inr_iff split: option.splits pyval.splits)

lemma load_derived_Inr:
  assumes "load_derived_descriptor path_ok approval_ok text_of base_of document = Inr d"
  shows "(dd_interval d, dd_timeframe_ms d) \<in> set SUPPORTED_TIMEFRAMES"
    and "\<exists>v. base_of (dd_base_path d) = Some v \<and> load_descriptor path_ok v = Inr (dd_base d)"
    and "dd_start d = start_utc (dd_base d)" "dd_end d = end_utc (dd_base d)"
    and "0 < derived_row_count d" "derived_row_count d * dd_timeframe_ms d = epoch_ms_of (dd_end d) - epoch_ms_of (dd_start d)"
    and "dd_approval d = None \<longleftrightarrow> dd_policy d = cps ''1''" "dd_policy d \<in> {cps ''1'', cps ''2''}"
    and "\<And>q. dd_approval d = Some q \<Longrightarrow> approval_ok q"
proof -
  from assms obtain doc where doc: "document = PyDict doc" by (cases document) (auto simp: load_derived_descriptor_def)
  obtain v where d: "derived_interval (py_get doc ''interval'') = Inr (dd_interval d, dd_timeframe_ms d)"
    "base_of (dd_base_path d) = Some v" "load_descriptor path_ok v = Inr (dd_base d)"
    "derived_approval approval_ok (dd_policy d) (py_get doc ''quality_approval'') = Inr (dd_approval d)"
    "derived_period (py_get doc ''period'') (dd_timeframe_ms d) (dd_base d) = Inr (dd_start d, dd_end d)"
    using assms by (auto simp: load_derived_descriptor_def doc bindE_require bindE_Inr_iff Let_def resolve_base_def split: option.splits)
  show tf: "(dd_interval d, dd_timeframe_ms d) \<in> set SUPPORTED_TIMEFRAMES" by (rule derived_interval_Inr[OF d(1)])
  show "\<exists>v. base_of (dd_base_path d) = Some v \<and> load_descriptor path_ok v = Inr (dd_base d)" using d(2,3) by blast
  note p = derived_period_Inr[OF d(5)]
  show "dd_start d = start_utc (dd_base d)" "dd_end d = end_utc (dd_base d)" using p by auto
  have pos: "0 < dd_timeframe_ms d" using tf by (auto simp: SUPPORTED_TIMEFRAMES_def)
  show prod: "derived_row_count d * dd_timeframe_ms d = epoch_ms_of (dd_end d) - epoch_ms_of (dd_start d)"
    using p by (auto simp: derived_row_count_def dvd_eq_mod_eq_0)
  have "0 < derived_row_count d * dd_timeframe_ms d" unfolding prod using p by blast
  then show "0 < derived_row_count d" using pos by (simp add: zero_less_mult_iff)
  have "cps ''1'' \<noteq> cps ''2''" by simp
  then show "dd_approval d = None \<longleftrightarrow> dd_policy d = cps ''1''" "dd_policy d \<in> {cps ''1'', cps ''2''}"
    "\<And>q. dd_approval d = Some q \<Longrightarrow> approval_ok q"
    using d(4) by (cases "dd_approval d"; auto simp: derived_approval_def bindE_require split: if_splits option.splits pyval.splits)+
qed

end
