(* ===== verification/Quality_Approval.thy ===== *)
theory Quality_Approval
  imports Commit_Identity Derive_Descriptor
begin

text \<open>
  Approvals of quality warnings (src/quantara/quality_approval.py): the approval record with its
  self-hash, its strict loader, the containment check of its path, and the effective decision that
  turns a blocked verdict into an approved one when every binding of the record holds. SHA-256 is
  \<open>H\<close>; \<open>realpath\<close> resolves a path on the file system and \<open>yaml_of\<close> reads the document at a resolved
  path. A YAML timestamp has no \<open>pyval\<close>: where the value of \<open>decision_time_utc\<close> is one, its fields
  are the argument \<open>decided\<close>. Lemmas: an approval never lifts a failure, covers the warnings one by
  one, and its digest fixes the record up to collisions.
\<close>

section \<open>Records\<close>

definition APPROVAL_SCHEMA :: string where "APPROVAL_SCHEMA = ''quantara.quality-warning-approval/v1''"

definition APPROVAL_TOP_LEVEL_KEYS :: "string list" where
  "APPROVAL_TOP_LEVEL_KEYS = [''schema'', ''record_id'', ''dataset_id'', ''canonical_content_hash'',
     ''schema_fingerprint'', ''source_sha256'', ''quality_policy_version'', ''quality_identity_sha256'',
     ''approved_findings'', ''approver'', ''decision_time_utc'', ''rationale'', ''scope'', ''record_sha256'']"

definition APPROVED_FINDING_KEYS :: "string list" where
  "APPROVED_FINDING_KEYS = [''check_id'', ''count'', ''canonical_finding_sha256'']"

definition APPROVABLE_WARNING_CHECK_IDS :: "string list" where
  "APPROVABLE_WARNING_CHECK_IDS = [''zero_volume_candle'', ''source_order_invalid'', ''nonzero_source_ignore'',
     ''transport_metadata_difference'', ''derived_zero_volume_bucket'']"

record approved_finding =
  af_check :: string
  af_count :: int
  af_sha :: ustr

record approval_record =
  ar_schema :: ustr
  ar_record_id :: ustr
  ar_dataset_id :: ustr
  ar_content_hash :: ustr
  ar_fingerprint :: ustr
  ar_sources :: "ustr list"
  ar_policy :: ustr
  ar_identity_sha :: ustr
  ar_findings :: "approved_finding list"
  ar_approver :: ustr
  ar_decided :: ustr
  ar_rationale :: ustr
  ar_scope :: ustr
  ar_sha :: ustr

definition approved_finding_dict :: "approved_finding \<Rightarrow> pyval" where
  "approved_finding_dict f = PyDict [(cps ''check_id'', py_str (af_check f)), (cps ''count'', PyInt (af_count f)),
     (cps ''canonical_finding_sha256'', PyStr (af_sha f))]"

definition approval_semantics :: "approval_record \<Rightarrow> pyval" where
  "approval_semantics r = PyDict
     [(cps ''schema'', PyStr (ar_schema r)), (cps ''record_id'', PyStr (ar_record_id r)),
      (cps ''dataset_id'', PyStr (ar_dataset_id r)), (cps ''canonical_content_hash'', PyStr (ar_content_hash r)),
      (cps ''schema_fingerprint'', PyStr (ar_fingerprint r)), (cps ''source_sha256'', PyList (map PyStr (ar_sources r))),
      (cps ''quality_policy_version'', PyStr (ar_policy r)), (cps ''quality_identity_sha256'', PyStr (ar_identity_sha r)),
      (cps ''approved_findings'', PyList (map approved_finding_dict (ar_findings r))),
      (cps ''approver'', PyStr (ar_approver r)), (cps ''decision_time_utc'', PyStr (ar_decided r)),
      (cps ''rationale'', PyStr (ar_rationale r)), (cps ''scope'', PyStr (ar_scope r))]"

definition verify_self_hash :: "(bytes \<Rightarrow> string) \<Rightarrow> approval_record \<Rightarrow> unit res" where
  "verify_self_hash H r =
     bindE (jcs_utf8 (approval_semantics r)) (\<lambda>b. checkE (cps (H b) = ar_sha r) QualityApprovalError)"

section \<open>Paths\<close>

text \<open>The parts of a POSIX path; empty parts and single dots vanish.\<close>

fun path_parts_from :: "ustr \<Rightarrow> ustr \<Rightarrow> ustr list" where
  "path_parts_from acc [] = (if acc \<in> {[], [46]} then [] else [acc])"
| "path_parts_from acc (c # cs) =
     (if c = 47 then (if acc \<in> {[], [46]} then [] else [acc]) @ path_parts_from [] cs
      else path_parts_from (acc @ [c]) cs)"

definition path_join :: "ustr list \<Rightarrow> ustr \<Rightarrow> ustr list" where
  "path_join base p =
     (if p \<noteq> [] \<and> hd p = 47 then path_parts_from [] p else base @ path_parts_from [] p)"

definition validate_approval_path ::
    "(ustr list \<Rightarrow> ustr list res) \<Rightarrow> ustr list \<Rightarrow> bool \<Rightarrow> ustr \<Rightarrow> ustr list res" where
  "validate_approval_path realpath base is_text p =
     bindE (checkE (\<not> (is_text \<and> (58 \<in> set p \<or> p \<noteq> [] \<and> hd p \<in> {47, 92}))) QualityApprovalError) (\<lambda>_.
     bindE (realpath (path_join base p)) (\<lambda>r.
     if take (length base) r = base then Inr r else Inl QualityApprovalError))"

section \<open>The loader\<close>

definition reject_unless :: "bool \<Rightarrow> unit res" where
  "reject_unless ok = checkE ok QualityApprovalError"

text \<open>\<open>str.strip\<close> removes white space; a text is blank when nothing else is in it.\<close>

definition py_space :: "nat \<Rightarrow> bool" where
  "py_space c \<longleftrightarrow> in_range 9 13 c \<or> in_range 28 32 c \<or> in_range 8192 8202 c
     \<or> c \<in> {133, 160, 5760, 8232, 8233, 8239, 8287, 12288}"

definition approval_text :: "(ustr \<times> pyval) list \<Rightarrow> string \<Rightarrow> ustr res" where
  "approval_text doc k = (case py_get doc k of
      Some (PyStr s) \<Rightarrow> if list_all py_space s then Inl QualityApprovalError else Inr s
    | _ \<Rightarrow> Inl QualityApprovalError)"

definition hex64_shape :: "ustr \<Rightarrow> bool" where
  "hex64_shape s \<longleftrightarrow> length s = 64 \<and> list_all (\<lambda>c. in_range 48 57 c \<or> in_range 97 102 c) s"

text \<open>\<open>SHA256_HEX_PATTERN.match\<close> lets one trailing newline through.\<close>

definition matches_hex64 :: "ustr \<Rightarrow> bool" where
  "matches_hex64 s \<longleftrightarrow> hex64_shape s \<or> hex64_shape (strip_newline s)"

definition approval_digest :: "pyval option \<Rightarrow> ustr res" where
  "approval_digest v = (case v of
      Some (PyStr s) \<Rightarrow> if matches_hex64 s then Inr s else Inl QualityApprovalError
    | _ \<Rightarrow> Inl QualityApprovalError)"

text \<open>A list or a dict as \<open>check_id\<close> cannot be looked up in a set.\<close>

definition approvable_check :: "pyval \<Rightarrow> string res" where
  "approvable_check v = (case v of
      PyList _ \<Rightarrow> Inl PyTypeError
    | PyDict _ \<Rightarrow> Inl PyTypeError
    | _ \<Rightarrow> (case filter (\<lambda>c. v = py_str c) APPROVABLE_WARNING_CHECK_IDS of
        [] \<Rightarrow> Inl QualityApprovalError | c # _ \<Rightarrow> Inr c))"

definition parse_approved_finding :: "string list \<Rightarrow> pyval \<Rightarrow> approved_finding res" where
  "parse_approved_finding seen item = (case item of
      PyDict kvs \<Rightarrow>
        bindE (reject_unless (keys_of kvs = set (map cps APPROVED_FINDING_KEYS))) (\<lambda>_.
        bindE (approvable_check (the (py_get kvs ''check_id''))) (\<lambda>check.
        bindE (reject_unless (check \<notin> set seen)) (\<lambda>_.
        bindE (case py_get kvs ''count'' of Some (PyInt n) \<Rightarrow> bindE (reject_unless (0 < n)) (\<lambda>_. Inr n)
               | _ \<Rightarrow> Inl QualityApprovalError) (\<lambda>n.
        bindE (approval_digest (py_get kvs ''canonical_finding_sha256'')) (\<lambda>sha.
        Inr \<lparr>af_check = check, af_count = n, af_sha = sha\<rparr>)))))
    | _ \<Rightarrow> Inl QualityApprovalError)"

fun parse_approved_findings :: "string list \<Rightarrow> pyval list \<Rightarrow> approved_finding list res" where
  "parse_approved_findings seen [] = Inr []"
| "parse_approved_findings seen (item # items) =
     bindE (parse_approved_finding seen item) (\<lambda>f.
     bindE (parse_approved_findings (af_check f # seen) items) (\<lambda>fs. Inr (f # fs)))"

definition decided_text :: "utc option \<Rightarrow> (ustr \<times> pyval) list \<Rightarrow> (ustr \<times> pyval) list" where
  "decided_text decided doc = (case decided of
      None \<Rightarrow> doc
    | Some u \<Rightarrow> map (\<lambda>kv. if fst kv = cps ''decision_time_utc'' then (fst kv, PyStr (strftime_utc u)) else kv) doc)"

definition nonempty_list :: "pyval option \<Rightarrow> pyval list res" where
  "nonempty_list v = (case v of
      Some (PyList xs) \<Rightarrow> if xs = [] then Inl QualityApprovalError else Inr xs
    | _ \<Rightarrow> Inl QualityApprovalError)"

definition no_wildcard :: "ustr \<Rightarrow> bool" where
  "no_wildcard s \<longleftrightarrow> 42 \<notin> set s \<and> 63 \<notin> set s"

definition parse_approval_fields :: "utc option \<Rightarrow> pyval \<Rightarrow> approval_record res" where
  "parse_approval_fields decided document = (case document of
      PyDict raw \<Rightarrow>
        bindE (reject_unless (keys_of raw = set (map cps APPROVAL_TOP_LEVEL_KEYS))) (\<lambda>_.
        bindE (reject_unless (py_get raw ''schema'' = Some (py_str APPROVAL_SCHEMA))) (\<lambda>_.
        let doc = decided_text decided raw in
        bindE (approval_text doc ''record_id'') (\<lambda>record_id.
        bindE (approval_text doc ''dataset_id'') (\<lambda>did.
        bindE (approval_text doc ''approver'') (\<lambda>approver.
        bindE (approval_text doc ''decision_time_utc'') (\<lambda>time.
        bindE (approval_text doc ''rationale'') (\<lambda>rationale.
        bindE (approval_text doc ''scope'') (\<lambda>scope.
        bindE (approval_text doc ''quality_policy_version'') (\<lambda>policy.
        bindE (reject_unless (list_all no_wildcard [did, rationale, scope])) (\<lambda>_.
        bindE (reject_unless (matches_utc_timestamp time)) (\<lambda>_.
        bindE (approval_digest (py_get doc ''canonical_content_hash'')) (\<lambda>content.
        bindE (approval_digest (py_get doc ''schema_fingerprint'')) (\<lambda>fingerprint.
        bindE (approval_digest (py_get doc ''quality_identity_sha256'')) (\<lambda>identity_sha.
        bindE (approval_digest (py_get doc ''record_sha256'')) (\<lambda>sha.
        bindE (nonempty_list (py_get doc ''source_sha256'')) (\<lambda>raw_sources.
        bindE (mapE (\<lambda>s. approval_digest (Some s)) raw_sources) (\<lambda>sources.
        bindE (nonempty_list (py_get doc ''approved_findings'')) (\<lambda>items.
        bindE (parse_approved_findings [] items) (\<lambda>fs.
        Inr \<lparr>ar_schema = cps APPROVAL_SCHEMA, ar_record_id = record_id, ar_dataset_id = did,
             ar_content_hash = content, ar_fingerprint = fingerprint, ar_sources = sources, ar_policy = policy,
             ar_identity_sha = identity_sha, ar_findings = fs, ar_approver = approver, ar_decided = time,
             ar_rationale = rationale, ar_scope = scope, ar_sha = sha\<rparr>)))))))))))))))))))
    | _ \<Rightarrow> Inl QualityApprovalError)"

definition parse_approval_dict :: "(bytes \<Rightarrow> string) \<Rightarrow> utc option \<Rightarrow> pyval \<Rightarrow> approval_record res" where
  "parse_approval_dict H decided document =
     bindE (parse_approval_fields decided document) (\<lambda>r. bindE (verify_self_hash H r) (\<lambda>_. Inr r))"

definition load_approval_record ::
    "(bytes \<Rightarrow> string) \<Rightarrow> (ustr list \<Rightarrow> ustr list res) \<Rightarrow> (ustr list \<Rightarrow> (utc option \<times> pyval) option)
       \<Rightarrow> ustr list \<Rightarrow> bool \<Rightarrow> ustr \<Rightarrow> approval_record res" where
  "load_approval_record H realpath yaml_of base is_text p =
     bindE (validate_approval_path realpath base is_text p) (\<lambda>resolved.
     case yaml_of resolved of
       None \<Rightarrow> Inl QualityApprovalError
     | Some (decided, document) \<Rightarrow> parse_approval_dict H decided document)"

section \<open>The effective decision\<close>

record quality_decision =
  qd_state :: string
  qd_raw_state :: string
  qd_policy :: ustr
  qd_identity :: ustr
  qd_identity_sha :: string
  qd_record_id :: "ustr option"
  qd_record_sha :: "ustr option"

definition decision_identity :: "quality_decision \<Rightarrow> ustr res" where
  "decision_identity d = canonicalize (PyDict
     ([(cps ''policy_version'', PyStr (qd_policy d)), (cps ''raw_identity_sha256'', py_str (qd_identity_sha d)),
       (cps ''effective_state'', py_str (qd_state d))]
      @ (case qd_record_id d of None \<Rightarrow> [] | Some s \<Rightarrow> [(cps ''approval_record_id'', PyStr s)])
      @ (case qd_record_sha d of None \<Rightarrow> [] | Some s \<Rightarrow> [(cps ''approval_record_sha256'', PyStr s)])))"

definition canonical_finding_sha256 :: "(bytes \<Rightarrow> string) \<Rightarrow> finding \<Rightarrow> string res" where
  "canonical_finding_sha256 H f = bindE (jcs_utf8 (PyDict (finding_dict f))) (\<lambda>b. Inr (H b))"

text \<open>One warning against the approved findings, keyed by check; a later duplicate wins.\<close>

definition covered :: "(bytes \<Rightarrow> string) \<Rightarrow> approved_finding list \<Rightarrow> finding \<Rightarrow> unit res" where
  "covered H approved w = (case map_of (rev (map (\<lambda>a. (af_check a, a)) approved)) (f_check w) of
      None \<Rightarrow> Inl QualityApprovalError
    | Some a \<Rightarrow>
        bindE (reject_unless (af_count a = f_count w)) (\<lambda>_.
        bindE (canonical_finding_sha256 H w) (\<lambda>sha. reject_unless (af_sha a = cps sha))))"

definition bound :: "'a option \<Rightarrow> 'a \<Rightarrow> bool" where
  "bound expected v \<longleftrightarrow> expected = None \<or> expected = Some v"

definition warnings :: "finding list \<Rightarrow> finding list" where
  "warnings fs = filter (\<lambda>f. f_outcome f = Warn) fs"

definition evaluate_effective_quality ::
    "(bytes \<Rightarrow> string) \<Rightarrow> finding list \<times> string \<Rightarrow> ustr \<Rightarrow> approval_record option \<Rightarrow> ustr option \<Rightarrow> ustr option
       \<Rightarrow> ustr option \<Rightarrow> ustr list option \<Rightarrow> quality_decision res" where
  "evaluate_effective_quality H report policy approval did content fingerprint sources =
     bindE (report_identity (fst report)) (\<lambda>raw.
     bindE (utf8_encode raw) (\<lambda>b.
     let decision = (\<lambda>st rs p rid rsha. \<lparr>qd_state = st, qd_raw_state = rs, qd_policy = p, qd_identity = raw,
           qd_identity_sha = H b, qd_record_id = rid, qd_record_sha = rsha\<rparr>) in
     if snd report = ''FAIL'' then Inr (decision ''FAIL'' ''FAIL'' policy None None)
     else if snd report = ''PASS'' then
       bindE (reject_unless (approval = None)) (\<lambda>_. Inr (decision ''PASS'' ''PASS'' policy None None))
     else if policy = cps ''1'' then Inr (decision ''WARN_BLOCKED'' ''WARN_BLOCKED'' policy None None)
     else bindE (reject_unless (policy = cps ''2'')) (\<lambda>_.
     case approval of
       None \<Rightarrow> Inr (decision ''WARN_BLOCKED'' ''WARN_BLOCKED'' policy None None)
     | Some r \<Rightarrow>
         bindE (verify_self_hash H r) (\<lambda>_.
         bindE (reject_unless (ar_policy r = cps ''2'')) (\<lambda>_.
         bindE (reject_unless (bound did (ar_dataset_id r))) (\<lambda>_.
         bindE (reject_unless (bound content (ar_content_hash r))) (\<lambda>_.
         bindE (reject_unless (bound fingerprint (ar_fingerprint r))) (\<lambda>_.
         bindE (reject_unless (bound sources (ar_sources r))) (\<lambda>_.
         bindE (reject_unless (ar_identity_sha r = cps (H b))) (\<lambda>_.
         bindE (reject_unless (length (ar_findings r) = length (warnings (fst report)))) (\<lambda>_.
         bindE (mapE (covered H (ar_findings r)) (warnings (fst report))) (\<lambda>_.
         Inr (decision ''WARN_APPROVED'' ''WARN_BLOCKED'' policy (Some (ar_record_id r)) (Some (ar_sha r)))))))))))))))"

section \<open>Lemmas\<close>

lemma reject_unless_Inr [simp]: "reject_unless ok = Inr u \<longleftrightarrow> ok"
  by (simp add: reject_unless_def checkE_def)

lemma bindE_reject: "bindE (reject_unless ok) f = Inr y \<longleftrightarrow> ok \<and> f () = Inr y"
  by (simp add: reject_unless_def checkE_def)

lemma effective_cases:
  assumes "evaluate_effective_quality H report policy approval did content fingerprint sources = Inr d"
  shows "snd report = ''FAIL'' \<Longrightarrow> qd_state d = ''FAIL''"
    "snd report = ''PASS'' \<Longrightarrow> qd_state d = ''PASS''"
    "snd report \<notin> {''FAIL'', ''PASS''} \<Longrightarrow> qd_state d \<in> {''WARN_BLOCKED'', ''WARN_APPROVED''}"
  using assms
  by (auto simp: evaluate_effective_quality_def bindE_Inr_iff bindE_reject Let_def split: if_splits option.splits)

lemma mapE_unit: "mapE f xs = Inr us \<Longrightarrow> \<forall>x \<in> set xs. f x = Inr ()"
  by (induction xs arbitrary: us) (auto simp: bindE_Inr_iff)

lemma effective_approved:
  assumes e: "evaluate_effective_quality H report policy approval did content fingerprint sources = Inr d"
    and st: "qd_state d = ''WARN_APPROVED''"
  obtains r raw b where "approval = Some r" "report_identity (fst report) = Inr raw" "utf8_encode raw = Inr b"
    "verify_self_hash H r = Inr ()" "policy = cps ''2''" "ar_policy r = cps ''2''" "bound did (ar_dataset_id r)"
    "bound content (ar_content_hash r)" "bound fingerprint (ar_fingerprint r)" "bound sources (ar_sources r)"
    "ar_identity_sha r = cps (H b)" "length (ar_findings r) = length (warnings (fst report))"
    "\<forall>w \<in> set (warnings (fst report)). covered H (ar_findings r) w = Inr ()"
    "snd report \<notin> {''FAIL'', ''PASS''}"
proof (cases approval)
  case None
  then show ?thesis using assms
    by (auto simp: evaluate_effective_quality_def bindE_Inr_iff bindE_reject Let_def split: if_splits)
next
  case (Some r)
  obtain raw b where raw: "report_identity (fst report) = Inr raw" "utf8_encode raw = Inr b"
    using e by (auto simp: evaluate_effective_quality_def bindE_Inr_iff)
  have "snd report \<notin> {''FAIL'', ''PASS''}" "policy \<noteq> cps ''1''"
    using e st raw by (auto simp: evaluate_effective_quality_def bindE_Inr_iff bindE_reject Let_def split: if_splits)
  with e raw Some that[OF Some raw] show ?thesis
    by (auto simp: evaluate_effective_quality_def bindE_Inr_iff bindE_reject Let_def dest!: mapE_unit)
qed

lemma effective_identity:
  assumes "evaluate_effective_quality H report policy approval did content fingerprint sources = Inr d"
    and "report_identity (fst report) = Inr raw" "utf8_encode raw = Inr b"
  shows "qd_identity_sha d = H b"
  using assms
  by (auto simp: evaluate_effective_quality_def bindE_Inr_iff bindE_reject Let_def split: if_splits option.splits)

lemma covered_iff:
  "covered H as w = Inr () \<longleftrightarrow> (\<exists>a s. map_of (rev (map (\<lambda>a. (af_check a, a)) as)) (f_check w) = Some a
     \<and> af_count a = f_count w \<and> canonical_finding_sha256 H w = Inr s \<and> af_sha a = cps s)"
  by (auto simp: covered_def bindE_reject bindE_Inr_iff split: option.splits)

lemma covered_entry:
  assumes "covered H as w = Inr ()"
  obtains a s where "a \<in> set as" "af_check a = f_check w" "af_count a = f_count w"
    "canonical_finding_sha256 H w = Inr s" "af_sha a = cps s"
  using assms by (auto simp: covered_iff dest!: map_of_SomeD)

text \<open>The loader keeps the checks of the approved findings distinct.\<close>

lemma parse_approved_findings_distinct:
  "parse_approved_findings seen items = Inr fs \<Longrightarrow>
     length fs = length items \<and> distinct (map af_check fs) \<and> set (map af_check fs) \<inter> set seen = {}
     \<and> set (map af_check fs) \<subseteq> set APPROVABLE_WARNING_CHECK_IDS"
proof (induction seen items arbitrary: fs rule: parse_approved_findings.induct)
  case (2 seen item items)
  then obtain f gs where f: "parse_approved_finding seen item = Inr f"
    and gs: "parse_approved_findings (af_check f # seen) items = Inr gs" "fs = f # gs"
    by (auto simp: bindE_Inr_iff)
  have "af_check f \<notin> set seen \<and> af_check f \<in> set APPROVABLE_WARNING_CHECK_IDS"
  proof -
    have "approvable_check v = Inr c \<Longrightarrow> c \<in> set APPROVABLE_WARNING_CHECK_IDS" for v c
      by (cases v) (auto simp: approvable_check_def split: list.splits dest!: arg_cong[of _ _ set])
    then show ?thesis using f
      by (auto simp: parse_approved_finding_def bindE_Inr_iff bindE_reject split: pyval.splits option.splits)
  qed
  with "2.IH"[OF gs(1)] gs(2) show ?case by auto
qed simp

lemma parse_approval_record:
  assumes "parse_approval_dict H decided doc = Inr r"
  shows "verify_self_hash H r = Inr ()" "ar_findings r \<noteq> []" "distinct (map af_check (ar_findings r))"
    "set (map af_check (ar_findings r)) \<subseteq> set APPROVABLE_WARNING_CHECK_IDS"
proof -
  have r: "parse_approval_fields decided doc = Inr r" and v: "verify_self_hash H r = Inr ()"
    using assms by (auto simp: parse_approval_dict_def bindE_Inr_iff)
  obtain kvs where "doc = PyDict kvs" using r by (cases doc) (auto simp: parse_approval_fields_def)
  then obtain items where i: "nonempty_list (py_get (decided_text decided kvs) ''approved_findings'') = Inr items"
    "parse_approved_findings [] items = Inr (ar_findings r)"
    using r by (auto simp: parse_approval_fields_def Let_def bindE_Inr_iff bindE_reject)
  moreover have "items \<noteq> []" using i(1) by (auto simp: nonempty_list_def split: option.splits pyval.splits if_splits)
  ultimately show "verify_self_hash H r = Inr ()" "ar_findings r \<noteq> []" "distinct (map af_check (ar_findings r))"
    "set (map af_check (ar_findings r)) \<subseteq> set APPROVABLE_WARNING_CHECK_IDS"
    using parse_approved_findings_distinct[OF i(2)] v by auto
qed

lemma no_failure:
  assumes "snd report \<in> {quality_state (fst report), derived_state (fst report)}" "snd report \<noteq> ''FAIL''"
  shows "\<forall>f \<in> set (fst report). f_outcome f \<noteq> Fail"
  using assms by (auto simp: month.fail_iff derived.fail_iff)

text \<open>The digested text determines the record.\<close>

lemma approved_finding_dict_inject:
  assumes "jcs_norm (approved_finding_dict f) = jcs_norm (approved_finding_dict g)"
  shows "f = g"
proof -
  let ?P = "\<lambda>f. [(cps ''check_id'', py_str (af_check f)), (cps ''count'', PyInt (af_count f)),
     (cps ''canonical_finding_sha256'', PyStr (af_sha f))]"
  have n: "jcs_norm (PyDict (?P f)) = jcs_norm (PyDict (?P g))" using assms by (simp only: approved_finding_dict_def)
  have d: "distinct (map fst (?P f))" for f by simp
  note look = jcs_norm_lookup[OF n d d]
  show ?thesis
    using look[of "cps ''check_id''"] look[of "cps ''count''"] look[of "cps ''canonical_finding_sha256''"]
    by (intro approved_finding.equality) simp_all
qed

lemma map_norm_findings:
  "map (\<lambda>f. jcs_norm (approved_finding_dict f)) fs = map (\<lambda>f. jcs_norm (approved_finding_dict f)) gs \<Longrightarrow> fs = gs"
  by (erule map_injective) (auto intro: injI approved_finding_dict_inject)

lemma approval_semantics_inject:
  assumes n: "jcs_norm (approval_semantics r) = jcs_norm (approval_semantics r')" and sha: "ar_sha r = ar_sha r'"
  shows "r = r'"
proof -
  obtain P where P: "\<And>r. approval_semantics r = PyDict (P r)" "\<And>r. distinct (map fst (P r))"
    "\<And>r. map_of (P r) (cps ''schema'') = Some (PyStr (ar_schema r))"
    "\<And>r. map_of (P r) (cps ''record_id'') = Some (PyStr (ar_record_id r))"
    "\<And>r. map_of (P r) (cps ''dataset_id'') = Some (PyStr (ar_dataset_id r))"
    "\<And>r. map_of (P r) (cps ''canonical_content_hash'') = Some (PyStr (ar_content_hash r))"
    "\<And>r. map_of (P r) (cps ''schema_fingerprint'') = Some (PyStr (ar_fingerprint r))"
    "\<And>r. map_of (P r) (cps ''source_sha256'') = Some (PyList (map PyStr (ar_sources r)))"
    "\<And>r. map_of (P r) (cps ''quality_policy_version'') = Some (PyStr (ar_policy r))"
    "\<And>r. map_of (P r) (cps ''quality_identity_sha256'') = Some (PyStr (ar_identity_sha r))"
    "\<And>r. map_of (P r) (cps ''approved_findings'') = Some (PyList (map approved_finding_dict (ar_findings r)))"
    "\<And>r. map_of (P r) (cps ''approver'') = Some (PyStr (ar_approver r))"
    "\<And>r. map_of (P r) (cps ''decision_time_utc'') = Some (PyStr (ar_decided r))"
    "\<And>r. map_of (P r) (cps ''rationale'') = Some (PyStr (ar_rationale r))"
    "\<And>r. map_of (P r) (cps ''scope'') = Some (PyStr (ar_scope r))"
    by (rule that[of "\<lambda>r. case approval_semantics r of PyDict kvs \<Rightarrow> kvs | _ \<Rightarrow> []"]) (simp_all add: approval_semantics_def)
  have look: "map_option jcs_norm (map_of (P r) k) = map_option jcs_norm (map_of (P r') k)" for k
    using jcs_norm_lookup[OF n[unfolded P(1)] P(2) P(2)] .
  have src: "ar_sources r = ar_sources r'"
    using look[of "cps ''source_sha256''"] by (simp add: P comp_def) (metis map_injective inj_def pyval.inject(3))
  have fs: "ar_findings r = ar_findings r'"
    using look[of "cps ''approved_findings''"] by (simp add: P comp_def map_norm_findings)
  show ?thesis
    by (intro approval_record.equality)
      (use look[of "cps ''schema''"] look[of "cps ''record_id''"] look[of "cps ''dataset_id''"]
        look[of "cps ''canonical_content_hash''"] look[of "cps ''schema_fingerprint''"]
        look[of "cps ''quality_policy_version''"] look[of "cps ''quality_identity_sha256''"] look[of "cps ''approver''"]
        look[of "cps ''decision_time_utc''"] look[of "cps ''rationale''"] look[of "cps ''scope''"] src fs sha
        in \<open>simp_all add: P\<close>)
qed

section \<open>A sample\<close>

text \<open>A digest function that maps everything to one text, and one that separates all byte strings
  except that it gives the sample record's bytes a digest of the right shape.\<close>

definition sample_digest :: string where "sample_digest = replicate 64 CHR ''a''"

definition sample_record :: approval_record where
  "sample_record = \<lparr>ar_schema = cps APPROVAL_SCHEMA, ar_record_id = cps ''r'', ar_dataset_id = cps ''d'',
     ar_content_hash = cps sample_digest, ar_fingerprint = cps sample_digest, ar_sources = [cps sample_digest],
     ar_policy = cps ''2'', ar_identity_sha = cps sample_digest,
     ar_findings = [\<lparr>af_check = ''derived_zero_volume_bucket'', af_count = 1, af_sha = cps sample_digest\<rparr>],
     ar_approver = cps ''o'', ar_decided = cps ''2026-08-24T00:00:00Z'', ar_rationale = cps ''x'', ar_scope = cps ''s'',
     ar_sha = cps sample_digest\<rparr>"

definition sample_approval :: pyval where
  "sample_approval = (case approval_semantics sample_record of
     PyDict kvs \<Rightarrow> PyDict (kvs @ [(cps ''record_sha256'', py_str sample_digest)]) | v \<Rightarrow> v)"

definition zero_bars :: "canonical_row list" where
  "zero_bars = [sample_bar\<lparr>c_open_ms := 120000, c_close_ms := 239999, c_base_volume := Dec False 0 0,
     c_quote_volume := Dec False 0 0, c_taker_base := Dec False 0 0, c_taker_quote := Dec False 0 0\<rparr>]"

lemma sample_record_jcs: "\<exists>b. jcs_utf8 (approval_semantics sample_record) = Inr b"
proof (rule jcs_utf8_exists)
  show "jcs_ok (approval_semantics sample_record)"
    by (simp add: approval_semantics_def sample_record_def approved_finding_dict_def)
  show "str_points (approval_semantics sample_record) \<subseteq> {..<0xD800}"
    by (simp add: approval_semantics_def sample_record_def approved_finding_dict_def)
qed

lemma sample_approval_fields: "parse_approval_fields None sample_approval = Inr sample_record"
  by code_simp

lemma sample_approval_loads: "parse_approval_dict (\<lambda>_. sample_digest) None sample_approval = Inr sample_record"
  using sample_record_jcs sample_approval_fields
  by (auto simp: parse_approval_dict_def verify_self_hash_def checkE_def sample_record_def)

lemma finding_dict_jcs:
  assumes "int_printable (f_count f)"
    and "list_all (\<lambda>(k, v). (\<exists>i. v = PyInt i \<and> int_printable i) \<or> (\<exists>t. v = py_str t)) (f_evidence f)"
  shows "jcs_ok (PyDict (finding_dict f)) \<and> str_points (PyDict (finding_dict f)) \<subseteq> {..<0xD800}"
  using assms by (auto simp: finding_dict_def list_all_iff split: prod.splits dest: subsetD[OF cps_points]) (fastforce simp: subset_iff dest: subsetD[OF cps_points])+

definition plain_evidence :: "finding \<Rightarrow> bool" where
  "plain_evidence f \<longleftrightarrow> int_printable (f_count f)
     \<and> list_all (\<lambda>(k, v). (\<exists>i. v = PyInt i \<and> int_printable i) \<or> (\<exists>t. v = py_str t)) (f_evidence f)"

lemma report_identity_exists:
  assumes "list_all plain_evidence fs"
  shows "\<exists>raw b. report_identity fs = Inr raw \<and> utf8_encode raw = Inr b"
proof -
  let ?v = "PyDict [(cps ''checks'', PyList (map (\<lambda>f. PyDict (finding_dict f)) fs))]"
  have f: "jcs_ok (PyDict (finding_dict f)) \<and> str_points (PyDict (finding_dict f)) \<subseteq> {..<0xD800}" if "f \<in> set fs" for f
    using assms that finding_dict_jcs[of f] by (simp add: list_all_iff[of plain_evidence] plain_evidence_def)
  have "\<exists>b. jcs_utf8 ?v = Inr b"
  proof (rule jcs_utf8_exists)
    show "jcs_ok ?v" using f by (simp add: list_all_iff)
    have "(\<Union>f \<in> set fs. str_points (PyDict (finding_dict f))) \<subseteq> {..<0xD800}" using f by blast
    then show "str_points ?v \<subseteq> {..<0xD800}" by (simp del: str_points.simps(3) add: str_points.simps(3)[of "[(_, PyList _)]"])
  qed
  moreover have "filter (\<lambda>kv. fst kv \<noteq> cps ''operational_timestamp'') (finding_dict f) = finding_dict f" for f
    by (simp add: finding_dict_def)
  ultimately show ?thesis
    by (auto simp: report_identity_def quality_identity_def jcs_utf8_def bindE_Inr_iff comp_def)
qed

lemma finding_sha_exists: "plain_evidence f \<Longrightarrow> \<exists>b. canonical_finding_sha256 H f = Inr (H b)"
  using jcs_utf8_exists[of "PyDict (finding_dict f)"] finding_dict_jcs[of f]
  by (auto simp: plain_evidence_def canonical_finding_sha256_def bindE_Inr_iff)

lemma zero_bars_report:
  shows "snd (evaluate_derived_quality zero_bars 120000 120000 (Some 1) True) = ''WARN_BLOCKED''"
    and "list_all plain_evidence (fst (evaluate_derived_quality zero_bars 120000 120000 (Some 1) True))"
    and "warnings (fst (evaluate_derived_quality zero_bars 120000 120000 (Some 1) True)) =
      [warn_check ''derived_zero_volume_bucket'' 1 []]"
proof -
  have c: "count_if zero_volume zero_bars = 1" "\<not> list_all (\<lambda>r. \<not> zero_volume r) zero_bars" "zero_bars \<noteq> []"
    "int (length zero_bars) = 1" "list_all (clean_bar 120000) zero_bars"
    "map c_open_ms zero_bars = bar_grid 120000 120000 (length zero_bars)" by code_simp+
  show w: "warnings (fst (evaluate_derived_quality zero_bars 120000 120000 (Some 1) True)) =
      [warn_check ''derived_zero_volume_bucket'' 1 []]"
    using derived_soft(1)[OF c(3,4), of 120000 120000 True] c by (simp add: warnings_def)
  have "\<forall>f \<in> set (fst (evaluate_derived_quality zero_bars 120000 120000 (Some 1) True)). f_outcome f \<noteq> Fail"
    using derived_hard_iff[of 120000 zero_bars 120000 1 True] c by simp
  moreover have "\<exists>f \<in> set (fst (evaluate_derived_quality zero_bars 120000 120000 (Some 1) True)). f_outcome f = Warn"
  proof -
    have "warnings (fst (evaluate_derived_quality zero_bars 120000 120000 (Some 1) True)) \<noteq> []" using w by simp
    then show ?thesis unfolding warnings_def filter_empty_conv by blast
  qed
  ultimately show "snd (evaluate_derived_quality zero_bars 120000 120000 (Some 1) True) = ''WARN_BLOCKED''"
    by (auto simp: derived_verdict derived_state_def)
  have "int_printable (count_if P zero_bars)" for P by (simp add: count_if_def zero_bars_def)
  moreover have "int_printable (c_open_ms (hd zero_bars))" "int_printable (c_close_ms (last zero_bars))"
    "int_printable (1 - int (card (c_open_ms ` set zero_bars)))"
    by (simp_all add: zero_bars_def)
  ultimately have printable: "int_printable (count_if P zero_bars)" "int_printable (c_open_ms (hd zero_bars))"
    "int_printable (c_close_ms (last zero_bars))" "int_printable (1 - int (card (c_open_ms ` set zero_bars)))" for P
    by blast+
  show "list_all plain_evidence (fst (evaluate_derived_quality zero_bars 120000 120000 (Some 1) True))"
    using c(3,4) printable by (simp add: evaluate_derived_quality_def derived_boundaries_def Let_def plain_evidence_def record_check_def warn_check_def)
qed

lemma zero_bars_approved:
  "\<exists>d. evaluate_effective_quality (\<lambda>_. sample_digest) (evaluate_derived_quality zero_bars 120000 120000 (Some 1) True)
     (cps ''2'') (Some sample_record) None None None None = Inr d \<and> qd_state d = ''WARN_APPROVED''"
proof -
  let ?report = "evaluate_derived_quality zero_bars 120000 120000 (Some 1) True"
  obtain raw b where raw: "report_identity (fst ?report) = Inr raw" "utf8_encode raw = Inr b"
    using report_identity_exists[OF zero_bars_report(2)] by blast
  have "plain_evidence (warn_check ''derived_zero_volume_bucket'' 1 [])" by (simp add: plain_evidence_def warn_check_def)
  then have cov: "covered (\<lambda>_. sample_digest) (ar_findings sample_record) (warn_check ''derived_zero_volume_bucket'' 1 []) = Inr ()"
    using finding_sha_exists[of _ "\<lambda>_. sample_digest"] by (fastforce simp: covered_iff sample_record_def warn_check_def)
  have "verify_self_hash (\<lambda>_. sample_digest) sample_record = Inr ()"
    using sample_record_jcs by (auto simp: verify_self_hash_def checkE_def sample_record_def)
  then show ?thesis
    using raw cov zero_bars_report(1,3)
    by (simp add: evaluate_effective_quality_def bindE_reject bound_def bindE_Inr_iff Let_def)
      (simp add: sample_record_def)
qed

section \<open>Properties\<close>

text \<open>C24: an approval lifts a blocked verdict only when no check failed, its own digest is right, it is
  bound to the dataset, content, schema, sources and raw identity at hand, and every warning of the
  report has an approved finding with the same check, count and digest.\<close>

theorem approval_covers_warnings:
  assumes "evaluate_effective_quality H report policy approval did content fingerprint sources = Inr d"
    and "snd report \<in> {quality_state (fst report), derived_state (fst report)}"
    and "qd_state d = ''WARN_APPROVED''"
  shows "(\<forall>f \<in> set (fst report). f_outcome f \<noteq> Fail) \<and> policy = cps ''2''
    \<and> (\<exists>r. approval = Some r \<and> verify_self_hash H r = Inr () \<and> bound did (ar_dataset_id r)
        \<and> bound content (ar_content_hash r) \<and> bound fingerprint (ar_fingerprint r) \<and> bound sources (ar_sources r)
        \<and> ar_identity_sha r = cps (qd_identity_sha d)
        \<and> length (ar_findings r) = length (warnings (fst report))
        \<and> (\<forall>w \<in> set (warnings (fst report)). \<exists>a \<in> set (ar_findings r). \<exists>s. af_check a = f_check w
             \<and> af_count a = f_count w \<and> canonical_finding_sha256 H w = Inr s \<and> af_sha a = cps s))"
proof -
  obtain r raw b where r: "approval = Some r" "report_identity (fst report) = Inr raw" "utf8_encode raw = Inr b"
    "verify_self_hash H r = Inr ()" "policy = cps ''2''" "bound did (ar_dataset_id r)"
    "bound content (ar_content_hash r)" "bound fingerprint (ar_fingerprint r)" "bound sources (ar_sources r)"
    "ar_identity_sha r = cps (H b)" "length (ar_findings r) = length (warnings (fst report))"
    "\<forall>w \<in> set (warnings (fst report)). covered H (ar_findings r) w = Inr ()" "snd report \<notin> {''FAIL'', ''PASS''}"
    by (rule effective_approved[OF assms(1,3)])
  have id: "qd_identity_sha d = H b" by (rule effective_identity[OF assms(1) r(2,3)])
  have "\<exists>a \<in> set (ar_findings r). \<exists>s. af_check a = f_check w \<and> af_count a = f_count w
      \<and> canonical_finding_sha256 H w = Inr s \<and> af_sha a = cps s" if "w \<in> set (warnings (fst report))" for w
    using r(12) that covered_entry[of H "ar_findings r" w] by blast
  then show ?thesis using no_failure[OF assms(2)] r id by auto
qed

theorem approval_covers_warnings_witness:
  "\<exists>d. evaluate_effective_quality (\<lambda>_. sample_digest) (evaluate_derived_quality zero_bars 120000 120000 (Some 1) True)
       (cps ''2'') (Some sample_record) None None None None = Inr d
     \<and> qd_state d = ''WARN_APPROVED'' \<and> ar_identity_sha sample_record = cps (qd_identity_sha d)"
proof -
  obtain d where d: "evaluate_effective_quality (\<lambda>_. sample_digest) (evaluate_derived_quality zero_bars 120000 120000 (Some 1) True)
       (cps ''2'') (Some sample_record) None None None None = Inr d" "qd_state d = ''WARN_APPROVED''"
    using zero_bars_approved by blast
  with approval_covers_warnings[OF d(1) _ d(2)] show ?thesis by (simp add: derived_verdict)
qed

text \<open>C25: what an approval can excuse in a derived series is only bars without volume: an approved series
  is the complete bar grid of clean bars with a matching reconciliation, and the loaded record approves
  exactly one finding, the zero-volume check with the number of such bars.\<close>

theorem approved_series_is_grid:
  assumes "0 < tf" "parse_approval_dict H decided doc = Inr r"
    and "evaluate_effective_quality H (evaluate_derived_quality rows tf su (Some n) rec) policy (Some r) did content
           fingerprint sources = Inr d"
    and "qd_state d = ''WARN_APPROVED''"
  shows "rows \<noteq> [] \<and> int (length rows) = n \<and> map c_open_ms rows = bar_grid tf su (length rows)
    \<and> list_all (clean_bar tf) rows \<and> rec
    \<and> (\<exists>a. ar_findings r = [a] \<and> af_check a = ''derived_zero_volume_bucket''
         \<and> af_count a = count_if zero_volume rows \<and> 0 < af_count a)"
proof -
  let ?report = "evaluate_derived_quality rows tf su (Some n) rec"
  have nofail: "\<forall>f \<in> set (fst ?report). f_outcome f \<noteq> Fail"
    using assms(3,4) effective_cases(1)[OF assms(3)] by (intro no_failure) (auto simp: derived_verdict)
  obtain r' raw b where "Some r = Some r'" "length (ar_findings r') = length (warnings (fst ?report))"
    "\<forall>w \<in> set (warnings (fst ?report)). covered H (ar_findings r') w = Inr ()"
    by (rule effective_approved[OF assms(3,4)])
  then have cov: "length (ar_findings r) = length (warnings (fst ?report))"
    "\<forall>w \<in> set (warnings (fst ?report)). covered H (ar_findings r) w = Inr ()" by simp_all
  have some: "warnings (fst ?report) \<noteq> []" using cov(1) parse_approval_record(2)[OF assms(2)] by auto
  have ne: "rows \<noteq> []"
  proof
    assume "rows = []"
    then have "warnings (fst ?report) = []"
      by (simp add: warnings_def evaluate_derived_quality_def derived_boundaries_def Let_def count_if_def)
    with some show False by blast
  qed
  have grid: "int (length rows) = n \<and> map c_open_ms rows = bar_grid tf su (length rows) \<and> list_all (clean_bar tf) rows \<and> rec"
    using nofail derived_hard_iff[OF assms(1) ne] by blast
  let ?w = "warn_check ''derived_zero_volume_bucket'' (count_if zero_volume rows) []"
  have nz: "\<not> list_all (\<lambda>r. \<not> zero_volume r) rows"
    using some derived_soft(1)[OF ne, of n tf su rec] grid by (auto simp: warnings_def)
  then have w: "warnings (fst ?report) = [?w]"
    using derived_soft(1)[OF ne, of n tf su rec] grid by (simp add: warnings_def)
  have pos: "0 < count_if zero_volume rows"
    using nz count_if_nonneg[of zero_volume rows] unfolding count_if_zero[symmetric] by linarith
  obtain a where a: "a \<in> set (ar_findings r)" "af_check a = f_check ?w" "af_count a = f_count ?w"
    using cov(2) w by (auto elim!: covered_entry)
  moreover have "length (ar_findings r) = 1" using cov(1) w by simp
  ultimately have "ar_findings r = [a]" by (cases "ar_findings r") auto
  then show ?thesis using ne grid a pos by (simp add: warn_check_def)
qed

theorem approved_series_is_grid_witness:
  "\<exists>d. evaluate_effective_quality (\<lambda>_. sample_digest) (evaluate_derived_quality zero_bars 120000 120000 (Some 1) True)
       (cps ''2'') (Some sample_record) None None None None = Inr d
     \<and> qd_state d = ''WARN_APPROVED'' \<and> map c_open_ms zero_bars = bar_grid 120000 120000 (length zero_bars)"
proof -
  obtain d where d: "evaluate_effective_quality (\<lambda>_. sample_digest) (evaluate_derived_quality zero_bars 120000 120000 (Some 1) True)
       (cps ''2'') (Some sample_record) None None None None = Inr d" "qd_state d = ''WARN_APPROVED''"
    using zero_bars_approved by blast
  with approved_series_is_grid[OF _ sample_approval_loads d] show ?thesis by simp
qed

text \<open>The digest of an approval names the approval: two loaded records with the same digest are the
  same record in every field, or the digest function has a collision.\<close>

theorem approval_digest_binds:
  assumes "parse_approval_dict H decided doc = Inr r" "parse_approval_dict H decided' doc' = Inr r'"
    and "ar_sha r = ar_sha r'"
    and "str_points (approval_semantics r) \<union> str_points (approval_semantics r') \<subseteq> unicode"
  shows "collision H \<or> r = r'"
proof -
  obtain b b' where b: "jcs_utf8 (approval_semantics r) = Inr b" "cps (H b) = ar_sha r"
    "jcs_utf8 (approval_semantics r') = Inr b'" "cps (H b') = ar_sha r'"
    using parse_approval_record(1)[OF assms(1)] parse_approval_record(1)[OF assms(2)]
    by (auto simp: verify_self_hash_def bindE_Inr_iff checkE_Inr_iff)
  then have "H b = H b'" using assms(3) by (metis cps_inject)
  then have "collision H \<or> jcs_norm (approval_semantics r) = jcs_norm (approval_semantics r')"
    using same_digest[OF b(1,3)] assms(4) by blast
  then show ?thesis using approval_semantics_inject assms(3) by blast
qed

definition separating_digest :: "bytes \<Rightarrow> string" where
  "separating_digest b =
     (if jcs_utf8 (approval_semantics sample_record) = Inr b then sample_digest else CHR ''x'' # map char_of b)"

definition sample_reordered :: pyval where
  "sample_reordered = (case sample_approval of PyDict kvs \<Rightarrow> PyDict (rev kvs) | v \<Rightarrow> v)"

lemma sample_reordered_fields: "parse_approval_fields None sample_reordered = Inr sample_record"
  by code_simp

theorem approval_digest_binds_witness:
  "\<not> collision separating_digest \<and> parse_approval_dict separating_digest None sample_approval = Inr sample_record
   \<and> (\<exists>r. parse_approval_dict separating_digest None sample_reordered = Inr r \<and> r = sample_record)"
proof -
  have bytes: "map (of_char :: char \<Rightarrow> nat) (map char_of b) = b" if "byte_string b" for b
    using that by (induction b) (auto simp: byte_string_def)
  then have inj: "map char_of b = (map char_of b' :: string) \<Longrightarrow> byte_string b \<Longrightarrow> byte_string b' \<Longrightarrow> b = b'" for b b'
    by metis
  have "hd sample_digest \<noteq> CHR ''x''" by (simp add: sample_digest_def)
  then have free: "\<not> collision separating_digest"
    unfolding collision_def separating_digest_def using inj
    by (smt (verit) Inr_inject list.sel(1) list.inject)
  obtain b where b: "jcs_utf8 (approval_semantics sample_record) = Inr b" using sample_record_jcs by blast
  then have loads: "parse_approval_dict separating_digest None sample_approval = Inr sample_record"
    using sample_approval_fields
    by (simp add: parse_approval_dict_def verify_self_hash_def checkE_def separating_digest_def) (simp add: sample_record_def)
  have pts: "str_points (approval_semantics sample_record) \<subseteq> unicode"
    by (simp add: approval_semantics_def sample_record_def approved_finding_dict_def)
  obtain r where r: "parse_approval_dict separating_digest None sample_reordered = Inr r" "ar_sha r = ar_sha sample_record"
    "str_points (approval_semantics r) \<subseteq> unicode"
    using loads pts sample_reordered_fields sample_approval_fields by (simp add: parse_approval_dict_def)
  with free loads pts approval_digest_binds[OF r(1) loads] show ?thesis by simp
qed

end
