(* ===== verification/Folds.thy ===== *)
theory Folds
  imports Canonical
begin

text \<open>
  Anchored walk-forward folds (src/quantara/folds.py). Integers are Python's. The \<open>while\<close> loop
  of \<open>compute_test_ranges\<close> has no bound for a test size of zero or less, so it is a partial
  function whose value \<open>None\<close> means that the code does not return.
\<close>

section \<open>The partition\<close>

definition DEFAULT_TEST_SIZE :: int where "DEFAULT_TEST_SIZE = 72"
definition DEFAULT_MIN_TRAIN_SIZE :: int where "DEFAULT_MIN_TRAIN_SIZE = 336"
definition DEFAULT_EMBARGO :: int where "DEFAULT_EMBARGO = 24"

record fold =
  fold_id :: nat
  train_range :: "(int \<times> int) option"
  embargo_range :: "(int \<times> int) option"
  test_range :: "int \<times> int"

record fold_partition =
  parent_row_count :: int
  excluded_head_rows :: int
  fold_list :: "fold list"
  cov_total_rows :: int
  cov_fold_count :: nat
  cov_test_rows :: int

definition range_list :: "int \<times> int \<Rightarrow> pyval" where
  "range_list r = PyList [PyInt (fst r), PyInt (snd r)]"

definition fold_to_dict :: "fold \<Rightarrow> pyval" where
  "fold_to_dict f = PyDict
     [(cps ''fold_id'', PyInt (int (fold_id f))),
      (cps ''train_range'', case train_range f of None \<Rightarrow> PyNone | Some r \<Rightarrow> range_list r),
      (cps ''embargo_range'', case embargo_range f of None \<Rightarrow> PyNone | Some r \<Rightarrow> range_list r),
      (cps ''test_range'', range_list (test_range f))]"

definition partition_to_dict :: "fold_partition \<Rightarrow> pyval" where
  "partition_to_dict p = PyDict
     [(cps ''parent_rows'', PyInt (parent_row_count p)),
      (cps ''excluded_head_rows'', PyInt (excluded_head_rows p)),
      (cps ''folds'', PyList (map fold_to_dict (fold_list p))),
      (cps ''coverage'', PyDict
         [(cps ''total_rows'', PyInt (cov_total_rows p)),
          (cps ''fold_count'', PyInt (int (cov_fold_count p))),
          (cps ''test_rows'', PyInt (cov_test_rows p))])]"

partial_function (option) test_ranges_from :: "int \<Rightarrow> int \<Rightarrow> int \<Rightarrow> (int \<times> int) list option" where
  "test_ranges_from n ts current =
     (if current + ts \<le> n then
        if n - (current + ts) < ts then Some [(current, n)]
        else Option.bind (test_ranges_from n ts (current + ts))
               (\<lambda>rest. Some ((current, current + ts) # rest))
      else Some [])"

definition compute_test_ranges :: "int \<Rightarrow> int \<Rightarrow> int \<Rightarrow> (int \<times> int) list option" where
  "compute_test_ranges n ts first =
     (if n - first < ts then Some [] else test_ranges_from n ts first)"

definition make_fold :: "int \<Rightarrow> int \<Rightarrow> nat \<Rightarrow> int \<times> int \<Rightarrow> fold" where
  "make_fold min_train embargo i r =
     (let train_end = fst r - embargo
      in \<lparr>fold_id = i,
          train_range = (if min_train \<le> train_end then Some (0, train_end) else None),
          embargo_range = (if min_train \<le> train_end then Some (train_end, fst r) else None),
          test_range = r\<rparr>)"

definition build_walkforward_folds :: "int \<Rightarrow> int \<Rightarrow> int \<Rightarrow> int \<Rightarrow> fold_partition res option" where
  "build_walkforward_folds n ts min_train embargo =
     (if n < min_train + embargo + ts then Some (Inl UndersizedParentDataset)
      else Option.bind (compute_test_ranges n ts (min_train + embargo)) (\<lambda>ranges.
        let fs = map (\<lambda>(i, r). make_fold min_train embargo i r) (enumerate 0 ranges)
        in Some (Inr
          \<lparr>parent_row_count = n, excluded_head_rows = min_train + embargo, fold_list = fs,
           cov_total_rows = n, cov_fold_count = length fs,
           cov_test_rows = sum_list (map (\<lambda>f. snd (test_range f) - fst (test_range f)) fs)\<rparr>)))"

section \<open>The loop in closed form\<close>

text \<open>With a positive test size the loop returns, and its ranges are the blocks of the grid, the
  last one stretched to the end.\<close>

definition block_ranges :: "int \<Rightarrow> int \<Rightarrow> int \<Rightarrow> nat \<Rightarrow> (int \<times> int) list" where
  "block_ranges n ts first k =
     map (\<lambda>i. (first + int i * ts, if Suc i = k then n else first + int (Suc i) * ts)) [0..<k]"

lemma block_ranges_Suc:
  "0 < k \<Longrightarrow> block_ranges n ts first (Suc k) = (first, first + ts) # block_ranges n ts (first + ts) k"
  by (simp add: block_ranges_def upt_conv_Cons map_Suc_upt[symmetric] algebra_simps
      del: upt_Suc upt.simps)

lemma test_ranges_from_blocks:
  assumes "0 < ts" "first + ts \<le> n"
  shows "test_ranges_from n ts first = Some (block_ranges n ts first (nat ((n - first) div ts)))"
  using assms
proof (induction "nat (n - first)" arbitrary: first rule: less_induct)
  case less
  show ?case
  proof (cases "n - (first + ts) < ts")
    case True
    then have "(n - first) div ts = 1" using less.prems by (intro int_div_pos_eq[where r = "n - first - ts"]) auto
    then show ?thesis using True less.prems
      by (subst test_ranges_from.simps) (simp add: block_ranges_def)
  next
    case False
    define k where "k = nat ((n - (first + ts)) div ts)"
    have "(n - first) div ts = (n - (first + ts) + ts) div ts" by simp
    also have "\<dots> = (n - (first + ts)) div ts + 1" using less.prems by (subst div_add_self2) auto
    finally have d: "(n - first) div ts = (n - (first + ts)) div ts + 1" .
    have "1 \<le> (n - (first + ts)) div ts" using False less.prems by (simp add: pos_imp_zdiv_pos_iff int_one_le_iff_zero_less)
    then have k: "0 < k" "nat ((n - first) div ts) = Suc k" by (simp_all add: d k_def nat_add_distrib)
    have "test_ranges_from n ts (first + ts) = Some (block_ranges n ts (first + ts) k)"
      unfolding k_def using False less.prems by (intro less.hyps) auto
    then show ?thesis using False less.prems
      by (subst test_ranges_from.simps) (simp add: k block_ranges_Suc)
  qed
qed

lemma test_ranges_from_returns:
  assumes "test_ranges_from n ts current = Some r"
  shows "ts \<le> 0 \<longrightarrow> \<not> current \<le> n"
proof (rule test_ranges_from.raw_induct[OF _ assms])
  fix f n ts current r
  assume ih: "\<And>n ts current r. f n ts current = Some r \<Longrightarrow> ts \<le> (0 :: int) \<longrightarrow> \<not> current \<le> n"
    and eq: "(if current + ts \<le> n then
        if n - (current + ts) < ts then Some [(current, n)]
        else Option.bind (f n ts (current + ts)) (\<lambda>rest. Some ((current, current + ts) # rest))
      else Some []) = Some r"
  show "ts \<le> 0 \<longrightarrow> \<not> current \<le> n"
  proof (intro impI notI)
    assume a: "ts \<le> 0" "current \<le> n"
    with eq obtain rest where "f n ts (current + ts) = Some rest"
      by (auto simp: bind_eq_Some_conv split: if_splits)
    with ih a show False by fastforce
  qed
qed

lemma test_range_make_fold [simp]:
  "test_range (make_fold mt em i r) = r" "fold_id (make_fold mt em i r) = i"
  by (simp_all add: make_fold_def Let_def)

lemma build_folds_eq:
  assumes "0 < ts"
  shows "build_walkforward_folds n ts mt em = Some
    (if n < mt + em + ts then Inl UndersizedParentDataset
     else let fs = map (\<lambda>i. make_fold mt em i (block_ranges n ts (mt + em) (nat ((n - (mt + em)) div ts)) ! i))
                     [0..<nat ((n - (mt + em)) div ts)]
          in Inr \<lparr>parent_row_count = n, excluded_head_rows = mt + em, fold_list = fs, cov_total_rows = n,
                 cov_fold_count = length fs,
                 cov_test_rows = sum_list (map (\<lambda>f. snd (test_range f) - fst (test_range f)) fs)\<rparr>)"
proof (cases "n < mt + em + ts")
  case False
  have e: "map (\<lambda>(i, r). make_fold mt em i r) (enumerate 0 rs) = map (\<lambda>i. make_fold mt em i (rs ! i)) [0..<length rs]" for rs
    by (rule nth_equalityI) (auto simp: nth_enumerate_eq)
  have "compute_test_ranges n ts (mt + em) = Some (block_ranges n ts (mt + em) (nat ((n - (mt + em)) div ts)))"
    using False assms by (simp add: compute_test_ranges_def test_ranges_from_blocks)
  then show ?thesis using False
    by (simp add: build_walkforward_folds_def e) (simp add: block_ranges_def Let_def)
qed (simp add: build_walkforward_folds_def)

text \<open>The blocks as the partition promises them.\<close>

lemma block_range_nth:
  "i < k \<Longrightarrow> block_ranges n ts first k ! i
     = (first + int i * ts, if Suc i = k then n else first + int (Suc i) * ts)"
  by (simp add: block_ranges_def)

lemma block_ranges_sum:
  "0 < k \<Longrightarrow> sum_list (map (\<lambda>i. snd (block_ranges n ts first k ! i) - fst (block_ranges n ts first k ! i)) [0..<k]) = n - first"
proof -
  assume "0 < k"
  then obtain m where k: "k = Suc m" by (cases k) auto
  have "sum_list (map (\<lambda>i. snd (block_ranges n ts first k ! i) - fst (block_ranges n ts first k ! i)) [0..<m])
    = sum_list (map (\<lambda>i. ts) [0..<m])"
    by (intro arg_cong[of _ _ sum_list] map_cong refl) (auto simp: k block_range_nth algebra_simps)
  also have "\<dots> = int m * ts" by (simp add: sum_list_triv)
  finally show ?thesis by (simp add: k block_range_nth)
qed

lemma blocks_cover:
  assumes "0 < ts" "first + ts \<le> n" "k = nat ((n - first) div ts)"
  shows "0 < k" "first + int k * ts \<le> n" "n < first + int (Suc k) * ts"
proof -
  have q: "1 \<le> (n - first) div ts" using assms by (simp add: pos_imp_zdiv_pos_iff int_one_le_iff_zero_less)
  then show "0 < k" using assms(3) by simp
  have k: "int k = (n - first) div ts" using q assms(3) by simp
  have "int k * ts + (n - first) mod ts = n - first" unfolding k by (rule div_mult_mod_eq)
  moreover have "int (Suc k) * ts = int k * ts + ts" by (simp add: algebra_simps)
  ultimately show "first + int k * ts \<le> n" "n < first + int (Suc k) * ts"
    using pos_mod_bound[OF assms(1), of "n - first"] pos_mod_sign[OF assms(1), of "n - first"] by linarith+
qed

lemma walkforward_spec:
  assumes "0 < ts" "0 \<le> em"
  shows "\<exists>r. build_walkforward_folds n ts mt em = Some r \<and>
    (case r of
       Inl e \<Rightarrow> e = UndersizedParentDataset \<and> n < mt + em + ts
     | Inr p \<Rightarrow> mt + em + ts \<le> n \<and> fold_list p \<noteq> []
         \<and> fst (test_range (hd (fold_list p))) = excluded_head_rows p \<and> excluded_head_rows p = mt + em
         \<and> snd (test_range (last (fold_list p))) = n
         \<and> successively (\<lambda>f g. snd (test_range f) = fst (test_range g)) (fold_list p)
         \<and> (\<forall>i < length (fold_list p). let f = fold_list p ! i; s = mt + em + int i * ts in
              fold_id f = i \<and> fst (test_range f) = s
              \<and> ts \<le> snd (test_range f) - s \<and> snd (test_range f) - s < 2 * ts
              \<and> train_range f = Some (0, s - em) \<and> embargo_range f = Some (s - em, s))
         \<and> cov_fold_count p = length (fold_list p) \<and> cov_test_rows p = n - excluded_head_rows p)"
proof (cases "n < mt + em + ts")
  case True
  then show ?thesis by (simp add: build_folds_eq[OF assms(1)])
next
  case False
  define k where "k = nat ((n - (mt + em)) div ts)"
  note c = blocks_cover[OF assms(1) _ k_def] 
  have k: "0 < k" "mt + em + int k * ts \<le> n" "n < mt + em + int (Suc k) * ts"
    using c False by (simp_all del: of_nat_Suc)
  note nth = block_range_nth[of _ k n ts "mt + em"]
  let ?fs = "map (\<lambda>i. make_fold mt em i (block_ranges n ts (mt + em) k ! i)) [0..<k]"
  have len: "\<And>i. i < k \<Longrightarrow> 0 \<le> int i * ts" using assms(1) by simp
  have succ: "successively (\<lambda>f g. snd (test_range f) = fst (test_range g)) ?fs"
    by (simp add: successively_conv_nth nth)
  have hd: "hd ?fs = make_fold mt em 0 (block_ranges n ts (mt + em) k ! 0)" using k(1) by (simp add: hd_map)
  have last: "last ?fs = make_fold mt em (k - 1) (block_ranges n ts (mt + em) k ! (k - 1))" using k(1) by (simp add: last_map)
  have sum: "sum_list (map (\<lambda>f. snd (test_range f) - fst (test_range f)) ?fs) = n - (mt + em)"
    using block_ranges_sum[OF k(1), of n ts "mt + em"] by (simp add: comp_def)
  have each: "\<forall>i < k. let f = ?fs ! i; s = mt + em + int i * ts in
              fold_id f = i \<and> fst (test_range f) = s
              \<and> ts \<le> snd (test_range f) - s \<and> snd (test_range f) - s < 2 * ts
              \<and> train_range f = Some (0, s - em) \<and> embargo_range f = Some (s - em, s)"
  proof (intro allI impI)
    fix i assume i: "i < k"
    have "Suc i = k \<Longrightarrow> mt + em + int i * ts + ts \<le> n \<and> n < mt + em + int i * ts + 2 * ts"
      using k(2,3) by (auto simp: algebra_simps)
    then show "let f = ?fs ! i; s = mt + em + int i * ts in
              fold_id f = i \<and> fst (test_range f) = s
              \<and> ts \<le> snd (test_range f) - s \<and> snd (test_range f) - s < 2 * ts
              \<and> train_range f = Some (0, s - em) \<and> embargo_range f = Some (s - em, s)"
      using i assms(1) len[OF i] nth[OF i] by (simp add: make_fold_def Let_def) (simp add: algebra_simps)
  qed
  show ?thesis using False k(1) succ sum each
    by (simp add: build_folds_eq[OF assms(1)] k_def[symmetric] Let_def hd last) (simp add: nth)
qed

section \<open>Properties\<close>

text \<open>C15: for a positive test size the partition is computed for every parent. A parent below
  the minimum size is refused; otherwise fold \<open>i\<close> tests the rows from \<open>min_train + embargo + i * test_size\<close>
  on, the test ranges follow each other without gap or overlap and end at the last row, each
  has at least \<open>test_size\<close> and fewer than twice as many rows, every fold trains on all rows before
  its embargo, which is exactly \<open>embargo\<close> rows wide and touches the test range, and the reported
  coverage counts exactly the tested rows.\<close>

theorem walkforward_partition:
  assumes "0 < ts" "0 \<le> em"
  shows "\<exists>r. build_walkforward_folds n ts mt em = Some r \<and>
    (case r of
       Inl e \<Rightarrow> e = UndersizedParentDataset \<and> n < mt + em + ts
     | Inr p \<Rightarrow> mt + em + ts \<le> n \<and> fold_list p \<noteq> []
         \<and> fst (test_range (hd (fold_list p))) = excluded_head_rows p \<and> excluded_head_rows p = mt + em
         \<and> snd (test_range (last (fold_list p))) = n
         \<and> successively (\<lambda>f g. snd (test_range f) = fst (test_range g)) (fold_list p)
         \<and> (\<forall>i < length (fold_list p). let f = fold_list p ! i; s = mt + em + int i * ts in
              fold_id f = i \<and> fst (test_range f) = s
              \<and> ts \<le> snd (test_range f) - s \<and> snd (test_range f) - s < 2 * ts
              \<and> train_range f = Some (0, s - em) \<and> embargo_range f = Some (s - em, s))
         \<and> cov_fold_count p = length (fold_list p) \<and> cov_test_rows p = n - excluded_head_rows p)"
  using assms by (rule walkforward_spec)

theorem walkforward_partition_witness:
  "case the (build_walkforward_folds 500 72 336 24) of Inr p \<Rightarrow> map test_range (fold_list p) = [(360, 500)] | Inl _ \<Rightarrow> False"
  using walkforward_partition[of 72 24 500 336] by (simp add: build_folds_eq block_range_nth make_fold_def Let_def)

text \<open>The loop of \<open>compute_test_ranges\<close> does not return for a test size of zero or less
  on a parent that passes the size check, so the positive sizes of the callers are needed.\<close>

theorem walkforward_nonpositive_diverges:
  assumes "ts \<le> 0" "mt + em \<le> n"
  shows "build_walkforward_folds n ts mt em = None"
proof -
  have "test_ranges_from n ts (mt + em) = None"
    using test_ranges_from_returns[of n ts "mt + em"] assms by (cases "test_ranges_from n ts (mt + em)") auto
  then show ?thesis using assms by (simp add: build_walkforward_folds_def compute_test_ranges_def)
qed

theorem walkforward_nonpositive_diverges_witness: "build_walkforward_folds 400 0 336 24 = None"
  by (rule walkforward_nonpositive_diverges) simp_all

end
