(* ===== verification/Decimal_Order.thy ===== *)
theory Decimal_Order
  imports Py_Decimal
begin

text \<open>
  Rounding does not cross a grid point: a quotient below, at or above one stays there when a
  context rounds it, and differences and quantized values keep their sign. The return and label
  engines rely on this for the agreement of a stored return with its direction.
\<close>

lemma round_half_even_ge: "m * 10 ^ k \<le> c \<Longrightarrow> m \<le> round_half_even c k"
proof -
  assume "m * 10 ^ k \<le> c"
  then have "m \<le> c div 10 ^ k" by (simp add: less_eq_div_iff_mult_less_eq)
  then show ?thesis by (simp add: round_half_even_def Let_def)
qed

lemma round_half_even_le: "c \<le> m * 10 ^ k \<Longrightarrow> round_half_even c k \<le> m"
proof -
  assume c: "c \<le> m * 10 ^ k"
  show ?thesis
  proof (cases "c = m * 10 ^ k")
    case True
    then show ?thesis by (simp add: round_half_even_def)
  next
    case False
    with c have "c div 10 ^ k < m" by (simp add: less_mult_imp_div_less)
    then show ?thesis by (simp add: round_half_even_def Let_def)
  qed
qed

lemma dec_fix_sign: "dec_fix ctx d = Inr r \<Longrightarrow> dneg r = dneg d"
  by (auto simp: dec_fix_def Let_def split: if_splits)

lemma dec_fix_zero: "dec_fix ctx d = Inr r \<Longrightarrow> dcoef d = 0 \<Longrightarrow> dcoef r = 0"
  by (auto simp: dec_fix_def)

text \<open>A power of ten scaled by a context: the value is at least one exactly when the coefficient
  reaches the grid point.\<close>

lemma coef_one_iff:
  assumes "e \<le> 0"
  shows "1 \<le> of_nat c * (10 :: rat) powi e \<longleftrightarrow> 10 ^ nat (- e) \<le> c"
    and "of_nat c * (10 :: rat) powi e \<le> 1 \<longleftrightarrow> c \<le> 10 ^ nat (- e)"
proof -
  define k where "k = nat (- e)"
  have "e = - int k" using assms by (simp add: k_def)
  then have v: "of_nat c * (10 :: rat) powi e = of_nat c / of_nat (10 ^ k)"
    by (simp add: power_int_minus divide_inverse)
  show "1 \<le> of_nat c * (10 :: rat) powi e \<longleftrightarrow> 10 ^ nat (- e) \<le> c"
    unfolding v k_def[symmetric] by (subst le_divide_eq_1_pos) (simp_all only: of_nat_le_iff of_nat_0_less_iff, simp)
  show "of_nat c * (10 :: rat) powi e \<le> 1 \<longleftrightarrow> c \<le> 10 ^ nat (- e)"
    unfolding v k_def[symmetric] by (subst divide_le_eq_1_pos) (simp_all only: of_nat_le_iff of_nat_0_less_iff, simp)
qed

lemma coef_large: "0 \<le> e \<Longrightarrow> 0 < c \<Longrightarrow> 1 \<le> of_nat c * (10 :: rat) powi e"
proof -
  assume "0 \<le> e" "0 < c"
  have "(1 :: rat) \<le> of_nat c" using \<open>0 < c\<close> by simp
  moreover have "(1 :: rat) \<le> 10 powi e" using \<open>0 \<le> e\<close> by (simp add: one_le_power_int)
  ultimately have "(1 :: rat) * 1 \<le> of_nat c * 10 powi e" by (intro mult_mono) auto
  then show ?thesis by simp
qed

lemma nat_powi: "0 \<le> e \<Longrightarrow> (10 :: rat) powi e = 10 ^ nat e"
  by (simp add: power_int_def)

lemma fix_exp_split: "dexp d \<le> f \<Longrightarrow> f \<le> 0 \<Longrightarrow> (10 :: nat) ^ nat (- dexp d) = 10 ^ nat (- f) * 10 ^ nat (f - dexp d)"
  by (simp add: power_add[symmetric] nat_add_distrib[symmetric])

lemma dec_fix_one_le:
  assumes fx: "dec_fix ctx d = Inr r" and ctx: "0 < cprec ctx" "Etiny ctx \<le> 0" and one: "1 \<le> dval d"
  shows "1 \<le> dval r"
proof (cases "dexp d < ulp_exp ctx d")
  case False
  have "dcoef d \<noteq> 0" using one by (intro notI) (simp add: dval_def)
  with False fx have "r = d" by (auto simp: dec_fix_def Let_def ulp_exp_def split: if_splits)
  then show ?thesis using one by simp
next
  case True
  let ?f = "ulp_exp ctx d"
  have nz: "dcoef d \<noteq> 0" using one by (intro notI) (simp add: dval_def)
  have pos: "\<not> dneg d" using one dval_pos[of d] by auto
  have r: "dval r = of_nat (round_half_even (dcoef d) (nat (?f - dexp d))) * 10 powi ?f"
    using dec_fix_rounded[OF fx nz ctx(1) True] pos by (simp add: dval_Dec)
  show ?thesis
  proof (cases "?f \<le> 0")
    case le: True
    have "10 ^ nat (- dexp d) \<le> dcoef d"
      using one pos True le by (subst coef_one_iff(1)[symmetric]) (auto simp: dval_def)
    then have "10 ^ nat (- ?f) \<le> round_half_even (dcoef d) (nat (?f - dexp d))"
      using fix_exp_split[of d ?f] True le by (intro round_half_even_ge) simp
    then show ?thesis unfolding r using le by (simp add: coef_one_iff)
  next
    case gt: False
    then have f: "?f = int (ndigits (dcoef d)) + dexp d - int (cprec ctx)" using ctx(2) by (auto simp: ulp_exp_def)
    have "nat (?f - dexp d) \<le> ndigits (dcoef d) - 1" using f True ctx(1) by simp
    then have "(10 :: nat) ^ nat (?f - dexp d) \<le> 10 ^ (ndigits (dcoef d) - 1)" by (intro power_increasing) auto
    also have "\<dots> \<le> dcoef d" using nz by (intro ndigits_lower) simp
    finally have "1 \<le> round_half_even (dcoef d) (nat (?f - dexp d))" by (intro round_half_even_ge) simp
    then show ?thesis unfolding r using gt by (intro coef_large) auto
  qed
qed

lemma dec_fix_le_one:
  assumes fx: "dec_fix ctx d = Inr r" and ctx: "0 < cprec ctx" "Etiny ctx \<le> 0" and one: "dval d \<le> 1"
  shows "dval r \<le> 1"
proof (cases "dneg d \<or> dcoef d = 0")
  case True
  then have "dval r \<le> 0" using dec_fix_sign[OF fx] dec_fix_zero[OF fx]
    by (auto simp: dval_def mult_nonneg_nonneg)
  then show ?thesis by simp
next
  case False
  then have nz: "dcoef d \<noteq> 0" and pos: "\<not> dneg d" by auto
  show ?thesis
  proof (cases "dexp d < ulp_exp ctx d")
    case stay: False
    with nz fx have "r = d" by (auto simp: dec_fix_def Let_def ulp_exp_def split: if_splits)
    then show ?thesis using one by simp
  next
    case True
    let ?f = "ulp_exp ctx d"
    have r: "dval r = of_nat (round_half_even (dcoef d) (nat (?f - dexp d))) * 10 powi ?f"
      using dec_fix_rounded[OF fx nz ctx(1) True] pos by (simp add: dval_Dec)
    have "?f \<le> 0"
    proof (rule ccontr)
      assume gt: "\<not> ?f \<le> 0"
      then have f: "?f = int (ndigits (dcoef d)) + dexp d - int (cprec ctx)" using ctx(2) by (auto simp: ulp_exp_def)
      have "10 ^ (ndigits (dcoef d) - 1) \<le> dcoef d" using nz by (intro ndigits_lower) simp
      then have "(10 :: rat) ^ (ndigits (dcoef d) - 1) \<le> of_nat (dcoef d)"
        by (metis of_nat_le_iff of_nat_numeral of_nat_power)
      then have "(10 :: rat) ^ (ndigits (dcoef d) - 1) * 10 powi dexp d \<le> dval d"
        using pos by (simp add: dval_def)
      then have "(10 :: rat) powi (int (ndigits (dcoef d) - 1) + dexp d) \<le> 1"
        using one by (simp add: power_int_add)
      moreover have "0 < int (ndigits (dcoef d) - 1) + dexp d" using f gt ctx(1) by simp
      then have "1 < (10 :: rat) powi (int (ndigits (dcoef d) - 1) + dexp d)" by (simp add: one_less_power_int)
      ultimately show False by simp
    qed
    have "dcoef d \<le> 10 ^ nat (- dexp d)"
      using one pos True \<open>?f \<le> 0\<close> by (subst coef_one_iff(2)[symmetric]) (auto simp: dval_def)
    then have "round_half_even (dcoef d) (nat (?f - dexp d)) \<le> 10 ^ nat (- ?f)"
      using fix_exp_split[of d ?f] True \<open>?f \<le> 0\<close> by (intro round_half_even_le) simp
    then show ?thesis unfolding r using \<open>?f \<le> 0\<close> by (simp add: coef_one_iff)
  qed
qed

text \<open>The quotient digits of a division: at least as many as the precision asks for.\<close>

lemma div_shift_large:
  fixes a b :: nat
  assumes "0 < a" "0 < b" "shift = int (ndigits b) - int (ndigits a) + int p + 1"
    "num = (if 0 \<le> shift then a * 10 ^ nat shift else a)"
    "den = (if 0 \<le> shift then b else b * 10 ^ nat (- shift))"
  shows "den * 10 ^ p \<le> num" "0 < den"
proof -
  have a: "10 ^ (ndigits a - 1) \<le> a" using assms(1) by (intro ndigits_lower)
  have b: "b \<le> 10 ^ ndigits b" using ndigits_upper[of b] by simp
  show "den * 10 ^ p \<le> num"
  proof (cases "0 \<le> shift")
    case True
    have "b * 10 ^ p \<le> 10 ^ ndigits b * 10 ^ p" using b by simp
    also have "\<dots> = 10 ^ (ndigits a - 1) * 10 ^ nat shift"
      using True assms(3) ndigits_pos[of a] by (simp add: power_add[symmetric] del: ndigits_pos)
    also have "\<dots> \<le> a * 10 ^ nat shift" using a by simp
    finally show ?thesis using True assms(4,5) by simp
  next
    case False
    have "b * 10 ^ nat (- shift) * 10 ^ p \<le> 10 ^ ndigits b * 10 ^ nat (- shift) * 10 ^ p" using b by simp
    also have "\<dots> = 10 ^ (ndigits a - 1)"
      using False assms(3) ndigits_pos[of a] by (simp add: power_add[symmetric] del: ndigits_pos)
    also have "\<dots> \<le> a" by (rule a)
    finally show ?thesis using False assms(4,5) by simp
  qed
  show "0 < den" using assms(2,5) by simp
qed

text \<open>A division rounds once: its result is the rounding of a decimal that lies on the same side of
  one as the true quotient.\<close>

lemma dec_div_pre:
  assumes dv: "dec_div ctx a b = Inr r" and pos: "0 < dval a" "0 < dval b" and ctx: "0 < cprec ctx"
  shows "\<exists>d. dec_fix ctx d = Inr r \<and> (dval b \<le> dval a \<longrightarrow> 1 \<le> dval d) \<and> (dval a \<le> dval b \<longrightarrow> dval d \<le> 1)"
proof -
  have nz: "0 < dcoef a" "0 < dcoef b" using pos dval_zero_iff[of a] dval_zero_iff[of b] by (auto intro!: gr0I)
  have sgn: "\<not> dneg a" "\<not> dneg b" using pos dval_pos[of a] dval_pos[of b] by auto
  define shift where "shift = int (ndigits (dcoef b)) - int (ndigits (dcoef a)) + int (cprec ctx) + 1"
  define num where "num = (if 0 \<le> shift then dcoef a * 10 ^ nat shift else dcoef a)"
  define den where "den = (if 0 \<le> shift then dcoef b else dcoef b * 10 ^ nat (- shift))"
  define e where "e = dexp a - dexp b - shift"
  define q where "q = num div den"
  define q' where "q' = (if q mod 5 = 0 then q + 1 else q)"
  have div: "dec_div ctx a b = (if num mod den \<noteq> 0 then dec_fix ctx (Dec False q' e)
    else case strip_zeros q e (dexp a - dexp b) of (c, e') \<Rightarrow> dec_fix ctx (Dec False c e'))"
    using nz sgn by (simp add: dec_div_def Let_def q'_def q_def num_def den_def e_def shift_def)
  note large = div_shift_large[OF nz shift_def num_def den_def]
  have va: "dval a = of_nat (dcoef a) * 10 powi dexp a" and vb: "dval b = of_nat (dcoef b) * 10 powi dexp b"
    using sgn by (simp_all add: dval_def)
  have quot: "dval a * of_nat den = dval b * of_nat num * 10 powi e"
  proof (cases "0 \<le> shift")
    case True
    have "(10 :: rat) ^ nat shift * 10 powi e * 10 powi dexp b = 10 powi dexp a"
      using True by (simp add: nat_powi[symmetric] power_int_add[symmetric] e_def)
    then show ?thesis using True by (simp add: va vb num_def den_def mult_ac)
  next
    case False
    have "(10 :: rat) ^ nat (- shift) * 10 powi dexp a = 10 powi e * 10 powi dexp b"
      using False by (simp add: nat_powi[symmetric] power_int_add[symmetric] e_def)
    then show ?thesis using False by (simp add: va vb num_def den_def mult_ac)
  qed
  have ge: "of_nat den \<le> of_nat num * (10 :: rat) powi e" if "dval b \<le> dval a"
  proof -
    have "dval b * of_nat den \<le> dval b * (of_nat num * 10 powi e)"
      using that mult_right_mono[OF that, of "of_nat den"] quot by (simp add: mult.assoc)
    then show ?thesis using pos by simp
  qed
  have le: "of_nat num * (10 :: rat) powi e \<le> of_nat den" if "dval a \<le> dval b"
  proof -
    have "dval b * (of_nat num * 10 powi e) \<le> dval b * of_nat den"
      using that mult_right_mono[OF that, of "of_nat den"] quot by (simp add: mult.assoc)
    then show ?thesis using pos by simp
  qed
  have q1: "1 \<le> q" using large by (simp add: q_def less_eq_div_iff_mult_less_eq) (metis dual_order.trans mult.commute mult_1 mult_le_mono1 one_le_numeral one_le_power)
  have numge: "num = q * den + num mod den" by (simp add: q_def)
  have lower: "10 ^ nat (- e) \<le> q" if "dval b \<le> dval a" "e \<le> 0"
  proof -
    have "of_nat (den * 10 ^ nat (- e)) \<le> (of_nat num :: rat)"
      using ge[OF that(1)] that(2) by (simp add: power_int_def field_simps split: if_splits)
    then show ?thesis using large(2) by (simp only: of_nat_le_iff q_def less_eq_div_iff_mult_less_eq mult.commute)
  qed
  have e0: "e \<le> 0" if "dval a \<le> dval b"
  proof (rule ccontr)
    assume "\<not> e \<le> 0"
    then have "(1 :: rat) < 10 powi e" by (simp add: one_less_power_int)
    moreover have "den \<le> num" using q1 large(2) by (simp add: q_def less_eq_div_iff_mult_less_eq)
    ultimately have "(of_nat den :: rat) * 1 < of_nat num * 10 powi e"
      using large(2) by (intro mult_le_less_imp_less) auto
    then show False using le[OF that] by simp
  qed
  have upper: "num \<le> den * 10 ^ nat (- e)" if "dval a \<le> dval b"
  proof -
    have "(of_nat num :: rat) \<le> of_nat (den * 10 ^ nat (- e))"
      using le[OF that] e0[OF that] by (simp add: power_int_def field_simps split: if_splits)
    then show ?thesis by (simp only: of_nat_le_iff)
  qed
  show ?thesis
  proof (cases "num mod den = 0")
    case True
    obtain c e' where s: "strip_zeros q e (dexp a - dexp b) = (c, e')" by fastforce
    have "dec_fix ctx (Dec False c e') = Inr r"
      using dv True s by (simp add: div)
    moreover have v: "dval (Dec False c e') = of_nat q * 10 powi e"
      using strip_zeros_spec[OF s] q1 powi_shift[of e e'] by (simp add: dval_Dec)
    moreover have "1 \<le> of_nat q * (10 :: rat) powi e" if "dval b \<le> dval a"
      using lower[OF that] q1 coef_one_iff(1)[of e q] coef_large[of e q] by (cases "e \<le> 0") auto
    moreover have "of_nat q * (10 :: rat) powi e \<le> 1" if "dval a \<le> dval b"
    proof -
      have "q \<le> 10 ^ nat (- e)" using upper[OF that] large(2) numge True by (simp add: mult.commute)
      then show ?thesis using e0[OF that] by (simp add: coef_one_iff)
    qed
    ultimately show ?thesis by (intro exI[of _ "Dec False c e'"]) simp
  next
    case False
    have "dec_fix ctx (Dec False q' e) = Inr r"
      using dv False by (simp add: div)
    moreover have "1 \<le> dval (Dec False q' e)" if "dval b \<le> dval a"
      using lower[OF that] q1 coef_one_iff(1)[of e q'] coef_large[of e q'] by (cases "e \<le> 0") (auto simp: dval_Dec q'_def)
    moreover have "dval (Dec False q' e) \<le> 1" if "dval a \<le> dval b"
    proof -
      have "q * den < den * 10 ^ nat (- e)" using upper[OF that] numge False by linarith
      then have "q < 10 ^ nat (- e)" using large(2) by (simp add: mult.commute)
      then have "q' \<le> 10 ^ nat (- e)" by (simp add: q'_def)
      then show ?thesis using e0[OF that] by (simp add: dval_Dec coef_one_iff)
    qed
    ultimately show ?thesis by (intro exI[of _ "Dec False q' e"]) simp
  qed
qed

lemma dec_div_one:
  assumes "dec_div ctx a b = Inr r" "0 < dval a" "0 < dval b" "0 < cprec ctx" "Etiny ctx \<le> 0"
  shows "dval b \<le> dval a \<Longrightarrow> 1 \<le> dval r" "dval a \<le> dval b \<Longrightarrow> dval r \<le> 1"
  using dec_div_pre[OF assms(1-4)] dec_fix_one_le[OF _ assms(4,5)] dec_fix_le_one[OF _ assms(4,5)] by blast+

text \<open>A difference keeps the sign of the exact difference.\<close>

lemma dec_add_sign:
  assumes "dec_add ctx a b = Inr r"
  shows "0 \<le> dval a + dval b \<Longrightarrow> 0 \<le> dval r" "dval a + dval b \<le> 0 \<Longrightarrow> dval r \<le> 0"
proof -
  let ?s = "dec_add_exact a b"
  have fx: "dec_fix ctx ?s = Inr r" using assms by (simp add: dec_add_def)
  have z: "dcoef ?s = 0 \<Longrightarrow> dval r = 0" using dec_fix_zero[OF fx] by (simp add: dval_zero_iff)
  have v: "dval ?s = dval a + dval b" by simp
  show "0 \<le> dval a + dval b \<Longrightarrow> 0 \<le> dval r"
    using dec_fix_sign[OF fx] z v dval_nonneg_iff[of ?s] dval_nonneg_iff[of r] by auto
  show "dval a + dval b \<le> 0 \<Longrightarrow> dval r \<le> 0"
    using dec_fix_sign[OF fx] z v dval_pos[of r] dval_nonneg_iff[of ?s] dval_zero_iff[of ?s] by force
qed

end
