(* ===== verification/Decimal_Error.thy ===== *)
theory Decimal_Error
  imports Decimal_Order
begin

text \<open>
  Error bounds of the decimal operations of Py_Decimal: a rounded result is off by at most half a
  unit in the last place, which is a relative error of the precision apart from underflow; a quotient
  is off by twice that; halves of integers are exact.
\<close>

section \<open>Relative errors\<close>

lemma dval_abs: "\<bar>dval d\<bar> = of_nat (dcoef d) * 10 powi dexp d"
  by (simp add: dval_def abs_mult)

lemma dcoef_lower:
  assumes "dcoef d \<noteq> 0"
  shows "10 powi (int (ndigits (dcoef d)) + dexp d - 1) \<le> \<bar>dval d\<bar>"
proof -
  have "10 ^ (ndigits (dcoef d) - 1) \<le> dcoef d" using assms by (intro ndigits_lower) simp
  then have "(10 :: rat) ^ (ndigits (dcoef d) - 1) \<le> of_nat (dcoef d)"
    by (metis of_nat_le_iff of_nat_numeral of_nat_power)
  then have "(10 :: rat) ^ (ndigits (dcoef d) - 1) * 10 powi dexp d \<le> \<bar>dval d\<bar>"
    by (simp add: dval_abs)
  moreover have "(10 :: rat) powi (int (ndigits (dcoef d) - 1) + dexp d) = 10 ^ (ndigits (dcoef d) - 1) * 10 powi dexp d"
    by (subst power_int_add) auto
  moreover have "int (ndigits (dcoef d)) + dexp d - 1 = int (ndigits (dcoef d) - 1) + dexp d"
    using ndigits_pos[of "dcoef d"] by linarith
  ultimately show ?thesis by (simp only:)
qed

lemma ulp_relative:
  assumes "dcoef d \<noteq> 0"
  shows "10 powi ulp_exp ctx d \<le> \<bar>dval d\<bar> * 10 powi (1 - int (cprec ctx)) + 10 powi Etiny ctx"
proof -
  let ?k = "int (ndigits (dcoef d)) + dexp d - int (cprec ctx)"
  have "(10 :: rat) powi ?k = 10 powi (int (ndigits (dcoef d)) + dexp d - 1) * 10 powi (1 - int (cprec ctx))"
    by (simp add: power_int_add[symmetric] algebra_simps)
  also have "\<dots> \<le> \<bar>dval d\<bar> * 10 powi (1 - int (cprec ctx))"
    by (rule mult_right_mono[OF dcoef_lower[OF assms]]) simp
  finally have k: "(10 :: rat) powi ?k \<le> \<bar>dval d\<bar> * 10 powi (1 - int (cprec ctx))" .
  have n: "0 \<le> \<bar>dval d\<bar> * 10 powi (1 - int (cprec ctx))" by simp
  show ?thesis
  proof (cases "Etiny ctx \<le> ?k")
    case True
    then have "ulp_exp ctx d = ?k" by (simp add: ulp_exp_def)
    then have "(10 :: rat) powi ulp_exp ctx d \<le> \<bar>dval d\<bar> * 10 powi (1 - int (cprec ctx)) + 0" using k by simp
    also have "\<dots> \<le> \<bar>dval d\<bar> * 10 powi (1 - int (cprec ctx)) + 10 powi Etiny ctx" by (intro add_left_mono) simp
    finally show ?thesis .
  next
    case False
    then have "ulp_exp ctx d = Etiny ctx" by (simp add: ulp_exp_def)
    then show ?thesis using n by simp
  qed
qed

lemma dec_fix_relative:
  assumes "dec_fix ctx d = Inr r" "0 < cprec ctx"
  shows "2 * \<bar>dval r - dval d\<bar> \<le> \<bar>dval d\<bar> * 10 powi (1 - int (cprec ctx)) + 10 powi Etiny ctx"
proof (cases "dcoef d = 0")
  case True
  then have "dval r = 0" "dval d = 0" using dec_fix_zero[OF assms(1)] by (simp_all add: dval_zero_iff)
  then show ?thesis by simp
next
  case False
  have "2 * \<bar>dval r - dval d\<bar> \<le> 10 powi ulp_exp ctx d" using dec_fix_error[OF assms(1) False assms(2)] by simp
  then show ?thesis using ulp_relative[OF False, of ctx] by (rule order_trans)
qed

text \<open>The quotient before its last rounding: at least one digit more than the precision.\<close>

lemma dec_div_unfold:
  assumes "dcoef a \<noteq> 0" "dcoef b \<noteq> 0"
    and "shift = int (ndigits (dcoef b)) - int (ndigits (dcoef a)) + int (cprec ctx) + 1"
    and "num = (if 0 \<le> shift then dcoef a * 10 ^ nat shift else dcoef a)"
    and "den = (if 0 \<le> shift then dcoef b else dcoef b * 10 ^ nat (- shift))"
    and "e = dexp a - dexp b - shift" and "s = (dneg a \<noteq> dneg b)" and "q = num div den"
  shows "dec_div ctx a b = (if num mod den \<noteq> 0 then dec_fix ctx (Dec s (if q mod 5 = 0 then q + 1 else q) e)
    else case strip_zeros q e (dexp a - dexp b) of (c, e') \<Rightarrow> dec_fix ctx (Dec s c e'))"
  using assms(1,2) unfolding assms(3-) by (simp add: dec_div_def Let_def)

lemma dec_div_quotient:
  assumes nz: "dcoef a \<noteq> 0" "dcoef b \<noteq> 0" and ctx: "0 < cprec ctx"
  shows "\<exists>d. dec_div ctx a b = dec_fix ctx d \<and> \<bar>dval d - dval a / dval b\<bar> \<le> \<bar>dval a / dval b\<bar> * 10 powi (- int (cprec ctx))"
proof -
  define shift where "shift = int (ndigits (dcoef b)) - int (ndigits (dcoef a)) + int (cprec ctx) + 1"
  define num where "num = (if 0 \<le> shift then dcoef a * 10 ^ nat shift else dcoef a)"
  define den where "den = (if 0 \<le> shift then dcoef b else dcoef b * 10 ^ nat (- shift))"
  define e where "e = dexp a - dexp b - shift"
  define q where "q = num div den"
  define q' where "q' = (if q mod 5 = 0 then q + 1 else q)"
  define s where "s = (dneg a \<noteq> dneg b)"
  have pos: "0 < dcoef a" "0 < dcoef b" using nz by auto
  have div: "dec_div ctx a b = (if num mod den \<noteq> 0 then dec_fix ctx (Dec s q' e)
    else case strip_zeros q e (dexp a - dexp b) of (c, e') \<Rightarrow> dec_fix ctx (Dec s c e'))"
    unfolding q'_def by (rule dec_div_unfold[OF nz shift_def num_def den_def e_def s_def q_def])
  note large = div_shift_large[OF pos shift_def num_def den_def]
  have q1: "10 ^ cprec ctx \<le> q"
    using large by (simp add: q_def less_eq_div_iff_mult_less_eq mult.commute)
  have nd: "(of_nat num :: rat) / of_nat den * 10 powi e = of_nat (dcoef a) / of_nat (dcoef b) * 10 powi (dexp a - dexp b)"
  proof (cases "0 \<le> shift")
    case True
    have "(10 :: rat) ^ nat shift * 10 powi e = 10 powi (dexp a - dexp b)"
      using True by (simp add: nat_powi[symmetric] power_int_add[symmetric] e_def)
    then show ?thesis using True by (simp add: num_def den_def mult.assoc)
  next
    case False
    have "10 powi e = 10 powi (dexp a - dexp b) * (10 :: rat) ^ nat (- shift)"
      using False by (simp add: nat_powi[symmetric] power_int_add[symmetric] e_def)
    then show ?thesis using False by (simp add: num_def den_def)
  qed
  have quot: "dval a / dval b = (if s then - 1 else 1) * (of_nat num / of_nat den * 10 powi e)"
    unfolding nd by (simp add: dval_def s_def power_int_diff)
  have dm: "(of_nat den :: rat) * of_nat q + of_nat (num mod den) = of_nat num"
    by (simp only: of_nat_mult[symmetric] of_nat_add[symmetric] of_nat_eq_iff q_def mult_div_mod_eq)
  have lo: "of_nat q \<le> (of_nat num :: rat) / of_nat den"
    using dm large(2) by (simp add: field_simps)
  have hi: "(of_nat num :: rat) / of_nat den < of_nat q + 1"
  proof -
    have "(of_nat (num mod den) :: rat) < of_nat den" using large(2) by simp
    then have "(of_nat num :: rat) < of_nat den * of_nat q + of_nat den" using dm by linarith
    then show ?thesis using large(2) by (simp add: field_simps)
  qed
  have near: "\<bar>dval (Dec s c f) - dval a / dval b\<bar> \<le> \<bar>dval a / dval b\<bar> * 10 powi (- int (cprec ctx))"
    if "of_nat q * 10 powi e \<le> of_nat c * (10 :: rat) powi f" "of_nat c * 10 powi f \<le> (of_nat q + 1) * (10 :: rat) powi e" for c f
  proof -
    let ?x = "(of_nat num :: rat) / of_nat den * 10 powi e" and ?y = "of_nat c * (10 :: rat) powi f"
    have x: "of_nat q * 10 powi e \<le> ?x" "?x \<le> (of_nat q + 1) * 10 powi e"
      using lo hi by (intro mult_right_mono; simp)+
    have "\<bar>?y - ?x\<bar> \<le> 10 powi e" using x that by (simp add: algebra_simps abs_le_iff)
    moreover have "10 powi e \<le> ?x * 10 powi (- int (cprec ctx))"
    proof -
      have "(10 :: rat) ^ cprec ctx \<le> of_nat q" using q1 by (metis of_nat_le_iff of_nat_numeral of_nat_power)
      then have "(10 :: rat) ^ cprec ctx * 10 powi e \<le> ?x" using x(1) by (meson mult_right_mono order_trans powi_pos less_imp_le)
      then have "(10 :: rat) ^ cprec ctx * 10 powi e * 10 powi (- int (cprec ctx)) \<le> ?x * 10 powi (- int (cprec ctx))"
        by (rule mult_right_mono) simp
      moreover have "(10 :: rat) ^ cprec ctx * 10 powi e * 10 powi (- int (cprec ctx)) = 10 powi e"
        by (simp add: power_int_minus)
      ultimately show ?thesis by (simp only:)
    qed
    ultimately have "\<bar>?y - ?x\<bar> \<le> ?x * 10 powi (- int (cprec ctx))" by (rule order_trans)
    moreover have "0 \<le> ?x" by simp
    then have "\<bar>dval a / dval b\<bar> = ?x" unfolding quot by (simp add: abs_mult)
    moreover have "\<bar>dval (Dec s c f) - dval a / dval b\<bar> = \<bar>?y - ?x\<bar>"
      unfolding quot by (simp add: dval_Dec abs_minus_commute)
    ultimately show ?thesis by simp
  qed
  show ?thesis
  proof (cases "num mod den = 0")
    case True
    obtain c e' where st: "strip_zeros q e (dexp a - dexp b) = (c, e')" by fastforce
    have "0 < q" using q1 by (metis gr0I le_zero_eq power_not_zero zero_neq_numeral)
    then have "of_nat c * 10 powi e' = of_nat q * (10 :: rat) powi e"
      using strip_zeros_spec[OF st] powi_shift[of e e'] by simp
    then show ?thesis
      using True st near[of c e'] by (intro exI[of _ "Dec s c e'"]) (simp add: div)
  next
    case False
    have "of_nat q * (10 :: rat) powi e \<le> of_nat q' * 10 powi e" "of_nat q' * (10 :: rat) powi e \<le> (of_nat q + 1) * 10 powi e"
      by (auto simp: q'_def intro!: mult_right_mono)
    then show ?thesis
      using False near[of q' e] by (intro exI[of _ "Dec s q' e"]) (simp add: div)
  qed
qed

lemma error_chain:
  assumes "2 * \<bar>r - d\<bar> \<le> w + w / 10 + t" "0 \<le> w" "0 \<le> t" "\<bar>d - y\<bar> \<le> w / 10"
  shows "\<bar>r - y\<bar> \<le> w + (t :: rat)"
proof -
  have "\<bar>a + b\<bar> \<le> u + v" if "\<bar>a\<bar> \<le> u" "\<bar>b\<bar> \<le> v" for a b u v :: rat using that by linarith
  from this[of "r - d" "\<bar>r - d\<bar>" "d - y" "w / 10"] have "\<bar>r - y\<bar> \<le> \<bar>r - d\<bar> + w / 10" using assms(4) by simp
  moreover have "a + w / 10 \<le> w + t" if "2 * a \<le> w + w / 10 + t" for a using that assms(2,3) by linarith
  ultimately show ?thesis using assms(1) by (meson order_trans)
qed

lemma dec_div_relative:
  assumes "dec_div ctx a b = Inr r" "0 < cprec ctx"
  shows "\<bar>dval r - dval a / dval b\<bar> \<le> \<bar>dval a / dval b\<bar> * 10 powi (1 - int (cprec ctx)) + 10 powi Etiny ctx"
proof (cases "dcoef a = 0")
  case True
  then have "dval r = 0" "dval a = 0"
    using assms(1) dec_fix_zero by (auto simp: dec_div_def dval_zero_iff Let_def split: if_splits)
  then show ?thesis by simp
next
  case False
  have "dcoef b \<noteq> 0" using assms(1) by (auto simp: dec_div_def Let_def split: if_splits)
  then obtain d where d: "dec_fix ctx d = Inr r"
      "\<bar>dval d - dval a / dval b\<bar> \<le> \<bar>dval a / dval b\<bar> * 10 powi (- int (cprec ctx))"
    using dec_div_quotient[OF False _ assms(2)] assms(1) by fastforce
  define y where "y = dval a / dval b"
  define x where "x = \<bar>y\<bar>"
  define u where "u = (10 :: rat) powi (1 - int (cprec ctx))"
  define t where "t = (10 :: rat) powi Etiny ctx"
  have v: "(10 :: rat) powi (- int (cprec ctx)) = u / 10"
    using power_int_add[of "10 :: rat" 1 "- int (cprec ctx)"] by (simp add: u_def)
  have u: "0 < u" "u \<le> 1" using assms(2) by (auto simp: u_def intro!: power_int_increasing[of _ 0, simplified])
  have x0: "0 \<le> x" by (simp add: x_def)
  have near: "\<bar>dval d - y\<bar> \<le> x * u / 10" using d(2) by (simp add: v x_def y_def)
  have "x * u / 10 \<le> x / 10" using mult_left_mono[OF u(2) x0] by simp
  then have "\<bar>dval d\<bar> \<le> x + x / 10" using near unfolding x_def by linarith
  then have "\<bar>dval d\<bar> * u \<le> (x + x / 10) * u" using u(1) by (intro mult_right_mono) auto
  moreover have "2 * \<bar>dval r - dval d\<bar> \<le> \<bar>dval d\<bar> * u + t"
    using dec_fix_relative[OF d(1) assms(2)] by (simp add: u_def t_def)
  ultimately have "2 * \<bar>dval r - dval d\<bar> \<le> x * u + x * u / 10 + t" by (simp add: algebra_simps)
  moreover have "0 \<le> x * u" "0 \<le> t" using x0 u(1) by (simp_all add: t_def)
  moreover define w where "w = x * u"
  ultimately have "2 * \<bar>dval r - dval d\<bar> \<le> w + w / 10 + t" "0 \<le> w" "0 \<le> t" "\<bar>dval d - y\<bar> \<le> w / 10"
    using near by simp_all
  then have "\<bar>dval r - y\<bar> \<le> w + t" by (rule error_chain)
  then have "\<bar>dval r - y\<bar> \<le> x * u + t" by (simp add: w_def)
  then show ?thesis by (simp add: x_def u_def t_def y_def)
qed

section \<open>When operations succeed\<close>

lemma powi_le_cancel: "(10 :: rat) powi a \<le> 10 powi b \<longleftrightarrow> a \<le> b"
  using power_int_increasing[of a b "10 :: rat"] power_int_strict_increasing[of b a "10 :: rat"] by (cases "a \<le> b") auto

lemma dec_fix_total:
  assumes "\<bar>dval d\<bar> \<le> 10 powi k" "k + 2 \<le> Etop ctx + int (cprec ctx)" "Etiny ctx < Etop ctx"
  shows "\<exists>r. dec_fix ctx d = Inr r"
proof (cases "dcoef d = 0")
  case False
  have "(10 :: rat) powi (int (ndigits (dcoef d)) + dexp d - 1) \<le> 10 powi k"
    using dcoef_lower[OF False] assms(1) by (rule order_trans)
  then have "int (ndigits (dcoef d)) + dexp d - 1 \<le> k" by (simp add: powi_le_cancel)
  then have m: "max (int (ndigits (dcoef d)) + dexp d - int (cprec ctx)) (Etiny ctx) < Etop ctx" using assms(2,3) by simp
  then have "\<not> Etop ctx < int (ndigits (dcoef d)) + dexp d - int (cprec ctx)" by simp
  then show ?thesis using m False by (auto simp: dec_fix_def Let_def simp del: max_less_iff_conj)
qed (simp add: dec_fix_def)

lemma dec_div_total:
  assumes "dval b \<noteq> 0" "\<bar>dval a / dval b\<bar> \<le> 10 powi k" "0 < cprec ctx" "k + 3 \<le> Etop ctx + int (cprec ctx)" "Etiny ctx < Etop ctx"
  shows "\<exists>r. dec_div ctx a b = Inr r"
proof (cases "dcoef a = 0")
  case True
  then show ?thesis using assms(1) by (simp add: dec_div_def dec_fix_def dval_zero_iff Let_def)
next
  case False
  then obtain d where d: "dec_div ctx a b = dec_fix ctx d"
      "\<bar>dval d - dval a / dval b\<bar> \<le> \<bar>dval a / dval b\<bar> * 10 powi (- int (cprec ctx))"
    using dec_div_quotient[of a b ctx] assms(1,3) by (auto simp: dval_zero_iff)
  have "(10 :: rat) powi (- int (cprec ctx)) \<le> 10 powi 0" by (intro power_int_increasing) auto
  then have "\<bar>dval a / dval b\<bar> * 10 powi (- int (cprec ctx)) \<le> \<bar>dval a / dval b\<bar> * 1"
    by (intro mult_left_mono) auto
  then have "\<bar>dval d\<bar> \<le> 2 * \<bar>dval a / dval b\<bar>" using d(2) by linarith
  also have "\<dots> \<le> 10 * 10 powi k" using assms(2) powi_pos[of k] by linarith
  also have "\<dots> = 10 powi (k + 1)" by (simp add: power_int_add)
  finally show ?thesis unfolding d(1) using assms(4,5) by (intro dec_fix_total[of d "k + 1"]) auto
qed

lemma coef_bound: "of_nat c * (10 :: rat) powi e \<le> 10 powi k \<Longrightarrow> e \<le> k \<Longrightarrow> c \<le> 10 ^ nat (k - e)"
proof -
  assume a: "of_nat c * (10 :: rat) powi e \<le> 10 powi k" "e \<le> k"
  have "(10 :: rat) powi k = 10 ^ nat (k - e) * 10 powi e" by (rule powi_shift[OF a(2)])
  with a(1) have "(of_nat c :: rat) \<le> of_nat (10 ^ nat (k - e))" by simp
  then show ?thesis by (simp only: of_nat_le_iff)
qed

lemma ndigits_power: "c \<le> 10 ^ n \<Longrightarrow> ndigits c \<le> n + 1"
  by (subst ndigits_le_iff) (auto intro: le_less_trans)

lemma dec_quantize_total:
  assumes "\<bar>dval d\<bar> \<le> 10 powi k" "Etiny ctx \<le> dexp q" "dexp q \<le> k" "k - dexp q + 1 \<le> int (cprec ctx)"
    "dexp q \<le> Etop ctx" "k \<le> cEmax ctx" "0 < cprec ctx"
  shows "\<exists>r. dec_quantize ctx d q = Inr r"
proof (cases "dcoef d = 0")
  case True
  have "dexp q \<le> cEmax ctx" using assms(3,6) by simp
  then show ?thesis using True assms(2) by (simp add: dec_quantize_def dec_fix_def)
next
  case False
  define e where "e = dexp q"
  define t where "t = dec_rescale e d"
  have "(10 :: rat) powi (int (ndigits (dcoef d)) + dexp d - 1) \<le> 10 powi k"
    using dcoef_lower[OF False] assms(1) by (rule order_trans)
  then have adj: "dec_adjusted d \<le> k" using False by (simp add: powi_le_cancel dec_adjusted_def)
  have dk: "dexp d \<le> k"
    using adj ndigits_pos[of "dcoef d"] unfolding dec_adjusted_def by linarith
  have cd: "dcoef d \<le> 10 ^ nat (k - dexp d)"
    using assms(1) dk by (intro coef_bound) (simp_all add: dval_abs)
  have c: "dcoef t \<le> 10 ^ nat (k - e)" "dexp t = e"
  proof -
    show "dexp t = e" by (simp add: t_def dec_rescale_def)
    show "dcoef t \<le> 10 ^ nat (k - e)"
    proof (cases "e \<le> dexp d")
      case True
      have "dcoef d * 10 ^ nat (dexp d - e) \<le> 10 ^ nat (k - dexp d) * 10 ^ nat (dexp d - e)" using cd by simp
      also have "\<dots> = 10 ^ nat (k - e)" using True dk by (simp flip: power_add add: nat_add_distrib[symmetric])
      finally show ?thesis using True False by (simp add: t_def dec_rescale_def)
    next
      case less: False
      have "nat (k - dexp d) = nat (k - e) + nat (e - dexp d)" using less assms(3) by (simp add: e_def)
      then have "dcoef d \<le> 10 ^ nat (k - e) * 10 ^ nat (e - dexp d)" using cd by (simp add: power_add)
      then show ?thesis using less False by (simp add: t_def dec_rescale_def round_half_even_le)
    qed
  qed
  have nd: "int (ndigits (dcoef t)) \<le> k - e + 1"
    using ndigits_power[OF c(1)] assms(3) by (simp add: e_def)
  have fits: "dec_fits ctx t"
    using nd c assms by (auto simp: dec_fits_def e_def ndigits_le_iff[symmetric])
  have "dec_adjusted t \<le> cEmax ctx"
    using nd c(2) assms(3,6) by (auto simp: dec_adjusted_def e_def)
  moreover have "dexp q \<le> cEmax ctx" using assms(3,6) by simp
  ultimately have "dec_quantize ctx d q = Inr t"
    using False adj assms nd fits by (simp add: dec_quantize_def Let_def t_def[symmetric] e_def[symmetric] dec_fix_fits)
  then show ?thesis by blast
qed

section \<open>Halves\<close>

lemma strip_zeros_stop: "strip_zeros c e b = (c', e') \<Longrightarrow> 0 < c \<Longrightarrow> e \<le> b \<Longrightarrow> e' \<le> b \<and> (e' = b \<or> c' mod 10 \<noteq> 0)"
proof (induction c e b arbitrary: c' e' rule: strip_zeros.induct)
  case (1 c e b)
  show ?case
  proof (cases "e < b \<and> 0 < c \<and> c mod 10 = 0")
    case False
    then show ?thesis using "1.prems" by (auto simp: strip_zeros.simps[of c e b])
  next
    case True
    then have eq: "strip_zeros (c div 10) (e + 1) b = (c', e')"
      using "1.prems" by (simp add: strip_zeros.simps[of c e b])
    have "0 < c div 10" using True by (metis div_greater_zero_iff mod_less not_less less_not_refl zero_less_numeral)
    then show ?thesis using "1.IH"[OF True eq] True by auto
  qed
qed

text \<open>The library's representation of half an integer.\<close>

definition half :: "nat \<Rightarrow> dec" where
  "half k = (if even k then Dec False (k div 2) 0 else Dec False (5 * k) (- 1))"

lemma dval_half: "dval (half k) = of_nat k / 2"
  by (auto simp: half_def dval_Dec power_int_minus elim!: evenE oddE)

lemma dec_div_half:
  assumes "5 * k < 10 ^ cprec ctx" "0 < cprec ctx" "Etiny ctx \<le> - 1" "0 \<le> Etop ctx"
  shows "dec_div ctx (dec_of_int (int k)) (dec_of_int 2) = Inr (half k)"
proof (cases "k = 0")
  case True
  then show ?thesis
    using assms by (auto simp: dec_div_def dec_of_int_def dec_fix_def half_def Etop_def)
next
  case False
  define shift where "shift = 1 - int (ndigits k) + int (cprec ctx) + 1"
  have "k < 10 ^ cprec ctx" using assms(1) by simp
  then have nd: "ndigits k \<le> cprec ctx" using assms(2) by (simp add: ndigits_le_iff)
  then have s2: "2 \<le> shift" by (simp add: shift_def)
  define q where "q = k * 10 ^ nat shift div 2"
  have ten: "(10 :: nat) ^ nat shift = 2 * (5 * 10 ^ (nat shift - 1))"
    using s2 by (cases "nat shift") auto
  have q: "k * 10 ^ nat shift = 2 * q" "q = 5 * k * 10 ^ (nat shift - 1)"
    by (simp_all add: q_def ten)
  have two: "ndigits 2 = 1" by (simp add: ndigits.simps)
  obtain c e where st: "strip_zeros q (- shift) 0 = (c, e)" by fastforce
  have "0 < q" using False by (simp add: q(2))
  then have ce: "- shift \<le> e" "0 < c" "q = c * 10 ^ nat (e + shift)" "e \<le> 0" "e = 0 \<or> c mod 10 \<noteq> 0"
    using strip_zeros_spec[OF st] strip_zeros_stop[OF st] s2 by auto
  have r: "Dec False c e = half k"
  proof (cases "even k")
    case True
    have "e = 0"
    proof (rule ccontr)
      assume "e \<noteq> 0"
      then have e: "e \<le> - 1" "c mod 10 \<noteq> 0" using ce by auto
      have "nat shift = nat (e + shift) + nat (- e)" using ce s2 by simp
      then have "2 * c * 10 ^ nat (e + shift) = k * 10 ^ nat (- e) * 10 ^ nat (e + shift)"
        using ce(3) q(1) by (simp add: power_add mult_ac)
      then have "2 * c = k * 10 ^ nat (- e)" by simp
      moreover obtain m where "nat (- e) = Suc m" using e(1) by (cases "nat (- e)") auto
      ultimately have "c = 10 * ((k div 2) * 10 ^ m)" using True by (auto elim!: evenE)
      then show False using e(2) by simp
    qed
    then have "2 * c * 10 ^ nat shift = k * 10 ^ nat shift" using ce(3) q(1) by simp
    then have "2 * c = k" by simp
    then show ?thesis using True \<open>e = 0\<close> by (auto simp: half_def)
  next
    case odd: False
    have "e = - 1"
    proof (rule ccontr)
      assume ne: "e \<noteq> - 1"
      show False
      proof (cases "e = 0")
        case True
        then have "2 * c * 10 ^ nat shift = k * 10 ^ nat shift" using ce(3) q(1) by simp
        then have "2 * c = k" by simp
        then show False using odd by (metis dvd_triv_left)
      next
        case False
        then have e: "e \<le> - 2" "c mod 10 \<noteq> 0" using ce ne by auto
        have "nat shift - 1 = nat (e + shift) + nat (- e - 1)" using ce s2 e by simp
        then have "c * 10 ^ nat (e + shift) = 5 * k * 10 ^ nat (- e - 1) * 10 ^ nat (e + shift)"
          using ce(3) q(2) by (simp add: power_add mult_ac)
        then have "c = 5 * k * 10 ^ nat (- e - 1)" by simp
        moreover obtain m where "nat (- e - 1) = Suc m" using e(1) by (cases "nat (- e - 1)") auto
        ultimately have "c = 10 * (5 * k * 10 ^ m)" by simp
        then show False using e(2) by simp
      qed
    qed
    then have "c * 10 ^ (nat shift - 1) = 5 * k * 10 ^ (nat shift - 1)" using ce(3) q(2) s2 by (simp add: nat_diff_distrib)
    then show ?thesis using odd \<open>e = - 1\<close> by (simp add: half_def)
  qed
  have "dec_div ctx (dec_of_int (int k)) (dec_of_int 2) =
      (if (2 * q) mod 2 \<noteq> 0 then dec_fix ctx (Dec False (if q mod 5 = 0 then q + 1 else q) (- shift))
       else case strip_zeros q (- shift) (dexp (dec_of_int (int k)) - dexp (dec_of_int 2)) of (c, e') \<Rightarrow> dec_fix ctx (Dec False c e'))"
    using False s2 by (intro dec_div_unfold[where shift = shift]) (simp_all add: dec_of_int_def q(1) two, simp_all add: shift_def)
  then have "dec_div ctx (dec_of_int (int k)) (dec_of_int 2) = dec_fix ctx (Dec False c e)"
    using st by (simp add: dec_of_int_def)
  moreover have "dec_fits ctx (half k)"
    using assms by (auto simp: dec_fits_def half_def)
  ultimately show ?thesis by (simp add: r dec_fix_fits)
qed

section \<open>Exact quotients and roots\<close>

lemma strip_zeros_power: "strip_zeros (10 ^ k) (- int k) 0 = (1, 0)"
proof (induction k)
  case (Suc k)
  have "strip_zeros (10 ^ Suc k) (- int (Suc k)) 0 = strip_zeros (10 ^ k) (- int k) 0"
    by (subst strip_zeros.simps) simp
  then show ?case using Suc.IH by simp
qed (simp add: strip_zeros.simps)

lemma dec_div_self:
  assumes "dcoef d \<noteq> 0" "0 < cprec ctx" "Etiny ctx \<le> 0" "0 \<le> Etop ctx"
  shows "dec_div ctx d d = Inr (Dec False 1 0)"
proof -
  define k where "k = cprec ctx + 1"
  have "dec_div ctx d d = (if (dcoef d * 10 ^ k) mod dcoef d \<noteq> 0 then dec_fix ctx (Dec False (if (10 ^ k :: nat) mod 5 = 0 then 10 ^ k + 1 else 10 ^ k) (- int k))
     else case strip_zeros (10 ^ k) (- int k) (dexp d - dexp d) of (c, e') \<Rightarrow> dec_fix ctx (Dec False c e'))"
    using assms(1) by (intro dec_div_unfold[where shift = "int k"]) (simp_all, simp add: k_def)
  then have "dec_div ctx d d = dec_fix ctx (Dec False 1 0)" by (simp add: strip_zeros_power)
  then show ?thesis using assms by (subst (asm) dec_fix_fits) (auto simp: dec_fits_def one_less_power simp flip: One_nat_def)
qed

text \<open>Newton's iteration from above finds the root of a square.\<close>

lemma isqrt_loop_square: "0 < m \<Longrightarrow> m \<le> n \<Longrightarrow> isqrt_loop (m * m) n = m"
proof (induction "m * m" n rule: isqrt_loop.induct)
  case (1 n)
  define q where "q = m * m div n"
  have n: "0 < n" using 1 by simp
  show ?case
  proof (cases "n \<le> q")
    case True
    have "n * n \<le> q * n" using True by (rule mult_le_mono1)
    also have "\<dots> \<le> m * m" unfolding q_def by simp
    finally have "n * n \<le> m * m" .
    then have "n \<le> m" using power2_le_imp_le[of n m] by (simp add: power2_eq_square)
    then show ?thesis using True 1 by (simp add: isqrt_loop.simps[of "m * m"] q_def[symmetric])
  next
    case False
    have "2 * m - n \<le> q"
    proof (cases "n \<le> 2 * m")
      case True
      obtain d where d: "n = m + d" using 1 by (metis le_add_diff_inverse)
      have "(2 * m - n) * n \<le> m * m" using True unfolding d by (simp add: algebra_simps diff_mult_distrib)
      then show ?thesis using n by (simp add: q_def less_eq_div_iff_mult_less_eq)
    qed simp
    then have "m \<le> (n + q) div 2" by simp
    then have "isqrt_loop (m * m) ((n + q) div 2) = m" using 1 False by (simp add: q_def)
    then show ?thesis using False by (simp add: isqrt_loop.simps[of "m * m" n] q_def[symmetric] Let_def)
  qed
qed

text \<open>The root of a square at an even exponent; \<open>l\<close> is half the digits of the square, rounded up.\<close>

lemma dec_sqrt_square:
  assumes "0 < m" "m * m < 10 ^ cprec ctx" "dec_fits ctx (Dec False m e)"
  shows "dec_sqrt ctx (Dec False (m * m) (2 * e)) = Inr (Dec False m e)"
proof -
  define l where "l = (ndigits (m * m) + 1) div 2"
  define k where "k = cprec ctx + 1 - l"
  have nd: "ndigits (m * m) \<le> cprec ctx" using assms(2,3) by (simp add: ndigits_le_iff dec_fits_def)
  then have l: "l \<le> cprec ctx + 1" by (simp add: l_def)
  have shift: "int (cprec ctx) + 1 - int l = int k" using l by (simp add: k_def)
  have "m * m < 10 ^ ndigits (m * m)" by (rule ndigits_upper)
  also have "\<dots> \<le> 10 ^ (2 * l)" by (rule power_increasing) (simp_all add: l_def)
  finally have "m\<^sup>2 < (10 ^ l)\<^sup>2" by (simp add: power2_eq_square power_mult_distrib mult_2 power_add)
  then have "m < 10 ^ l" by (rule power2_less_imp_less) simp
  then have "m * 10 ^ k \<le> 10 ^ l * 10 ^ k" by simp
  also have "\<dots> = 10 ^ (cprec ctx + 1)" using l by (simp add: k_def flip: power_add)
  finally have le: "m * 10 ^ k \<le> 10 ^ (cprec ctx + 1)" .
  have sq: "m * m * 100 ^ k = (m * 10 ^ k) * (m * 10 ^ k)"
    by (simp add: mult_ac flip: power_mult_distrib)
  have i: "isqrt_loop (m * 10 ^ k * (m * 10 ^ k)) (10 ^ nat (int (cprec ctx) + 1)) = m * 10 ^ k"
    using assms(1) le by (intro isqrt_loop_square) (simp_all add: nat_add_distrib)
  have z: "m * m \<noteq> 0" "((2 * e) mod 2 = 1) = False" "2 * e div 2 = e" "(0 \<le> int k) = True" "m * 10 ^ k div 10 ^ k = m"
    using assms(1) by simp_all
  have "dec_sqrt ctx (Dec False (m * m) (2 * e)) = dec_fix ctx (Dec False m e)"
    unfolding dec_sqrt_def Let_def dec.sel z l_def[symmetric] if_False if_True shift nat_int sq i
    using z(1) by (simp only: z if_False simp_thms if_True)
  then show ?thesis using assms(3) by (simp add: dec_fix_fits)
qed

end
