(* ===== verification/Features.thy ===== *)
theory Features
  imports Canonical Decimal_Error
begin

text \<open>
  The feature and label engines (src/quantara/features.py). Every division, square root and sum
  runs in the explicit 50-digit context; a position without enough history carries \<open>None\<close>.
  Parent rows are the positional tuples the canonical reader returns, so prices and volumes
  are decimals; another cell kind in these places is a type error here (the code would convert an
  integer or a text). Window lengths are natural numbers, as the approved parameters are.
\<close>

section \<open>Engines\<close>

record parameters =
  roc_window :: nat
  vol_window :: nat
  volume_window :: nat
  label_horizon :: nat

definition APPROVED_PARAMETERS :: parameters where
  "APPROVED_PARAMETERS = \<lparr>roc_window = 60, vol_window = 20, volume_window = 20, label_horizon = 24\<rparr>"

definition COMPUTE_CONTEXT :: dctx where
  "COMPUTE_CONTEXT = \<lparr>cprec = 50, cEmin = - 999999, cEmax = 999999\<rparr>"

definition Q18_UNIT :: dec where "Q18_UNIT = Dec False 1 (- 18)"

definition CLOSE_INDEX :: nat where "CLOSE_INDEX = 16"
definition VOLUME_INDEX :: nat where "VOLUME_INDEX = 17"

definition quantize_q18 :: "dec \<Rightarrow> dec res" where
  "quantize_q18 d = dec_quantize COMPUTE_CONTEXT d Q18_UNIT"

definition py_index :: "'a list \<Rightarrow> nat \<Rightarrow> 'a res" where
  "py_index xs i = (if i < length xs then Inr (xs ! i) else Inl PyIndexError)"

definition as_decimal :: "cell \<Rightarrow> dec res" where
  "as_decimal c = (case c of CFloat _ \<Rightarrow> Inl PyValueError | CDec d \<Rightarrow> Inr d | _ \<Rightarrow> Inl PyTypeError)"

definition extract_series :: "cell list list \<Rightarrow> (dec list \<times> dec list) res" where
  "extract_series rows =
     bindE (mapE (\<lambda>r. bindE (py_index r CLOSE_INDEX) as_decimal) rows) (\<lambda>closes.
     bindE (mapE (\<lambda>r. bindE (py_index r VOLUME_INDEX) as_decimal) rows) (\<lambda>volumes.
     Inr (closes, volumes)))"

text \<open>\<open>c_t / c_(t-k) - 1\<close>, for the one-bar return and the rate of change alike.\<close>

definition change_over :: "nat \<Rightarrow> dec list \<Rightarrow> nat \<Rightarrow> dec res" where
  "change_over k closes t =
     bindE (dec_div COMPUTE_CONTEXT (closes ! t) (closes ! (t - k))) (\<lambda>q.
     dec_sub COMPUTE_CONTEXT q (dec_of_int 1))"

definition one_bar_return :: "dec list \<Rightarrow> nat \<Rightarrow> dec res" where
  "one_bar_return closes i = change_over 1 closes i"

definition py_slice :: "nat \<Rightarrow> nat \<Rightarrow> 'a list \<Rightarrow> 'a list" where
  "py_slice a b xs = drop a (take b xs)"

definition sum_loop :: "dec list \<Rightarrow> dec res" where
  "sum_loop xs = foldE (dec_add COMPUTE_CONTEXT) (Dec False 0 0) xs"

definition known :: "dec option \<Rightarrow> dec res" where
  "known v = (case v of None \<Rightarrow> Inl PyTypeError | Some d \<Rightarrow> Inr d)"

definition rolling_volatility :: "nat \<Rightarrow> dec option list \<Rightarrow> nat \<Rightarrow> dec res" where
  "rolling_volatility w rets t =
     bindE (mapE known (py_slice (t - w + 1) (t + 1) rets)) (\<lambda>window.
     bindE (sum_loop window) (\<lambda>total.
     bindE (dec_div COMPUTE_CONTEXT total (dec_of_int (int w))) (\<lambda>mean.
     bindE (foldE (\<lambda>acc v. bindE (dec_sub COMPUTE_CONTEXT v mean) (\<lambda>deviation.
                    bindE (dec_mul COMPUTE_CONTEXT deviation deviation) (dec_add COMPUTE_CONTEXT acc)))
                  (Dec False 0 0) window) (\<lambda>squares.
     bindE (dec_div COMPUTE_CONTEXT squares (dec_of_int (int w - 1))) (dec_sqrt COMPUTE_CONTEXT)))))"

definition volume_ratio :: "nat \<Rightarrow> dec list \<Rightarrow> nat \<Rightarrow> dec res" where
  "volume_ratio w volumes t =
     bindE (sum_loop (py_slice (t - w + 1) (t + 1) volumes)) (\<lambda>total.
     bindE (dec_div COMPUTE_CONTEXT total (dec_of_int (int w))) (\<lambda>mean.
     bindE (py_index volumes t) (\<lambda>v. dec_div COMPUTE_CONTEXT v mean)))"

text \<open>A column of \<open>n\<close> positions whose first \<open>k\<close> are \<open>None\<close>.\<close>

definition warm_column :: "nat \<Rightarrow> nat \<Rightarrow> (nat \<Rightarrow> 'a res) \<Rightarrow> 'a option list res" where
  "warm_column k n f =
     bindE (mapE f [k..<n]) (\<lambda>vs. Inr (replicate (min k n) None @ map Some vs))"

record features =
  f_ret_1 :: "dec option list"
  f_roc_60 :: "dec option list"
  f_rvol_20 :: "dec option list"
  f_volratio_20 :: "dec option list"

definition compute_features :: "dec list \<Rightarrow> dec list \<Rightarrow> features res" where
  "compute_features closes volumes =
     (let n = length closes; p = APPROVED_PARAMETERS in
      bindE (warm_column 1 n (one_bar_return closes)) (\<lambda>ret.
      bindE (warm_column (roc_window p) n (change_over (roc_window p) closes)) (\<lambda>roc.
      bindE (warm_column (vol_window p) n (rolling_volatility (vol_window p) ret)) (\<lambda>rvol.
      bindE (warm_column (volume_window p - 1) n (volume_ratio (volume_window p) volumes)) (\<lambda>volratio.
      Inr \<lparr>f_ret_1 = ret, f_roc_60 = roc, f_rvol_20 = rvol, f_volratio_20 = volratio\<rparr>)))))"

record labels =
  l_fwdret_24 :: "dec option list"
  l_fwddir_24 :: "int option list"

definition direction :: "dec \<Rightarrow> dec \<Rightarrow> int" where
  "direction future base = (if dec_lt base future then 1 else if dec_lt future base then - 1 else 0)"

definition compute_labels :: "dec list \<Rightarrow> nat \<Rightarrow> labels res" where
  "compute_labels closes horizon =
     (let n = length closes in
      bindE (mapE (\<lambda>t. bindE (change_over horizon closes (t + horizon)) (\<lambda>r.
                    Inr (r, direction (closes ! (t + horizon)) (closes ! t)))) [0..<n - horizon]) (\<lambda>vs.
      Inr \<lparr>l_fwdret_24 = map (Some \<circ> fst) vs @ replicate (min horizon n) None,
           l_fwddir_24 = map (Some \<circ> snd) vs @ replicate (min horizon n) None\<rparr>))"

record research_row =
  r_open_ms :: int
  r_ret :: "dec option"
  r_roc :: "dec option"
  r_rvol :: "dec option"
  r_volratio :: "dec option"
  r_fwdret :: "dec option"
  r_fwddir :: "int option"

definition storage :: "dec option \<Rightarrow> dec option res" where
  "storage v = (case v of None \<Rightarrow> Inr None | Some d \<Rightarrow> bindE (quantize_q18 d) (\<lambda>q. Inr (Some q)))"

definition open_time_of :: "cell \<Rightarrow> int res" where
  "open_time_of c = (case c of CInt i \<Rightarrow> Inr i | _ \<Rightarrow> Inl PyValueError)"

definition research_row_at :: "cell list list \<Rightarrow> features \<Rightarrow> labels \<Rightarrow> nat \<Rightarrow> research_row res" where
  "research_row_at parents fs ls t =
     bindE (py_index (parents ! t) 10) (\<lambda>c.
     bindE (open_time_of c) (\<lambda>open_ms.
     bindE (storage (f_ret_1 fs ! t)) (\<lambda>ret.
     bindE (storage (f_roc_60 fs ! t)) (\<lambda>roc.
     bindE (storage (f_rvol_20 fs ! t)) (\<lambda>rvol.
     bindE (storage (f_volratio_20 fs ! t)) (\<lambda>volratio.
     bindE (storage (l_fwdret_24 ls ! t)) (\<lambda>fwdret.
     Inr \<lparr>r_open_ms = open_ms, r_ret = ret, r_roc = roc, r_rvol = rvol, r_volratio = volratio,
          r_fwdret = fwdret, r_fwddir = l_fwddir_24 ls ! t\<rparr>)))))))"

definition build_research_rows :: "cell list list \<Rightarrow> parameters option \<Rightarrow> research_row list res" where
  "build_research_rows parents ps =
     (let p = (case ps of None \<Rightarrow> APPROVED_PARAMETERS | Some q \<Rightarrow> q) in
      bindE (extract_series parents) (\<lambda>(closes, volumes).
      bindE (compute_features closes volumes) (\<lambda>fs.
      bindE (compute_labels closes (label_horizon p)) (\<lambda>ls.
      mapE (research_row_at parents fs ls) [0..<length parents]))))"

section \<open>Columns\<close>

lemma warm_column_Inr:
  "warm_column k n f = Inr col \<longleftrightarrow> length col = n
     \<and> (\<forall>t < n. t < k \<longrightarrow> col ! t = None) \<and> (\<forall>t < n. k \<le> t \<longrightarrow> (\<exists>v. f t = Inr v \<and> col ! t = Some v))"
    (is "_ \<longleftrightarrow> ?spec")
proof
  assume "warm_column k n f = Inr col"
  then obtain vs where vs: "mapE f [k..<n] = Inr vs" and col: "col = replicate (min k n) None @ map Some vs"
    by (auto simp: warm_column_def res_simps)
  have len: "length vs = n - k" using mapE_length[OF vs] by simp
  have "\<exists>v. f t = Inr v \<and> col ! t = Some v" if "t < n" "k \<le> t" for t
    using that mapE_nth[OF vs, of "t - k"] len by (auto simp: col nth_append min_def)
  moreover have "length col = n" "\<forall>t < n. t < k \<longrightarrow> col ! t = None"
    by (simp_all add: col len nth_append)
  ultimately show ?spec by blast
next
  assume a: ?spec
  define vs where "vs = map the (drop k col)"
  have "mapE f [k..<n] = Inr vs"
    unfolding mapE_Inr_iff list_all2_conv_all_nth
  proof (intro conjI allI impI)
    fix i assume "i < length [k..<n]"
    then have i: "k + i < n" by simp
    with a obtain v where "f (k + i) = Inr v" "col ! (k + i) = Some v" by (meson le_add1)
    then show "f ([k..<n] ! i) = Inr (vs ! i)" using i a by (simp add: vs_def)
  qed (use a in \<open>simp add: vs_def\<close>)
  moreover have "replicate (min k n) None @ map Some vs = col"
  proof (rule nth_equalityI)
    fix i assume "i < length (replicate (min k n) None @ map Some vs)"
    then have i: "i < n" using a by (auto simp: vs_def)
    show "(replicate (min k n) None @ map Some vs) ! i = col ! i"
    proof (cases "i < k")
      case True
      then show ?thesis using a i by (simp add: nth_append)
    next
      case False
      then obtain v where "col ! i = Some v" using a i by (meson not_less)
      then show ?thesis using a i False by (simp add: nth_append vs_def)
    qed
  qed (use a in \<open>auto simp: vs_def\<close>)
  ultimately show "warm_column k n f = Inr col" by (simp add: warm_column_def)
qed

lemma warm_column_take:
  assumes "warm_column k n f = Inr col" "m \<le> n" "\<And>t. t < m \<Longrightarrow> g t = f t"
  shows "warm_column k m g = Inr (take m col)"
  using assms by (auto simp: warm_column_Inr)

section \<open>Causality\<close>

lemma py_slice_take: "b \<le> m \<Longrightarrow> py_slice a b (take m xs) = py_slice a b xs"
  by (simp add: py_slice_def min_def)

lemma change_over_take: "t < m \<Longrightarrow> change_over k (take m closes) t = change_over k closes t"
  by (simp add: change_over_def)

definition take_features :: "nat \<Rightarrow> features \<Rightarrow> features" where
  "take_features m fs = \<lparr>f_ret_1 = take m (f_ret_1 fs), f_roc_60 = take m (f_roc_60 fs),
     f_rvol_20 = take m (f_rvol_20 fs), f_volratio_20 = take m (f_volratio_20 fs)\<rparr>"

lemma compute_features_Inr:
  "compute_features closes volumes = Inr fs \<longleftrightarrow>
     warm_column 1 (length closes) (change_over 1 closes) = Inr (f_ret_1 fs)
     \<and> warm_column 60 (length closes) (change_over 60 closes) = Inr (f_roc_60 fs)
     \<and> warm_column 20 (length closes) (rolling_volatility 20 (f_ret_1 fs)) = Inr (f_rvol_20 fs)
     \<and> warm_column 19 (length closes) (volume_ratio 20 volumes) = Inr (f_volratio_20 fs)"
  by (cases fs) (auto simp: compute_features_def Let_def APPROVED_PARAMETERS_def res_simps one_bar_return_def[abs_def])

lemma features_take:
  assumes "compute_features closes volumes = Inr fs" "m \<le> length closes"
  shows "compute_features (take m closes) (take m volumes) = Inr (take_features m fs)"
proof -
  have vol: "rolling_volatility 20 (take m rets) t = rolling_volatility 20 rets t" if "t < m" for t rets
    using that by (simp add: rolling_volatility_def py_slice_take)
  have rat: "volume_ratio 20 (take m volumes) t = volume_ratio 20 volumes t" if "t < m" for t
    using that by (simp add: volume_ratio_def py_slice_take py_index_def)
  show ?thesis
    using assms unfolding compute_features_Inr
    by (auto simp: take_features_def change_over_take vol rat intro!: warm_column_take[of _ "length closes"])
qed

text \<open>Labels look forward: row \<open>t\<close> needs the close \<open>horizon\<close> bars later and no other.\<close>

lemma compute_labels_Inr:
  assumes "compute_labels closes h = Inr ls"
  shows "length (l_fwdret_24 ls) = length closes" "length (l_fwddir_24 ls) = length closes"
    and "\<And>t. t < length closes \<Longrightarrow> \<not> t + h < length closes \<Longrightarrow> l_fwdret_24 ls ! t = None \<and> l_fwddir_24 ls ! t = None"
    and "\<And>t. t + h < length closes \<Longrightarrow> \<exists>r. change_over h closes (t + h) = Inr r \<and> l_fwdret_24 ls ! t = Some r
          \<and> l_fwddir_24 ls ! t = Some (direction (closes ! (t + h)) (closes ! t))"
proof -
  let ?n = "length closes"
  obtain vs where vs: "mapE (\<lambda>t. bindE (change_over h closes (t + h)) (\<lambda>r.
                    Inr (r, direction (closes ! (t + h)) (closes ! t)))) [0..<?n - h] = Inr vs"
    and ls: "l_fwdret_24 ls = map (Some \<circ> fst) vs @ replicate (min h ?n) None"
      "l_fwddir_24 ls = map (Some \<circ> snd) vs @ replicate (min h ?n) None"
    using assms by (auto simp: compute_labels_def Let_def res_simps)
  have len: "length vs = ?n - h" using mapE_length[OF vs] by simp
  show "length (l_fwdret_24 ls) = ?n" "length (l_fwddir_24 ls) = ?n" by (simp_all add: ls len)
  show "l_fwdret_24 ls ! t = None \<and> l_fwddir_24 ls ! t = None" if "t < ?n" "\<not> t + h < ?n" for t
  proof -
    have "t - (?n - h) < min h ?n" using that by auto
    then show ?thesis using that by (simp add: ls len nth_append)
  qed
  show "\<exists>r. change_over h closes (t + h) = Inr r \<and> l_fwdret_24 ls ! t = Some r
          \<and> l_fwddir_24 ls ! t = Some (direction (closes ! (t + h)) (closes ! t))" if "t + h < ?n" for t
  proof -
    have "t < ?n - h" using that by simp
    then obtain r where "change_over h closes (t + h) = Inr r" "vs ! t = (r, direction (closes ! (t + h)) (closes ! t))"
      using mapE_nth[OF vs, of t] by (auto simp: res_simps)
    then show ?thesis using \<open>t < ?n - h\<close> by (simp add: ls len nth_append)
  qed
qed

lemma labels_take:
  assumes "compute_labels closes h = Inr ls" "m \<le> length closes"
  shows "\<exists>ls'. compute_labels (take m closes) h = Inr ls' \<and>
    (\<forall>t < m. if t + h < m then l_fwdret_24 ls' ! t = l_fwdret_24 ls ! t \<and> l_fwddir_24 ls' ! t = l_fwddir_24 ls ! t
            else l_fwdret_24 ls' ! t = None \<and> l_fwddir_24 ls' ! t = None)"
proof -
  have len: "length (take m closes) = m" using assms(2) by simp
  let ?g = "\<lambda>t. (projr (change_over h (take m closes) (t + h)), direction (take m closes ! (t + h)) (take m closes ! t))"
  have "\<exists>r. change_over h (take m closes) (t + h) = Inr r" if "t + h < m" for t
    using compute_labels_Inr(4)[OF assms(1), of t] that assms(2) by (auto simp: change_over_take)
  then have "mapE (\<lambda>t. bindE (change_over h (take m closes) (t + h)) (\<lambda>r.
      Inr (r, direction (take m closes ! (t + h)) (take m closes ! t)))) [0..<m - h] = Inr (map ?g [0..<m - h])"
    by (intro mapE_all_Inr) (force simp: less_diff_conv)
  then obtain ls' where ls': "compute_labels (take m closes) h = Inr ls'"
    by (simp add: compute_labels_def Let_def len del: length_take)
  show ?thesis
  proof (intro exI[of _ ls'] conjI ls' allI impI)
    fix t assume t: "t < m"
    show "if t + h < m then l_fwdret_24 ls' ! t = l_fwdret_24 ls ! t \<and> l_fwddir_24 ls' ! t = l_fwddir_24 ls ! t
            else l_fwdret_24 ls' ! t = None \<and> l_fwddir_24 ls' ! t = None"
    proof (cases "t + h < m")
      case True
      then show ?thesis
        using compute_labels_Inr(4)[OF assms(1), of t] compute_labels_Inr(4)[OF ls', of t] assms(2)
        by (auto simp: change_over_take)
    next
      case False
      then show ?thesis using compute_labels_Inr(3)[OF ls', of t] t assms(2) by simp
    qed
  qed
qed

section \<open>Built rows\<close>

lemma extract_series_Inr:
  assumes "extract_series parents = Inr (closes, volumes)"
  shows "length closes = length parents" "length volumes = length parents"
    and "extract_series (take m parents) = Inr (take m closes, take m volumes)"
  using assms by (auto simp: extract_series_def res_simps dest: mapE_length intro: mapE_take)

lemma build_rows_Inr:
  assumes "build_research_rows parents ps = Inr rows"
  obtains closes volumes fs ls where
    "extract_series parents = Inr (closes, volumes)" "compute_features closes volumes = Inr fs"
    "compute_labels closes (label_horizon (case ps of None \<Rightarrow> APPROVED_PARAMETERS | Some q \<Rightarrow> q)) = Inr ls"
    "length rows = length parents" "\<And>t. t < length parents \<Longrightarrow> research_row_at parents fs ls t = Inr (rows ! t)"
proof -
  obtain closes volumes fs ls where a: "extract_series parents = Inr (closes, volumes)"
    "compute_features closes volumes = Inr fs"
    "compute_labels closes (label_horizon (case ps of None \<Rightarrow> APPROVED_PARAMETERS | Some q \<Rightarrow> q)) = Inr ls"
    and r: "mapE (research_row_at parents fs ls) [0..<length parents] = Inr rows"
    using assms by (auto simp: build_research_rows_def Let_def res_simps)
  have "research_row_at parents fs ls t = Inr (rows ! t)" if "t < length parents" for t
    using mapE_nth[OF r, of t] that by simp
  then show thesis using a mapE_length[OF r] by (intro that) simp_all
qed

definition feature_part :: "research_row \<Rightarrow> int \<times> dec option \<times> dec option \<times> dec option \<times> dec option" where
  "feature_part r = (r_open_ms r, r_ret r, r_roc r, r_rvol r, r_volratio r)"

definition label_part :: "research_row \<Rightarrow> dec option \<times> int option" where
  "label_part r = (r_fwdret r, r_fwddir r)"

lemma storage_None [simp]: "storage None = Inr None"
  by (simp add: storage_def)

lemma row_at_prefix:
  assumes row: "research_row_at parents fs ls t = Inr r" and t: "t < m" "m \<le> length parents"
    and ls': "l_fwdret_24 ls' ! t = (if near then l_fwdret_24 ls ! t else None)"
      "l_fwddir_24 ls' ! t = (if near then l_fwddir_24 ls ! t else None)"
  shows "\<exists>r'. research_row_at (take m parents) (take_features m fs) ls' t = Inr r' \<and> feature_part r' = feature_part r
    \<and> label_part r' = (if near then label_part r else (None, None))"
  using row t by (cases near) (auto simp: research_row_at_def res_simps take_features_def ls' feature_part_def label_part_def)

lemma rows_prefix:
  assumes "build_research_rows parents ps = Inr rows" "m \<le> length parents"
    and "h = label_horizon (case ps of None \<Rightarrow> APPROVED_PARAMETERS | Some q \<Rightarrow> q)"
  shows "\<exists>rows'. build_research_rows (take m parents) ps = Inr rows' \<and> length rows' = m \<and>
    (\<forall>t < m. feature_part (rows' ! t) = feature_part (rows ! t)
       \<and> label_part (rows' ! t) = (if t + h < m then label_part (rows ! t) else (None, None)))"
proof -
  obtain closes volumes fs ls where a: "extract_series parents = Inr (closes, volumes)"
    "compute_features closes volumes = Inr fs" "compute_labels closes h = Inr ls"
    and rows: "\<And>t. t < length parents \<Longrightarrow> research_row_at parents fs ls t = Inr (rows ! t)"
    by (rule build_rows_Inr[OF assms(1)]) (simp add: assms(3))
  have len: "m \<le> length closes" using extract_series_Inr(1)[OF a(1)] assms(2) by simp
  obtain ls' where ls': "compute_labels (take m closes) h = Inr ls'"
    and lv: "\<forall>t < m. if t + h < m then l_fwdret_24 ls' ! t = l_fwdret_24 ls ! t \<and> l_fwddir_24 ls' ! t = l_fwddir_24 ls ! t
            else l_fwdret_24 ls' ! t = None \<and> l_fwddir_24 ls' ! t = None"
    using labels_take[OF a(3) len] by blast
  have lenp: "length (take m parents) = m" using assms(2) by simp
  let ?row = "\<lambda>t. research_row_at (take m parents) (take_features m fs) ls' t"
  have row: "\<exists>r'. ?row t = Inr r' \<and> feature_part r' = feature_part (rows ! t)
      \<and> label_part r' = (if t + h < m then label_part (rows ! t) else (None, None))" if "t < m" for t
    using that lv assms(2) by (intro row_at_prefix) (auto intro: rows split: if_splits)
  have "mapE ?row [0..<m] = Inr (map (\<lambda>t. projr (?row t)) [0..<m])"
    using row by (intro mapE_all_Inr) force
  then have "build_research_rows (take m parents) ps = Inr (map (\<lambda>t. projr (?row t)) [0..<m])"
    using assms(3) ls' features_take[OF a(2) len] extract_series_Inr(3)[OF a(1), of m]
    by (simp add: build_research_rows_def Let_def lenp del: length_take)
  moreover have "feature_part (map (\<lambda>t. projr (?row t)) [0..<m] ! t) = feature_part (rows ! t)
      \<and> label_part (map (\<lambda>t. projr (?row t)) [0..<m] ! t) = (if t + h < m then label_part (rows ! t) else (None, None))"
    if "t < m" for t
    using row[OF that] that by force
  ultimately show ?thesis by auto
qed

section \<open>Properties\<close>

text \<open>C16: the research table is causal. The rows computed from the first \<open>m\<close> parent rows exist
  whenever the whole table does; their features are the features of the whole table, and their
  labels are the labels of the whole table where the horizon lies within the prefix and empty
  otherwise. So no feature reads a later parent row, and no label reads beyond its horizon.\<close>

theorem research_rows_causal:
  assumes "build_research_rows parents ps = Inr rows" "m \<le> length parents"
    and "h = label_horizon (case ps of None \<Rightarrow> APPROVED_PARAMETERS | Some q \<Rightarrow> q)"
  shows "\<exists>rows'. build_research_rows (take m parents) ps = Inr rows' \<and> length rows' = m \<and>
    (\<forall>t < m. feature_part (rows' ! t) = feature_part (rows ! t)
       \<and> label_part (rows' ! t) = (if t + h < m then label_part (rows ! t) else (None, None)))"
  using assms by (rule rows_prefix)

text \<open>Constant closes divide to one and return zero.\<close>

lemma change_over_const:
  assumes "closes ! t = Dec s c e" "closes ! (t - k) = Dec s c e" "0 < c"
  shows "change_over k closes t = Inr (Dec False 0 0)"
proof -
  have "dec_sub COMPUTE_CONTEXT (Dec False 1 0) (dec_of_int 1) = Inr (Dec False 0 0)" by code_simp
  moreover have "dec_div COMPUTE_CONTEXT (Dec s c e) (Dec s c e) = Inr (Dec False 1 0)"
    using assms(3) by (intro dec_div_self) (simp_all add: COMPUTE_CONTEXT_def Etiny_def Etop_def)
  ultimately show ?thesis using assms by (simp add: change_over_def)
qed

definition sample_parents :: "cell list list" where
  "sample_parents = map (\<lambda>t. row_cells (sample_bar\<lparr>c_open_ms := t\<rparr>)) [0, 60000, 120000]"

definition sample_horizon :: parameters where
  "sample_horizon = APPROVED_PARAMETERS\<lparr>label_horizon := 1\<rparr>"

definition sample_research_row :: "int \<Rightarrow> bool \<Rightarrow> bool \<Rightarrow> research_row" where
  "sample_research_row t start stop =
     (let z = Some (Dec False 0 (- 18)) in
      \<lparr>r_open_ms = t, r_ret = (if start then None else z), r_roc = None, r_rvol = None, r_volratio = None,
       r_fwdret = (if stop then None else z), r_fwddir = (if stop then None else Some 0)\<rparr>)"

lemma sample_rows:
  "build_research_rows sample_parents (Some sample_horizon) =
     Inr [sample_research_row 0 True False, sample_research_row 60000 False False, sample_research_row 120000 False True]"
proof -
  let ?c = "[Dec False 125 (- 2), Dec False 125 (- 2), Dec False 125 (- 2)]" and ?v = "[Dec False 10 0, Dec False 10 0, Dec False 10 0]"
  let ?z = "Some (Dec False 0 0)"
  have e: "extract_series sample_parents = Inr (?c, ?v)" by code_simp
  have c1: "change_over 1 ?c 1 = Inr (Dec False 0 0)" by (rule change_over_const[where s = False and c = 125 and e = "- 2"]) simp_all
  have c2: "change_over 1 ?c 2 = Inr (Dec False 0 0)" by (rule change_over_const[where s = False and c = 125 and e = "- 2"]) simp_all
  note c = c1 c2
  have f: "compute_features ?c ?v = Inr \<lparr>f_ret_1 = [None, ?z, ?z], f_roc_60 = [None, None, None],
      f_rvol_20 = [None, None, None], f_volratio_20 = [None, None, None]\<rparr>"
    by (simp add: compute_features_Inr warm_column_def c upt_rec[of 1] upt_rec[of 2] numeral_3_eq_3 numeral_2_eq_2)
       (use c in \<open>simp add: numeral_2_eq_2\<close>)
  have l: "compute_labels ?c 1 = Inr \<lparr>l_fwdret_24 = [?z, ?z, None], l_fwddir_24 = [Some 0, Some 0, None]\<rparr>"
  proof -
    have "[0..<length ?c - 1] = [0, 1]" "length ?c = 3" "min 1 (3 :: nat) = 1" by (simp_all add: upt_rec)
    moreover have rep: "replicate 1 x = [x]" for x :: 'z by simp
    ultimately show ?thesis using c by (simp only: compute_labels_def Let_def) (simp add: direction_def dec_cmp rep numeral_2_eq_2)
  qed
  have q: "storage ?z = Inr (Some (Dec False 0 (- 18)))" by code_simp
  have p: "sample_parents ! 0 ! 10 = CInt 0" "sample_parents ! 1 ! 10 = CInt 60000" "sample_parents ! 2 ! 10 = CInt 120000"
    "length (sample_parents ! 0) = 23" "length (sample_parents ! 1) = 23" "length (sample_parents ! 2) = 23" "length sample_parents = 3"
    by code_simp+
  have hz: "label_horizon sample_horizon = 1" by (simp add: sample_horizon_def)
  have upt: "[0..<3] = [0, 1, 2 :: nat]" by (simp add: upt_rec numeral_2_eq_2)
  show ?thesis
    by (simp only: build_research_rows_def option.case Let_def hz e f l bindE.simps prod.case p(7) upt)
       (simp add: research_row_at_def py_index_def p p[unfolded One_nat_def] q sample_research_row_def Let_def open_time_of_def)
qed

theorem research_rows_causal_witness:
  "\<exists>rows'. build_research_rows (take 2 sample_parents) (Some sample_horizon) = Inr rows' \<and> length rows' = 2
     \<and> r_fwddir (rows' ! 0) = Some 0 \<and> r_fwddir (rows' ! 1) = None"
proof -
  have "length sample_parents = 3" by code_simp
  moreover have "label_horizon (case Some sample_horizon of None \<Rightarrow> APPROVED_PARAMETERS | Some q \<Rightarrow> q) = 1"
    by (simp add: sample_horizon_def)
  ultimately obtain rows' where r: "build_research_rows (take 2 sample_parents) (Some sample_horizon) = Inr rows'" "length rows' = 2"
    "\<forall>t < 2. label_part (rows' ! t) = (if t + 1 < 2 then label_part ([sample_research_row 0 True False,
       sample_research_row 60000 False False, sample_research_row 120000 False True] ! t) else (None, None))"
    using research_rows_causal[OF sample_rows, of 2 1] by auto
  from r(1,2) r(3)[rule_format, of 0] r(3)[rule_format, of 1] show ?thesis
    by (auto simp: label_part_def sample_research_row_def)
qed

section \<open>Stored values\<close>

lemma quantize_q18_spec:
  assumes "quantize_q18 d = Inr r"
  shows "dexp r = - 18" "\<bar>dval r - dval d\<bar> \<le> 10 powi (- 18) / 2"
    "0 \<le> dval d \<Longrightarrow> 0 \<le> dval r" "dval d \<le> 0 \<Longrightarrow> dval r \<le> 0"
proof -
  have q: "dec_quantize COMPUTE_CONTEXT d Q18_UNIT = Inr r" using assms by (simp add: quantize_q18_def)
  have "0 < cprec COMPUTE_CONTEXT" "dexp Q18_UNIT \<le> Etop COMPUTE_CONTEXT"
    by (simp_all add: COMPUTE_CONTEXT_def Q18_UNIT_def Etop_def)
  note e = dec_quantize_error[OF q this]
  show "dexp r = - 18" "\<bar>dval r - dval d\<bar> \<le> 10 powi (- 18) / 2" using e by (simp_all add: Q18_UNIT_def)
  have z: "dcoef d = 0 \<Longrightarrow> dcoef r = 0"
    using q by (auto simp: dec_quantize_def dest: dec_fix_zero split: if_splits)
  show "0 \<le> dval d \<Longrightarrow> 0 \<le> dval r" using e(3) z by (auto simp: dval_nonneg_iff)
  show "dval d \<le> 0 \<Longrightarrow> dval r \<le> 0"
    using e(3) z dval_pos[of r] by (metis dval_nonneg_iff dval_zero_iff order_antisym_conv)
qed

lemma storage_Inr:
  "storage v = Inr w \<longleftrightarrow> (case v of None \<Rightarrow> w = None | Some d \<Rightarrow> \<exists>q. quantize_q18 d = Inr q \<and> w = Some q)"
  by (cases v) (auto simp: storage_def res_simps)

lemma change_over_sign:
  assumes "change_over k closes t = Inr r" "0 < dval (closes ! t)" "0 < dval (closes ! (t - k))"
  shows "dval (closes ! (t - k)) \<le> dval (closes ! t) \<Longrightarrow> 0 \<le> dval r"
    and "dval (closes ! t) \<le> dval (closes ! (t - k)) \<Longrightarrow> dval r \<le> 0"
proof -
  obtain q where q: "dec_div COMPUTE_CONTEXT (closes ! t) (closes ! (t - k)) = Inr q"
    and r: "dec_add COMPUTE_CONTEXT q (dec_copy_negate (dec_of_int 1)) = Inr r"
    using assms(1) by (auto simp: change_over_def dec_sub_def res_simps)
  have c: "0 < cprec COMPUTE_CONTEXT" "Etiny COMPUTE_CONTEXT \<le> 0" by (simp_all add: COMPUTE_CONTEXT_def Etiny_def)
  note one = dec_div_one[OF q assms(2,3) c]
  show "dval (closes ! (t - k)) \<le> dval (closes ! t) \<Longrightarrow> 0 \<le> dval r"
    using one(1) dec_add_sign(1)[OF r] by simp
  show "dval (closes ! t) \<le> dval (closes ! (t - k)) \<Longrightarrow> dval r \<le> 0"
    using one(2) dec_add_sign(2)[OF r] by simp
qed

lemma open_time_of_Inr [simp]: "open_time_of c = Inr i \<longleftrightarrow> c = CInt i"
  by (cases c) (auto simp: open_time_of_def)

lemma research_row_at_Inr:
  assumes "research_row_at parents fs ls t = Inr r"
  shows "storage (f_ret_1 fs ! t) = Inr (r_ret r)" "storage (f_roc_60 fs ! t) = Inr (r_roc r)"
    "storage (f_rvol_20 fs ! t) = Inr (r_rvol r)" "storage (f_volratio_20 fs ! t) = Inr (r_volratio r)"
    "storage (l_fwdret_24 ls ! t) = Inr (r_fwdret r)" "r_fwddir r = l_fwddir_24 ls ! t"
    "\<exists>i. parents ! t ! 10 = CInt i \<and> r_open_ms r = i"
  using assms by (auto simp: research_row_at_def res_simps py_index_def split: if_splits)

text \<open>What a built row holds at position \<open>t\<close>.\<close>

lemma built_row:
  assumes "build_research_rows parents ps = Inr rows" "t < length parents"
    and "h = label_horizon (case ps of None \<Rightarrow> APPROVED_PARAMETERS | Some q \<Rightarrow> q)"
    and "extract_series parents = Inr (closes, volumes)"
  shows "length rows = length parents" "length closes = length parents"
    and "\<exists>i. parents ! t ! 10 = CInt i \<and> r_open_ms (rows ! t) = i"
    and "r_ret (rows ! t) = None \<longleftrightarrow> t < 1" "r_roc (rows ! t) = None \<longleftrightarrow> t < 60"
    and "r_rvol (rows ! t) = None \<longleftrightarrow> t < 20" "r_volratio (rows ! t) = None \<longleftrightarrow> t < 19"
    and "\<And>d. d \<in> {r_ret (rows ! t), r_roc (rows ! t), r_rvol (rows ! t), r_volratio (rows ! t), r_fwdret (rows ! t)}
           \<Longrightarrow> d = None \<or> (\<exists>q. d = Some q \<and> dexp q = - 18)"
    and "\<not> t + h < length parents \<Longrightarrow> r_fwdret (rows ! t) = None \<and> r_fwddir (rows ! t) = None"
    and "t + h < length parents \<Longrightarrow> \<exists>r q. change_over h closes (t + h) = Inr r \<and> quantize_q18 r = Inr q
           \<and> r_fwdret (rows ! t) = Some q \<and> r_fwddir (rows ! t) = Some (direction (closes ! (t + h)) (closes ! t))"
proof -
  obtain cs vs fs ls where a: "extract_series parents = Inr (cs, vs)"
    "compute_features cs vs = Inr fs" "compute_labels cs h = Inr ls"
    and len: "length rows = length parents" and rows: "\<And>t. t < length parents \<Longrightarrow> research_row_at parents fs ls t = Inr (rows ! t)"
    by (rule build_rows_Inr[OF assms(1)]) (simp add: assms(3))
  have cs: "cs = closes" using a(1) assms(4) by simp
  have lc: "length closes = length parents" using extract_series_Inr(1)[OF a(1)] cs by simp
  show "length rows = length parents" "length closes = length parents" by (rule len, rule lc)
  have r: "research_row_at parents fs ls t = Inr (rows ! t)" by (rule rows[OF assms(2)])
  note f = a(2)[unfolded compute_features_Inr cs lc warm_column_Inr]
  note col = research_row_at_Inr[OF r]
  show "\<exists>i. parents ! t ! 10 = CInt i \<and> r_open_ms (rows ! t) = i"
    by (rule col(7))
  have none: "storage v = Inr w \<Longrightarrow> (w = None) = (v = None)" for v w by (auto simp: storage_Inr split: option.splits)
  have at: "(col ! t = None) = (t < k)" if "\<forall>t < length parents. t < k \<longrightarrow> col ! t = None"
    "\<forall>t < length parents. k \<le> t \<longrightarrow> (\<exists>v. g t = Inr v \<and> col ! t = Some v)" for col :: "dec option list" and k and g :: "nat \<Rightarrow> dec res"
    using that assms(2) by (metis not_less option.simps(3))
  show "r_ret (rows ! t) = None \<longleftrightarrow> t < 1" using none[OF col(1)] f by (metis at)
  show "r_roc (rows ! t) = None \<longleftrightarrow> t < 60" using none[OF col(2)] f by (metis at)
  show "r_rvol (rows ! t) = None \<longleftrightarrow> t < 20" using none[OF col(3)] f by (metis at)
  show "r_volratio (rows ! t) = None \<longleftrightarrow> t < 19" using none[OF col(4)] f by (metis at)
  have scale: "storage v = Inr w \<Longrightarrow> w = None \<or> (\<exists>q. w = Some q \<and> dexp q = - 18)" for v w
    by (auto simp: storage_Inr quantize_q18_spec(1) split: option.splits)
  show "d = None \<or> (\<exists>q. d = Some q \<and> dexp q = - 18)"
    if "d \<in> {r_ret (rows ! t), r_roc (rows ! t), r_rvol (rows ! t), r_volratio (rows ! t), r_fwdret (rows ! t)}" for d
    using that by (elim insertE emptyE) (hypsubst, rule scale, rule col)+
  note l = compute_labels_Inr(3,4)[OF a(3)[unfolded cs], of t, unfolded lc]
  show "r_fwdret (rows ! t) = None \<and> r_fwddir (rows ! t) = None" if "\<not> t + h < length parents"
    using l(1)[OF assms(2) that] col(5,6) by simp
  show "\<exists>r q. change_over h closes (t + h) = Inr r \<and> quantize_q18 r = Inr q
           \<and> r_fwdret (rows ! t) = Some q \<and> r_fwddir (rows ! t) = Some (direction (closes ! (t + h)) (closes ! t))"
    if near: "t + h < length parents"
  proof -
    obtain r where r: "change_over h closes (t + h) = Inr r" "l_fwdret_24 ls ! t = Some r"
      "l_fwddir_24 ls ! t = Some (direction (closes ! (t + h)) (closes ! t))" using l(2)[OF near] by blast
    then obtain q where "quantize_q18 r = Inr q" "r_fwdret (rows ! t) = Some q" using col(5) by (auto simp: storage_Inr)
    then show ?thesis using r col(6) by simp
  qed
qed

end
