(* ===== verification/Research_Quality.thy ===== *)
theory Research_Quality
  imports Features Quality
begin

text \<open>
  Quality evaluation of the research table (src/quantara/research_quality.py): one finding per
  check, and a table passes only when every check passes. The findings are those of the month
  evaluator's record type.
\<close>

definition research_state :: "finding list \<Rightarrow> string" where
  "research_state fs = (if \<exists>f \<in> set fs. f_outcome f \<noteq> Pass then ''FAIL'' else ''PASS'')"

definition failing_checks :: "finding list \<Rightarrow> string list" where
  "failing_checks fs = map f_check (filter (\<lambda>f. f_outcome f \<noteq> Pass) fs)"

definition designed_null_budgets :: "nat \<Rightarrow> parameters option \<Rightarrow> (string \<times> int) list" where
  "designed_null_budgets n ps =
     (let p = (case ps of None \<Rightarrow> APPROVED_PARAMETERS | Some q \<Rightarrow> q) in
      [(''f_ret_1'', int (min 1 n)),
       (''f_roc_60'', int (min (roc_window p) n)),
       (''f_rvol_20'', int (min (vol_window p) n)),
       (''f_volratio_20'', min (int (volume_window p) - 1) (int n)),
       (''l_fwdret_24'', int (min (label_horizon p) n)),
       (''l_fwddir_24'', int (min (label_horizon p) n))])"

text \<open>Which rows carry no value in each of the value columns, in column order.\<close>

definition column_absent :: "(research_row \<Rightarrow> bool) list" where
  "column_absent = [\<lambda>r. r_ret r = None, \<lambda>r. r_roc r = None, \<lambda>r. r_rvol r = None,
     \<lambda>r. r_volratio r = None, \<lambda>r. r_fwdret r = None, \<lambda>r. r_fwddir r = None]"

definition decimal_columns :: "(research_row \<Rightarrow> dec option) list" where
  "decimal_columns = [r_ret, r_roc, r_rvol, r_volratio, r_fwdret]"

definition within_q18_scale :: "dec \<Rightarrow> bool" where
  "within_q18_scale d \<longleftrightarrow> - 18 \<le> dexp d"

definition null_check :: "research_row list \<Rightarrow> (string \<times> int) \<times> (research_row \<Rightarrow> bool) \<Rightarrow> finding" where
  "null_check rows = (\<lambda>((name, budget), absent).
     let nulls = count_if absent rows
     in record_check (''research_null_budget_'' @ name) (nulls = budget) \<bar>nulls - budget\<bar>
          [(''designed_nulls'', PyInt budget), (''actual_nulls'', PyInt nulls)])"

definition sign_consistent :: "research_row \<Rightarrow> bool" where
  "sign_consistent r \<longleftrightarrow>
     (case (r_fwdret r, r_fwddir r) of
        (None, None) \<Rightarrow> True
      | (Some v, Some d) \<Rightarrow> d = (if dec_lt dec_zero v then 1 else if dec_lt v dec_zero then - 1 else 0)
      | _ \<Rightarrow> False)"

definition out_of_scale :: "(research_row \<Rightarrow> dec option) \<Rightarrow> research_row \<Rightarrow> bool" where
  "out_of_scale col r \<longleftrightarrow> (case col r of None \<Rightarrow> False | Some d \<Rightarrow> \<not> within_q18_scale d)"

definition rvol_not_positive :: "research_row \<Rightarrow> bool" where
  "rvol_not_positive r \<longleftrightarrow> (case r_rvol r of None \<Rightarrow> False | Some d \<Rightarrow> \<not> dec_lt dec_zero d)"

definition evaluate_research_quality ::
    "research_row list \<Rightarrow> int list \<Rightarrow> parameters option \<Rightarrow> bool \<Rightarrow> finding list" where
  "evaluate_research_quality rows parent_times ps reconciled =
     (let times = map r_open_ms rows;
          descents = count_if (\<lambda>(a, b). \<not> a < b) (zip times (tl times));
          dup = int (length times) - int (card (set times));
          scale = sum_list (map (\<lambda>col. count_if (out_of_scale col) rows) decimal_columns);
          rvol = count_if rvol_not_positive rows;
          signs = count_if (\<lambda>r. \<not> sign_consistent r) rows
      in [record_check ''research_row_count_matches_parent'' (length rows = length parent_times) (int (length rows))
            [(''parent_rows'', PyInt (int (length parent_times))), (''table_rows'', PyInt (int (length rows)))],
          record_check ''research_open_times_identical_to_parent'' (times = parent_times)
            (count_if (\<lambda>(a, b). a \<noteq> b) (zip times parent_times)) [],
          record_check ''research_open_times_strictly_ascending'' (successively (<) times) descents [],
          record_check ''research_unique_open_times'' (card (set times) = length times) dup []]
         @ map (null_check rows) (zip (designed_null_budgets (length rows) ps) column_absent)
         @ [record_check ''research_decimals_within_q18_scale'' (scale = 0) scale [],
            record_check ''research_rvol_strictly_positive'' (rvol = 0) rvol
              [(''note'', py_str ''a zero-variance window is degenerate input and fails loudly'')],
            record_check ''research_fwddir_sign_consistent'' (signs = 0) signs
              [(''note'', py_str ''exact sign including exact zero'')],
            record_check ''research_reconciliation_matches'' reconciled (if reconciled then 0 else 1) []])"

section \<open>The verdict\<close>

lemma sum_counts_zero: "sum_list (map (\<lambda>c. count_if (p c) rows) cs) = 0 \<longleftrightarrow> (\<forall>c \<in> set cs. list_all (\<lambda>r. \<not> p c r) rows)"
proof (induction cs)
  case (Cons c cs)
  have "0 \<le> sum_list (map (\<lambda>c. count_if (p c) rows) cs)" by (rule sum_list_nonneg) auto
  moreover have "0 \<le> count_if (p c) rows" by simp
  ultimately have "sum_list (map (\<lambda>c. count_if (p c) rows) (c # cs)) = 0
      \<longleftrightarrow> count_if (p c) rows = 0 \<and> sum_list (map (\<lambda>c. count_if (p c) rows) cs) = 0"
    by (simp add: add_nonneg_eq_0_iff)
  then show ?case using Cons by (simp add: count_if_zero)
qed simp

definition budgets_met :: "research_row list \<Rightarrow> parameters option \<Rightarrow> bool" where
  "budgets_met rows ps \<longleftrightarrow>
     map (\<lambda>absent. count_if absent rows) column_absent = map snd (designed_null_budgets (length rows) ps)"

lemma null_checks_pass:
  "(\<forall>f \<in> set (map (null_check rows) (zip (designed_null_budgets (length rows) ps) column_absent)). f_outcome f = Pass)
     \<longleftrightarrow> budgets_met rows ps"
  by (auto simp: budgets_met_def designed_null_budgets_def column_absent_def null_check_def Let_def)

lemma research_state_pass: "research_state fs = ''PASS'' \<longleftrightarrow> (\<forall>f \<in> set fs. f_outcome f = Pass)"
  by (simp add: research_state_def)

definition research_clean :: "research_row list \<Rightarrow> int list \<Rightarrow> parameters option \<Rightarrow> bool" where
  "research_clean rows parent_times ps \<longleftrightarrow>
     map r_open_ms rows = parent_times \<and> sorted_wrt (<) parent_times \<and> budgets_met rows ps
     \<and> (\<forall>r \<in> set rows. (\<forall>col \<in> set decimal_columns. \<forall>d. col r = Some d \<longrightarrow> - 18 \<le> dexp d)
           \<and> (\<forall>d. r_rvol r = Some d \<longrightarrow> 0 < dval d) \<and> sign_consistent r)"

lemma dval_dec_zero: "dval dec_zero = 0"
  by (simp add: dec_zero_def dval_def)

lemma research_pass_iff:
  "research_state (evaluate_research_quality rows parent_times ps reconciled) = ''PASS''
     \<longleftrightarrow> research_clean rows parent_times ps \<and> reconciled"
proof -
  have unique: "card (set ts) = length ts" if "sorted_wrt (<) ts" for ts :: "int list"
    using sorted_wrt_less_distinct[OF that] by (simp add: distinct_card)
  have scale: "(\<forall>col \<in> set decimal_columns. list_all (\<lambda>r. \<not> out_of_scale col r) rows)
      \<longleftrightarrow> (\<forall>r \<in> set rows. \<forall>col \<in> set decimal_columns. \<forall>d. col r = Some d \<longrightarrow> - 18 \<le> dexp d)"
    by (auto simp: list_all_iff out_of_scale_def within_q18_scale_def split: option.splits)
  have rvol: "list_all (\<lambda>r. \<not> rvol_not_positive r) rows \<longleftrightarrow> (\<forall>r \<in> set rows. \<forall>d. r_rvol r = Some d \<longrightarrow> 0 < dval d)"
    by (auto simp: list_all_iff rvol_not_positive_def dec_cmp dval_dec_zero split: option.splits)
  have len: "map r_open_ms rows = parent_times \<Longrightarrow> length rows = length parent_times" by auto
  show ?thesis
    unfolding research_state_pass evaluate_research_quality_def Let_def research_clean_def ball_simps set_append ball_Un
      null_checks_pass list.set successively_less_iff record_check_outcome sum_counts_zero count_if_zero scale rvol
    using unique[of "map r_open_ms rows"] len by (auto simp: list_all_iff)
qed

section \<open>Built tables\<close>

text \<open>The sign of a stored forward return never contradicts the direction; it can only be lost when
  the return rounds to zero at 18 digits.\<close>

definition sign_kept :: "research_row \<Rightarrow> bool" where
  "sign_kept r \<longleftrightarrow> (\<forall>v. r_fwdret r = Some v \<longrightarrow> dval v = 0 \<longrightarrow> r_fwddir r = Some 0)"

lemma built_sign:
  assumes "build_research_rows parents ps = Inr rows" "r \<in> set rows"
    and "extract_series parents = Inr (closes, volumes)" "\<forall>c \<in> set closes. 0 < dval c"
  shows "sign_consistent r \<longleftrightarrow> sign_kept r"
proof -
  define h where "h = label_horizon (case ps of None \<Rightarrow> APPROVED_PARAMETERS | Some q \<Rightarrow> q)"
  obtain t where t: "t < length rows" "r = rows ! t" using assms(2) by (auto simp: in_set_conv_nth)
  have len: "length rows = length parents"
    using build_rows_Inr[OF assms(1)] by metis
  then have tp: "t < length parents" using t by simp
  note b = built_row[OF assms(1) tp h_def assms(3)]
  show ?thesis
  proof (cases "t + h < length parents")
    case False
    then show ?thesis using b(9) by (simp add: t sign_consistent_def sign_kept_def)
  next
    case True
    then obtain c q where cq: "change_over h closes (t + h) = Inr c" "quantize_q18 c = Inr q"
      "r_fwdret r = Some q" "r_fwddir r = Some (direction (closes ! (t + h)) (closes ! t))"
      using b(10) t by auto
    have pos: "0 < dval (closes ! (t + h))" "0 < dval (closes ! (t + h - h))"
      using assms(4) True b(2) by auto
    note ch = change_over_sign[OF cq(1) pos]
    have up: "dval (closes ! t) \<le> dval (closes ! (t + h)) \<Longrightarrow> 0 \<le> dval q"
      and down: "dval (closes ! (t + h)) \<le> dval (closes ! t) \<Longrightarrow> dval q \<le> 0"
      using ch quantize_q18_spec(3,4)[OF cq(2)] by auto
    have flat: "dval (closes ! t) = dval (closes ! (t + h)) \<Longrightarrow> dval q = 0" using up down by simp
    show ?thesis using up down flat
      by (auto simp: sign_consistent_def sign_kept_def cq(3,4) direction_def dec_cmp dval_dec_zero)
  qed
qed

lemma count_if_prefix:
  assumes "\<And>t. t < length xs \<Longrightarrow> p (xs ! t) \<longleftrightarrow> t < k"
  shows "count_if p xs = int (min k (length xs))"
proof -
  have "length (filter p xs) = card {t. t < length xs \<and> p (xs ! t)}" by (rule length_filter_conv_card)
  also have "{t. t < length xs \<and> p (xs ! t)} = {..<min k (length xs)}" using assms by auto
  finally show ?thesis by (simp add: count_if_def)
qed

lemma count_if_suffix:
  assumes "\<And>t. t < length xs \<Longrightarrow> p (xs ! t) \<longleftrightarrow> \<not> t + k < length xs"
  shows "count_if p xs = int (min k (length xs))"
proof -
  have "length (filter p xs) = card {t. t < length xs \<and> p (xs ! t)}" by (rule length_filter_conv_card)
  also have "{t. t < length xs \<and> p (xs ! t)} = {length xs - min k (length xs)..<length xs}" using assms by auto
  finally show ?thesis by (simp add: count_if_def)
qed

lemma built_budgets:
  assumes "build_research_rows parents (Some (APPROVED_PARAMETERS\<lparr>label_horizon := h\<rparr>)) = Inr rows"
  shows "budgets_met rows (Some (APPROVED_PARAMETERS\<lparr>label_horizon := h\<rparr>))"
proof -
  obtain closes volumes where e: "extract_series parents = Inr (closes, volumes)"
    and len: "length rows = length parents"
    by (rule build_rows_Inr[OF assms]) blast
  have hz: "h = label_horizon (case Some (APPROVED_PARAMETERS\<lparr>label_horizon := h\<rparr>) of None \<Rightarrow> APPROVED_PARAMETERS | Some q \<Rightarrow> q)"
    by simp
  note b = built_row[OF assms _ hz e]
  have tail: "r_fwdret (rows ! t) = None \<longleftrightarrow> \<not> t + h < length rows" "r_fwddir (rows ! t) = None \<longleftrightarrow> \<not> t + h < length rows"
    if "t < length rows" for t
    using b(9)[of t] b(10)[of t] that len by fastforce+
  have "count_if (\<lambda>r. r_ret r = None) rows = int (min 1 (length rows))"
    "count_if (\<lambda>r. r_roc r = None) rows = int (min 60 (length rows))"
    "count_if (\<lambda>r. r_rvol r = None) rows = int (min 20 (length rows))"
    "count_if (\<lambda>r. r_volratio r = None) rows = int (min 19 (length rows))"
    by (rule count_if_prefix; use b(4-7) len in simp)+
  moreover have "count_if (\<lambda>r. r_fwdret r = None) rows = int (min h (length rows))"
    "count_if (\<lambda>r. r_fwddir r = None) rows = int (min h (length rows))"
    by (rule count_if_suffix; use tail in simp)+
  ultimately show ?thesis
    by (simp add: budgets_met_def column_absent_def designed_null_budgets_def APPROVED_PARAMETERS_def)
qed

section \<open>Properties\<close>

text \<open>The research gate accepts exactly the tables it promises: the parent's open times in
  strictly ascending order, exactly the designed number of empty cells in every column, no decimal
  finer than 18 digits, positive volatilities, forward directions that are the exact sign of the
  forward returns, and a confirmed reconciliation.\<close>

theorem research_gate_meaning:
  "research_state (evaluate_research_quality rows parent_times ps reconciled) = ''PASS''
     \<longleftrightarrow> research_clean rows parent_times ps \<and> reconciled"
  by (rule research_pass_iff)

text \<open>C17: a table the engines build from parents with positive closes and strictly ascending open
  times meets every structural check by construction: with a confirmed reconciliation the gate
  passes it exactly when no volatility rounds to zero and no nonzero move rounds to a zero return.\<close>

theorem built_table_passes:
  assumes "build_research_rows parents (Some p) = Inr rows" "p = APPROVED_PARAMETERS\<lparr>label_horizon := h\<rparr>"
    and "extract_series parents = Inr (closes, volumes)" "\<forall>c \<in> set closes. 0 < dval c"
    and "map (\<lambda>cs. cs ! 10) parents = map CInt opens" "sorted_wrt (<) opens"
  shows "research_state (evaluate_research_quality rows opens (Some p) True) = ''PASS''
     \<longleftrightarrow> (\<forall>r \<in> set rows. (\<forall>d. r_rvol r = Some d \<longrightarrow> 0 < dval d) \<and> sign_kept r)"
proof -
  have len: "length rows = length parents" by (rule build_rows_Inr[OF assms(1)]) blast
  note b = built_row[OF assms(1) _ refl assms(3)]
  have tl: "length opens = length parents" using assms(5) by (metis length_map)
  have "map r_open_ms rows = opens"
  proof (rule nth_equalityI)
    fix t assume "t < length (map r_open_ms rows)"
    then have t: "t < length parents" by (simp add: len)
    then have "parents ! t ! 10 = CInt (opens ! t)" using assms(5) tl by (metis nth_map)
    then show "map r_open_ms rows ! t = opens ! t" using b(3)[OF t] t by (auto simp: len)
  qed (simp add: len tl)
  moreover have "\<forall>r \<in> set rows. \<forall>col \<in> set decimal_columns. \<forall>d. col r = Some d \<longrightarrow> - 18 \<le> dexp d"
  proof (intro ballI allI impI)
    fix r col d assume a: "r \<in> set rows" "col \<in> set decimal_columns" "col r = Some d"
    then obtain t where t: "t < length parents" "r = rows ! t" by (auto simp: in_set_conv_nth len)
    then have "Some d = None \<or> (\<exists>q. Some d = Some q \<and> dexp q = - 18)"
      using a by (intro b(8)) (auto simp: decimal_columns_def)
    then show "- 18 \<le> dexp d" by simp
  qed
  moreover have "budgets_met rows (Some p)" using built_budgets assms(1,2) by simp
  ultimately show ?thesis
    using built_sign[OF assms(1) _ assms(3,4)] assms(6) by (auto simp: research_pass_iff research_clean_def)
qed

theorem built_table_passes_witness:
  "research_state (evaluate_research_quality [sample_research_row 0 True False, sample_research_row 60000 False False,
     sample_research_row 120000 False True] [0, 60000, 120000] (Some sample_horizon) True) = ''PASS''"
proof -
  have e: "extract_series sample_parents = Inr (replicate 3 (Dec False 125 (- 2)), replicate 3 (Dec False 10 0))" by code_simp
  have t: "map (\<lambda>cs. cs ! 10) sample_parents = map CInt [0, 60000, 120000]" by code_simp
  show ?thesis
    by (subst built_table_passes[OF sample_rows sample_horizon_def e _ t])
       (simp_all add: dval_def sample_research_row_def sign_kept_def Let_def)
qed

end
