(* ===== verification/Fold_Stats.thy ===== *)
theory Fold_Stats
  imports Folds Research_Quality
begin

text \<open>
  Per-fold statistics over the test segment (src/quantara/fold_stats.py). Rows are the research
  table's. The sum under the mean is Python's \<open>sum\<close>, which adds in the ambient decimal context;
  that context is an argument. \<open>render\<close> stands for the 18-digit renderer of the hashing module,
  whose dispatch between its two implementations is settled by the caller's environment.
\<close>

text \<open>Python's slice of a sequence, negative bounds counted from the end and both clamped.\<close>

definition slice_bound :: "nat \<Rightarrow> int \<Rightarrow> nat" where
  "slice_bound n i = (if i < 0 then nat (i + int n) else min (nat i) n)"

definition slice_rows :: "int \<Rightarrow> int \<Rightarrow> 'a list \<Rightarrow> 'a list" where
  "slice_rows a b xs = py_slice (slice_bound (length xs) a) (slice_bound (length xs) b) xs"

record fold_stats =
  s_row_count :: int
  s_first_ms :: int
  s_last_ms :: int
  s_null_counts :: "(string \<times> int) list"
  s_expected_nulls :: "(string \<times> int) list"
  s_signs :: "(string \<times> int) list"
  s_mean :: "string option"
  s_min :: "string option"
  s_max :: "string option"

definition optional_text :: "string option \<Rightarrow> pyval" where
  "optional_text v = (case v of None \<Rightarrow> PyNone | Some s \<Rightarrow> py_str s)"

definition count_dict :: "(string \<times> int) list \<Rightarrow> pyval" where
  "count_dict kvs = PyDict (map (\<lambda>(k, v). (cps k, PyInt v)) kvs)"

definition stats_to_dict :: "fold_stats \<Rightarrow> pyval" where
  "stats_to_dict s = PyDict
     [(cps ''row_count'', PyInt (s_row_count s)), (cps ''open_time_ms_first'', PyInt (s_first_ms s)),
      (cps ''open_time_ms_last'', PyInt (s_last_ms s)), (cps ''null_counts'', count_dict (s_null_counts s)),
      (cps ''expected_null_counts'', count_dict (s_expected_nulls s)),
      (cps ''sign_distribution'', count_dict (s_signs s)), (cps ''fwdret_mean'', optional_text (s_mean s)),
      (cps ''fwdret_min'', optional_text (s_min s)), (cps ''fwdret_max'', optional_text (s_max s))]"

definition NULLABLE_COLUMNS :: "string list" where
  "NULLABLE_COLUMNS = [''f_ret_1'', ''f_roc_60'', ''f_rvol_20'', ''f_volratio_20'', ''l_fwdret_24'', ''l_fwddir_24'']"

definition overlap :: "int \<Rightarrow> int \<Rightarrow> int \<Rightarrow> int \<Rightarrow> int" where
  "overlap a b c d = max 0 (min b d - max a c)"

definition compute_expected_segment_nulls ::
    "int \<Rightarrow> int \<Rightarrow> int \<Rightarrow> parameters option \<Rightarrow> (string \<times> int) list" where
  "compute_expected_segment_nulls s e n ps =
     (let p = (case ps of None \<Rightarrow> APPROVED_PARAMETERS | Some q \<Rightarrow> q); h = int (label_horizon p)
      in [(''f_ret_1'', overlap s e 0 1),
          (''f_roc_60'', overlap s e 0 (int (roc_window p))),
          (''f_rvol_20'', overlap s e 0 (int (vol_window p))),
          (''f_volratio_20'', overlap s e 0 (int (volume_window p) - 1)),
          (''l_fwdret_24'', overlap s e (max 0 (n - h)) n),
          (''l_fwddir_24'', overlap s e (max 0 (n - h)) n)])"

text \<open>Signs are counted by their text; other integers are not counted.\<close>

definition sign_count :: "int \<Rightarrow> research_row list \<Rightarrow> int" where
  "sign_count k rows = count_if (\<lambda>r. r_fwddir r = Some k) rows"

definition quantized_text :: "(dec \<Rightarrow> string res) \<Rightarrow> dec \<Rightarrow> string res" where
  "quantized_text render d = bindE (quantize_q18 d) render"

definition compute_fold_stats ::
    "dctx \<Rightarrow> (dec \<Rightarrow> string res) \<Rightarrow> research_row list \<Rightarrow> int \<times> int \<Rightarrow> int option \<Rightarrow> parameters option
       \<Rightarrow> fold_stats res" where
  "compute_fold_stats ambient render rows test_rng n_total ps =
     (let segment = slice_rows (fst test_rng) (snd test_rng) rows;
          n = (case n_total of None \<Rightarrow> int (length rows) | Some k \<Rightarrow> k);
          rets = List.map_filter r_fwdret segment in
      if segment = [] then Inl PyValueError
      else
        let stats = \<lambda>mean low high.
          \<lparr>s_row_count = int (length segment), s_first_ms = r_open_ms (hd segment), s_last_ms = r_open_ms (last segment),
           s_null_counts = zip NULLABLE_COLUMNS (map (\<lambda>absent. count_if absent segment) column_absent),
           s_expected_nulls = compute_expected_segment_nulls (fst test_rng) (snd test_rng) n ps,
           s_signs = [(''-1'', sign_count (- 1) segment), (''0'', sign_count 0 segment), (''1'', sign_count 1 segment)],
           s_mean = mean, s_min = low, s_max = high\<rparr>
        in if rets = [] then Inr (stats None None None)
           else
             bindE (foldE (dec_add ambient) (dec_of_int 0) rets) (\<lambda>total.
             bindE (dec_div COMPUTE_CONTEXT total (dec_of_int (int (length rets)))) (\<lambda>mean.
             bindE (quantized_text render mean) (\<lambda>mean_text.
             bindE (quantized_text render (py_min dec_lt rets)) (\<lambda>min_text.
             bindE (quantized_text render (py_max dec_lt rets)) (\<lambda>max_text.
             Inr (stats (Some mean_text) (Some min_text) (Some max_text))))))))"

section \<open>Segments\<close>

lemma slice_rows_within:
  assumes "0 \<le> s" "s \<le> e" "e \<le> int (length xs)"
  shows "slice_rows s e xs = drop (nat s) (take (nat e) xs)" "length (slice_rows s e xs) = nat (e - s)"
proof -
  have "slice_bound (length xs) s = nat s" "slice_bound (length xs) e = nat e"
    using assms by (auto simp: slice_bound_def)
  then show sl: "slice_rows s e xs = drop (nat s) (take (nat e) xs)" by (simp add: slice_rows_def py_slice_def)
  have "min (length xs) (nat e) = nat e" using assms by auto
  then show "length (slice_rows s e xs) = nat (e - s)" using assms by (simp add: sl nat_diff_distrib)
qed

lemma slice_nth:
  assumes "0 \<le> s" "s \<le> e" "e \<le> int (length xs)" "i < nat (e - s)"
  shows "slice_rows s e xs ! i = xs ! (nat s + i)"
  using assms slice_rows_within[OF assms(1-3)] by (simp add: nth_append)

lemma count_overlap:
  assumes "0 \<le> s" "s \<le> e" "e \<le> int (length xs)"
    and "\<And>t. t < length xs \<Longrightarrow> p (xs ! t) \<longleftrightarrow> c \<le> int t \<and> int t < d"
  shows "count_if p (slice_rows s e xs) = overlap s e c d"
proof -
  let ?ys = "slice_rows s e xs"
  note len = slice_rows_within(2)[OF assms(1-3)]
  have "length (filter p ?ys) = card {i. i < length ?ys \<and> p (?ys ! i)}" by (rule length_filter_conv_card)
  also have "{i. i < length ?ys \<and> p (?ys ! i)} = {nat (max s c - s)..<nat (min e d - s)}"
  proof (intro set_eqI iffI)
    fix i assume "i \<in> {i. i < length ?ys \<and> p (?ys ! i)}"
    then have i: "i < nat (e - s)" "p (xs ! (nat s + i))" using slice_nth[OF assms(1-3)] len by auto
    then have "c \<le> int (nat s + i)" "int (nat s + i) < d" using assms(4)[of "nat s + i"] assms(1-3) by auto
    then show "i \<in> {nat (max s c - s)..<nat (min e d - s)}" using i(1) assms(1,2) by auto
  next
    fix i assume "i \<in> {nat (max s c - s)..<nat (min e d - s)}"
    then have i: "i < nat (e - s)" "c \<le> int (nat s + i)" "int (nat s + i) < d" using assms(1,2) by auto
    then show "i \<in> {i. i < length ?ys \<and> p (?ys ! i)}"
      using assms(4)[of "nat s + i"] assms(1-3) len slice_nth[OF assms(1-3) i(1)] by auto
  qed
  also have "int (card \<dots>) = overlap s e c d" using assms(2) by (auto simp: overlap_def)
  finally show ?thesis by (simp add: count_if_def)
qed

lemma compute_fold_stats_Inr:
  assumes "compute_fold_stats ambient render rows r n ps = Inr st"
  shows "slice_rows (fst r) (snd r) rows \<noteq> []"
    and "s_row_count st = int (length (slice_rows (fst r) (snd r) rows))"
    and "s_null_counts st = zip NULLABLE_COLUMNS (map (\<lambda>absent. count_if absent (slice_rows (fst r) (snd r) rows)) column_absent)"
    and "s_expected_nulls st = compute_expected_segment_nulls (fst r) (snd r) (case n of None \<Rightarrow> int (length rows) | Some k \<Rightarrow> k) ps"
    and "s_first_ms st = r_open_ms (hd (slice_rows (fst r) (snd r) rows))"
    and "s_last_ms st = r_open_ms (last (slice_rows (fst r) (snd r) rows))"
    and "s_signs st = map (\<lambda>(k, i). (k, sign_count i (slice_rows (fst r) (snd r) rows))) [(''-1'', - 1), (''0'', 0), (''1'', 1)]"
  using assms by (auto simp: compute_fold_stats_def Let_def res_simps split: if_splits)

lemma direction_range: "direction a b \<in> {- 1, 0, 1}"
  by (simp add: direction_def)

lemma row_of_parts: "feature_part a = feature_part b \<Longrightarrow> label_part a = label_part b \<Longrightarrow> a = (b :: research_row)"
  by (cases a; cases b) (simp add: feature_part_def label_part_def)

lemma fold_stats_built:
  assumes "build_research_rows parents (Some p) = Inr rows" "p = APPROVED_PARAMETERS\<lparr>label_horizon := h\<rparr>"
    and "0 \<le> s" "s < e" "e \<le> int (length parents)"
    and "compute_fold_stats ambient render rows (s, e) None (Some p) = Inr st"
  shows "s_null_counts st = s_expected_nulls st \<and> s_row_count st = e - s
    \<and> s_first_ms st = r_open_ms (rows ! nat s) \<and> s_last_ms st = r_open_ms (rows ! nat (e - 1))
    \<and> sum_list (map snd (s_signs st)) + snd (last (s_null_counts st)) = e - s"
proof -
  obtain closes volumes where ex: "extract_series parents = Inr (closes, volumes)" and len: "length rows = length parents"
    by (rule build_rows_Inr[OF assms(1)]) blast
  have hz: "h = label_horizon (case Some p of None \<Rightarrow> APPROVED_PARAMETERS | Some q \<Rightarrow> q)" by (simp add: assms(2))
  note b = built_row[OF assms(1) _ hz ex]
  let ?seg = "slice_rows s e rows" and ?n = "int (length rows)"
  have r: "0 \<le> s" "s \<le> e" "e \<le> ?n" using assms(3-5) len by auto
  have "r_fwdret (rows ! t) = None \<longleftrightarrow> \<not> t + h < length rows" "r_fwddir (rows ! t) = None \<longleftrightarrow> \<not> t + h < length rows"
    if "t < length rows" for t
    using b(9)[of t] b(10)[of t] that len by fastforce+
  then have tail: "r_fwdret (rows ! t) = None \<longleftrightarrow> max 0 (?n - int h) \<le> int t \<and> int t < ?n"
    "r_fwddir (rows ! t) = None \<longleftrightarrow> max 0 (?n - int h) \<le> int t \<and> int t < ?n" if "t < length rows" for t
    using that by auto
  have cnt: "count_if (\<lambda>r. r_ret r = None) ?seg = overlap s e 0 1"
    "count_if (\<lambda>r. r_roc r = None) ?seg = overlap s e 0 60"
    "count_if (\<lambda>r. r_rvol r = None) ?seg = overlap s e 0 20"
    "count_if (\<lambda>r. r_volratio r = None) ?seg = overlap s e 0 19"
    "count_if (\<lambda>r. r_fwdret r = None) ?seg = overlap s e (max 0 (?n - int h)) ?n"
    "count_if (\<lambda>r. r_fwddir r = None) ?seg = overlap s e (max 0 (?n - int h)) ?n"
    by (rule count_overlap[OF r]; use b(4-7) tail len in auto)+
  note st = compute_fold_stats_Inr[OF assms(6), simplified]
  have nulls: "s_null_counts st = s_expected_nulls st"
    by (simp add: st(3,4) NULLABLE_COLUMNS_def column_absent_def cnt compute_expected_segment_nulls_def Let_def
        assms(2) APPROVED_PARAMETERS_def)
  have sl: "length ?seg = nat (e - s)" by (rule slice_rows_within(2)[OF r])
  have nth: "?seg ! i = rows ! (nat s + i)" if "i < nat (e - s)" for i by (rule slice_nth[OF r that])
  have ne: "?seg \<noteq> []" by (rule st(1))
  have "nat s + nat (e - s - 1) = nat (e - 1)" using assms(3,4) by simp
  then have ends: "hd ?seg = rows ! nat s" "last ?seg = rows ! nat (e - 1)"
    using nth[of 0] nth[of "nat (e - s - 1)"] ne sl assms(3,4) by (simp_all add: hd_conv_nth last_conv_nth nat_diff_distrib)
  have dirs: "r_fwddir x \<in> {None, Some (- 1), Some 0, Some 1}" if "x \<in> set ?seg" for x
  proof -
    from that obtain i where i: "i < length ?seg" "x = ?seg ! i" by (auto simp: in_set_conv_nth)
    then have t: "nat s + i < length parents" using sl r(1) assms(5) by auto
    have "r_fwddir (rows ! (nat s + i)) = None \<or> (\<exists>a b. r_fwddir (rows ! (nat s + i)) = Some (direction a b))"
      using b(9)[OF t] b(10)[OF t] by blast
    moreover have "Some (direction a b) \<in> {None, Some (- 1), Some 0, Some 1}" for a b
      using direction_range[of a b] by auto
    ultimately have "r_fwddir (rows ! (nat s + i)) \<in> {None, Some (- 1), Some 0, Some 1}" by (metis insertI1)
    then show ?thesis using i nth[of i] sl by simp
  qed
  have part: "sign_count (- 1) xs + sign_count 0 xs + sign_count 1 xs + count_if (\<lambda>r. r_fwddir r = None) xs = int (length xs)"
    if "\<forall>x \<in> set xs. r_fwddir x \<in> {None, Some (- 1), Some 0, Some 1}" for xs
    using that by (induction xs) (auto simp: sign_count_def count_if_def)
  have "last (s_null_counts st) = (''l_fwddir_24'', count_if (\<lambda>r. r_fwddir r = None) ?seg)"
    by (simp add: st(3) NULLABLE_COLUMNS_def column_absent_def)
  then show ?thesis
    using nulls part[of ?seg] dirs sl assms(4) by (simp add: st(2,5,6,7) ends)
qed

section \<open>Properties\<close>

text \<open>C18: on a table the engines built, the statistics of any test segment report exactly the empty
  cells the design predicts for every column, the segment's size and first and last open times,
  and a sign distribution that accounts for every row with a direction.\<close>

theorem fold_stats_of_built_table:
  assumes "build_research_rows parents (Some p) = Inr rows" "p = APPROVED_PARAMETERS\<lparr>label_horizon := h\<rparr>"
    and "0 \<le> s" "s < e" "e \<le> int (length parents)"
    and "compute_fold_stats ambient render rows (s, e) None (Some p) = Inr st"
  shows "s_null_counts st = s_expected_nulls st \<and> s_row_count st = e - s
    \<and> s_first_ms st = r_open_ms (rows ! nat s) \<and> s_last_ms st = r_open_ms (rows ! nat (e - 1))
    \<and> sum_list (map snd (s_signs st)) + snd (last (s_null_counts st)) = e - s"
  by (rule fold_stats_built[OF assms])

text \<open>C19: walk-forward folds do not leak. Whatever a fold trains on, features and labels of the rows
  before its embargo, is what the engines compute from the parent rows before its test segment
  alone, provided the embargo is at least as long as the label horizon.\<close>

theorem walkforward_no_leak:
  assumes "build_research_rows parents ps = Inr rows"
    and "h = label_horizon (case ps of None \<Rightarrow> APPROVED_PARAMETERS | Some q \<Rightarrow> q)" "int h \<le> embargo"
    and "0 < ts" "0 \<le> min_train"
    and "build_walkforward_folds (int (length parents)) ts min_train embargo = Some (Inr part)"
    and "f \<in> set (fold_list part)"
  shows "\<exists>s e rows'. test_range f = (int s, e) \<and> train_range f = Some (0, int s - embargo) \<and> s < length parents
    \<and> build_research_rows (take s parents) ps = Inr rows'
    \<and> (\<forall>t. int t < int s - embargo \<longrightarrow> rows' ! t = rows ! t)"
proof -
  obtain i where i: "i < length (fold_list part)" "f = fold_list part ! i" using assms(7) by (auto simp: in_set_conv_nth)
  have em: "0 \<le> embargo" using assms(3) by simp
  have sp: "min_train + embargo + ts \<le> int (length parents)"
    "\<forall>i < length (fold_list part). let f = fold_list part ! i; s = min_train + embargo + int i * ts in
        fold_id f = i \<and> fst (test_range f) = s \<and> ts \<le> snd (test_range f) - s \<and> snd (test_range f) - s < 2 * ts
        \<and> train_range f = Some (0, s - embargo) \<and> embargo_range f = Some (s - embargo, s)"
    "successively (\<lambda>f g. snd (test_range f) = fst (test_range g)) (fold_list part)"
    "snd (test_range (last (fold_list part))) = int (length parents)"
    using walkforward_spec[OF assms(4) em, of "int (length parents)" min_train] assms(6) by auto
  define s where "s = min_train + embargo + int i * ts"
  have fs: "fst (test_range f) = s" "ts \<le> snd (test_range f) - s" "train_range f = Some (0, s - embargo)"
    using sp(2)[rule_format, OF i(1)] i(2) by (auto simp: s_def Let_def)
  have "s + ts \<le> int (length parents)"
  proof -
    have "min_train + embargo + int k * ts + ts \<le> int (length parents)" if "k = length (fold_list part) - 1" for k
    proof -
      have "fold_list part ! k = last (fold_list part)" "k < length (fold_list part)"
        using i last_conv_nth[of "fold_list part"] that by fastforce+
      then show ?thesis using sp(2)[rule_format, of k] sp(4) by (auto simp: Let_def)
    qed
    moreover have "int i * ts \<le> int (length (fold_list part) - 1) * ts"
      using i(1) assms(4) by (intro mult_right_mono) auto
    ultimately show ?thesis by (fastforce simp: s_def)
  qed
  moreover have "0 \<le> s" using assms(4,5) em by (simp add: s_def)
  ultimately have s: "int (nat s) = s" "nat s < length parents" using assms(4) by auto
  obtain rows' where r: "build_research_rows (take (nat s) parents) ps = Inr rows'"
    "\<forall>t < nat s. feature_part (rows' ! t) = feature_part (rows ! t)
       \<and> label_part (rows' ! t) = (if t + h < nat s then label_part (rows ! t) else (None, None))"
    using rows_prefix[OF assms(1) _ assms(2), of "nat s"] s(2) by auto
  have "rows' ! t = rows ! t" if "int t < int (nat s) - embargo" for t
  proof -
    have "t < nat s" "t + h < nat s" using that assms(3) em by linarith+
    then show ?thesis using r(2) by (intro row_of_parts) simp_all
  qed
  then show ?thesis
    using r(1) s fs by (intro exI[of _ "nat s"] exI[of _ "snd (test_range f)"] exI[of _ rows']) (simp add: prod_eq_iff)
qed

theorem fold_stats_of_built_table_witness:
  "\<exists>st. compute_fold_stats COMPUTE_CONTEXT render_decimal_18_python [sample_research_row 0 True False,
       sample_research_row 60000 False False, sample_research_row 120000 False True] (1, 3) None (Some sample_horizon) = Inr st
     \<and> s_null_counts st = s_expected_nulls st \<and> s_row_count st = 2 \<and> s_last_ms st = 120000"
proof -
  let ?rows = "[sample_research_row 0 True False, sample_research_row 60000 False False, sample_research_row 120000 False True]"
  have n: "(3 :: int) \<le> int (length sample_parents)" by code_simp
  have "is_err (compute_fold_stats COMPUTE_CONTEXT render_decimal_18_python ?rows (1, 3) None (Some sample_horizon)) = False"
    by code_simp
  then obtain st where st: "compute_fold_stats COMPUTE_CONTEXT render_decimal_18_python ?rows (1, 3) None (Some sample_horizon) = Inr st"
    by (cases "compute_fold_stats COMPUTE_CONTEXT render_decimal_18_python ?rows (1, 3) None (Some sample_horizon)") auto
  show ?thesis
    using fold_stats_of_built_table[OF sample_rows sample_horizon_def _ _ n st] st
    by (simp add: sample_research_row_def Let_def numeral_2_eq_2)
qed

theorem walkforward_no_leak_witness:
  "\<exists>rows'. build_research_rows (take 2 sample_parents) (Some sample_horizon) = Inr rows'
     \<and> rows' ! 0 = sample_research_row 0 True False"
proof -
  have n: "int (length sample_parents) = 3" by code_simp
  let ?f = "make_fold 0 1 1 (2, 3)"
  have "\<exists>part. build_walkforward_folds 3 1 0 1 = Some (Inr part) \<and> ?f \<in> set (fold_list part)"
    by (simp add: build_folds_eq block_range_nth Let_def) (rule image_eqI[of _ _ 1]; simp add: block_range_nth)
  then obtain part where part: "build_walkforward_folds (int (length sample_parents)) 1 0 1 = Some (Inr part)"
    "?f \<in> set (fold_list part)" by (auto simp: n)
  have "1 = label_horizon (case Some sample_horizon of None \<Rightarrow> APPROVED_PARAMETERS | Some q \<Rightarrow> q)" by (simp add: sample_horizon_def)
  from walkforward_no_leak[OF sample_rows this _ _ _ part] show ?thesis by auto
qed

end
