(* ===== verification/Validation_Quality.thy ===== *)
theory Validation_Quality
  imports Fold_Stats
begin

text \<open>
  Quality evaluation of walk-forward folds and their statistics (src/quantara/validation_quality.py).
  The coverage dictionary of a partition has the three fields the fold builder writes. Texts of
  returns are read as the signed fixed-point numbers the 18-digit renderer prints (\<open>read_decimal\<close>). Lemmas: the gate
  passes exactly on disjoint, leak-free folds with the predicted statistics; on what the engines
  build, only the comparison of the rounded mean with the extremes can fail.
\<close>

section \<open>Reading rendered returns\<close>

definition read_optional :: "string option \<Rightarrow> dec option" where
  "read_optional v = (case v of None \<Rightarrow> None | Some s \<Rightarrow> read_decimal s)"

section \<open>The evaluator\<close>

definition validation_state :: "finding list \<Rightarrow> string" where
  "validation_state fs = (if \<exists>f \<in> set fs. f_outcome f \<noteq> Pass then ''FAIL'' else ''PASS'')"

definition validation_failing_checks :: "finding list \<Rightarrow> string list" where
  "validation_failing_checks fs = map f_check (filter (\<lambda>f. f_outcome f \<noteq> Pass) fs)"

definition hard_finding :: "string \<Rightarrow> bool \<Rightarrow> int \<Rightarrow> (string \<times> pyval) list \<Rightarrow> finding" where
  "hard_finding cid ok n evidence =
     \<lparr>f_check = cid, f_outcome = (if ok then Pass else Fail), f_severity = Hard, f_count = n, f_evidence = evidence\<rparr>"

definition segment :: "fold \<Rightarrow> int set" where
  "segment f = {fst (test_range f)..<snd (test_range f)}"

text \<open>The scan stops at the first overlap; what it returns then is the union so far.\<close>

fun disjoint_scan :: "int set \<Rightarrow> fold list \<Rightarrow> bool \<times> int set" where
  "disjoint_scan seen [] = (True, seen)"
| "disjoint_scan seen (f # fs) =
     (if seen \<inter> segment f \<noteq> {} then (False, seen) else disjoint_scan (seen \<union> segment f) fs)"

definition leaks :: "int \<Rightarrow> int \<Rightarrow> fold \<Rightarrow> bool" where
  "leaks min_train embargo f = (case (train_range f, embargo_range f) of
      (Some (a, b), Some e) \<Rightarrow>
        b - a < min_train \<or> fst (test_range f) - b \<noteq> embargo \<or> e \<noteq> (b, fst (test_range f))
        \<or> fst (test_range f) \<le> b - 1 + embargo
    | _ \<Rightarrow> True)"

definition null_failures :: "fold_stats \<Rightarrow> int" where
  "null_failures st = count_if (\<lambda>col. map_of (s_null_counts st) col \<noteq> map_of (s_expected_nulls st) col) NULLABLE_COLUMNS"

definition sign_failure :: "fold_stats \<Rightarrow> bool res" where
  "sign_failure st = (case map_of (s_null_counts st) ''l_fwddir_24'' of
      None \<Rightarrow> Inl PyKeyError
    | Some k \<Rightarrow> Inr (sum_list (map snd (s_signs st)) \<noteq> s_row_count st - k))"

definition returns_failure :: "fold_stats \<Rightarrow> bool" where
  "returns_failure st = (case s_mean st of
      None \<Rightarrow> False
    | Some m \<Rightarrow> (case (read_decimal m, read_optional (s_min st), read_optional (s_max st)) of
        (Some mean, Some low, Some high) \<Rightarrow> \<not> (dec_le low mean \<and> dec_le mean high)
      | _ \<Rightarrow> True))"

fun time_failures :: "int option \<Rightarrow> fold_stats list \<Rightarrow> int" where
  "time_failures prev [] = 0"
| "time_failures prev (st # sts) =
     (if s_last_ms st < s_first_ms st then 1 else 0)
     + (case prev of None \<Rightarrow> 0 | Some l \<Rightarrow> if s_first_ms st \<le> l then 1 else 0)
     + time_failures (Some (s_last_ms st)) sts"

definition coverage_ok :: "fold_partition \<Rightarrow> int \<Rightarrow> bool" where
  "coverage_ok part expected =
     (let scan = disjoint_scan {} (fold_list part) in
      parent_row_count part = expected \<and> cov_total_rows part = expected
      \<and> excluded_head_rows part + cov_test_rows part = expected
      \<and> cov_fold_count part = length (fold_list part)
      \<and> fst scan \<and> int (card (snd scan)) = cov_test_rows part)"

definition evaluate_validation_quality ::
    "fold_partition \<Rightarrow> fold_stats list \<Rightarrow> int \<Rightarrow> int \<Rightarrow> int \<Rightarrow> finding list res" where
  "evaluate_validation_quality part stats expected min_train embargo =
     bindE (mapE sign_failure stats) (\<lambda>sign_flags.
     let cov = coverage_ok part expected; folds = int (length (fold_list part)); n = int (length stats);
         leakage = count_if (leaks min_train embargo) (fold_list part);
         nulls = sum_list (map null_failures stats); signs = count_if id sign_flags;
         returns = count_if returns_failure stats; late = time_failures None stats;
         count_ok = 0 < folds \<and> folds = n
     in Inr
       [hard_finding ''validation_coverage_partition'' cov (if cov then 0 else 1)
          [(''expected_parent_rows'', PyInt expected), (''partition_rows'', PyInt (parent_row_count part)),
           (''coverage'', PyDict [(cps ''total_rows'', PyInt (cov_total_rows part)),
              (cps ''fold_count'', PyInt (int (cov_fold_count part))), (cps ''test_rows'', PyInt (cov_test_rows part))]),
           (''excluded_head_rows'', PyInt (excluded_head_rows part)),
           (''segments_disjoint'', PyBool (fst (disjoint_scan {} (fold_list part))))],
        hard_finding ''validation_fold_count'' count_ok (if count_ok then 0 else 1)
          [(''fold_count'', PyInt folds), (''stats_count'', PyInt n)],
        hard_finding ''validation_fold_leakage_invariants'' (leakage = 0) leakage
          [(''min_train_size'', PyInt min_train), (''embargo'', PyInt embargo)],
        hard_finding ''validation_structural_nulls'' (nulls = 0) nulls [],
        hard_finding ''validation_sign_distribution_sum'' (signs = 0) signs [],
        hard_finding ''validation_returns_bounds'' (returns = 0) returns [],
        hard_finding ''validation_time_bounds'' (late = 0) late []])"

section \<open>What the checks say\<close>

lemma hard_finding_fields [simp]:
  "f_outcome (hard_finding c ok n ev) = (if ok then Pass else Fail)" "f_check (hard_finding c ok n ev) = c"
  by (simp_all add: hard_finding_def)

lemma disjoint_scan_iff:
  "fst (disjoint_scan seen fs) \<longleftrightarrow> (\<forall>f \<in> set fs. seen \<inter> segment f = {}) \<and> sorted_wrt (\<lambda>f g. segment f \<inter> segment g = {}) fs"
proof (induction seen fs rule: disjoint_scan.induct)
  case (2 seen f fs)
  show ?case
  proof (cases "seen \<inter> segment f = {}")
    case True
    then show ?thesis using "2.IH" by (auto simp: Int_Un_distrib2)
  qed simp
qed simp

lemma disjoint_scan_union:
  "fst (disjoint_scan seen fs) \<Longrightarrow> snd (disjoint_scan seen fs) = seen \<union> (\<Union>f \<in> set fs. segment f)"
proof (induction seen fs rule: disjoint_scan.induct)
  case (2 seen f fs)
  then show ?case by (cases "seen \<inter> segment f = {}") (simp_all add: Un_assoc)
qed simp

lemma leaks_iff:
  "\<not> leaks mt em f \<longleftrightarrow> (\<exists>a b. train_range f = Some (a, b) \<and> embargo_range f = Some (b, fst (test_range f))
     \<and> mt \<le> b - a \<and> fst (test_range f) = b + em)"
  by (auto simp: leaks_def split: option.splits)

lemma time_failures_nonneg: "0 \<le> time_failures prev sts"
  by (induction prev sts rule: time_failures.induct) (auto split: option.splits)

lemma time_failures_zero:
  "time_failures prev sts = 0 \<longleftrightarrow> (\<forall>st \<in> set sts. s_first_ms st \<le> s_last_ms st)
     \<and> successively (\<lambda>a b. s_last_ms a < s_first_ms b) sts \<and> (\<forall>l. prev = Some l \<longrightarrow> sts \<noteq> [] \<longrightarrow> l < s_first_ms (hd sts))"
proof (induction prev sts rule: time_failures.induct)
  case (2 prev st sts)
  have n: "0 \<le> time_failures (Some (s_last_ms st)) sts" by (rule time_failures_nonneg)
  have "time_failures prev (st # sts) = 0 \<longleftrightarrow> s_first_ms st \<le> s_last_ms st
      \<and> (\<forall>l. prev = Some l \<longrightarrow> l < s_first_ms st) \<and> time_failures (Some (s_last_ms st)) sts = 0"
    using n by (auto split: option.splits)
  then show ?case unfolding "2.IH" by (cases sts) (auto simp: successively_Cons)
qed simp

definition stats_ok :: "fold_stats \<Rightarrow> bool" where
  "stats_ok st \<longleftrightarrow> (\<forall>col \<in> set NULLABLE_COLUMNS. map_of (s_null_counts st) col = map_of (s_expected_nulls st) col)
     \<and> map_of (s_null_counts st) ''l_fwddir_24'' = Some (s_row_count st - sum_list (map snd (s_signs st)))
     \<and> s_first_ms st \<le> s_last_ms st"

definition returns_ok :: "fold_stats \<Rightarrow> bool" where
  "returns_ok st \<longleftrightarrow> (s_mean st \<noteq> None \<longrightarrow> (\<exists>mean low high. read_optional (s_mean st) = Some mean
     \<and> read_optional (s_min st) = Some low \<and> read_optional (s_max st) = Some high
     \<and> dval low \<le> dval mean \<and> dval mean \<le> dval high))"

lemma returns_failure_iff: "\<not> returns_failure st \<longleftrightarrow> returns_ok st"
  by (auto simp: returns_failure_def returns_ok_def read_optional_def dec_cmp split: option.splits)

lemma sum_null_failures: "sum_list (map null_failures stats) = 0 \<longleftrightarrow>
    (\<forall>st \<in> set stats. \<forall>col \<in> set NULLABLE_COLUMNS. map_of (s_null_counts st) col = map_of (s_expected_nulls st) col)"
proof (induction stats)
  case (Cons st stats)
  have pos: "0 \<le> null_failures st" for st by (simp add: null_failures_def)
  have "0 \<le> null_failures st" "0 \<le> sum_list (map null_failures stats)"
    using pos by (auto intro!: sum_list_nonneg)
  moreover have "null_failures st = 0 \<longleftrightarrow> (\<forall>col \<in> set NULLABLE_COLUMNS. map_of (s_null_counts st) col = map_of (s_expected_nulls st) col)"
    by (auto simp: null_failures_def count_if_zero list_all_iff)
  ultimately show ?case using Cons by auto
qed simp

lemma sign_flags:
  assumes "mapE sign_failure stats = Inr flags"
  shows "count_if id flags = 0 \<longleftrightarrow>
    (\<forall>st \<in> set stats. map_of (s_null_counts st) ''l_fwddir_24'' = Some (s_row_count st - sum_list (map snd (s_signs st))))"
  using assms
proof (induction stats arbitrary: flags)
  case (Cons st stats)
  then obtain b bs where b: "sign_failure st = Inr b" "mapE sign_failure stats = Inr bs" "flags = b # bs"
    by (auto simp: bindE_Inr_iff)
  moreover have "\<not> b \<longleftrightarrow> map_of (s_null_counts st) ''l_fwddir_24'' = Some (s_row_count st - sum_list (map snd (s_signs st)))"
    using b(1) by (auto simp: sign_failure_def split: option.splits)
  ultimately show ?case using Cons.IH[OF b(2)] by (auto simp: count_if_zero)
qed (simp add: count_if_def)

lemma coverage_ok_iff:
  "coverage_ok part n \<longleftrightarrow> parent_row_count part = n \<and> cov_total_rows part = n \<and> excluded_head_rows part + cov_test_rows part = n
     \<and> cov_fold_count part = length (fold_list part) \<and> sorted_wrt (\<lambda>f g. segment f \<inter> segment g = {}) (fold_list part)
     \<and> int (card (\<Union>f \<in> set (fold_list part). segment f)) = cov_test_rows part"
  using disjoint_scan_iff[of "{}" "fold_list part"] disjoint_scan_union[of "{}" "fold_list part"] by (auto simp: coverage_ok_def Let_def)

definition validation_clean :: "fold_partition \<Rightarrow> fold_stats list \<Rightarrow> int \<Rightarrow> int \<Rightarrow> int \<Rightarrow> bool" where
  "validation_clean part stats n min_train embargo \<longleftrightarrow>
     parent_row_count part = n \<and> cov_total_rows part = n \<and> excluded_head_rows part + cov_test_rows part = n
     \<and> cov_fold_count part = length (fold_list part) \<and> sorted_wrt (\<lambda>f g. segment f \<inter> segment g = {}) (fold_list part)
     \<and> int (card (\<Union>f \<in> set (fold_list part). segment f)) = cov_test_rows part
     \<and> fold_list part \<noteq> [] \<and> length stats = length (fold_list part)
     \<and> (\<forall>f \<in> set (fold_list part). \<exists>a b. train_range f = Some (a, b) \<and> embargo_range f = Some (b, fst (test_range f))
          \<and> min_train \<le> b - a \<and> fst (test_range f) = b + embargo)
     \<and> (\<forall>st \<in> set stats. stats_ok st \<and> returns_ok st)
     \<and> successively (\<lambda>a b. s_last_ms a < s_first_ms b) stats"

lemma validation_outcomes:
  assumes "evaluate_validation_quality part stats n mt em = Inr fs"
  shows "map (\<lambda>f. (f_check f, f_outcome f)) fs =
    [(''validation_coverage_partition'', if coverage_ok part n then Pass else Fail),
     (''validation_fold_count'', if fold_list part \<noteq> [] \<and> length stats = length (fold_list part) then Pass else Fail),
     (''validation_fold_leakage_invariants'', if \<forall>f \<in> set (fold_list part). \<not> leaks mt em f then Pass else Fail),
     (''validation_structural_nulls'', if \<forall>st \<in> set stats. \<forall>col \<in> set NULLABLE_COLUMNS.
         map_of (s_null_counts st) col = map_of (s_expected_nulls st) col then Pass else Fail),
     (''validation_sign_distribution_sum'', if \<forall>st \<in> set stats. map_of (s_null_counts st) ''l_fwddir_24''
         = Some (s_row_count st - sum_list (map snd (s_signs st))) then Pass else Fail),
     (''validation_returns_bounds'', if \<forall>st \<in> set stats. returns_ok st then Pass else Fail),
     (''validation_time_bounds'', if (\<forall>st \<in> set stats. s_first_ms st \<le> s_last_ms st)
         \<and> successively (\<lambda>a b. s_last_ms a < s_first_ms b) stats then Pass else Fail)]"
proof -
  obtain flags where fl: "mapE sign_failure stats = Inr flags" using assms by (auto simp: evaluate_validation_quality_def bindE_Inr_iff)
  have c: "0 < int (length (fold_list part)) \<and> int (length (fold_list part)) = int (length stats)
    \<longleftrightarrow> fold_list part \<noteq> [] \<and> length stats = length (fold_list part)" by auto
  have r: "(\<forall>st \<in> set stats. \<not> returns_failure st) \<longleftrightarrow> (\<forall>st \<in> set stats. returns_ok st)" by (simp add: returns_failure_iff)
  have t: "time_failures None stats = 0 \<longleftrightarrow> (\<forall>st \<in> set stats. s_first_ms st \<le> s_last_ms st)
      \<and> successively (\<lambda>a b. s_last_ms a < s_first_ms b) stats"
    by (simp add: time_failures_zero)
  note sg = sign_flags[OF fl, unfolded count_if_zero list_all_iff]
  have fs: "Inr fs = evaluate_validation_quality part stats n mt em" using assms by simp
  show ?thesis
    using fs by (simp only: evaluate_validation_quality_def fl bindE.simps Let_def sum.inject list.map hard_finding_fields
        c sum_null_failures sg t count_if_zero list_all_iff r)
qed

lemma validation_pass_iff:
  assumes "evaluate_validation_quality part stats n mt em = Inr fs"
  shows "validation_state fs = ''PASS'' \<longleftrightarrow> validation_clean part stats n mt em"
proof -
  have "validation_state fs = ''PASS'' \<longleftrightarrow> (\<forall>x \<in> set (map (\<lambda>f. (f_check f, f_outcome f)) fs). snd x = Pass)"
    by (auto simp: validation_state_def)
  then show ?thesis
    unfolding validation_outcomes[OF assms] validation_clean_def coverage_ok_iff leaks_iff stats_ok_def
    by (simp add: if_split_eq1 ball_conj_distrib) blast
qed

section \<open>Folds the engines build\<close>

lemma chained_segments:
  assumes "fs \<noteq> []" "successively (\<lambda>f g. snd (test_range f) = fst (test_range g)) fs"
    and "\<forall>f \<in> set fs. fst (test_range f) \<le> snd (test_range f)"
  shows "(\<Union>f \<in> set fs. segment f) = {fst (test_range (hd fs))..<snd (test_range (last fs))}
    \<and> fst (test_range (hd fs)) \<le> snd (test_range (last fs)) \<and> sorted_wrt (\<lambda>f g. segment f \<inter> segment g = {}) fs"
  using assms
proof (induction fs rule: list_nonempty_induct)
  case (cons f fs)
  then have ih: "(\<Union>f \<in> set fs. segment f) = {fst (test_range (hd fs))..<snd (test_range (last fs))}"
    "fst (test_range (hd fs)) \<le> snd (test_range (last fs))" "sorted_wrt (\<lambda>f g. segment f \<inter> segment g = {}) fs"
    and link: "snd (test_range f) = fst (test_range (hd fs))" "fst (test_range f) \<le> snd (test_range f)"
    by (auto simp: successively_Cons)
  have "segment f \<inter> segment g = {}" if "g \<in> set fs" for g
  proof -
    have "segment g \<subseteq> {fst (test_range (hd fs))..<snd (test_range (last fs))}" using that ih(1) by blast
    then show ?thesis using link by (auto simp: segment_def)
  qed
  then show ?case using ih link cons.hyps by (auto simp: segment_def)
qed (simp add: segment_def)

lemma built_stats:
  assumes "build_research_rows parents (Some p) = Inr rows" "p = APPROVED_PARAMETERS\<lparr>label_horizon := h\<rparr>"
    and "0 \<le> s" "s < e" "e \<le> int (length parents)" "sorted_wrt (<) (map r_open_ms rows)"
    and "compute_fold_stats ambient render rows (s, e) None (Some p) = Inr st"
  shows "stats_ok st" "s_first_ms st = r_open_ms (rows ! nat s)" "s_last_ms st = r_open_ms (rows ! nat (e - 1))"
proof -
  note b = fold_stats_built[OF assms(1-5,7)]
  then show f: "s_first_ms st = r_open_ms (rows ! nat s)" and l: "s_last_ms st = r_open_ms (rows ! nat (e - 1))" by simp_all
  obtain closes volumes where "extract_series parents = Inr (closes, volumes)" and len: "length rows = length parents"
    by (rule build_rows_Inr[OF assms(1)]) blast
  have "nat s \<le> nat (e - 1)" "nat (e - 1) < length (map r_open_ms rows)" using assms(3-5) len by auto
  then have "r_open_ms (rows ! nat s) \<le> r_open_ms (rows ! nat (e - 1))"
  proof (cases "nat s = nat (e - 1)")
    case False
    with \<open>nat s \<le> nat (e - 1)\<close> have lt: "nat s < nat (e - 1)" by linarith
    then have "nat s < length (map r_open_ms rows)" using \<open>nat (e - 1) < length (map r_open_ms rows)\<close> by linarith
    then show ?thesis
      using sorted_wrt_nth_less[OF assms(6) lt \<open>nat (e - 1) < length (map r_open_ms rows)\<close>]
        \<open>nat (e - 1) < length (map r_open_ms rows)\<close> by (simp only: nth_map length_map less_imp_le)
  qed simp
  moreover have "map_of (s_null_counts st) ''l_fwddir_24'' = Some (snd (last (s_null_counts st)))"
    using compute_fold_stats_Inr(3)[OF assms(7)] by (simp add: NULLABLE_COLUMNS_def column_absent_def)
  ultimately show "stats_ok st" using b f l by (auto simp: stats_ok_def)
qed

lemma sign_failures_defined: "\<forall>st \<in> set stats. stats_ok st \<Longrightarrow> \<exists>flags. mapE sign_failure stats = Inr flags"
  by (rule exI[of _ "map (\<lambda>st. False) stats"], rule mapE_all_Inr) (auto simp: sign_failure_def stats_ok_def)

lemma built_folds_outcomes:
  assumes "build_research_rows parents (Some p) = Inr rows" "p = APPROVED_PARAMETERS\<lparr>label_horizon := h\<rparr>"
    and "sorted_wrt (<) (map r_open_ms rows)" "0 < ts" "0 \<le> min_train" "0 \<le> embargo"
    and "build_walkforward_folds (int (length parents)) ts min_train embargo = Some (Inr part)"
    and "mapE (\<lambda>f. compute_fold_stats ambient render rows (test_range f) None (Some p)) (fold_list part) = Inr stats"
  shows "\<exists>fs. evaluate_validation_quality part stats (int (length parents)) min_train embargo = Inr fs
    \<and> (\<forall>f \<in> set fs. f_outcome f = Pass \<or> f_check f = ''validation_returns_bounds'')"
proof -
  let ?n = "int (length parents)" and ?fs = "fold_list part"
  have sp: "?fs \<noteq> []" "fst (test_range (hd ?fs)) = min_train + embargo" "excluded_head_rows part = min_train + embargo"
    "snd (test_range (last ?fs)) = ?n" "successively (\<lambda>f g. snd (test_range f) = fst (test_range g)) ?fs"
    "cov_fold_count part = length ?fs" "cov_test_rows part = ?n - (min_train + embargo)"
    and nth: "\<forall>i < length ?fs. fst (test_range (?fs ! i)) = min_train + embargo + int i * ts \<and> ts \<le> snd (test_range (?fs ! i)) - (min_train + embargo + int i * ts)
        \<and> train_range (?fs ! i) = Some (0, min_train + int i * ts)
        \<and> embargo_range (?fs ! i) = Some (min_train + int i * ts, min_train + embargo + int i * ts)"
    using walkforward_spec[OF assms(4,6), of ?n min_train] assms(7) by (auto simp: Let_def)
  have total: "parent_row_count part = ?n" "cov_total_rows part = ?n"
    using assms(7) build_folds_eq[OF assms(4), of ?n min_train embargo] by (auto simp: Let_def split: if_splits)
  have pos: "fst (test_range f) < snd (test_range f) \<and> 0 \<le> fst (test_range f)" if "f \<in> set ?fs" for f
  proof -
    from that obtain i where "i < length ?fs" "f = ?fs ! i" by (auto simp: in_set_conv_nth)
    moreover have "0 \<le> int i * ts" for i using assms(4) by simp
    ultimately show ?thesis using nth assms(4-6) by fastforce
  qed
  have chain: "(\<Union>f \<in> set ?fs. segment f) = {min_train + embargo..<?n}" "min_train + embargo \<le> ?n"
    "sorted_wrt (\<lambda>f g. segment f \<inter> segment g = {}) ?fs"
    using chained_segments[OF sp(1,5)] pos sp(2,4) by fastforce+
  have cov: "coverage_ok part ?n"
    unfolding coverage_ok_iff chain(1) using total sp(3,6,7) chain(2,3) by simp
  have "mt_ok": "\<not> leaks min_train embargo f" if "f \<in> set ?fs" for f
  proof -
    from that obtain i where "i < length ?fs" "f = ?fs ! i" by (auto simp: in_set_conv_nth)
    moreover have "0 \<le> int i * ts" for i using assms(4) by simp
    ultimately show ?thesis using nth by (auto simp: leaks_iff)
  qed
  have len: "length stats = length ?fs" by (rule mapE_length[OF assms(8)])
  have upper: "snd (test_range f) \<le> ?n" if "f \<in> set ?fs" for f
  proof -
    have "snd (test_range f) - 1 \<in> segment f" using pos[OF that] by (simp add: segment_def)
    then have "snd (test_range f) - 1 \<in> {min_train + embargo..<?n}" using that chain(1) by blast
    then show ?thesis by simp
  qed
  have st: "stats_ok (stats ! i)" "s_first_ms (stats ! i) = r_open_ms (rows ! nat (fst (test_range (?fs ! i))))"
    "s_last_ms (stats ! i) = r_open_ms (rows ! nat (snd (test_range (?fs ! i)) - 1))" if i: "i < length ?fs" for i
  proof -
    have "compute_fold_stats ambient render rows (fst (test_range (?fs ! i)), snd (test_range (?fs ! i))) None (Some p) = Inr (stats ! i)"
      using mapE_nth[OF assms(8) i] by simp
    note b = built_stats[OF assms(1,2) _ _ _ assms(3) this]
    show "stats_ok (stats ! i)" "s_first_ms (stats ! i) = r_open_ms (rows ! nat (fst (test_range (?fs ! i))))"
      "s_last_ms (stats ! i) = r_open_ms (rows ! nat (snd (test_range (?fs ! i)) - 1))"
      using b pos[of "?fs ! i"] upper[of "?fs ! i"] i by auto
  qed
  have ok: "\<forall>st \<in> set stats. stats_ok st" using st(1) len by (auto simp: in_set_conv_nth)
  obtain closes volumes where "extract_series parents = Inr (closes, volumes)" and rlen: "length rows = length parents"
    by (rule build_rows_Inr[OF assms(1)]) blast
  have times: "successively (\<lambda>a b. s_last_ms a < s_first_ms b) stats"
    unfolding successively_conv_nth
  proof (intro allI impI)
    fix i assume i: "Suc i < length stats"
    let ?e = "snd (test_range (?fs ! i))"
    have link: "fst (test_range (?fs ! Suc i)) = ?e" using sp(5) i len unfolding successively_conv_nth by simp
    have m: "?fs ! i \<in> set ?fs" "?fs ! Suc i \<in> set ?fs" using i len by auto
    have "nat (?e - 1) < nat ?e" "nat ?e < length (map r_open_ms rows)"
      using pos[OF m(1)] pos[OF m(2)] upper[OF m(2)] link rlen by auto
    then have "r_open_ms (rows ! nat (?e - 1)) < r_open_ms (rows ! nat ?e)"
      using sorted_wrt_nth_less[OF assms(3), of "nat (?e - 1)" "nat ?e"] by simp
    then show "s_last_ms (stats ! i) < s_first_ms (stats ! Suc i)" using st(2)[of "Suc i"] st(3)[of i] i len link by simp
  qed
  obtain flags where fl: "mapE sign_failure stats = Inr flags" using sign_failures_defined[OF ok] by blast
  then obtain fs where fs: "evaluate_validation_quality part stats ?n min_train embargo = Inr fs"
    by (simp add: evaluate_validation_quality_def Let_def)
  have "\<forall>x \<in> set (map (\<lambda>f. (f_check f, f_outcome f)) fs). snd x = Pass \<or> fst x = ''validation_returns_bounds''"
    unfolding validation_outcomes[OF fs] using cov sp(1) len mt_ok ok times by (simp add: stats_ok_def)
  then show ?thesis using fs by auto
qed

section \<open>Properties\<close>

text \<open>C26: whoever built the folds, a passing verdict rules leakage out: in every fold each training index
  lies more than the embargo before each test index and the training range has the minimum length;
  test segments are pairwise disjoint and, with the head, count every parent row once; and every
  segment has exactly the designed empty cells and a mean between its extremes.\<close>

theorem validation_pass_rules_out_leakage:
  assumes "evaluate_validation_quality part stats n min_train embargo = Inr fs" "validation_state fs = ''PASS''"
  shows "(\<forall>f \<in> set (fold_list part). \<exists>a b. train_range f = Some (a, b) \<and> min_train \<le> b - a
        \<and> (\<forall>i \<in> {a..<b}. \<forall>j \<in> segment f. i + embargo < j))
    \<and> sorted_wrt (\<lambda>f g. segment f \<inter> segment g = {}) (fold_list part)
    \<and> excluded_head_rows part + int (card (\<Union>f \<in> set (fold_list part). segment f)) = n
    \<and> length stats = length (fold_list part) \<and> fold_list part \<noteq> []
    \<and> (\<forall>st \<in> set stats. returns_ok st
         \<and> (\<forall>col \<in> set NULLABLE_COLUMNS. map_of (s_null_counts st) col = map_of (s_expected_nulls st) col))"
proof -
  have c: "validation_clean part stats n min_train embargo" using assms validation_pass_iff by blast
  have "\<exists>a b. train_range f = Some (a, b) \<and> min_train \<le> b - a \<and> (\<forall>i \<in> {a..<b}. \<forall>j \<in> segment f. i + embargo < j)"
    if "f \<in> set (fold_list part)" for f
    using c that unfolding validation_clean_def segment_def by fastforce
  then show ?thesis using c by (simp add: validation_clean_def stats_ok_def)
qed

definition sample_fold_stats :: fold_stats where
  "sample_fold_stats = \<lparr>s_row_count = 1, s_first_ms = 120000, s_last_ms = 120000, s_null_counts = zip NULLABLE_COLUMNS (replicate 6 0),
     s_expected_nulls = zip NULLABLE_COLUMNS (replicate 6 0), s_signs = [(''-1'', 0), (''0'', 0), (''1'', 1)],
     s_mean = Some ''0.5'', s_min = Some ''-0.25'', s_max = Some ''1.0''\<rparr>"

definition sample_partition :: fold_partition where
  "sample_partition = \<lparr>parent_row_count = 3, excluded_head_rows = 2, fold_list = [make_fold 1 1 0 (2, 3)],
     cov_total_rows = 3, cov_fold_count = 1, cov_test_rows = 1\<rparr>"

theorem validation_pass_rules_out_leakage_witness:
  "\<exists>fs. evaluate_validation_quality sample_partition [sample_fold_stats] 3 1 1 = Inr fs \<and> validation_state fs = ''PASS''
     \<and> returns_ok sample_fold_stats"
proof -
  have "case evaluate_validation_quality sample_partition [sample_fold_stats] 3 1 1 of Inl _ \<Rightarrow> False
    | Inr fs \<Rightarrow> validation_state fs = ''PASS''" by code_simp
  then obtain fs where fs: "evaluate_validation_quality sample_partition [sample_fold_stats] 3 1 1 = Inr fs"
    "validation_state fs = ''PASS''" by (auto split: sum.splits)
  from validation_pass_rules_out_leakage[OF fs] fs show ?thesis by simp
qed

text \<open>The engines never block their own publication by these gates except through rounding: for a
  research table with ascending times, the folds built on it and the statistics computed on their
  segments, every check passes, save possibly the one that compares the rounded mean return with the
  extremes.\<close>

theorem built_folds_pass:
  assumes "build_research_rows parents (Some p) = Inr rows" "p = APPROVED_PARAMETERS\<lparr>label_horizon := h\<rparr>"
    and "sorted_wrt (<) (map r_open_ms rows)" "0 < ts" "0 \<le> min_train" "0 \<le> embargo"
    and "build_walkforward_folds (int (length parents)) ts min_train embargo = Some (Inr part)"
    and "mapE (\<lambda>f. compute_fold_stats ambient render rows (test_range f) None (Some p)) (fold_list part) = Inr stats"
  shows "\<exists>fs. evaluate_validation_quality part stats (int (length parents)) min_train embargo = Inr fs
    \<and> (\<forall>f \<in> set fs. f_outcome f = Pass \<or> f_check f = ''validation_returns_bounds'')"
  by (rule built_folds_outcomes[OF assms])

theorem built_folds_pass_witness:
  "\<exists>part stats fs. build_walkforward_folds 3 1 0 1 = Some (Inr part)
     \<and> mapE (\<lambda>f. compute_fold_stats COMPUTE_CONTEXT render_decimal_18_python [sample_research_row 0 True False,
         sample_research_row 60000 False False, sample_research_row 120000 False True] (test_range f) None (Some sample_horizon))
         (fold_list part) = Inr stats
     \<and> evaluate_validation_quality part stats 3 0 1 = Inr fs
     \<and> (\<exists>f \<in> set fs. f_check f = ''validation_time_bounds'' \<and> f_outcome f = Pass)"
proof -
  let ?rows = "[sample_research_row 0 True False, sample_research_row 60000 False False, sample_research_row 120000 False True]"
  let ?part = "\<lparr>parent_row_count = 3, excluded_head_rows = 1, fold_list = [make_fold 0 1 0 (1, 2), make_fold 0 1 1 (2, 3)],
     cov_total_rows = 3, cov_fold_count = 2, cov_test_rows = 2\<rparr>"
  let ?m = "mapE (\<lambda>f. compute_fold_stats COMPUTE_CONTEXT render_decimal_18_python ?rows (test_range f) None (Some sample_horizon)) (fold_list ?part)"
  have n: "int (length sample_parents) = 3" by code_simp
  have part: "build_walkforward_folds 3 1 0 1 = Some (Inr ?part)"
    by (simp add: build_folds_eq block_ranges_def Let_def upt_conv_Cons)
  have "is_err ?m = False" by code_simp
  then obtain stats where st: "?m = Inr stats" by (cases ?m) auto
  have asc: "sorted_wrt (<) (map r_open_ms ?rows)" by (simp add: sample_research_row_def Let_def)
  obtain fs where fs: "evaluate_validation_quality ?part stats 3 0 1 = Inr fs"
    "\<forall>f \<in> set fs. f_outcome f = Pass \<or> f_check f = ''validation_returns_bounds''"
    using built_folds_pass[OF sample_rows sample_horizon_def asc _ _ _ _ st, of 1 0 1] part n by auto
  have "(''validation_time_bounds'', Pass) \<in> (\<lambda>f. (f_check f, f_outcome f)) ` set fs"
  proof -
    have "''validation_time_bounds'' \<in> fst ` set (map (\<lambda>f. (f_check f, f_outcome f)) fs)"
      unfolding validation_outcomes[OF fs(1)] by simp
    then show ?thesis using fs(2) by force
  qed
  then have "\<exists>f \<in> set fs. f_check f = ''validation_time_bounds'' \<and> f_outcome f = Pass" by auto
  with part st fs(1) show ?thesis by blast
qed

end
