(* ===== verification/Research_Descriptor.thy ===== *)
theory Research_Descriptor
  imports Derive_Descriptor Features
begin

text \<open>
  The research-table descriptor (src/quantara/research_descriptor.py): everything it names is bound
  to the derived descriptor it references, its parameters are the approved ones, and a base with
  too few rows is refused. \<open>derived_of\<close> reads the document the \<open>base_descriptor\<close> path resolves to.
\<close>

definition RESEARCH_SCHEMA :: string where "RESEARCH_SCHEMA = ''quantara.research-descriptor/v1''"
definition RESEARCH_DATASET_TYPE :: string where "RESEARCH_DATASET_TYPE = ''research_table''"
definition FEATURE_SET_NAME :: string where "FEATURE_SET_NAME = ''btcusdt_core_v1''"
definition FEATURE_SET_VERSION :: string where "FEATURE_SET_VERSION = ''1''"
definition RESEARCH_TABLE_VERSION :: string where "RESEARCH_TABLE_VERSION = ''quantara_research_featureset_v1''"
definition RESEARCH_POLICY_VERSION :: string where "RESEARCH_POLICY_VERSION = ''1''"
definition APPROVED_LEGAL_RECORD :: string where
  "APPROVED_LEGAL_RECORD = ''configs/legal/binance-usdm-provider-rights.v2.yaml''"

definition RESEARCH_KEYS :: "string list" where
  "RESEARCH_KEYS = [''schema'', ''dataset_id'', ''dataset_type'', ''provider'', ''instrument_id'', ''base_dataset_id'',
     ''base_descriptor'', ''period'', ''feature_set'', ''parameters'', ''schema_version'',
     ''quality_policy_version'', ''legal_record'']"

definition PARAMETER_VALUES :: "(string \<times> nat) list" where
  "PARAMETER_VALUES = [(''roc_window'', roc_window APPROVED_PARAMETERS), (''vol_window'', vol_window APPROVED_PARAMETERS),
     (''volume_window'', volume_window APPROVED_PARAMETERS), (''label_horizon'', label_horizon APPROVED_PARAMETERS)]"

definition minimum_parent_rows :: "parameters \<Rightarrow> nat" where
  "minimum_parent_rows p = max (roc_window p) (vol_window p) + label_horizon p"

definition MINIMUM_PARENT_ROWS :: nat where
  "MINIMUM_PARENT_ROWS = minimum_parent_rows APPROVED_PARAMETERS"

record research_descriptor =
  rd_dataset_id :: ustr
  rd_start :: utc
  rd_end :: utc
  rd_base_path :: ustr
  rd_parameters :: parameters
  rd_minimum_rows :: nat
  rd_base :: derived_descriptor

definition research_semantics :: "research_descriptor \<Rightarrow> ustr res" where
  "research_semantics r =
     (let b = dd_base (rd_base r) in
      canonicalize (PyDict
       [(cps ''schema'', py_str RESEARCH_SCHEMA), (cps ''dataset_id'', PyStr (rd_dataset_id r)),
        (cps ''dataset_type'', py_str RESEARCH_DATASET_TYPE), (cps ''provider'', py_str (provider b)),
        (cps ''instrument_id'', py_str (instrument_id b)), (cps ''base_dataset_id'', dd_dataset_id (rd_base r)),
        (cps ''base_descriptor'', PyStr (rd_base_path r)), (cps ''period'', period_dict (rd_start r) (rd_end r)),
        (cps ''feature_set'', PyDict [(cps ''name'', py_str FEATURE_SET_NAME), (cps ''version'', py_str FEATURE_SET_VERSION)]),
        (cps ''parameters'', PyDict (map (\<lambda>(k, n). (cps k, PyInt (int n))) PARAMETER_VALUES)),
        (cps ''schema_version'', py_str RESEARCH_TABLE_VERSION),
        (cps ''quality_policy_version'', py_str RESEARCH_POLICY_VERSION),
        (cps ''legal_record'', py_str APPROVED_LEGAL_RECORD)]))"

text \<open>\<open>^[a-z0-9_]+$\<close> with \<open>fullmatch\<close>, where \<open>$\<close> leaves no newline over.\<close>

definition dataset_id_shape :: "ustr \<Rightarrow> bool" where
  "dataset_id_shape s \<longleftrightarrow> s \<noteq> [] \<and> list_all (\<lambda>c. lower_alnum c \<or> c = 95) s"

definition check_parameters :: "pyval option \<Rightarrow> unit res" where
  "check_parameters v = (case v of
      Some (PyDict kvs) \<Rightarrow>
        bindE (checkE (keys_of kvs \<subseteq> set (map (cps \<circ> fst) PARAMETER_VALUES)) UnsupportedParameter) (\<lambda>_.
        bindE (checkE (set (map (cps \<circ> fst) PARAMETER_VALUES) \<subseteq> keys_of kvs) UnsupportedParameter) (\<lambda>_.
        checkE (list_all (\<lambda>(k, n). py_get kvs k = Some (PyInt (int n))) PARAMETER_VALUES) UnsupportedParameter))
    | _ \<Rightarrow> Inl DescriptorError)"

text \<open>Only the program's own errors of the base loader are rewrapped.\<close>

definition rewrap :: "'a res \<Rightarrow> 'a res" where
  "rewrap m = (case m of Inl e \<Rightarrow> Inl (if is_quantara_error e then DescriptorError else e) | Inr x \<Rightarrow> Inr x)"

definition research_period :: "pyval option \<Rightarrow> derived_descriptor \<Rightarrow> (utc \<times> utc) res" where
  "research_period v base = (case v of
      Some (PyDict kvs) \<Rightarrow>
        bindE (require (keys_of kvs = {cps ''start'', cps ''end''})) (\<lambda>_.
        bindE (parse_utc (py_get kvs ''start'')) (\<lambda>su.
        bindE (parse_utc (py_get kvs ''end'')) (\<lambda>eu.
        bindE (require ((su, eu) = (dd_start base, dd_end base))) (\<lambda>_. Inr (su, eu)))))
    | _ \<Rightarrow> Inl DescriptorError)"

definition load_research_descriptor ::
    "(string \<Rightarrow> bool) \<Rightarrow> (ustr \<Rightarrow> bool) \<Rightarrow> (pyval \<Rightarrow> ustr) \<Rightarrow> (ustr \<Rightarrow> pyval option) \<Rightarrow> (ustr \<Rightarrow> pyval option)
       \<Rightarrow> pyval \<Rightarrow> research_descriptor res" where
  "load_research_descriptor path_ok approval_ok text_of base_of derived_of document = (case document of
      PyDict doc \<Rightarrow>
        bindE (require (keys_of doc \<subseteq> set (map cps RESEARCH_KEYS))) (\<lambda>_.
        bindE (require (set (map cps RESEARCH_KEYS) \<subseteq> keys_of doc)) (\<lambda>_.
        bindE (require (py_get doc ''schema'' = Some (py_str RESEARCH_SCHEMA))) (\<lambda>_.
        bindE (require (py_get doc ''dataset_type'' = Some (py_str RESEARCH_DATASET_TYPE))) (\<lambda>_.
        let path = py_text text_of (the (py_get doc ''base_descriptor'')) in
        bindE (case derived_of path of None \<Rightarrow> Inl PyOSError | Some v \<Rightarrow> Inr v) (\<lambda>derived_document.
        bindE (rewrap (load_derived_descriptor path_ok approval_ok text_of base_of derived_document)) (\<lambda>base.
        bindE (require (py_get doc ''provider'' = Some (py_str (provider (dd_base base))))) (\<lambda>_.
        bindE (require (py_get doc ''instrument_id'' = Some (py_str (instrument_id (dd_base base))))) (\<lambda>_.
        let expected = py_text text_of (dd_dataset_id base) @ cps ''_research_core_v1'' in
        bindE (require (dataset_id_shape expected \<and> py_get doc ''dataset_id'' = Some (PyStr expected))) (\<lambda>_.
        bindE (require (py_get doc ''base_dataset_id'' = Some (dd_dataset_id base))) (\<lambda>_.
        bindE (research_period (py_get doc ''period'') base) (\<lambda>(su, eu).
        bindE (require (named_version_block text_of FEATURE_SET_NAME FEATURE_SET_VERSION (py_get doc ''feature_set''))) (\<lambda>_.
        bindE (check_parameters (py_get doc ''parameters'')) (\<lambda>_.
        bindE (require (py_get doc ''schema_version'' = Some (py_str RESEARCH_TABLE_VERSION))) (\<lambda>_.
        bindE (require (py_text text_of (the (py_get doc ''quality_policy_version'')) = cps RESEARCH_POLICY_VERSION)) (\<lambda>_.
        bindE (require (py_get doc ''legal_record'' = Some (py_str APPROVED_LEGAL_RECORD))) (\<lambda>_.
        bindE (checkE (int MINIMUM_PARENT_ROWS \<le> derived_row_count base) UndersizedBaseDataset) (\<lambda>_.
        Inr \<lparr>rd_dataset_id = expected, rd_start = su, rd_end = eu, rd_base_path = path,
             rd_parameters = APPROVED_PARAMETERS, rd_minimum_rows = MINIMUM_PARENT_ROWS, rd_base = base\<rparr>)))))))))))))))))
    | _ \<Rightarrow> Inl DescriptorError)"

section \<open>Properties\<close>

lemma rewrap_Inr [simp]: "rewrap m = Inr x \<longleftrightarrow> m = Inr x"
  by (cases m) (auto simp: rewrap_def)

lemma load_research_Inr:
  assumes "load_research_descriptor path_ok approval_ok text_of base_of derived_of document = Inr r"
  shows "\<exists>v. derived_of (rd_base_path r) = Some v \<and> load_derived_descriptor path_ok approval_ok text_of base_of v = Inr (rd_base r)"
    and "rd_start r = dd_start (rd_base r)" "rd_end r = dd_end (rd_base r)"
    and "rd_parameters r = APPROVED_PARAMETERS" "84 \<le> derived_row_count (rd_base r)"
    and "rd_dataset_id r = py_text text_of (dd_dataset_id (rd_base r)) @ cps ''_research_core_v1''"
proof -
  from assms obtain doc where doc: "document = PyDict doc" by (cases document) (auto simp: load_research_descriptor_def)
  have "MINIMUM_PARENT_ROWS = 84"
    by (simp add: MINIMUM_PARENT_ROWS_def minimum_parent_rows_def APPROVED_PARAMETERS_def)
  then obtain v where "derived_of (rd_base_path r) = Some v"
    "load_derived_descriptor path_ok approval_ok text_of base_of v = Inr (rd_base r)"
    "research_period (py_get doc ''period'') (rd_base r) = Inr (rd_start r, rd_end r)"
    "rd_parameters r = APPROVED_PARAMETERS" "84 \<le> derived_row_count (rd_base r)"
    "rd_dataset_id r = py_text text_of (dd_dataset_id (rd_base r)) @ cps ''_research_core_v1''"
    using assms by (auto simp: load_research_descriptor_def doc bindE_require bindE_Inr_iff Let_def checkE_Inr_iff split: option.splits)
  then show "\<exists>v. derived_of (rd_base_path r) = Some v \<and> load_derived_descriptor path_ok approval_ok text_of base_of v = Inr (rd_base r)"
    "rd_start r = dd_start (rd_base r)" "rd_end r = dd_end (rd_base r)"
    "rd_parameters r = APPROVED_PARAMETERS" "84 \<le> derived_row_count (rd_base r)"
    "rd_dataset_id r = py_text text_of (dd_dataset_id (rd_base r)) @ cps ''_research_core_v1''"
    by (auto simp: research_period_def bindE_require bindE_Inr_iff split: option.splits pyval.splits)
qed

text \<open>C23: an accepted research descriptor hangs on a chain of accepted documents: its base is an accepted
  derived descriptor and that one's base an accepted dataset descriptor; all three have the same
  period; the bars of the derived dataset tile the base's minutes exactly; there are at least 84 of
  them, enough for one row with all features and labels; and the parameters are the approved ones.\<close>

theorem research_descriptor_chain:
  assumes "load_research_descriptor path_ok approval_ok text_of base_of derived_of document = Inr r"
  shows "\<exists>dv bv. derived_of (rd_base_path r) = Some dv
    \<and> load_derived_descriptor path_ok approval_ok text_of base_of dv = Inr (rd_base r)
    \<and> base_of (dd_base_path (rd_base r)) = Some bv \<and> load_descriptor path_ok bv = Inr (dd_base (rd_base r))
    \<and> (rd_start r, rd_end r) = (start_utc (dd_base (rd_base r)), end_utc (dd_base (rd_base r)))
    \<and> derived_row_count (rd_base r) * dd_timeframe_ms (rd_base r) = 60000 * expected_row_count (dd_base (rd_base r))
    \<and> dd_timeframe_ms (rd_base r) \<in> {3600000, 86400000}
    \<and> 84 \<le> derived_row_count (rd_base r) \<and> rd_parameters r = APPROVED_PARAMETERS"
proof -
  note l = load_research_Inr[OF assms]
  then obtain dv where dv: "derived_of (rd_base_path r) = Some dv"
    "load_derived_descriptor path_ok approval_ok text_of base_of dv = Inr (rd_base r)" by blast
  note d = load_derived_Inr[OF dv(2)]
  obtain bv where bv: "base_of (dd_base_path (rd_base r)) = Some bv" "load_descriptor path_ok bv = Inr (dd_base (rd_base r))"
    using d(2) by blast
  have tf: "dd_timeframe_ms (rd_base r) \<in> {3600000, 86400000}" using d(1) by (auto simp: SUPPORTED_TIMEFRAMES_def)
  define len where "len = epoch_seconds (end_utc (dd_base (rd_base r))) - epoch_seconds (start_utc (dd_base (rd_base r)))"
  have prod: "derived_row_count (rd_base r) * dd_timeframe_ms (rd_base r) = 1000 * len"
    using d(3,4,6) by (simp add: len_def epoch_ms_of_def)
  then have "len = derived_row_count (rd_base r) * 3600 \<or> len = derived_row_count (rd_base r) * 86400" using tf by auto
  then have "60 dvd len"
  proof
    assume "len = derived_row_count (rd_base r) * 3600"
    then show ?thesis by (intro dvdI[of _ _ "derived_row_count (rd_base r) * 60"]) simp
  next
    assume "len = derived_row_count (rd_base r) * 86400"
    then show ?thesis by (intro dvdI[of _ _ "derived_row_count (rd_base r) * 1440"]) simp
  qed
  then have "len = 60 * expected_row_count (dd_base (rd_base r))" by (simp add: expected_row_count_def len_def)
  then have "derived_row_count (rd_base r) * dd_timeframe_ms (rd_base r) = 60000 * expected_row_count (dd_base (rd_base r))"
    using prod by simp
  moreover have "(rd_start r, rd_end r) = (start_utc (dd_base (rd_base r)), end_utc (dd_base (rd_base r)))"
    using l(2,3) d(3,4) by simp
  ultimately show ?thesis using dv bv tf l(4,5) by blast
qed

text \<open>The hourly dataset and the research table of the first quarter of 2024.\<close>

definition sample_derived_document :: pyval where
  "sample_derived_document = PyDict (
     [(cps ''schema'', py_str DERIVED_SCHEMA), (cps ''dataset_id'', py_str ''q1_1h'')]
     @ map (\<lambda>k. (cps k, py_str (the (map_of COMMON_APPROVED_IDENTITIES k)))) IDENTITY_FIELDS
     @ [(cps ''interval'', py_str ''1h''), (cps ''base_dataset_id'', py_str ID_2024_Q1), (cps ''base_descriptor'', py_str ''q1.yaml''),
        (cps ''period'', PyDict [(cps ''start'', py_str ''2024-01-01T00:00:00Z''), (cps ''end'', py_str ''2024-04-01T00:00:00Z'')]),
        (cps ''transformation'', PyDict [(cps ''name'', py_str TRANSFORMATION_NAME), (cps ''version'', PyInt 1)]),
        (cps ''schema_version'', py_str ''binance_usdm_kline_1h_v1''), (cps ''timestamp_semantics'', py_str ''closed_interval_v1''),
        (cps ''quality_policy_version'', py_str ''1''), (cps ''legal_record'', py_str ''configs/legal/binance.yaml'')])"

definition sample_research_document :: pyval where
  "sample_research_document = PyDict
     [(cps ''schema'', py_str RESEARCH_SCHEMA), (cps ''dataset_id'', py_str ''q1_1h_research_core_v1''),
      (cps ''dataset_type'', py_str RESEARCH_DATASET_TYPE), (cps ''provider'', py_str ''binance''),
      (cps ''instrument_id'', py_str ''binance:usd_m_futures:BTCUSDT:perpetual''),
      (cps ''base_dataset_id'', py_str ''q1_1h''), (cps ''base_descriptor'', py_str ''q1_1h.yaml''),
      (cps ''period'', PyDict [(cps ''start'', py_str ''2024-01-01T00:00:00Z''), (cps ''end'', py_str ''2024-04-01T00:00:00Z'')]),
      (cps ''feature_set'', PyDict [(cps ''name'', py_str FEATURE_SET_NAME), (cps ''version'', py_str ''1'')]),
      (cps ''parameters'', PyDict (map (\<lambda>(k, n). (cps k, PyInt (int n))) PARAMETER_VALUES)),
      (cps ''schema_version'', py_str RESEARCH_TABLE_VERSION), (cps ''quality_policy_version'', py_str ''1''),
      (cps ''legal_record'', py_str APPROVED_LEGAL_RECORD)]"

theorem research_descriptor_chain_witness:
  "\<exists>r. load_research_descriptor (\<lambda>_. True) (\<lambda>_. True) (\<lambda>_. []) (\<lambda>_. Some sample_document)
         (\<lambda>_. Some sample_derived_document) sample_research_document = Inr r
     \<and> derived_row_count (rd_base r) = 2184 \<and> expected_row_count (dd_base (rd_base r)) = 131040"
proof -
  let ?m = "load_research_descriptor (\<lambda>_. True) (\<lambda>_. True) (\<lambda>_. []) (\<lambda>_. Some sample_document)
         (\<lambda>_. Some sample_derived_document) sample_research_document"
  have "case ?m of Inl _ \<Rightarrow> False | Inr r \<Rightarrow> expected_row_count (dd_base (rd_base r)) = 131040 \<and> dd_timeframe_ms (rd_base r) = 3600000"
    by code_simp
  then obtain r where r: "?m = Inr r" "expected_row_count (dd_base (rd_base r)) = 131040" "dd_timeframe_ms (rd_base r) = 3600000"
    by (auto split: sum.splits)
  have "derived_row_count (rd_base r) * 3600000 = 60000 * 131040"
    using research_descriptor_chain[OF r(1)] r(2,3) by auto
  then show ?thesis using r by (intro exI[of _ r]) simp
qed

end
