(* ===== verification/Validation_Descriptor.thy ===== *)
theory Validation_Descriptor
  imports Research_Descriptor Folds
begin

text \<open>
  The validation-folds descriptor (src/quantara/validation_descriptor.py): bound to a research
  descriptor, with the approved fold parameters, the embargo taken from the parent's label horizon
  and a lower bound on the parent's rows. \<open>research_of\<close> reads the document the \<open>parent_descriptor\<close>
  path resolves to. Lemma: what the loader accepts, the fold builder can split.
\<close>

definition VALIDATION_SCHEMA :: string where "VALIDATION_SCHEMA = ''quantara.validation-descriptor/v1''"
definition VALIDATION_DATASET_TYPE :: string where "VALIDATION_DATASET_TYPE = ''validation_folds''"
definition VALIDATION_SCHEME :: string where "VALIDATION_SCHEME = ''anchored_walkforward_v1''"
definition FOLD_SET_NAME :: string where "FOLD_SET_NAME = ''btcusdt_core_v1_wf72_v1''"
definition FOLD_SET_VERSION :: string where "FOLD_SET_VERSION = ''1''"
definition VALIDATION_TABLE_VERSION :: string where "VALIDATION_TABLE_VERSION = ''quantara_validation_folds_v1''"
definition VALIDATION_POLICY_VERSION :: string where "VALIDATION_POLICY_VERSION = ''1''"

definition VALIDATION_PARAMETERS :: "(string \<times> int) list" where
  "VALIDATION_PARAMETERS = [(''test_size'', 72), (''min_train_size'', 336)]"

definition VALIDATION_KEYS :: "string list" where
  "VALIDATION_KEYS = [''schema'', ''dataset_id'', ''dataset_type'', ''provider'', ''instrument_id'', ''base_dataset_id'',
     ''parent_descriptor'', ''period'', ''feature_set'', ''scheme'', ''fold_set'', ''parameters'', ''schema_version'',
     ''quality_policy_version'', ''legal_record'']"

definition minimum_fold_rows :: "(string \<Rightarrow> int) \<Rightarrow> int \<Rightarrow> int" where
  "minimum_fold_rows ps embargo = ps ''min_train_size'' + embargo + ps ''test_size''"

definition MINIMUM_FOLD_ROWS :: int where
  "MINIMUM_FOLD_ROWS = minimum_fold_rows (\<lambda>k. the (map_of VALIDATION_PARAMETERS k)) 24"

record validation_descriptor =
  vd_dataset_id :: ustr
  vd_start :: utc
  vd_end :: utc
  vd_parent_path :: ustr
  vd_test_size :: int
  vd_min_train :: int
  vd_embargo :: int
  vd_minimum_rows :: int
  vd_parent :: research_descriptor

definition validation_semantics :: "validation_descriptor \<Rightarrow> ustr res" where
  "validation_semantics v =
     (let b = dd_base (rd_base (vd_parent v)) in
      canonicalize (PyDict
       [(cps ''schema'', py_str VALIDATION_SCHEMA), (cps ''dataset_id'', PyStr (vd_dataset_id v)),
        (cps ''dataset_type'', py_str VALIDATION_DATASET_TYPE), (cps ''provider'', py_str (provider b)),
        (cps ''instrument_id'', py_str (instrument_id b)), (cps ''base_dataset_id'', dd_dataset_id (rd_base (vd_parent v))),
        (cps ''parent_descriptor'', PyStr (vd_parent_path v)), (cps ''period'', period_dict (vd_start v) (vd_end v)),
        (cps ''feature_set'', PyDict [(cps ''name'', py_str FEATURE_SET_NAME), (cps ''version'', py_str FEATURE_SET_VERSION)]),
        (cps ''scheme'', py_str VALIDATION_SCHEME),
        (cps ''fold_set'', PyDict [(cps ''name'', py_str FOLD_SET_NAME), (cps ''version'', py_str FOLD_SET_VERSION)]),
        (cps ''parameters'', PyDict [(cps ''test_size'', PyInt (vd_test_size v)), (cps ''min_train_size'', PyInt (vd_min_train v))]),
        (cps ''schema_version'', py_str VALIDATION_TABLE_VERSION),
        (cps ''quality_policy_version'', py_str VALIDATION_POLICY_VERSION),
        (cps ''legal_record'', py_str APPROVED_LEGAL_RECORD)]))"

text \<open>An undersized base is reported as an undersized parent, other errors of the program are rewrapped.\<close>

definition rewrap_parent :: "'a res \<Rightarrow> 'a res" where
  "rewrap_parent m = (case m of
      Inl e \<Rightarrow> Inl (if e = UndersizedBaseDataset then UndersizedParentDataset
                     else if is_quantara_error e then DescriptorError else e)
    | Inr x \<Rightarrow> Inr x)"

definition same_feature_set :: "pyval option \<Rightarrow> bool" where
  "same_feature_set v = (case v of
      Some (PyDict kvs) \<Rightarrow> keys_of kvs = {cps ''name'', cps ''version''}
        \<and> py_get kvs ''name'' = Some (py_str FEATURE_SET_NAME) \<and> py_get kvs ''version'' = Some (py_str FEATURE_SET_VERSION)
    | _ \<Rightarrow> False)"

definition research_parent_period :: "pyval option \<Rightarrow> research_descriptor \<Rightarrow> (utc \<times> utc) res" where
  "research_parent_period v parent' = (case v of
      Some (PyDict kvs) \<Rightarrow>
        bindE (require (keys_of kvs = {cps ''start'', cps ''end''})) (\<lambda>_.
        bindE (parse_utc (py_get kvs ''start'')) (\<lambda>su.
        bindE (parse_utc (py_get kvs ''end'')) (\<lambda>eu.
        bindE (require ((su, eu) = (rd_start parent', rd_end parent'))) (\<lambda>_. Inr (su, eu)))))
    | _ \<Rightarrow> Inl DescriptorError)"

text \<open>The embargo is never an input; every approved parameter must be there with its exact value.\<close>

definition fold_parameters :: "pyval option \<Rightarrow> (string \<Rightarrow> int) res" where
  "fold_parameters v = (case v of
      Some (PyDict kvs) \<Rightarrow>
        bindE (checkE (cps ''embargo'' \<notin> keys_of kvs) UnsupportedParameter) (\<lambda>_.
        bindE (checkE (keys_of kvs \<subseteq> set (map (cps \<circ> fst) VALIDATION_PARAMETERS)) UnsupportedParameter) (\<lambda>_.
        bindE (checkE (set (map (cps \<circ> fst) VALIDATION_PARAMETERS) \<subseteq> keys_of kvs) UnsupportedParameter) (\<lambda>_.
        bindE (checkE (list_all (\<lambda>(k, n). py_get kvs k = Some (PyInt n)) VALIDATION_PARAMETERS) UnsupportedParameter) (\<lambda>_.
        Inr (\<lambda>k. the (map_of VALIDATION_PARAMETERS k))))))
    | _ \<Rightarrow> Inl DescriptorError)"

definition load_validation_descriptor ::
    "(string \<Rightarrow> bool) \<Rightarrow> (ustr \<Rightarrow> bool) \<Rightarrow> (pyval \<Rightarrow> ustr) \<Rightarrow> (ustr \<Rightarrow> pyval option) \<Rightarrow> (ustr \<Rightarrow> pyval option)
       \<Rightarrow> (ustr \<Rightarrow> pyval option) \<Rightarrow> pyval \<Rightarrow> validation_descriptor res" where
  "load_validation_descriptor path_ok approval_ok text_of base_of derived_of research_of document = (case document of
      PyDict doc \<Rightarrow>
        bindE (require (keys_of doc \<subseteq> set (map cps VALIDATION_KEYS))) (\<lambda>_.
        bindE (require (set (map cps VALIDATION_KEYS) \<subseteq> keys_of doc)) (\<lambda>_.
        bindE (require (py_get doc ''schema'' = Some (py_str VALIDATION_SCHEMA))) (\<lambda>_.
        bindE (require (py_get doc ''dataset_type'' = Some (py_str VALIDATION_DATASET_TYPE))) (\<lambda>_.
        bindE (require (py_get doc ''scheme'' = Some (py_str VALIDATION_SCHEME))) (\<lambda>_.
        let path = py_text text_of (the (py_get doc ''parent_descriptor'')) in
        bindE (case research_of path of None \<Rightarrow> Inl PyOSError | Some v \<Rightarrow> Inr v) (\<lambda>research_document.
        bindE (rewrap_parent (load_research_descriptor path_ok approval_ok text_of base_of derived_of research_document)) (\<lambda>parent'.
        let b = dd_base (rd_base parent'); base_id = dd_dataset_id (rd_base parent') in
        bindE (require (py_get doc ''provider'' = Some (py_str (provider b)))) (\<lambda>_.
        bindE (require (py_get doc ''instrument_id'' = Some (py_str (instrument_id b)))) (\<lambda>_.
        bindE (require (py_get doc ''base_dataset_id'' = Some base_id)) (\<lambda>_.
        let expected = py_text text_of base_id @ cps ''_validation_wf_v1'' in
        bindE (require (dataset_id_shape expected \<and> py_get doc ''dataset_id'' = Some (PyStr expected))) (\<lambda>_.
        bindE (research_parent_period (py_get doc ''period'') parent') (\<lambda>(su, eu).
        bindE (require (same_feature_set (py_get doc ''feature_set''))) (\<lambda>_.
        bindE (require (rd_parameters parent' =
          \<lparr>roc_window = 60, vol_window = 20, volume_window = 20, label_horizon = 24\<rparr>)) (\<lambda>_.
        bindE (require (named_version_block text_of FOLD_SET_NAME FOLD_SET_VERSION (py_get doc ''fold_set''))) (\<lambda>_.
        bindE (fold_parameters (py_get doc ''parameters'')) (\<lambda>ps.
        let embargo = int (label_horizon (rd_parameters parent')); required = minimum_fold_rows ps embargo in
        bindE (require (py_get doc ''schema_version'' = Some (py_str VALIDATION_TABLE_VERSION))) (\<lambda>_.
        bindE (require (py_text text_of (the (py_get doc ''quality_policy_version'')) = cps VALIDATION_POLICY_VERSION)) (\<lambda>_.
        bindE (require (py_get doc ''legal_record'' = Some (py_str APPROVED_LEGAL_RECORD))) (\<lambda>_.
        bindE (checkE (required \<le> derived_row_count (rd_base parent')) UndersizedParentDataset) (\<lambda>_.
        Inr \<lparr>vd_dataset_id = expected, vd_start = su, vd_end = eu, vd_parent_path = path,
             vd_test_size = ps ''test_size'', vd_min_train = ps ''min_train_size'', vd_embargo = embargo,
             vd_minimum_rows = required, vd_parent = parent'\<rparr>))))))))))))))))))))
    | _ \<Rightarrow> Inl DescriptorError)"

section \<open>Properties\<close>

lemma rewrap_parent_Inr [simp]: "rewrap_parent m = Inr x \<longleftrightarrow> m = Inr x"
  by (cases m) (auto simp: rewrap_parent_def)

lemma load_validation_Inr:
  assumes "load_validation_descriptor path_ok approval_ok text_of base_of derived_of research_of document = Inr v"
  shows "\<exists>rv. research_of (vd_parent_path v) = Some rv
      \<and> load_research_descriptor path_ok approval_ok text_of base_of derived_of rv = Inr (vd_parent v)"
    and "vd_start v = rd_start (vd_parent v)" "vd_end v = rd_end (vd_parent v)"
    and "(vd_test_size v, vd_min_train v, vd_embargo v) = (72, 336, 24)"
    and "vd_embargo v = int (label_horizon (rd_parameters (vd_parent v)))"
    and "432 \<le> derived_row_count (rd_base (vd_parent v))"
proof -
  from assms obtain doc where doc: "document = PyDict doc" by (cases document) (auto simp: load_validation_descriptor_def)
  obtain rv ps where "research_of (vd_parent_path v) = Some rv"
    "load_research_descriptor path_ok approval_ok text_of base_of derived_of rv = Inr (vd_parent v)"
    "research_parent_period (py_get doc ''period'') (vd_parent v) = Inr (vd_start v, vd_end v)"
    "fold_parameters (py_get doc ''parameters'') = Inr ps" "vd_test_size v = ps ''test_size''"
    "vd_min_train v = ps ''min_train_size''" "vd_embargo v = int (label_horizon (rd_parameters (vd_parent v)))"
    "label_horizon (rd_parameters (vd_parent v)) = 24"
    "minimum_fold_rows ps 24 \<le> derived_row_count (rd_base (vd_parent v))"
    using assms by (auto simp: load_validation_descriptor_def doc bindE_require bindE_Inr_iff Let_def checkE_Inr_iff split: option.splits)
  moreover from this(4) have "ps = (\<lambda>k. the (map_of VALIDATION_PARAMETERS k))"
    by (auto simp: fold_parameters_def bindE_Inr_iff checkE_Inr_iff split: option.splits pyval.splits)
  moreover have "rd_start (vd_parent v) = vd_start v \<and> rd_end (vd_parent v) = vd_end v"
    using \<open>research_parent_period _ _ = _\<close>
    by (auto simp: research_parent_period_def bindE_require bindE_Inr_iff split: option.splits pyval.splits)
  ultimately show "\<exists>rv. research_of (vd_parent_path v) = Some rv
      \<and> load_research_descriptor path_ok approval_ok text_of base_of derived_of rv = Inr (vd_parent v)"
    "vd_start v = rd_start (vd_parent v)" "vd_end v = rd_end (vd_parent v)"
    "(vd_test_size v, vd_min_train v, vd_embargo v) = (72, 336, 24)"
    "vd_embargo v = int (label_horizon (rd_parameters (vd_parent v)))"
    "432 \<le> derived_row_count (rd_base (vd_parent v))"
    by (auto simp: VALIDATION_PARAMETERS_def minimum_fold_rows_def)
qed

text \<open>The loader's arithmetic is the fold builder's: for every accepted validation descriptor the
  builder, run with the descriptor's parameters on as many rows as the parent chain promises,
  returns a partition with at least one fold, its embargo is the label horizon of the parent, and the
  rows of all test segments and the head add up to the parent's rows.\<close>

theorem accepted_validation_splits:
  assumes "load_validation_descriptor path_ok approval_ok text_of base_of derived_of research_of document = Inr v"
  shows "\<exists>part. build_walkforward_folds (derived_row_count (rd_base (vd_parent v))) (vd_test_size v) (vd_min_train v) (vd_embargo v)
      = Some (Inr part)
    \<and> fold_list part \<noteq> [] \<and> vd_embargo v = int (label_horizon (rd_parameters (vd_parent v)))
    \<and> excluded_head_rows part + cov_test_rows part = derived_row_count (rd_base (vd_parent v))
    \<and> (\<forall>f \<in> set (fold_list part). \<exists>b. train_range f = Some (0, b) \<and> 336 \<le> b \<and> fst (test_range f) = b + vd_embargo v)"
proof -
  note l = load_validation_Inr[OF assms]
  have p: "vd_test_size v = 72" "vd_min_train v = 336" "vd_embargo v = 24" using l(4) by simp_all
  have "\<exists>part. build_walkforward_folds (derived_row_count (rd_base (vd_parent v))) 72 336 24 = Some (Inr part)
    \<and> fold_list part \<noteq> [] \<and> excluded_head_rows part = 360
    \<and> cov_test_rows part = derived_row_count (rd_base (vd_parent v)) - 360
    \<and> (\<forall>i < length (fold_list part). fst (test_range (fold_list part ! i)) = 360 + int i * 72
        \<and> train_range (fold_list part ! i) = Some (0, 336 + int i * 72))"
    apply (rule exE[OF walkforward_spec[of 72 24 "derived_row_count (rd_base (vd_parent v))" 336]])
      apply simp_all
    subgoal for r using l(6) by (cases r) (auto simp: Let_def)
    done
  then obtain part where part: "build_walkforward_folds (derived_row_count (rd_base (vd_parent v))) 72 336 24 = Some (Inr part)"
    "fold_list part \<noteq> []" "excluded_head_rows part = 360"
    "cov_test_rows part = derived_row_count (rd_base (vd_parent v)) - 360"
    and folds: "\<forall>i < length (fold_list part). fst (test_range (fold_list part ! i)) = 360 + int i * 72
        \<and> train_range (fold_list part ! i) = Some (0, 336 + int i * 72)" by blast
  have "\<exists>b. train_range f = Some (0, b) \<and> 336 \<le> b \<and> fst (test_range f) = b + 24" if "f \<in> set (fold_list part)" for f
  proof -
    from that obtain i where "i < length (fold_list part)" "f = fold_list part ! i" by (auto simp: in_set_conv_nth)
    then show ?thesis using folds by auto
  qed
  then show ?thesis using part l(5) unfolding p by auto
qed

definition sample_validation_document :: pyval where
  "sample_validation_document = PyDict
     [(cps ''schema'', py_str VALIDATION_SCHEMA), (cps ''dataset_id'', py_str ''q1_1h_validation_wf_v1''),
      (cps ''dataset_type'', py_str VALIDATION_DATASET_TYPE), (cps ''provider'', py_str ''binance''),
      (cps ''instrument_id'', py_str ''binance:usd_m_futures:BTCUSDT:perpetual''),
      (cps ''base_dataset_id'', py_str ''q1_1h''), (cps ''parent_descriptor'', py_str ''q1_research.yaml''),
      (cps ''period'', PyDict [(cps ''start'', py_str ''2024-01-01T00:00:00Z''), (cps ''end'', py_str ''2024-04-01T00:00:00Z'')]),
      (cps ''feature_set'', PyDict [(cps ''name'', py_str FEATURE_SET_NAME), (cps ''version'', py_str ''1'')]),
      (cps ''scheme'', py_str VALIDATION_SCHEME),
      (cps ''fold_set'', PyDict [(cps ''name'', py_str FOLD_SET_NAME), (cps ''version'', PyStr [49])]),
      (cps ''parameters'', PyDict (map (\<lambda>(k, n). (cps k, PyInt n)) VALIDATION_PARAMETERS)),
      (cps ''schema_version'', py_str VALIDATION_TABLE_VERSION), (cps ''quality_policy_version'', py_str ''1''),
      (cps ''legal_record'', py_str APPROVED_LEGAL_RECORD)]"

theorem accepted_validation_splits_witness:
  "\<exists>v part. load_validation_descriptor (\<lambda>_. True) (\<lambda>_. True) (\<lambda>_. []) (\<lambda>_. Some sample_document)
         (\<lambda>_. Some sample_derived_document) (\<lambda>_. Some sample_research_document) sample_validation_document = Inr v
     \<and> build_walkforward_folds (derived_row_count (rd_base (vd_parent v))) 72 336 24 = Some (Inr part) \<and> fold_list part \<noteq> []"
proof -
  let ?m = "load_validation_descriptor (\<lambda>_. True) (\<lambda>_. True) (\<lambda>_. []) (\<lambda>_. Some sample_document)
         (\<lambda>_. Some sample_derived_document) (\<lambda>_. Some sample_research_document) sample_validation_document"
  have "is_err ?m = False" by code_simp
  then obtain v where v: "?m = Inr v" by (cases ?m) auto
  show ?thesis using accepted_validation_splits[OF v] load_validation_Inr(4)[OF v] v by auto
qed

end
