(* ===== verification/Decision_C3.thy ===== *)
theory Decision_C3
  imports Bootstrap_B4
begin

text \<open>
  The decision layer of the C3 estimator (src/quantara/estimator_c3.py: Holm's step-down over three
  hypotheses, the five-criterion gate and the retention graph) and the C4 replication contract
  (src/quantara/replication_c4.py: the 2025 origins, the 2026 buffer, refit eligibility and the
  five-criterion replication gate). Mappings are association lists with distinct keys; p-values are
  \<open>rat\<close>s for Python's \<open>Fraction\<close>. The type checks of the code hold by typing. Lemmas: the step-down
  equals Holm's procedure by minimal ranks and controls every subset of true hypotheses; the retained
  model is determined by the two gates on its path; the origin grids are closed under the boundaries.
\<close>

section \<open>Holm's step-down\<close>

definition HYPOTHESIS_ORDER :: "string list" where
  "HYPOTHESIS_ORDER = [''H_ETH'', ''H_K_M2'', ''H_K_M3'']"

definition COMPARISON_IDS :: "(string \<times> string) list" where
  "COMPARISON_IDS = [(''H_ETH'', ''H_ETH|M3_vs_M2''), (''H_K_M2'', ''H_K_M2|M2K_vs_M2''), (''H_K_M3'', ''H_K_M3|M4_vs_M3'')]"

definition RESULT_CLASS :: string where "RESULT_CLASS = ''selection_evidence''"

record holm_step =
  hs_rank :: nat
  hs_hypothesis :: string
  hs_p :: rat
  hs_threshold :: rat
  hs_rejected :: bool

record holm_result =
  hr_p_values :: "(string \<times> rat) list"
  hr_steps :: "holm_step list"
  hr_rejections :: "(string \<times> bool) list"

text \<open>One pass over the ordered hypotheses; \<open>active\<close> falls at the first that is not rejected.\<close>

fun holm_loop :: "nat \<Rightarrow> bool \<Rightarrow> nat \<Rightarrow> (string \<times> rat) list \<Rightarrow> holm_step list" where
  "holm_loop m active rank [] = []"
| "holm_loop m active rank ((h, p) # rest) =
     (let threshold = 1 / 20 / (of_nat m - of_nat rank + 1); rejected = active \<and> p \<le> threshold
      in \<lparr>hs_rank = rank, hs_hypothesis = h, hs_p = p, hs_threshold = threshold, hs_rejected = rejected\<rparr>
         # holm_loop m rejected (rank + 1) rest)"

text \<open>\<open>sorted\<close> by p-value and position; the input is in the fixed order, so a stable sort does it.\<close>

definition holm_step_down :: "(string \<times> rat) list \<Rightarrow> holm_result res" where
  "holm_step_down p_values =
     bindE (checkE (set (map fst p_values) = set HYPOTHESIS_ORDER) PyValueError) (\<lambda>_.
     bindE (mapE (\<lambda>h. let p = the (map_of p_values h) in bindE (checkE (0 \<le> p \<and> p \<le> 1) PyValueError) (\<lambda>_. Inr (h, p)))
                 HYPOTHESIS_ORDER) (\<lambda>copied.
     let steps = holm_loop (length HYPOTHESIS_ORDER) True 1 (sort_key snd copied)
     in Inr \<lparr>hr_p_values = copied, hr_steps = steps,
             hr_rejections = map (\<lambda>h. (h, the (map_of (map (\<lambda>s. (hs_hypothesis s, hs_rejected s)) steps) h))) HYPOTHESIS_ORDER\<rparr>))"

section \<open>The hypothesis gate and the retention graph\<close>

record hypothesis_evidence =
  he_hypothesis :: string
  he_comparison :: string
  he_p :: rat
  he_improvement :: dec
  he_ci_lower :: dec
  he_years :: int
  he_worst_year :: dec

record hypothesis_decision =
  hd_hypothesis :: string
  hd_comparison :: string
  hd_p :: rat
  hd_criteria :: "(string \<times> bool) list"
  hd_passes :: bool

definition evaluate_hypothesis_gate :: "hypothesis_evidence \<Rightarrow> bool \<Rightarrow> hypothesis_decision" where
  "evaluate_hypothesis_gate e holm_rejected =
     (let criteria =
        [(''pooled_relative_brier_improvement_at_least_0_01'', dec_le (Dec False 1 (- 2)) (he_improvement e)),
         (''ci_lower_bound_above_zero'', dec_lt (Dec False 0 0) (he_ci_lower e)),
         (''holm_rejected'', holm_rejected),
         (''at_least_two_validation_years_improve'', 2 \<le> he_years e),
         (''no_validation_year_worse_than_minus_0_02'', dec_le (Dec True 2 (- 2)) (he_worst_year e))]
      in \<lparr>hd_hypothesis = he_hypothesis e, hd_comparison = he_comparison e, hd_p = he_p e,
          hd_criteria = criteria, hd_passes = list_all snd criteria\<rparr>)"

record optional_family_result =
  of_holm :: holm_result
  of_decisions :: "(string \<times> hypothesis_decision) list"
  of_retained :: string

definition evaluate_optional_family :: "(string \<times> hypothesis_evidence) list \<Rightarrow> optional_family_result res" where
  "evaluate_optional_family evidence =
     bindE (checkE (set (map fst evidence) = set HYPOTHESIS_ORDER) PyValueError) (\<lambda>_.
     bindE (mapE (\<lambda>h. let item = the (map_of evidence h) in
              bindE (checkE (he_hypothesis item = h) PyValueError) (\<lambda>_.
              bindE (checkE (he_comparison item = the (map_of COMPARISON_IDS h)) PyValueError) (\<lambda>_. Inr (h, item))))
            HYPOTHESIS_ORDER) (\<lambda>copied.
     bindE (holm_step_down (map (\<lambda>(h, item). (h, he_p item)) copied)) (\<lambda>holm.
     let decisions = map (\<lambda>(h, item). (h, evaluate_hypothesis_gate item (the (map_of (hr_rejections holm) h)))) copied;
         passes = (\<lambda>h. hd_passes (the (map_of decisions h)))
     in Inr \<lparr>of_holm = holm, of_decisions = decisions,
          of_retained = (if passes ''H_ETH'' then (if passes ''H_K_M3'' then ''M4'' else ''M3'')
                         else (if passes ''H_K_M2'' then ''M2K'' else ''M2''))\<rparr>)))"

section \<open>C4: origins, buffer and refit\<close>

definition HOUR_MS :: int where "HOUR_MS = 3600000"
definition MINUTE_MS :: int where "MINUTE_MS = 60000"
definition LABEL_HORIZON_MS :: int where "LABEL_HORIZON_MS = 86400000"
definition SEAL_BOUNDARY_MS :: int where "SEAL_BOUNDARY_MS = 1735689600000"
definition FIRST_2025_ORIGIN_MS :: int where "FIRST_2025_ORIGIN_MS = 1735689600000"
definition LAST_2025_ORIGIN_MS :: int where "LAST_2025_ORIGIN_MS = 1767222000000"
definition ORIGIN_COUNT_2025 :: nat where "ORIGIN_COUNT_2025 = 8760"
definition BUFFER_FIRST_BAR_OPEN_MS :: int where "BUFFER_FIRST_BAR_OPEN_MS = 1767225600000"
definition BUFFER_BAR_COUNT :: nat where "BUFFER_BAR_COUNT = 23"
definition BUFFER_FIRST_MINUTE_OPEN_MS :: int where "BUFFER_FIRST_MINUTE_OPEN_MS = 1767225600000"
definition BUFFER_LAST_MINUTE_OPEN_MS :: int where "BUFFER_LAST_MINUTE_OPEN_MS = 1767308340000"
definition BUFFER_MINUTE_COUNT :: nat where "BUFFER_MINUTE_COUNT = 1380"
definition REFIT_TRAIN_START_MS :: int where "REFIT_TRAIN_START_MS = 1598918400000"
definition REFIT_LAST_ORIGIN_MS :: int where "REFIT_LAST_ORIGIN_MS = 1735603200000"
definition REFIT_NOMINAL_ORIGIN_COUNT :: nat where "REFIT_NOMINAL_ORIGIN_COUNT = 37969"
definition OI_ELIGIBILITY_OFFSET_MS :: int where "OI_ELIGIBILITY_OFFSET_MS = 300000"

text \<open>The two assertions of the code are results of their own: \<open>PyRuntimeError\<close> stands for an
  \<open>AssertionError\<close>.\<close>

definition enumerate_2025_origins :: "int list res" where
  "enumerate_2025_origins =
     (let origins = map (\<lambda>i. FIRST_2025_ORIGIN_MS + int i * HOUR_MS) [0..<ORIGIN_COUNT_2025] in
      bindE (nominal_hours 2025) (\<lambda>hours.
      bindE (checkE (int (length origins) = hours) PyRuntimeError) (\<lambda>_.
      bindE (checkE (last origins = LAST_2025_ORIGIN_MS) PyRuntimeError) (\<lambda>_. Inr origins))))"

definition label_close_ms :: "int \<Rightarrow> int" where
  "label_close_ms origin = origin + LABEL_HORIZON_MS - 1"

definition requires_2026_buffer :: "int \<Rightarrow> bool" where
  "requires_2026_buffer origin \<longleftrightarrow> BUFFER_FIRST_BAR_OPEN_MS \<le> label_close_ms origin"

definition buffer_dependent_origins :: "int list res" where
  "buffer_dependent_origins = bindE enumerate_2025_origins (\<lambda>origins. Inr (filter requires_2026_buffer origins))"

definition buffer_bar_opens :: "int list" where
  "buffer_bar_opens = map (\<lambda>i. BUFFER_FIRST_BAR_OPEN_MS + int i * HOUR_MS) [0..<BUFFER_BAR_COUNT]"

definition buffer_minute_opens :: "int list" where
  "buffer_minute_opens = map (\<lambda>i. BUFFER_FIRST_MINUTE_OPEN_MS + int i * MINUTE_MS) [0..<BUFFER_MINUTE_COUNT]"

definition is_buffer_minute_in_scope :: "int \<Rightarrow> bool" where
  "is_buffer_minute_in_scope open_ms \<longleftrightarrow> BUFFER_FIRST_MINUTE_OPEN_MS \<le> open_ms \<and> open_ms \<le> BUFFER_LAST_MINUTE_OPEN_MS"

definition truncate_buffer_minutes :: "int list \<Rightarrow> int list \<times> int" where
  "truncate_buffer_minutes opens =
     (let kept = filter is_buffer_minute_in_scope opens in (kept, int (length opens) - int (length kept)))"

text \<open>\<open>range(start, stop, step)\<close> with a positive step.\<close>

definition py_range :: "int \<Rightarrow> int \<Rightarrow> int \<Rightarrow> int list" where
  "py_range start stop step = map (\<lambda>i. start + int i * step) [0..<nat ((stop - start + step - 1) div step)]"

definition enumerate_refit_origins :: "int list res" where
  "enumerate_refit_origins =
     (let origins = py_range REFIT_TRAIN_START_MS (REFIT_LAST_ORIGIN_MS + HOUR_MS) HOUR_MS in
      bindE (checkE (length origins = REFIT_NOMINAL_ORIGIN_COUNT) PyRuntimeError) (\<lambda>_. Inr origins))"

definition is_refit_eligible_origin :: "int \<Rightarrow> bool" where
  "is_refit_eligible_origin origin \<longleftrightarrow> REFIT_TRAIN_START_MS \<le> origin \<and> origin \<le> REFIT_LAST_ORIGIN_MS
     \<and> (origin - REFIT_TRAIN_START_MS) mod HOUR_MS = 0 \<and> origin + LABEL_HORIZON_MS \<le> SEAL_BOUNDARY_MS"

definition latest_eligible_oi_open_ms :: "int \<Rightarrow> int" where
  "latest_eligible_oi_open_ms boundary = boundary - OI_ELIGIBILITY_OFFSET_MS"

definition replication_comparison_id :: "string \<Rightarrow> string res" where
  "replication_comparison_id model =
     (if model \<in> {''M2'', ''M2K'', ''M3'', ''M4''} then Inr (''REPLICATION_2025|'' @ model @ ''_vs_B2'') else Inl PyValueError)"

definition replication_stream_seed :: "(bytes \<Rightarrow> bytes) \<Rightarrow> string \<Rightarrow> int res" where
  "replication_stream_seed digest model =
     bindE (replication_comparison_id model) (\<lambda>c. derive_stream_seed digest (cps c) 2025)"

record replication_evidence =
  re_bss :: dec
  re_ci_lower :: dec
  re_bias :: dec
  re_slope :: dec
  re_calibrated :: bool

record replication_decision =
  rp_bss :: bool
  rp_ci :: bool
  rp_bias :: bool
  rp_slope :: bool
  rp_calibrated :: bool
  rp_outcome :: string

definition calibration_slope_passes :: "dec \<Rightarrow> dec \<Rightarrow> dec \<Rightarrow> bool" where
  "calibration_slope_passes lower upper slope \<longleftrightarrow> dec_le lower slope \<and> dec_le slope upper"

text \<open>\<open>abs\<close> of a decimal rounds in the ambient context, as every operator of the library does.\<close>

definition evaluate_replication_gate :: "dctx \<Rightarrow> replication_evidence \<Rightarrow> replication_decision res" where
  "evaluate_replication_gate ambient e =
     (let bss = dec_le (Dec False 2 (- 2)) (re_bss e); ci = dec_lt (Dec False 0 0) (re_ci_lower e) in
      bindE (dec_fix ambient (dec_copy_abs (re_bias e))) (\<lambda>absolute.
      let bias = dec_le absolute (Dec False 2 (- 2));
          slope = calibration_slope_passes (Dec False 8 (- 1)) (Dec False 12 (- 1)) (re_slope e);
          cal = re_calibrated e
      in Inr \<lparr>rp_bss = bss, rp_ci = ci, rp_bias = bias, rp_slope = slope, rp_calibrated = cal,
          rp_outcome = (if bss \<and> ci \<and> bias \<and> slope \<and> cal then ''REPLICATED'' else ''DID_NOT_REPLICATE'')\<rparr>))"

section \<open>Holm's procedure is closed testing\<close>

text \<open>The closed test rejects a hypothesis when every set of hypotheses that contains it has a
  p-value within the set's Bonferroni bound.\<close>

definition closed_test :: "string set \<Rightarrow> (string \<Rightarrow> rat) \<Rightarrow> string \<Rightarrow> bool" where
  "closed_test H p h \<longleftrightarrow> (\<forall>S \<in> Pow H. h \<in> S \<longrightarrow> (\<exists>g \<in> S. p g \<le> 1 / 20 / of_nat (card S)))"

lemma closed_test_three:
  assumes "distinct [x, y, z]"
  shows "closed_test {x, y, z} p x \<longleftrightarrow> p x \<le> 1 / 20 \<and> (p x \<le> 1 / 40 \<or> p y \<le> 1 / 40)
     \<and> (p x \<le> 1 / 40 \<or> p z \<le> 1 / 40) \<and> (p x \<le> 1 / 60 \<or> p y \<le> 1 / 60 \<or> p z \<le> 1 / 60)"
proof -
  have "closed_test {x, y, z} p x \<longleftrightarrow> (\<forall>S \<in> {{x}, {x, y}, {x, z}, {x, y, z}}. \<exists>g \<in> S. p g \<le> 1 / 20 / of_nat (card S))"
    unfolding closed_test_def Pow_insert Pow_empty by (auto simp: insert_commute)
  then show ?thesis
    using assms by simp
qed

definition holm_of :: "rat \<Rightarrow> rat \<Rightarrow> rat \<Rightarrow> holm_step list" where
  "holm_of a b c = holm_loop 3 True 1 (sort_key snd [(''H_ETH'', a), (''H_K_M2'', b), (''H_K_M3'', c)])"

definition rejected_in :: "holm_step list \<Rightarrow> string \<Rightarrow> bool" where
  "rejected_in steps h = the (map_of (map (\<lambda>s. (hs_hypothesis s, hs_rejected s)) steps) h)"

lemma holm_step_down_Inr:
  assumes "holm_step_down ps = Inr r"
  obtains a b c where "map_of ps ''H_ETH'' = Some a" "map_of ps ''H_K_M2'' = Some b" "map_of ps ''H_K_M3'' = Some c"
    "(0 \<le> a \<and> a \<le> 1) \<and> (0 \<le> b \<and> b \<le> 1) \<and> (0 \<le> c \<and> c \<le> 1)" "hr_steps r = holm_of a b c"
    "hr_rejections r = map (\<lambda>h. (h, rejected_in (holm_of a b c) h)) [''H_ETH'', ''H_K_M2'', ''H_K_M3'']"
proof -
  have s: "set (map fst ps) = {''H_ETH'', ''H_K_M2'', ''H_K_M3''}"
    using assms by (simp add: holm_step_down_def res_simps HYPOTHESIS_ORDER_def)
  have "\<exists>q. map_of ps h = Some q" if "h \<in> set (map fst ps)" for h
    using that by (cases "map_of ps h") (auto simp: map_of_eq_None_iff)
  then obtain a b c where m: "map_of ps ''H_ETH'' = Some a" "map_of ps ''H_K_M2'' = Some b" "map_of ps ''H_K_M3'' = Some c"
    unfolding s by (meson insertI1 insertI2)
  have v: "(0 \<le> a \<and> a \<le> 1) \<and> (0 \<le> b \<and> b \<le> 1) \<and> (0 \<le> c \<and> c \<le> 1)"
    using assms unfolding holm_step_down_def bindE_Inr_iff checkE_Inr_iff HYPOTHESIS_ORDER_def
    by (simp add: m bindE_checkE Let_def res_simps split: if_splits)
  have "mapE (\<lambda>h. let p = the (map_of ps h) in bindE (checkE (0 \<le> p \<and> p \<le> 1) PyValueError) (\<lambda>_. Inr (h, p)))
      [''H_ETH'', ''H_K_M2'', ''H_K_M3''] = (Inr [(''H_ETH'', a), (''H_K_M2'', b), (''H_K_M3'', c)] :: _ res)"
    using v by (simp add: m bindE_checkE Let_def)
  moreover have "length [''H_ETH'', ''H_K_M2'', ''H_K_M3''] = 3" by simp
  ultimately have "r = \<lparr>hr_p_values = [(''H_ETH'', a), (''H_K_M2'', b), (''H_K_M3'', c)], hr_steps = holm_of a b c,
      hr_rejections = map (\<lambda>h. (h, rejected_in (holm_of a b c) h)) [''H_ETH'', ''H_K_M2'', ''H_K_M3'']\<rparr>"
    using assms unfolding holm_step_down_def HYPOTHESIS_ORDER_def holm_of_def rejected_in_def
    by (simp only: Let_def bindE_Inr_iff Inr_inject sum.inject) blast
  then show ?thesis
    using that[OF m v] by simp
qed

text \<open>All six orders of three p-values at once.\<close>

lemma rejected_in_cases:
  "rejected_in (holm_of a b c) ''H_ETH'' \<longleftrightarrow> a \<le> 1 / 20 \<and> (a \<le> 1 / 40 \<or> b \<le> 1 / 40)
     \<and> (a \<le> 1 / 40 \<or> c \<le> 1 / 40) \<and> (a \<le> 1 / 60 \<or> b \<le> 1 / 60 \<or> c \<le> 1 / 60)"
  "rejected_in (holm_of a b c) ''H_K_M2'' \<longleftrightarrow> b \<le> 1 / 20 \<and> (b \<le> 1 / 40 \<or> a \<le> 1 / 40)
     \<and> (b \<le> 1 / 40 \<or> c \<le> 1 / 40) \<and> (b \<le> 1 / 60 \<or> a \<le> 1 / 60 \<or> c \<le> 1 / 60)"
  "rejected_in (holm_of a b c) ''H_K_M3'' \<longleftrightarrow> c \<le> 1 / 20 \<and> (c \<le> 1 / 40 \<or> a \<le> 1 / 40)
     \<and> (c \<le> 1 / 40 \<or> b \<le> 1 / 40) \<and> (c \<le> 1 / 60 \<or> a \<le> 1 / 60 \<or> b \<le> 1 / 60)"
  by (cases "a \<le> b"; cases "b \<le> c"; cases "a \<le> c";
      simp add: holm_of_def rejected_in_def Let_def; linarith)+

lemma holm_closed:
  assumes "holm_step_down ps = Inr r"
  shows "map_of (hr_rejections r) h =
     (if h \<in> set HYPOTHESIS_ORDER then Some (closed_test (set HYPOTHESIS_ORDER) (\<lambda>g. the (map_of ps g)) h) else None)"
proof -
  from holm_step_down_Inr[OF assms] obtain a b c where
    m: "map_of ps ''H_ETH'' = Some a" "map_of ps ''H_K_M2'' = Some b" "map_of ps ''H_K_M3'' = Some c"
    and r: "hr_rejections r = map (\<lambda>h. (h, rejected_in (holm_of a b c) h)) [''H_ETH'', ''H_K_M2'', ''H_K_M3'']" .
  let ?p = "\<lambda>g. the (map_of ps g)"
  have "closed_test {''H_ETH'', ''H_K_M2'', ''H_K_M3''} ?p ''H_ETH'' = rejected_in (holm_of a b c) ''H_ETH''"
    by (subst closed_test_three) (simp_all only: rejected_in_cases m option.sel distinct.simps, simp_all)
  moreover have "closed_test {''H_K_M2'', ''H_ETH'', ''H_K_M3''} ?p ''H_K_M2'' = rejected_in (holm_of a b c) ''H_K_M2''"
    by (subst closed_test_three) (simp_all only: rejected_in_cases m option.sel distinct.simps, simp_all)
  moreover have "closed_test {''H_K_M3'', ''H_ETH'', ''H_K_M2''} ?p ''H_K_M3'' = rejected_in (holm_of a b c) ''H_K_M3''"
    by (subst closed_test_three) (simp_all only: rejected_in_cases m option.sel distinct.simps, simp_all)
  moreover have "{''H_K_M2'', ''H_ETH'', ''H_K_M3''} = {''H_ETH'', ''H_K_M2'', ''H_K_M3''}"
    "{''H_K_M3'', ''H_ETH'', ''H_K_M2''} = {''H_ETH'', ''H_K_M2'', ''H_K_M3''}" by auto
  ultimately show ?thesis
    unfolding r HYPOTHESIS_ORDER_def by auto
qed

text \<open>C27: Holm's step-down over the three hypotheses is the closed Bonferroni test: a hypothesis is
  rejected exactly when every set of hypotheses containing it has a p-value of at most 0.05 divided
  by the size of the set. Hence, if every hypothesis of a nonempty set T is true, a rejection of one
  of them needs a p-value of T of at most 0.05 / |T|: the family-wise error rate is bounded.\<close>

theorem holm_is_closed_test:
  assumes "holm_step_down ps = Inr r"
  shows "map fst (hr_rejections r) = HYPOTHESIS_ORDER
     \<and> (\<forall>(h, rejected) \<in> set (hr_rejections r).
          rejected = closed_test (set HYPOTHESIS_ORDER) (\<lambda>g. the (map_of ps g)) h)
     \<and> (\<forall>T h. T \<subseteq> set HYPOTHESIS_ORDER \<and> h \<in> T \<and> map_of (hr_rejections r) h = Some True
          \<longrightarrow> (\<exists>g \<in> T. the (map_of ps g) \<le> 1 / 20 / of_nat (card T)))"
proof (intro conjI)
  show d: "map fst (hr_rejections r) = HYPOTHESIS_ORDER"
    by (rule holm_step_down_Inr[OF assms]) (simp add: HYPOTHESIS_ORDER_def)
  then have "distinct (map fst (hr_rejections r))" by (simp add: HYPOTHESIS_ORDER_def)
  then show "\<forall>(h, rejected) \<in> set (hr_rejections r).
      rejected = closed_test (set HYPOTHESIS_ORDER) (\<lambda>g. the (map_of ps g)) h"
    using holm_closed[OF assms] by (auto dest!: map_of_is_SomeI split: if_splits)
  show "\<forall>T h. T \<subseteq> set HYPOTHESIS_ORDER \<and> h \<in> T \<and> map_of (hr_rejections r) h = Some True
      \<longrightarrow> (\<exists>g \<in> T. the (map_of ps g) \<le> 1 / 20 / of_nat (card T))"
    using holm_closed[OF assms] by (auto simp: closed_test_def split: if_splits)
qed

definition sample_p_values :: "(string \<times> rat) list" where
  "sample_p_values = [(''H_K_M3'', 1 / 50), (''H_ETH'', 1 / 100), (''H_K_M2'', 3 / 100)]"

theorem holm_is_closed_test_witness:
  "case holm_step_down sample_p_values of Inl _ \<Rightarrow> False
   | Inr r \<Rightarrow> map snd (hr_rejections r) = [True, True, True] \<and>
       (\<forall>(h, rejected) \<in> set (hr_rejections r).
         rejected = closed_test (set HYPOTHESIS_ORDER) (\<lambda>g. the (map_of sample_p_values g)) h)"
proof -
  have "case holm_step_down sample_p_values of Inl _ \<Rightarrow> False
      | Inr r \<Rightarrow> map snd (hr_rejections r) = [True, True, True]" by code_simp
  then show ?thesis
    using holm_is_closed_test[of sample_p_values] by (auto split: sum.splits)
qed

section \<open>The retention graph\<close>

text \<open>What a gate asks of its evidence, besides the family's verdict on its p-value.\<close>

definition evidence_strong :: "hypothesis_evidence \<Rightarrow> bool" where
  "evidence_strong e \<longleftrightarrow> 1 / 100 \<le> dval (he_improvement e) \<and> 0 < dval (he_ci_lower e)
     \<and> 2 \<le> he_years e \<and> - (1 / 50) \<le> dval (he_worst_year e)"

lemma gate_passes: "hd_passes (evaluate_hypothesis_gate e rejected) \<longleftrightarrow> rejected \<and> evidence_strong e"
  by (auto simp: evaluate_hypothesis_gate_def evidence_strong_def Let_def dec_cmp dval_Dec power_int_def power2_eq_square)

lemma family_Inr:
  assumes "evaluate_optional_family ev = Inr r"
  shows "set (map fst ev) = set HYPOTHESIS_ORDER"
    and "holm_step_down (map (\<lambda>h. (h, he_p (the (map_of ev h)))) HYPOTHESIS_ORDER) = Inr (of_holm r)"
    and "\<forall>h \<in> set HYPOTHESIS_ORDER. he_hypothesis (the (map_of ev h)) = h
       \<and> he_comparison (the (map_of ev h)) = the (map_of COMPARISON_IDS h)"
    and "of_decisions r = map (\<lambda>h. (h, evaluate_hypothesis_gate (the (map_of ev h)) (the (map_of (hr_rejections (of_holm r)) h))))
       HYPOTHESIS_ORDER"
    and "of_retained r = (let passes = (\<lambda>h. hd_passes (the (map_of (of_decisions r) h))) in
       if passes ''H_ETH'' then (if passes ''H_K_M3'' then ''M4'' else ''M3'')
       else (if passes ''H_K_M2'' then ''M2K'' else ''M2''))"
proof -
  define item where "item = (\<lambda>h. the (map_of ev h))"
  define step where "step = (\<lambda>h. bindE (checkE (he_hypothesis (item h) = h) PyValueError) (\<lambda>_.
      bindE (checkE (he_comparison (item h) = the (map_of COMPARISON_IDS h)) PyValueError) (\<lambda>_.
      Inr (h, item h) :: (string \<times> hypothesis_evidence) res)))"
  obtain copied holm where c: "mapE step HYPOTHESIS_ORDER = Inr copied"
    and e: "set (map fst ev) = set HYPOTHESIS_ORDER" "holm_step_down (map (\<lambda>(h, i). (h, he_p i)) copied) = Inr holm"
      "of_holm r = holm" "of_decisions r = map (\<lambda>(h, i). (h, evaluate_hypothesis_gate i (the (map_of (hr_rejections holm) h)))) copied"
      "of_retained r = (let passes = (\<lambda>h. hd_passes (the (map_of (of_decisions r) h))) in
       if passes ''H_ETH'' then (if passes ''H_K_M3'' then ''M4'' else ''M3'')
       else (if passes ''H_K_M2'' then ''M2K'' else ''M2''))"
    using assms unfolding evaluate_optional_family_def step_def item_def Let_def bindE_Inr_iff checkE_Inr_iff sum.inject
    by auto
  have ok: "he_hypothesis (item h) = h \<and> he_comparison (item h) = the (map_of COMPARISON_IDS h)"
    if "h \<in> set HYPOTHESIS_ORDER" for h
    using c that unfolding mapE_Inr_iff step_def
    by (auto simp: in_set_conv_nth list_all2_conv_all_nth res_simps)
  then have "copied = map (\<lambda>h. (h, item h)) HYPOTHESIS_ORDER"
    using c mapE_all_Inr[of HYPOTHESIS_ORDER step "\<lambda>h. (h, item h)"] by (simp add: step_def bindE_checkE)
  then have all: "set (map fst ev) = set HYPOTHESIS_ORDER"
      "holm_step_down (map (\<lambda>h. (h, he_p (item h))) HYPOTHESIS_ORDER) = Inr holm" "of_holm r = holm"
      "of_decisions r = map (\<lambda>h. (h, evaluate_hypothesis_gate (item h) (the (map_of (hr_rejections holm) h)))) HYPOTHESIS_ORDER"
      "of_retained r = (let passes = (\<lambda>h. hd_passes (the (map_of (of_decisions r) h))) in
       if passes ''H_ETH'' then (if passes ''H_K_M3'' then ''M4'' else ''M3'')
       else (if passes ''H_K_M2'' then ''M2K'' else ''M2''))"
    using e by (simp_all add: comp_def)
  show "\<forall>h \<in> set HYPOTHESIS_ORDER. he_hypothesis (the (map_of ev h)) = h
      \<and> he_comparison (the (map_of ev h)) = the (map_of COMPARISON_IDS h)"
    using ok by (simp add: item_def)
  show "set (map fst ev) = set HYPOTHESIS_ORDER" using all(1) .
  show "holm_step_down (map (\<lambda>h. (h, he_p (the (map_of ev h)))) HYPOTHESIS_ORDER) = Inr (of_holm r)"
    using all(2,3) by (simp add: item_def)
  show "of_decisions r = map (\<lambda>h. (h, evaluate_hypothesis_gate (the (map_of ev h)) (the (map_of (hr_rejections (of_holm r)) h))))
       HYPOTHESIS_ORDER"
    using all(3,4) by (simp add: item_def)
  show "of_retained r = (let passes = (\<lambda>h. hd_passes (the (map_of (of_decisions r) h))) in
       if passes ''H_ETH'' then (if passes ''H_K_M3'' then ''M4'' else ''M3'')
       else (if passes ''H_K_M2'' then ''M2K'' else ''M2''))"
    using all(5) .
qed

lemma family_gate:
  assumes "evaluate_optional_family ev = Inr r" "h \<in> set HYPOTHESIS_ORDER"
  shows "hd_passes (the (map_of (of_decisions r) h)) \<longleftrightarrow>
     evidence_strong (the (map_of ev h)) \<and> closed_test (set HYPOTHESIS_ORDER) (\<lambda>g. he_p (the (map_of ev g))) h"
proof -
  note f = family_Inr[OF assms(1)]
  have p: "the (map_of (map (\<lambda>h. (h, he_p (the (map_of ev h)))) HYPOTHESIS_ORDER) g) = he_p (the (map_of ev g))"
    if "g \<in> set HYPOTHESIS_ORDER" for g
    using that by (auto simp: HYPOTHESIS_ORDER_def)
  have "closed_test (set HYPOTHESIS_ORDER) (\<lambda>g. the (map_of (map (\<lambda>h. (h, he_p (the (map_of ev h)))) HYPOTHESIS_ORDER) g)) h
      = closed_test (set HYPOTHESIS_ORDER) (\<lambda>g. he_p (the (map_of ev g))) h"
    unfolding closed_test_def by (intro ball_cong imp_cong bex_cong refl) (auto simp: p subset_iff)
  then have rej: "the (map_of (hr_rejections (of_holm r)) h) = closed_test (set HYPOTHESIS_ORDER) (\<lambda>g. he_p (the (map_of ev g))) h"
    using holm_closed[OF f(2), of h] assms(2) by simp
  have "map_of (of_decisions r) h =
      Some (evaluate_hypothesis_gate (the (map_of ev h)) (the (map_of (hr_rejections (of_holm r)) h)))"
    unfolding f(4) using assms(2) by (auto simp: HYPOTHESIS_ORDER_def)
  then show ?thesis by (simp add: gate_passes rej conj_commute)
qed

text \<open>C28: The retained model follows from the evidence alone. A hypothesis is sustained when its five
  criteria hold: improvement at least 0.01, a positive lower confidence bound, two improved years, no
  year below -0.02, and the closed test on the three p-values. M4 needs the ETH and the K-on-M3
  hypotheses, M3 the ETH one, M2K the K-on-M2 one; otherwise M2 stays.\<close>

theorem retained_model_rule:
  assumes "evaluate_optional_family ev = Inr r"
    and "sustained = (\<lambda>h. evidence_strong (the (map_of ev h))
           \<and> closed_test (set HYPOTHESIS_ORDER) (\<lambda>g. he_p (the (map_of ev g))) h)"
  shows "of_retained r = (if sustained ''H_ETH'' then (if sustained ''H_K_M3'' then ''M4'' else ''M3'')
     else (if sustained ''H_K_M2'' then ''M2K'' else ''M2''))"
proof -
  have "hd_passes (the (map_of (of_decisions r) h)) = sustained h" if "h \<in> set HYPOTHESIS_ORDER" for h
    using family_gate[OF assms(1) that] by (simp add: assms(2))
  then show ?thesis
    using family_Inr(5)[OF assms(1)] by (simp add: HYPOTHESIS_ORDER_def Let_def)
qed

definition sample_evidence :: "(string \<times> hypothesis_evidence) list" where
  "sample_evidence = map (\<lambda>(h, p, q). (h, \<lparr>he_hypothesis = h, he_comparison = the (map_of COMPARISON_IDS h), he_p = p,
     he_improvement = Dec False q (- 3), he_ci_lower = Dec False 1 (- 5), he_years = 3, he_worst_year = Dec True 1 (- 2)\<rparr>))
     [(''H_ETH'', 1 / 100, 12), (''H_K_M2'', 3 / 100, 20), (''H_K_M3'', 1 / 50, 9)]"

theorem retained_model_rule_witness:
  "case evaluate_optional_family sample_evidence of Inl _ \<Rightarrow> False
   | Inr r \<Rightarrow> of_retained r = ''M3'' \<and>
       of_retained r = (let sustained = (\<lambda>h. evidence_strong (the (map_of sample_evidence h))
           \<and> closed_test (set HYPOTHESIS_ORDER) (\<lambda>g. he_p (the (map_of sample_evidence g))) h) in
         if sustained ''H_ETH'' then (if sustained ''H_K_M3'' then ''M4'' else ''M3'')
         else (if sustained ''H_K_M2'' then ''M2K'' else ''M2''))"
proof -
  have "case evaluate_optional_family sample_evidence of Inl _ \<Rightarrow> False | Inr r \<Rightarrow> of_retained r = ''M3''"
    by code_simp
  then show ?thesis
    using retained_model_rule[of sample_evidence _ "\<lambda>h. evidence_strong (the (map_of sample_evidence h))
        \<and> closed_test (set HYPOTHESIS_ORDER) (\<lambda>g. he_p (the (map_of sample_evidence g))) h", OF _ refl]
    by (auto simp only: Let_def split: sum.splits)
qed

section \<open>The origin grids\<close>

lemma origins_2025: "enumerate_2025_origins = Inr (map (\<lambda>i. FIRST_2025_ORIGIN_MS + int i * HOUR_MS) [0..<ORIGIN_COUNT_2025])"
proof -
  have "nominal_hours 2025 = Inr 8760" by code_simp
  then show ?thesis
    by (simp add: enumerate_2025_origins_def bindE_checkE ORIGIN_COUNT_2025_def last_map LAST_2025_ORIGIN_MS_def
        FIRST_2025_ORIGIN_MS_def HOUR_MS_def del: upt_rec_numeral)
qed

lemma refit_origins: "enumerate_refit_origins = Inr (map (\<lambda>i. REFIT_TRAIN_START_MS + int i * HOUR_MS) [0..<37969])"
  by (simp add: enumerate_refit_origins_def py_range_def bindE_checkE REFIT_NOMINAL_ORIGIN_COUNT_def REFIT_LAST_ORIGIN_MS_def
      REFIT_TRAIN_START_MS_def HOUR_MS_def del: upt_rec_numeral)

lemma origin_requires_buffer:
  "requires_2026_buffer (FIRST_2025_ORIGIN_MS + int i * HOUR_MS) \<longleftrightarrow> 8737 \<le> i"
  by (auto simp: requires_2026_buffer_def label_close_ms_def FIRST_2025_ORIGIN_MS_def HOUR_MS_def LABEL_HORIZON_MS_def
      BUFFER_FIRST_BAR_OPEN_MS_def)

lemma dependent_origins:
  "buffer_dependent_origins = Inr (map (\<lambda>i. FIRST_2025_ORIGIN_MS + int i * HOUR_MS) [8737..<8760])"
proof -
  have "filter (\<lambda>i. 8737 \<le> i) [0..<8760 :: nat] = filter (\<lambda>i. 8737 \<le> i) ([0..<8737] @ [8737..<8760])"
    using upt_add_eq_append[of 0 8737 23] by (simp del: upt_rec_numeral)
  also have "\<dots> = [8737..<8760]"
    by (simp del: upt_rec_numeral add: filter_empty_conv filter_id_conv)
  finally show ?thesis
    by (simp add: buffer_dependent_origins_def origins_2025 filter_map comp_def origin_requires_buffer ORIGIN_COUNT_2025_def
        del: upt_rec_numeral)
qed

lemma buffer_minute_iff:
  "m mod MINUTE_MS = 0 \<Longrightarrow> m \<in> set buffer_minute_opens \<longleftrightarrow> is_buffer_minute_in_scope m"
proof -
  assume "m mod MINUTE_MS = 0"
  then obtain k where k: "m = 60000 * k" by (auto simp: MINUTE_MS_def)
  have "m \<in> set buffer_minute_opens \<longleftrightarrow> (\<exists>i :: nat < 1380. k = 29453760 + int i)"
    by (auto simp: buffer_minute_opens_def k BUFFER_FIRST_MINUTE_OPEN_MS_def MINUTE_MS_def BUFFER_MINUTE_COUNT_def
        simp del: upt_rec_numeral)
  also have "\<dots> \<longleftrightarrow> 29453760 \<le> k \<and> k < 29453760 + 1380"
    by (auto intro!: exI[of _ "nat (k - 29453760)"])
  finally show ?thesis
    by (auto simp: is_buffer_minute_in_scope_def k BUFFER_FIRST_MINUTE_OPEN_MS_def BUFFER_LAST_MINUTE_OPEN_MS_def)
qed

text \<open>The 2025 origins are the 8760 hours of the year. The origins whose label reaches past the
  year are the last 23; every minute of 2026 that such a label spans is one of the 1380 buffer minutes,
  and truncation keeps exactly those.\<close>

theorem buffer_closes_2025:
  "\<exists>os. enumerate_2025_origins = Inr os \<and> length os = 8760 \<and> sorted_wrt (<) os
     \<and> buffer_dependent_origins = Inr (drop (8760 - BUFFER_BAR_COUNT) os)
     \<and> (\<forall>o' \<in> set os. \<forall>m \<ge> BUFFER_FIRST_MINUTE_OPEN_MS. m mod MINUTE_MS = 0 \<and> m \<le> label_close_ms o'
          \<longrightarrow> m \<in> set buffer_minute_opens)
     \<and> (\<forall>opens. (\<forall>m \<in> set opens. m mod MINUTE_MS = 0) \<longrightarrow>
          truncate_buffer_minutes opens = (filter (\<lambda>m. m \<in> set buffer_minute_opens) opens,
            int (length (filter (\<lambda>m. m \<notin> set buffer_minute_opens) opens))))"
proof -
  let ?f = "\<lambda>i. FIRST_2025_ORIGIN_MS + int i * HOUR_MS" and ?os = "map (\<lambda>i. FIRST_2025_ORIGIN_MS + int i * HOUR_MS) [0..<8760]"
  have "sorted_wrt (<) ?os"
    by (simp add: sorted_wrt_map HOUR_MS_def sorted_wrt_upt del: upt_rec_numeral)
  moreover have "buffer_dependent_origins = Inr (drop (8760 - BUFFER_BAR_COUNT) ?os)"
    by (simp add: dependent_origins drop_map BUFFER_BAR_COUNT_def del: upt_rec_numeral)
  moreover have "m \<in> set buffer_minute_opens"
    if "o' \<in> set ?os" "BUFFER_FIRST_MINUTE_OPEN_MS \<le> m" "m mod MINUTE_MS = 0" "m \<le> label_close_ms o'" for o' m
  proof -
    have "o' \<le> LAST_2025_ORIGIN_MS"
      using that(1) by (auto simp: FIRST_2025_ORIGIN_MS_def LAST_2025_ORIGIN_MS_def HOUR_MS_def simp del: upt_rec_numeral)
    then have "m \<le> 1767308399999"
      using that(4) by (simp add: label_close_ms_def LAST_2025_ORIGIN_MS_def LABEL_HORIZON_MS_def)
    moreover from that(3) have "\<exists>k. m = 60000 * k" by (auto simp: MINUTE_MS_def)
    ultimately have "m \<le> BUFFER_LAST_MINUTE_OPEN_MS" by (auto simp: BUFFER_LAST_MINUTE_OPEN_MS_def)
    then show ?thesis using that(2) by (simp add: buffer_minute_iff[OF that(3)] is_buffer_minute_in_scope_def)
  qed
  moreover have "truncate_buffer_minutes opens = (filter (\<lambda>m. m \<in> set buffer_minute_opens) opens,
      int (length (filter (\<lambda>m. m \<notin> set buffer_minute_opens) opens)))" if "\<forall>m \<in> set opens. m mod MINUTE_MS = 0" for opens
  proof -
    have "filter (\<lambda>m. m \<in> set buffer_minute_opens) opens = filter is_buffer_minute_in_scope opens"
      using that by (intro filter_cong) (auto simp: buffer_minute_iff)
    then show ?thesis
      using sum_length_filter_compl[of "\<lambda>m. m \<in> set buffer_minute_opens" opens]
      by (simp add: truncate_buffer_minutes_def Let_def)
  qed
  ultimately show ?thesis
    by (intro exI[of _ ?os]) (simp add: origins_2025 ORIGIN_COUNT_2025_def del: upt_rec_numeral)
qed

theorem buffer_closes_2025_witness:
  "truncate_buffer_minutes [1767225540000, 1767225600000, 1767308340000, 1767308400000]
     = ([1767225600000, 1767308340000], 2)"
proof -
  have "\<forall>m \<in> set [1767225540000, 1767225600000, 1767308340000, 1767308400000 :: int]. m mod MINUTE_MS = 0"
    by (simp add: MINUTE_MS_def)
  moreover have "m \<in> set buffer_minute_opens \<longleftrightarrow> is_buffer_minute_in_scope m"
    if "m \<in> set [1767225540000, 1767225600000, 1767308340000, 1767308400000 :: int]" for m
    using that by (intro buffer_minute_iff) (auto simp: MINUTE_MS_def)
  ultimately show ?thesis
    using buffer_closes_2025
    by (auto simp: is_buffer_minute_in_scope_def BUFFER_FIRST_MINUTE_OPEN_MS_def BUFFER_LAST_MINUTE_OPEN_MS_def)
qed

text \<open>The final refit uses exactly the eligible origins: the enumerated grid has 37969 hours,
  membership in it is the eligibility predicate, and every label ends by the seal boundary, at which
  the first 2025 origin lies.\<close>

theorem refit_grid_eligible:
  "\<exists>os. enumerate_refit_origins = Inr os \<and> length os = 37969
     \<and> (\<forall>o'. o' \<in> set os \<longleftrightarrow> is_refit_eligible_origin o')
     \<and> (\<forall>o' \<in> set os. o' + LABEL_HORIZON_MS \<le> SEAL_BOUNDARY_MS \<and> label_close_ms o' < FIRST_2025_ORIGIN_MS)"
proof -
  let ?os = "map (\<lambda>i. REFIT_TRAIN_START_MS + int i * HOUR_MS) [0..<37969]"
  have mem: "o' \<in> set ?os \<longleftrightarrow> is_refit_eligible_origin o'" for o'
  proof
    assume "is_refit_eligible_origin o'"
    then have e: "1598918400000 \<le> o'" "o' \<le> 1735603200000" "(o' - 1598918400000) mod 3600000 = 0"
      by (simp_all add: is_refit_eligible_origin_def REFIT_TRAIN_START_MS_def REFIT_LAST_ORIGIN_MS_def HOUR_MS_def)
    then obtain k where "o' = 1598918400000 + 3600000 * k" by (auto elim!: dvdE simp: mod_eq_0_iff_dvd algebra_simps)
    with e show "o' \<in> set ?os"
      by (auto simp: REFIT_TRAIN_START_MS_def HOUR_MS_def image_iff intro!: bexI[of _ "nat k"] simp del: upt_rec_numeral)
  qed (auto simp: is_refit_eligible_origin_def REFIT_TRAIN_START_MS_def REFIT_LAST_ORIGIN_MS_def HOUR_MS_def
      LABEL_HORIZON_MS_def SEAL_BOUNDARY_MS_def simp del: upt_rec_numeral)
  have "o' + LABEL_HORIZON_MS \<le> SEAL_BOUNDARY_MS \<and> label_close_ms o' < FIRST_2025_ORIGIN_MS" if "o' \<in> set ?os" for o'
    using that unfolding mem
    by (simp add: is_refit_eligible_origin_def label_close_ms_def FIRST_2025_ORIGIN_MS_def SEAL_BOUNDARY_MS_def)
  then show ?thesis
    using mem by (intro exI[of _ ?os]) (simp add: refit_origins del: upt_rec_numeral set_map set_upt)
qed

theorem refit_grid_eligible_witness:
  "\<exists>os. enumerate_refit_origins = Inr os \<and> 1735603200000 \<in> set os \<and> 1735606800000 \<notin> set os
     \<and> label_close_ms 1735603200000 < FIRST_2025_ORIGIN_MS"
proof -
  have "is_refit_eligible_origin 1735603200000" "\<not> is_refit_eligible_origin 1735606800000" by code_simp+
  then show ?thesis using refit_grid_eligible by blast
qed

section \<open>The replication gate\<close>

text \<open>With a bias that the ambient context can hold, the gate replicates exactly when the score is
  at least 0.02, the lower confidence bound is positive, the bias is at most 0.02 in absolute value, the
  calibration slope lies between 0.8 and 1.2 and the calibration is defined.\<close>

theorem replication_gate_rule:
  assumes "dec_fits ambient (re_bias e)"
  shows "\<exists>d. evaluate_replication_gate ambient e = Inr d \<and>
     rp_outcome d = (if 1 / 50 \<le> dval (re_bss e) \<and> 0 < dval (re_ci_lower e) \<and> \<bar>dval (re_bias e)\<bar> \<le> 1 / 50
         \<and> 4 / 5 \<le> dval (re_slope e) \<and> dval (re_slope e) \<le> 6 / 5 \<and> re_calibrated e
       then ''REPLICATED'' else ''DID_NOT_REPLICATE'')"
proof -
  have "dec_fix ambient (dec_copy_abs (re_bias e)) = Inr (dec_copy_abs (re_bias e))"
    using assms by (intro dec_fix_fits) (simp add: dec_fits_def dec_copy_abs_def)
  then show ?thesis
    by (auto simp: evaluate_replication_gate_def calibration_slope_passes_def Let_def dec_cmp dval_Dec power_int_def power2_eq_square)
qed

text \<open>A bias with more digits than the context holds is rounded before the comparison; with two
  digits for the 28 of the default context, 0.0204 passes.\<close>

lemma replication_bias_rounded:
  "case evaluate_replication_gate \<lparr>cprec = 2, cEmin = - 9, cEmax = 9\<rparr>
       \<lparr>re_bss = Dec False 5 (- 2), re_ci_lower = Dec False 1 (- 2), re_bias = Dec False 204 (- 4),
        re_slope = Dec False 1 0, re_calibrated = True\<rparr> of
     Inl _ \<Rightarrow> False | Inr d \<Rightarrow> rp_outcome d = ''REPLICATED'' \<and> dec_lt (Dec False 2 (- 2)) (Dec False 204 (- 4))"
  by code_simp

theorem replication_gate_rule_witness:
  "\<exists>d. evaluate_replication_gate sample_ctx \<lparr>re_bss = Dec False 5 (- 2), re_ci_lower = Dec False 1 (- 2),
       re_bias = Dec True 2 (- 2), re_slope = Dec False 12 (- 1), re_calibrated = True\<rparr> = Inr d \<and>
     rp_outcome d = ''REPLICATED''"
  using replication_gate_rule[of sample_ctx "\<lparr>re_bss = Dec False 5 (- 2), re_ci_lower = Dec False 1 (- 2),
       re_bias = Dec True 2 (- 2), re_slope = Dec False 12 (- 1), re_calibrated = True\<rparr>"]
  by (simp add: dec_fits_def sample_ctx_def Etiny_def Etop_def dval_Dec power_int_def power2_eq_square)

end
