(* ===== verification/Evaluation_Metrics.thy ===== *)
theory Evaluation_Metrics
  imports Fold_Stats
begin

text \<open>
  Correlations of features with the forward return over the test segment of a fold
  (src/quantara/evaluation_metrics.py). Every operation runs in the 50-digit context. The rows are
  the research table's, whose cells are decimals or \<open>None\<close>; the type checks of \<open>_validate_numeric\<close>
  hold by typing. Lemmas: average ranks are the mid-ranks and depend on the order alone; a
  correlation is symmetric; the counts of a record add up; a summary lies between the extremes.
\<close>

section \<open>Arithmetic\<close>

definition DECIMAL_CONTEXT :: dctx where
  "DECIMAL_CONTEXT = \<lparr>cprec = 50, cEmin = - 999999, cEmax = 999999\<rparr>"

definition STORAGE_QUANTUM :: dec where "STORAGE_QUANTUM = Dec False 1 (- 18)"

definition m_add :: "dec \<Rightarrow> dec \<Rightarrow> dec res" where "m_add = dec_add DECIMAL_CONTEXT"
definition m_sub :: "dec \<Rightarrow> dec \<Rightarrow> dec res" where "m_sub = dec_sub DECIMAL_CONTEXT"
definition m_mul :: "dec \<Rightarrow> dec \<Rightarrow> dec res" where "m_mul = dec_mul DECIMAL_CONTEXT"
definition m_div :: "dec \<Rightarrow> dec \<Rightarrow> dec res" where "m_div = dec_div DECIMAL_CONTEXT"
definition m_sqrt :: "dec \<Rightarrow> dec res" where "m_sqrt = dec_sqrt DECIMAL_CONTEXT"

definition Q18_ZERO :: dec where "Q18_ZERO = Dec False 0 (- 18)"

definition quantize_metric :: "dec \<Rightarrow> dec res" where
  "quantize_metric a = bindE (dec_quantize DECIMAL_CONTEXT a STORAGE_QUANTUM)
     (\<lambda>r. Inr (if dec_is_zero r then Q18_ZERO else r))"

section \<open>Average ranks\<close>

text \<open>One tie group after the other; \<open>start\<close> counts the positions before it. The indices are in the
  order of the sorted values.\<close>

function rank_groups :: "(nat \<Rightarrow> dec) \<Rightarrow> nat \<Rightarrow> nat list \<Rightarrow> (nat \<times> dec) list res" where
  "rank_groups v start [] = Inr []"
| "rank_groups v start (i # rest) =
     (let same = takeWhile (\<lambda>j. dec_eq (v j) (v i)) rest;
          following = dropWhile (\<lambda>j. dec_eq (v j) (v i)) rest;
          end_pos = start + length same in
      bindE (m_add (dec_of_int (int (start + 1))) (dec_of_int (int (end_pos + 1)))) (\<lambda>s.
      bindE (m_div s (dec_of_int 2)) (\<lambda>rank_mean.
      bindE (rank_groups v (end_pos + 1) following) (\<lambda>ranked.
      Inr (map (\<lambda>j. (j, rank_mean)) (i # same) @ ranked)))))"
  by pat_completeness auto
termination
  by (relation "measure (\<lambda>(v, start, xs). length xs)") (auto simp: less_Suc_eq_le length_dropWhile_le)

definition average_ranks :: "dec list \<Rightarrow> dec list res" where
  "average_ranks values =
     (let indexed = sort_key (\<lambda>i. dval (values ! i)) [0..<length values] in
      bindE (rank_groups (\<lambda>i. values ! i) 0 indexed) (\<lambda>ranked.
      Inr (foldl (\<lambda>ranks (i, r). ranks[i := r]) (replicate (length values) (Dec False 0 0)) ranked)))"

section \<open>Correlations\<close>

definition ONE :: dec where "ONE = Dec False 1 0"
definition MINUS_ONE :: dec where "MINUS_ONE = Dec True 1 0"

definition out_of_unit :: "dec \<Rightarrow> bool" where
  "out_of_unit d \<longleftrightarrow> dec_lt d MINUS_ONE \<or> dec_lt ONE d"

definition pair_sums :: "(dec \<times> dec) list \<Rightarrow> (dec \<times> dec) res" where
  "pair_sums ps = foldE (\<lambda>(sx, sy) (x, y).
     bindE (m_add sx x) (\<lambda>sx'. bindE (m_add sy y) (\<lambda>sy'. Inr (sx', sy')))) (Dec False 0 0, Dec False 0 0) ps"

definition pair_moments :: "dec \<Rightarrow> dec \<Rightarrow> (dec \<times> dec) list \<Rightarrow> (dec \<times> dec \<times> dec) res" where
  "pair_moments mean_x mean_y ps = foldE (\<lambda>(num, qx, qy) (x, y).
     bindE (m_sub x mean_x) (\<lambda>dx. bindE (m_sub y mean_y) (\<lambda>dy.
     bindE (bindE (m_mul dx dy) (m_add num)) (\<lambda>num'.
     bindE (bindE (m_mul dx dx) (m_add qx)) (\<lambda>qx'.
     bindE (bindE (m_mul dy dy) (m_add qy)) (\<lambda>qy'. Inr (num', qx', qy')))))))
     (Dec False 0 0, Dec False 0 0, Dec False 0 0) ps"

definition compute_pearson :: "(dec \<times> dec) list \<Rightarrow> string res" where
  "compute_pearson ps =
     (let n = dec_of_int (int (length ps)) in
      if length ps < 2 then Inl (MetricDomainError ''fewer than two valid pairs'')
      else
        bindE (pair_sums ps) (\<lambda>(sum_x, sum_y).
        bindE (m_div sum_x n) (\<lambda>mean_x. bindE (m_div sum_y n) (\<lambda>mean_y.
        bindE (pair_moments mean_x mean_y ps) (\<lambda>(num, qx, qy).
        if dec_is_zero qx then Inl (MetricDomainError ''zero feature variance'')
        else if dec_is_zero qy then Inl (MetricDomainError ''zero target variance'')
        else
          bindE (m_mul qx qy) (\<lambda>denom_sq. bindE (m_sqrt denom_sq) (\<lambda>denominator.
          bindE (m_div num denominator) (\<lambda>raw.
          if out_of_unit raw then Inl (MetricDomainError ''out of bounds before quantization'')
          else bindE (quantize_metric raw) (\<lambda>q.
            if out_of_unit q then Inl (MetricDomainError ''out of bounds after quantization'')
            else Inr (dec_format_f q))))))))))"

definition compute_spearman :: "(dec \<times> dec) list \<Rightarrow> string res" where
  "compute_spearman ps =
     bindE (average_ranks (map fst ps)) (\<lambda>xs. bindE (average_ranks (map snd ps)) (\<lambda>ys. compute_pearson (zip xs ys)))"

section \<open>Records\<close>

text \<open>\<open>row[index]\<close> of a row tuple; the open time and the direction are integers.\<close>

definition row_value :: "research_row \<Rightarrow> nat \<Rightarrow> dec option res" where
  "row_value r i = py_index [Some (dec_of_int (r_open_ms r)), r_ret r, r_roc r, r_rvol r, r_volratio r, r_fwdret r,
     map_option dec_of_int (r_fwddir r)] i"

definition FEATURE_COLUMN_INDICES :: "(string \<times> nat) list" where
  "FEATURE_COLUMN_INDICES = [(''f_ret_1'', 1), (''f_roc_60'', 2), (''f_rvol_20'', 3), (''f_volratio_20'', 4)]"

definition TARGET_COLUMN_INDEX :: nat where "TARGET_COLUMN_INDEX = 5"

record eval_record =
  er_fold_id :: nat
  er_feature :: string
  er_target :: string
  er_test_range :: "int \<times> int"
  er_test_rows :: nat
  er_valid :: nat
  er_excluded :: nat
  er_feature_nulls :: nat
  er_target_nulls :: nat
  er_pearson :: string
  er_spearman :: string

definition valid_pairs :: "('a option \<times> 'b option) list \<Rightarrow> ('a \<times> 'b) list" where
  "valid_pairs vs = List.map_filter (\<lambda>(x, y). case (x, y) of (Some a, Some b) \<Rightarrow> Some (a, b) | _ \<Rightarrow> None) vs"

definition evaluate_fold_feature ::
    "nat \<Rightarrow> string \<Rightarrow> string \<Rightarrow> int \<times> int \<Rightarrow> research_row list \<Rightarrow> nat \<Rightarrow> nat \<Rightarrow> eval_record res" where
  "evaluate_fold_feature fid feature target rng rows feature_idx target_idx =
     bindE (mapE (\<lambda>r. bindE (row_value r feature_idx) (\<lambda>x. bindE (row_value r target_idx) (\<lambda>y. Inr (x, y)))) rows) (\<lambda>vs.
     let pairs = valid_pairs vs in
     bindE (compute_pearson pairs) (\<lambda>pearson.
     bindE (compute_spearman pairs) (\<lambda>spearman.
     Inr \<lparr>er_fold_id = fid, er_feature = feature, er_target = target, er_test_range = rng, er_test_rows = length rows,
          er_valid = length pairs, er_excluded = length rows - length pairs,
          er_feature_nulls = length (filter (\<lambda>v. fst v = None) vs), er_target_nulls = length (filter (\<lambda>v. snd v = None) vs),
          er_pearson = pearson, er_spearman = spearman\<rparr>)))"

definition dict_get :: "(string \<times> 'a) list \<Rightarrow> string \<Rightarrow> 'a res" where
  "dict_get kvs k = (case map_of kvs k of None \<Rightarrow> Inl PyKeyError | Some v \<Rightarrow> Inr v)"

definition build_evaluation_records :: "fold list \<Rightarrow> research_row list \<Rightarrow> string list \<Rightarrow> string \<Rightarrow> eval_record list res" where
  "build_evaluation_records folds rows features target =
     bindE (mapE (\<lambda>f. let fold_rows = slice_rows (fst (test_range f)) (snd (test_range f)) rows in
       mapE (\<lambda>feature. bindE (dict_get FEATURE_COLUMN_INDICES feature) (\<lambda>f_idx.
         evaluate_fold_feature (fold_id f) feature target (test_range f) fold_rows f_idx TARGET_COLUMN_INDEX)) features) folds)
     (\<lambda>rss. Inr (concat rss))"

section \<open>Summaries\<close>

record eval_summary =
  es_feature :: string
  es_metric :: string
  es_folds :: nat
  es_valid_pairs :: nat
  es_positive :: nat
  es_negative :: nat
  es_zero :: nat
  es_minimum :: string
  es_maximum :: string
  es_median :: string
  es_mean :: string

definition metric_of :: "eval_record \<Rightarrow> string \<Rightarrow> string res" where
  "metric_of r metric = dict_get [(''pearson_ic'', er_pearson r), (''spearman_ic'', er_spearman r)] metric"

definition decimal_of :: "string \<Rightarrow> dec res" where
  "decimal_of s = (case read_decimal s of None \<Rightarrow> Inl InvalidOperation | Some d \<Rightarrow> Inr d)"

definition median_of :: "dec list \<Rightarrow> dec res" where
  "median_of sorted_vals =
     (let n = length sorted_vals; mid = n div 2 in
      if n mod 2 = 1 then Inr (sorted_vals ! mid)
      else bindE (m_add (sorted_vals ! (mid - 1)) (sorted_vals ! mid)) (\<lambda>s. bindE (m_div s (dec_of_int 2)) quantize_metric))"

definition equal_weight_mean :: "dec list \<Rightarrow> dec res" where
  "equal_weight_mean vals =
     bindE (foldE m_add (Dec False 0 0) vals) (\<lambda>total.
     bindE (m_div total (dec_of_int (int (length vals)))) quantize_metric)"

definition summarize_metric :: "string \<Rightarrow> string \<Rightarrow> nat \<Rightarrow> dec list \<Rightarrow> eval_summary res" where
  "summarize_metric feature metric pairs vals =
     bindE (median_of (sort_key dval vals)) (\<lambda>median.
     bindE (equal_weight_mean vals) (\<lambda>mean.
     Inr \<lparr>es_feature = feature, es_metric = metric, es_folds = length vals, es_valid_pairs = pairs,
          es_positive = length (filter (dec_lt (Dec False 0 0)) vals),
          es_negative = length (filter (\<lambda>v. dec_lt v (Dec False 0 0)) vals),
          es_zero = length (filter (dec_eq (Dec False 0 0)) vals),
          es_minimum = dec_format_f (py_min dec_lt vals), es_maximum = dec_format_f (py_max dec_lt vals),
          es_median = dec_format_f median, es_mean = dec_format_f mean\<rparr>))"

definition build_evaluation_summaries :: "eval_record list \<Rightarrow> string list \<Rightarrow> string list \<Rightarrow> eval_summary list res" where
  "build_evaluation_summaries records features metrics =
     bindE (mapE (\<lambda>feature.
       let feature_records = filter (\<lambda>r. er_feature r = feature) records in
       if feature_records = [] then Inl (MetricDomainError ''no records found for feature'')
       else mapE (\<lambda>metric.
         bindE (mapE (\<lambda>r. bindE (metric_of r metric) decimal_of) feature_records)
           (summarize_metric feature metric (sum_list (map er_valid feature_records)))) metrics) features)
     (\<lambda>sss. Inr (concat sss))"

section \<open>Ranks\<close>

text \<open>The sorted indices, grouped: what a group's rank counts.\<close>

definition mid_rank :: "dec list \<Rightarrow> nat \<Rightarrow> rat" where
  "mid_rank values i =
     of_nat (card {j. j < length values \<and> dval (values ! j) < dval (values ! i)})
     + (of_nat (card {j. j < length values \<and> dval (values ! j) = dval (values ! i)}) + 1) / 2"

lemma m_add_nat: "i + j < 10 ^ 49 \<Longrightarrow> m_add (dec_of_int (int i)) (dec_of_int (int j)) = Inr (dec_of_int (int (i + j)))"
  unfolding m_add_def dec_add_def
  by (subst dec_fix_fits)
    (auto simp: dec_fits_def dec_add_exact_def dec_of_int_def Let_def dint_def DECIMAL_CONTEXT_def Etiny_def Etop_def nat_add_distrib
      simp flip: of_nat_add)

lemma m_div_two: "k < 10 ^ 49 \<Longrightarrow> m_div (dec_of_int (int k)) (dec_of_int 2) = Inr (half k)"
  unfolding m_div_def by (rule dec_div_half) (simp_all add: DECIMAL_CONTEXT_def Etiny_def Etop_def)

lemma rank_groups_total:
  "start + length xs < 10 ^ 48 \<Longrightarrow> \<exists>rs. rank_groups v start xs = Inr rs \<and> map fst rs = xs"
proof (induction v start xs rule: rank_groups.induct)
  case (2 v start i rest)
  define same where "same = takeWhile (\<lambda>j. dec_eq (v j) (v i)) rest"
  define others where "others = dropWhile (\<lambda>j. dec_eq (v j) (v i)) rest"
  define last_pos where "last_pos = start + length same"
  have len: "length same + length others = length rest" and rest: "rest = same @ others"
    by (simp_all add: same_def others_def flip: length_append)
  have s: "m_add (dec_of_int (int (start + 1))) (dec_of_int (int (last_pos + 1))) = Inr (dec_of_int (int (start + last_pos + 2)))"
    using m_add_nat[of "start + 1" "last_pos + 1"] "2.prems" len by (simp add: last_pos_def)
  have d: "m_div (dec_of_int (int (start + last_pos + 2))) (dec_of_int 2) = Inr (half (start + last_pos + 2))"
    using m_div_two[of "start + last_pos + 2"] "2.prems" len by (simp add: last_pos_def)
  obtain rs where "rank_groups v (last_pos + 1) others = Inr rs" "map fst rs = others"
    using "2.IH"[OF same_def others_def last_pos_def] "2.prems" len by (auto simp: last_pos_def)
  then show ?case
    by (subst rank_groups.simps, unfold Let_def same_def[symmetric] others_def[symmetric] last_pos_def[symmetric] s d bindE.simps)
      (simp add: comp_def rest)
qed simp

lemma filter_prefix: "(\<And>k. k \<in> set a \<Longrightarrow> P k) \<Longrightarrow> (\<And>k. k \<in> set b \<Longrightarrow> \<not> P k) \<Longrightarrow> filter P (a @ b) = a"
  by (auto simp: filter_id_conv filter_empty_conv)

lemma rank_groups_values:
  assumes "rank_groups v start xs = Inr rs" "start + length xs < 10 ^ 48"
    and "sorted_wrt (\<lambda>i j. dval (v i) \<le> dval (v j)) xs" "j \<in> set xs"
  shows "\<exists>r. (j, r) \<in> set rs \<and> dval r = of_nat start + of_nat (length (filter (\<lambda>k. dval (v k) < dval (v j)) xs))
     + (of_nat (length (filter (\<lambda>k. dval (v k) = dval (v j)) xs)) + 1) / 2"
  using assms
proof (induction v start xs arbitrary: rs rule: rank_groups.induct)
  case (2 v start i rest)
  define same where "same = takeWhile (\<lambda>j. dec_eq (v j) (v i)) rest"
  define others where "others = dropWhile (\<lambda>j. dec_eq (v j) (v i)) rest"
  define last_pos where "last_pos = start + length same"
  have len: "length same + length others = length rest" and rest: "rest = same @ others"
    by (simp_all add: same_def others_def flip: length_append)
  have s: "m_add (dec_of_int (int (start + 1))) (dec_of_int (int (last_pos + 1))) = Inr (dec_of_int (int (start + last_pos + 2)))"
    using m_add_nat[of "start + 1" "last_pos + 1"] "2.prems"(2) len by (simp add: last_pos_def)
  have d: "m_div (dec_of_int (int (start + last_pos + 2))) (dec_of_int 2) = Inr (half (start + last_pos + 2))"
    using m_div_two[of "start + last_pos + 2"] "2.prems"(2) len by (simp add: last_pos_def)
  obtain rs' where tail: "rank_groups v (last_pos + 1) others = Inr rs'"
      and rs: "rs = map (\<lambda>j. (j, half (start + last_pos + 2))) (i # same) @ rs'"
    using "2.prems"(1)
    by (subst (asm) rank_groups.simps, unfold Let_def same_def[symmetric] others_def[symmetric] last_pos_def[symmetric] s d bindE.simps)
      (auto simp: res_simps)
  have eq: "dval (v k) = dval (v i)" if "k \<in> set (i # same)" for k
    using that by (auto simp: same_def dec_eq_iff dest: set_takeWhileD)
  have above: "dval (v i) < dval (v k)" if k: "k \<in> set others" for k
  proof -
    obtain h t where ht: "others = h # t" using k by (cases others) auto
    have "\<not> dec_eq (v h) (v i)" using ht hd_dropWhile[of "\<lambda>j. dec_eq (v j) (v i)" rest] by (auto simp: others_def)
    moreover have "dval (v i) \<le> dval (v h)" "dval (v h) \<le> dval (v k)"
      using "2.prems"(3) k by (auto simp: rest sorted_wrt_append ht)
    ultimately show ?thesis by (auto simp: dec_eq_iff)
  qed
  show ?case
  proof (cases "j \<in> set (i # same)")
    case True
    have "\<not> dval (v k) < dval (v j)" if "k \<in> set ((i # same) @ others)" for k
      using that eq[of k] above[of k] eq[OF True] by (cases "k \<in> set others") auto
    then have f1: "filter (\<lambda>k. dval (v k) < dval (v j)) ((i # same) @ others) = []" by (meson filter_False)
    have f2: "filter (\<lambda>k. dval (v k) = dval (v j)) ((i # same) @ others) = i # same"
    proof (rule filter_prefix)
      show "dval (v k) = dval (v j)" if "k \<in> set (i # same)" for k using eq[OF that] eq[OF True] by simp
      show "dval (v k) \<noteq> dval (v j)" if "k \<in> set others" for k using above[OF that] eq[OF True] by simp
    qed
    have m: "(j, half (start + last_pos + 2)) \<in> set rs" using True by (auto simp: rs)
    have v: "dval (half (start + last_pos + 2)) = of_nat start + of_nat (length ([] :: nat list)) + (of_nat (length (i # same)) + 1) / 2"
      by (simp add: dval_half last_pos_def field_simps)
    show ?thesis
      unfolding rest append_Cons[symmetric] by (rule exI[of _ "half (start + last_pos + 2)"]) (simp only: f1 f2 v m simp_thms)
  next
    case False
    then have j: "j \<in> set others" using "2.prems"(4) by (auto simp: rest)
    have "last_pos + 1 + length others < 10 ^ 48" "sorted_wrt (\<lambda>i j. dval (v i) \<le> dval (v j)) others"
      using "2.prems"(2,3) by (simp_all add: last_pos_def rest sorted_wrt_append)
    from "2.IH"[OF same_def others_def last_pos_def tail this j]
    obtain r where r: "(j, r) \<in> set rs'" "dval r = of_nat (last_pos + 1) + of_nat (length (filter (\<lambda>k. dval (v k) < dval (v j)) others))
        + (of_nat (length (filter (\<lambda>k. dval (v k) = dval (v j)) others)) + 1) / 2"
      by blast
    have below: "dval (v k) < dval (v j)" if "k \<in> set (i # same)" for k using eq[OF that] above[OF j] by simp
    have "filter (\<lambda>k. dval (v k) < dval (v j)) (i # same) = i # same"
      using below by (intro filter_True) blast
    moreover have "filter (\<lambda>k. dval (v k) = dval (v j)) (i # same) = []"
      using below by (intro filter_False) (metis less_irrefl)
    ultimately have "length (filter (\<lambda>k. dval (v k) < dval (v j)) (i # rest)) = length same + 1 + length (filter (\<lambda>k. dval (v k) < dval (v j)) others)"
      "filter (\<lambda>k. dval (v k) = dval (v j)) (i # rest) = filter (\<lambda>k. dval (v k) = dval (v j)) others"
      using filter_append[of "\<lambda>k. dval (v k) < dval (v j)" "i # same" others]
        filter_append[of "\<lambda>k. dval (v k) = dval (v j)" "i # same" others]
      unfolding rest append_Cons[symmetric] by (simp_all only: length_append append_Nil length_Cons Suc_eq_plus1)
    then show ?thesis using r by (intro exI[of _ r]) (simp add: rs last_pos_def)
  qed
qed simp

lemma foldl_updates:
  "distinct (map fst rs) \<Longrightarrow> (j, r) \<in> set rs \<Longrightarrow> j < length xs \<Longrightarrow> foldl (\<lambda>ranks (i, r). ranks[i := r]) xs rs ! j = r"
  "length (foldl (\<lambda>ranks (i, r). ranks[i := r]) xs rs) = length xs"
  "j \<notin> set (map fst rs) \<Longrightarrow> foldl (\<lambda>ranks (i, r). ranks[i := r]) xs rs ! j = xs ! j"
proof (induction rs arbitrary: xs)
  case (Cons p rs)
  { case 1
    show ?case
    proof (cases "p = (j, r)")
      case True
      then show ?thesis using Cons.IH(3)[of "xs[j := r]"] 1 by simp
    next
      case False
      then show ?thesis using Cons.IH(1)[of "xs[fst p := snd p]"] 1 by (auto simp: case_prod_unfold)
    qed }
  { case 2 show ?case using Cons.IH(2) by (simp add: case_prod_unfold) }
  { case 3 then show ?case using Cons.IH(3)[of "xs[fst p := snd p]"] by (auto simp: case_prod_unfold) }
qed simp_all

text \<open>C29: For fewer than 10^48 values the average rank of a value is exactly its mid-rank: the number of
  smaller values plus half of one more than the number of equal ones.\<close>

theorem average_ranks_mid:
  assumes "length values < 10 ^ 48"
  shows "\<exists>ranks. average_ranks values = Inr ranks \<and> length ranks = length values
     \<and> (\<forall>i < length values. dval (ranks ! i) = mid_rank values i)"
proof -
  let ?xs = "sort_key (\<lambda>i. dval (values ! i)) [0..<length values]" and ?v = "\<lambda>i. values ! i"
  obtain rs where rs: "rank_groups ?v 0 ?xs = Inr rs" "map fst rs = ?xs"
    using rank_groups_total[of 0 ?xs ?v] assms by auto
  have sorted: "sorted_wrt (\<lambda>i j. dval (?v i) \<le> dval (?v j)) ?xs"
    using sorted_sort_key[of "\<lambda>i. dval (values ! i)" "[0..<length values]"] by (simp add: sorted_map)
  let ?out = "foldl (\<lambda>ranks (i, r). ranks[i := r]) (replicate (length values) (Dec False 0 0)) rs"
  have count: "length (filter P ?xs) = card {j. j < length values \<and> P j}" for P
  proof -
    have "length (filter P ?xs) = card (set (filter P ?xs))" by (intro distinct_card[symmetric]) (simp add: distinct_filter)
    then show ?thesis by (simp add: conj_commute Int_def) 
  qed
  have "dval (?out ! i) = mid_rank values i" if i: "i < length values" for i
  proof -
    obtain r where "(i, r) \<in> set rs" "dval r = mid_rank values i"
      using rank_groups_values[OF rs(1) _ sorted, of i] assms i by (auto simp: count mid_rank_def)
    then show ?thesis using foldl_updates(1)[of rs i r] i by (simp add: rs(2))
  qed
  then show ?thesis
    by (intro exI[of _ ?out]) (simp add: average_ranks_def Let_def rs foldl_updates(2))
qed

theorem average_ranks_mid_witness:
  "\<exists>ranks. average_ranks [Dec False 5 (- 1), Dec True 3 0, Dec False 50 (- 2)] = Inr ranks
     \<and> dval (ranks ! 0) = 5 / 2 \<and> dval (ranks ! 1) = 1"
proof -
  let ?vs = "[Dec False 5 (- 1), Dec True 3 0, Dec False 50 (- 2)]"
  have v: "dval (?vs ! 0) = 1 / 2" "dval (?vs ! 1) = - 3" "dval (?vs ! 2) = 1 / 2"
    by (simp_all add: dval_Dec power_int_minus)
  have three: "j < length ?vs \<longleftrightarrow> j = 0 \<or> j = 1 \<or> j = 2" for j by auto
  have all: "{j. j < length ?vs \<and> P j} = set (filter P [0, 1, 2])" for P unfolding three set_filter list.set by blast
  note sets = all[of "\<lambda>j. dval (?vs ! j) < dval (?vs ! 0)"] all[of "\<lambda>j. dval (?vs ! j) = dval (?vs ! 0)"]
    all[of "\<lambda>j. dval (?vs ! j) < dval (?vs ! 1)"] all[of "\<lambda>j. dval (?vs ! j) = dval (?vs ! 1)"]
  have "mid_rank ?vs 0 = 5 / 2" "mid_rank ?vs 1 = 1" unfolding mid_rank_def sets unfolding filter.simps v by simp_all
  then show ?thesis using average_ranks_mid[of ?vs] by fastforce
qed

text \<open>Ranks depend on the order of the values alone.\<close>

lemma insort_key_cong:
  "(\<And>b. b \<in> set xs \<Longrightarrow> f a \<le> f b \<longleftrightarrow> g a \<le> g b) \<Longrightarrow> insort_key f a xs = insort_key g a xs"
  by (induction xs) auto

lemma sort_key_cong:
  "(\<And>a b. a \<in> set xs \<Longrightarrow> b \<in> set xs \<Longrightarrow> f a \<le> f b \<longleftrightarrow> g a \<le> g b) \<Longrightarrow> sort_key f xs = sort_key g xs"
proof (induction xs)
  case (Cons a xs)
  then have "sort_key f xs = sort_key g xs" by simp
  moreover have "insort_key f a (sort_key g xs) = insort_key g a (sort_key g xs)"
    using Cons.prems by (intro insort_key_cong) simp
  ultimately show ?case by simp
qed simp

lemma rank_groups_cong:
  "(\<And>i j. i \<in> set xs \<Longrightarrow> j \<in> set xs \<Longrightarrow> dec_eq (v i) (v j) \<longleftrightarrow> dec_eq (w i) (w j))
     \<Longrightarrow> rank_groups v start xs = rank_groups w start xs"
proof (induction v start xs rule: rank_groups.induct)
  case (2 v start i rest)
  have t: "takeWhile (\<lambda>j. dec_eq (v j) (v i)) rest = takeWhile (\<lambda>j. dec_eq (w j) (w i)) rest"
    and d: "dropWhile (\<lambda>j. dec_eq (v j) (v i)) rest = dropWhile (\<lambda>j. dec_eq (w j) (w i)) rest"
    using "2.prems" by (auto intro!: takeWhile_cong dropWhile_cong)
  have sub: "set (dropWhile (\<lambda>j. dec_eq (v j) (v i)) rest) \<subseteq> set rest" by (auto dest: set_dropWhileD)
  have IH: "rank_groups v n (dropWhile (\<lambda>j. dec_eq (v j) (v i)) rest) = rank_groups w n (dropWhile (\<lambda>j. dec_eq (v j) (v i)) rest)"
    if "n = start + length (takeWhile (\<lambda>j. dec_eq (v j) (v i)) rest) + 1" for n
    unfolding that by (rule "2.IH"[OF refl refl refl]) (use "2.prems" sub in auto)
  show ?case
    by (subst (1 2) rank_groups.simps) (simp only: Let_def t[symmetric] d[symmetric] IH[OF refl])
qed simp

lemma average_ranks_cong:
  assumes "length xs = length ys"
    and "\<And>i j. i < length xs \<Longrightarrow> j < length xs \<Longrightarrow> dval (xs ! i) \<le> dval (xs ! j) \<longleftrightarrow> dval (ys ! i) \<le> dval (ys ! j)"
  shows "average_ranks xs = average_ranks ys"
proof -
  define idx where "idx = sort_key (\<lambda>i. dval (xs ! i)) [0..<length xs]"
  have s: "sort_key (\<lambda>i. dval (ys ! i)) [0..<length xs] = idx"
    unfolding idx_def using assms(2) by (intro sort_key_cong) auto
  have "set idx = {0..<length xs}" by (simp add: idx_def)
  then have r: "rank_groups (\<lambda>i. xs ! i) 0 idx = rank_groups (\<lambda>i. ys ! i) 0 idx"
  proof (intro rank_groups_cong)
    fix i j assume "i \<in> set idx" "j \<in> set idx"
    then have "i < length xs" "j < length xs" using \<open>set idx = {0..<length xs}\<close> by auto
    then show "dec_eq (xs ! i) (xs ! j) \<longleftrightarrow> dec_eq (ys ! i) (ys ! j)"
      using assms(2)[of i j] assms(2)[of j i] unfolding dec_eq_iff by (metis order_antisym order_refl)
  qed
  show ?thesis
    unfolding average_ranks_def Let_def assms(1)[symmetric] s idx_def[symmetric] r ..
qed

section \<open>Symmetry\<close>

lemma m_mul_commute: "m_mul a b = m_mul b a"
  unfolding m_mul_def dec_mul_def by (simp add: mult.commute add.commute eq_commute)

lemma foldE_sim:
  assumes step: "\<And>s a s'. g (\<phi> s) (\<psi> a) = Inr (\<phi> s') \<longleftrightarrow> f s a = Inr s'" and inv: "\<And>s. \<phi> (\<phi> s) = s"
  shows "foldE g (\<phi> s) (map \<psi> xs) = Inr (\<phi> r) \<longleftrightarrow> foldE f s xs = Inr r"
proof (induction xs arbitrary: s)
  case Nil
  show ?case using inv by (metis foldE.simps(1) list.map(1) sum.inject(2))
next
  case (Cons a xs)
  have "foldE g (\<phi> s) (map \<psi> (a # xs)) = Inr (\<phi> r) \<longleftrightarrow> (\<exists>u. g (\<phi> s) (\<psi> a) = Inr (\<phi> u) \<and> foldE g (\<phi> u) (map \<psi> xs) = Inr (\<phi> r))"
    using inv by (auto simp: bindE_Inr_iff) metis
  then show ?case by (simp add: step Cons.IH bindE_Inr_iff)
qed

lemma pair_sums_swap: "pair_sums (map prod.swap ps) = Inr (b, a) \<longleftrightarrow> pair_sums ps = Inr (a, b)"
  unfolding pair_sums_def
  by (rule foldE_sim[where \<phi> = prod.swap and s = "(Dec False 0 0, Dec False 0 0)" and r = "(a, b)", simplified])
    (auto simp: res_simps)

lemma pair_moments_swap:
  "pair_moments my mx (map prod.swap ps) = Inr (n, qy, qx) \<longleftrightarrow> pair_moments mx my ps = Inr (n, qx, qy)"
  unfolding pair_moments_def
  by (rule foldE_sim[where \<phi> = "\<lambda>(a, b, c). (a, c, b)" and s = "(Dec False 0 0, Dec False 0 0, Dec False 0 0)" and r = "(n, qx, qy)", simplified])
    (auto simp: res_simps m_mul_commute)

lemma compute_pearsonI:
  assumes "2 \<le> length ps" "pair_sums ps = Inr (sx, sy)"
    "m_div sx (dec_of_int (int (length ps))) = Inr mx" "m_div sy (dec_of_int (int (length ps))) = Inr my"
    "pair_moments mx my ps = Inr (num, qx, qy)" "\<not> dec_is_zero qx" "\<not> dec_is_zero qy" "m_mul qx qy = Inr sq"
    "m_sqrt sq = Inr den" "m_div num den = Inr raw" "\<not> out_of_unit raw" "quantize_metric raw = Inr q" "\<not> out_of_unit q"
  shows "compute_pearson ps = Inr (dec_format_f q)"
  using assms by (simp add: compute_pearson_def)

lemma compute_pearsonE:
  assumes "compute_pearson ps = Inr t"
  obtains sx sy mx my num qx qy sq den raw q where "2 \<le> length ps" "pair_sums ps = Inr (sx, sy)"
    "m_div sx (dec_of_int (int (length ps))) = Inr mx" "m_div sy (dec_of_int (int (length ps))) = Inr my"
    "pair_moments mx my ps = Inr (num, qx, qy)" "\<not> dec_is_zero qx" "\<not> dec_is_zero qy" "m_mul qx qy = Inr sq"
    "m_sqrt sq = Inr den" "m_div num den = Inr raw" "\<not> out_of_unit raw" "quantize_metric raw = Inr q" "\<not> out_of_unit q"
    "t = dec_format_f q"
  using assms by (auto simp: compute_pearson_def Let_def res_simps split: if_splits)

text \<open>Both correlations are symmetric: exchanging the two columns changes neither whether a
  correlation is computed nor its text.\<close>

theorem correlations_symmetric:
  "(compute_pearson (map prod.swap ps) = Inr t \<longleftrightarrow> compute_pearson ps = Inr t)
   \<and> (compute_spearman (map prod.swap ps) = Inr t \<longleftrightarrow> compute_spearman ps = Inr t)"
proof -
  have one: "compute_pearson (map prod.swap ps) = Inr t" if "compute_pearson ps = Inr t" for ps
  proof -
    from \<open>compute_pearson ps = Inr t\<close> show ?thesis
    proof (rule compute_pearsonE)
      fix sx sy mx my num qx qy sq den raw q
      assume *: "2 \<le> length ps" "pair_sums ps = Inr (sx, sy)"
        "m_div sx (dec_of_int (int (length ps))) = Inr mx" "m_div sy (dec_of_int (int (length ps))) = Inr my"
        "pair_moments mx my ps = Inr (num, qx, qy)" "\<not> dec_is_zero qx" "\<not> dec_is_zero qy" "m_mul qx qy = Inr sq"
        "m_sqrt sq = Inr den" "m_div num den = Inr raw" "\<not> out_of_unit raw" "quantize_metric raw = Inr q"
        "\<not> out_of_unit q" "t = dec_format_f q"
      show ?thesis unfolding \<open>t = dec_format_f q\<close>
        by (rule compute_pearsonI[of _ sy sx my mx num qy qx sq den raw])
          (use * in \<open>simp_all add: pair_sums_swap pair_moments_swap m_mul_commute[of qy]\<close>)
    qed
  qed
  have pearson: "compute_pearson (map prod.swap ps) = Inr t \<longleftrightarrow> compute_pearson ps = Inr t" for ps
    using one[of ps] one[of "map prod.swap ps"] by (auto simp: comp_def)
  have "compute_pearson (zip ys xs) = Inr t \<longleftrightarrow> compute_pearson (zip xs ys) = Inr t" for xs ys :: "dec list"
  proof -
    have "zip ys xs = map prod.swap (zip xs ys)" by (subst zip_commute) (rule map_cong, auto)
    then show ?thesis using pearson[of "zip xs ys"] by simp
  qed
  moreover have "map fst (map prod.swap ps) = map snd ps" "map snd (map prod.swap ps) = map fst ps" by simp_all
  ultimately show ?thesis
    unfolding compute_spearman_def bindE_Inr_iff pearson by metis
qed

text \<open>The rank correlation depends on the order within the columns alone: replacing each column by
  values in the same order, ties included, gives the same result or the same error.\<close>

theorem spearman_order_only:
  assumes "length ps = length qs"
    and "\<forall>i < length ps. \<forall>j < length ps. dval (fst (ps ! i)) \<le> dval (fst (ps ! j)) \<longleftrightarrow> dval (fst (qs ! i)) \<le> dval (fst (qs ! j))"
    and "\<forall>i < length ps. \<forall>j < length ps. dval (snd (ps ! i)) \<le> dval (snd (ps ! j)) \<longleftrightarrow> dval (snd (qs ! i)) \<le> dval (snd (qs ! j))"
  shows "compute_spearman ps = compute_spearman qs"
proof -
  have "average_ranks (map fst ps) = average_ranks (map fst qs)" "average_ranks (map snd ps) = average_ranks (map snd qs)"
    using assms by (auto intro!: average_ranks_cong)
  then show ?thesis by (simp add: compute_spearman_def)
qed

theorem spearman_order_only_witness:
  "compute_spearman [(Dec False 5 (- 1), Dec False 2 0), (Dec True 3 0, Dec False 9 0), (Dec False 50 (- 2), Dec True 1 0)]
   = compute_spearman [(Dec False 8 0, Dec False 1 0), (Dec False 7 0, Dec False 2 0), (Dec False 8 0, Dec False 0 0)]"
  by (rule spearman_order_only) (simp_all add: All_less_Suc dval_Dec power_int_minus numeral_eq_Suc)

section \<open>Stored numbers\<close>

text \<open>The numbers a record stores: multiples of 1E-18 in the unit interval.\<close>

definition stored :: "dec \<Rightarrow> bool" where
  "stored d \<longleftrightarrow> dexp d = - 18 \<and> \<bar>dval d\<bar> \<le> 1"

definition q18_unit :: rat where "q18_unit = 10 powi (- 18)"
definition div_error :: rat where "div_error = 10 powi (- 49) + 10 powi (- 1000048)"

lemma q18_unit_pos: "0 < q18_unit" "q18_unit \<le> 1"
proof -
  show "0 < q18_unit" unfolding q18_unit_def by (rule powi_pos)
  have "(10 :: rat) powi (- 18) \<le> 10 powi 0" by (rule power_int_increasing) auto
  then show "q18_unit \<le> 1" by (simp only: q18_unit_def power_int_0_right)
qed

lemma small_errors: "0 \<le> div_error" "div_error + q18_unit / 2 < q18_unit"
proof -
  define u v w where "u = (10 :: rat) powi (- 49)" and "v = (10 :: rat) powi (- 1000048)" and "w = (10 :: rat) powi (- 19)"
  have "u \<le> w" "v \<le> w" "0 < u" "0 < v" "0 < w"
    unfolding u_def v_def w_def by (intro power_int_increasing powi_pos; simp)+
  moreover have "q18_unit = 10 * w" unfolding q18_unit_def w_def using power_int_add[of "10 :: rat" 1 "- 19"] by simp
  moreover have "div_error = u + v" by (simp only: div_error_def u_def v_def)
  ultimately show "0 \<le> div_error" "div_error + q18_unit / 2 < q18_unit" by linarith+
qed

lemma grid_val: "dexp d = - 18 \<Longrightarrow> dval d = of_int (dint (- 18) d) * q18_unit"
  unfolding q18_unit_def by (rule dint_val) simp

lemma grid_mono:
  assumes "dexp a = - 18" "dexp b = - 18" "dval a - dval b < q18_unit"
  shows "dval a \<le> dval b"
proof -
  have "of_int (dint (- 18) a - dint (- 18) b) * q18_unit < 1 * q18_unit"
    using assms by (simp add: grid_val left_diff_distrib)
  then have "(of_int (dint (- 18) a - dint (- 18) b) :: rat) < 1"
    using q18_unit_pos(1) by (simp only: mult_less_cancel_right_pos)
  then have "dint (- 18) a \<le> dint (- 18) b" by simp
  then show ?thesis using assms(1,2) q18_unit_pos(1) by (simp add: grid_val)
qed

lemma metric_context: "cprec DECIMAL_CONTEXT = 50" "Etiny DECIMAL_CONTEXT = - 1000048" "Etop DECIMAL_CONTEXT = 999950"
  "cEmax DECIMAL_CONTEXT = 999999"
  by (simp_all add: DECIMAL_CONTEXT_def Etiny_def Etop_def)

lemma quantize_metric_total:
  assumes "\<bar>dval a\<bar> \<le> 10 powi k" "- 18 \<le> k" "k \<le> 31"
  shows "\<exists>q. quantize_metric a = Inr q \<and> dexp q = - 18 \<and> \<bar>dval q - dval a\<bar> \<le> q18_unit / 2"
proof -
  obtain r where r: "dec_quantize DECIMAL_CONTEXT a STORAGE_QUANTUM = Inr r"
    using dec_quantize_total[of a k DECIMAL_CONTEXT STORAGE_QUANTUM] assms
    by (auto simp: metric_context STORAGE_QUANTUM_def)
  have q: "dexp STORAGE_QUANTUM = - 18" by (simp add: STORAGE_QUANTUM_def)
  have "dexp r = - 18" "\<bar>dval r - dval a\<bar> \<le> q18_unit / 2"
    using dec_quantize_error(1,2)[OF r] unfolding q q18_unit_def by (simp_all only: metric_context)
  moreover have "dec_is_zero r \<Longrightarrow> dval Q18_ZERO = dval r" by (simp add: dec_is_zero_def Q18_ZERO_def dval_def)
  ultimately show ?thesis
    by (auto simp: quantize_metric_def r Q18_ZERO_def)
qed

text \<open>A quotient in the unit interval, stored: less than one unit off.\<close>

lemma div_quantize:
  assumes "dval b \<noteq> 0" "\<bar>dval a / dval b\<bar> \<le> 1"
  shows "\<exists>r q. m_div a b = Inr r \<and> quantize_metric r = Inr q \<and> dexp q = - 18 \<and> \<bar>dval q - dval a / dval b\<bar> < q18_unit"
proof -
  define y where "y = dval a / dval b"
  obtain r where r: "m_div a b = Inr r"
    using dec_div_total[of b a 0 DECIMAL_CONTEXT] assms by (auto simp: m_div_def metric_context)
  have k: "1 - int (cprec DECIMAL_CONTEXT) = - 49" "0 < cprec DECIMAL_CONTEXT" by (simp_all add: metric_context)
  have "\<bar>dval r - y\<bar> \<le> \<bar>y\<bar> * 10 powi (- 49) + 10 powi (- 1000048)"
    using dec_div_relative[OF r[unfolded m_div_def] k(2)] unfolding k(1) metric_context(2) y_def .
  also have "\<dots> \<le> 1 * 10 powi (- 49) + 10 powi (- 1000048)"
    by (intro add_right_mono mult_right_mono assms(2)[folded y_def] less_imp_le powi_pos)
  finally have e: "\<bar>dval r - y\<bar> \<le> div_error" by (simp only: div_error_def mult_1_left)
  have y1: "\<bar>y\<bar> \<le> 1" using assms(2) by (simp add: y_def)
  have "\<bar>dval r\<bar> \<le> 1 + div_error" using y1 e by linarith
  also have "\<dots> \<le> 10 powi 1" using small_errors q18_unit_pos by simp
  finally obtain q where q: "quantize_metric r = Inr q" "dexp q = - 18" "\<bar>dval q - dval r\<bar> \<le> q18_unit / 2"
    using quantize_metric_total[of r 1] by auto
  have "\<bar>dval q - y\<bar> \<le> \<bar>dval q - dval r\<bar> + \<bar>dval r - y\<bar>" by linarith
  also have "\<dots> \<le> q18_unit / 2 + div_error" by (rule add_mono[OF q(3) e])
  also have "\<dots> < q18_unit" using small_errors by simp
  finally show ?thesis using r q by (auto simp: y_def)
qed

text \<open>Sums of stored numbers are exact.\<close>

lemma m_add_exact:
  assumes "dexp a \<in> {- 18, 0}" "dexp b = - 18" "\<bar>dval a + dval b\<bar> \<le> 10 ^ 30"
  shows "\<exists>r. m_add a b = Inr r \<and> dexp r = - 18 \<and> dval r = dval a + dval b"
proof -
  let ?s = "dec_add_exact a b"
  have e: "dexp ?s = - 18" and v: "dval ?s = dval a + dval b" using assms(1,2) by auto
  have "\<bar>dval ?s\<bar> \<le> 10 powi 30" using assms(3) unfolding v by simp
  then have "of_nat (dcoef ?s) * (10 :: rat) powi (- 18) \<le> 10 powi 30"
    unfolding dval_abs e .
  then have "dcoef ?s \<le> 10 ^ nat (30 - (- 18))" by (rule coef_bound) simp
  then have "dcoef ?s < 10 ^ 50" by (rule le_less_trans) simp
  then have "dec_fits DECIMAL_CONTEXT ?s" by (simp only: dec_fits_def e metric_context) simp
  then have "m_add a b = Inr ?s" by (simp add: m_add_def dec_add_def dec_fix_fits)
  then show ?thesis using e v by blast
qed

section \<open>Summaries\<close>

lemma sum_exact:
  "\<forall>v \<in> set vals. stored v \<Longrightarrow> \<bar>dval acc\<bar> + of_nat (length vals) \<le> 10 ^ 30 \<Longrightarrow> dexp acc \<in> {- 18, 0}
     \<Longrightarrow> \<exists>r. foldE m_add acc vals = Inr r \<and> dval r = dval acc + sum_list (map dval vals)"
proof (induction vals arbitrary: acc)
  case (Cons v vals)
  have v: "dexp v = - 18" "\<bar>dval v\<bar> \<le> 1" using Cons.prems(1) by (simp_all add: stored_def)
  have le: "\<bar>dval acc + dval v\<bar> + of_nat (length vals) \<le> 10 ^ 30"
    using Cons.prems(2) v(2) by simp
  then have "\<bar>dval acc + dval v\<bar> \<le> 10 ^ 30" by (rule order_trans[rotated]) simp
  then obtain s where s: "m_add acc v = Inr s" "dexp s = - 18" "dval s = dval acc + dval v"
    using m_add_exact[OF Cons.prems(3) v(1)] by blast
  have "\<exists>r. foldE m_add s vals = Inr r \<and> dval r = dval s + sum_list (map dval vals)"
    using Cons.prems(1) le s by (intro Cons.IH) simp_all
  then show ?case using s by auto
qed simp

lemma sum_list_between:
  "\<forall>v \<in> set vals. a \<le> f v \<and> f v \<le> b \<Longrightarrow>
     of_nat (length vals) * a \<le> sum_list (map f vals) \<and> sum_list (map f vals) \<le> of_nat (length vals) * (b :: rat)"
  by (induction vals) (auto simp: algebra_simps intro: add_mono)

text \<open>A number less than a unit off a value between two stored numbers is between them.\<close>

lemma stored_between:
  assumes "stored a" "stored b" "dexp q = - 18" "dval a \<le> m" "m \<le> dval b" "\<bar>dval q - m\<bar> < q18_unit"
  shows "dval a \<le> dval q" "dval q \<le> dval b" "stored q"
proof -
  have e: "dexp a = - 18" "dexp b = - 18" using assms(1,2) by (simp_all add: stored_def)
  show l: "dval a \<le> dval q" using assms by (intro grid_mono e assms(3)) linarith
  show u: "dval q \<le> dval b" using assms by (intro grid_mono e assms(3)) linarith
  show "stored q" using l u assms(1-3) by (auto simp: stored_def)
qed

lemma mean_between:
  assumes vals: "\<forall>v \<in> set vals. stored v" "vals \<noteq> []" "length vals \<le> 10 ^ 20"
    and ab: "stored a" "stored b" "\<forall>v \<in> set vals. dval a \<le> dval v \<and> dval v \<le> dval b"
  shows "\<exists>q. equal_weight_mean vals = Inr q \<and> stored q \<and> dval a \<le> dval q \<and> dval q \<le> dval b"
proof -
  let ?n = "length vals" and ?s = "sum_list (map dval vals)"
  have "(of_nat ?n :: rat) \<le> of_nat (10 ^ 20)" using vals(3) by (simp only: of_nat_le_iff)
  then have "\<bar>dval (Dec False 0 0)\<bar> + of_nat ?n \<le> (10 :: rat) ^ 30" by (simp add: dval_def)
  then obtain t where t: "foldE m_add (Dec False 0 0) vals = Inr t" "dval t = ?s"
    using sum_exact[of vals "Dec False 0 0"] vals(1) by (auto simp: dval_def)
  have n: "0 < (of_nat ?n :: rat)" "dval (dec_of_int (int ?n)) = of_nat ?n" using vals(2) by simp_all
  have b: "of_nat ?n * dval a \<le> ?s" "?s \<le> of_nat ?n * dval b" using sum_list_between[OF ab(3)] by auto
  then have m: "dval a \<le> ?s / of_nat ?n" "?s / of_nat ?n \<le> dval b" using n(1) by (simp_all add: field_simps)
  have "\<bar>?s / of_nat ?n\<bar> \<le> 1" using m ab(1,2) by (auto simp: stored_def)
  then obtain r q where q: "m_div t (dec_of_int (int ?n)) = Inr r" "quantize_metric r = Inr q" "dexp q = - 18"
      "\<bar>dval q - ?s / of_nat ?n\<bar> < q18_unit"
    using div_quantize[of "dec_of_int (int ?n)" t] n by (auto simp: t)
  then show ?thesis
    using stored_between[OF ab(1,2) q(3) m q(4)] by (simp add: equal_weight_mean_def t)
qed

lemma median_between:
  assumes vals: "\<forall>v \<in> set vals. stored v" "vals \<noteq> []"
    and ab: "stored a" "stored b" "\<forall>v \<in> set vals. dval a \<le> dval v \<and> dval v \<le> dval b"
  shows "\<exists>q. median_of vals = Inr q \<and> stored q \<and> dval a \<le> dval q \<and> dval q \<le> dval b"
proof (cases "length vals mod 2 = 1")
  case True
  then have "vals ! (length vals div 2) \<in> set vals" using vals(2) by (intro nth_mem) simp
  then show ?thesis using True vals(1) ab(3) by (auto simp: median_of_def Let_def)
next
  case False
  define u v where "u = vals ! (length vals div 2 - 1)" and "v = vals ! (length vals div 2)"
  have "0 < length vals" using vals(2) by simp
  then have "length vals div 2 - 1 < length vals" "length vals div 2 < length vals" by linarith+
  then have uv: "u \<in> set vals" "v \<in> set vals" by (auto simp: u_def v_def)
  then have s: "stored u" "stored v" using vals(1) by auto
  have "\<bar>dval u + dval v\<bar> \<le> 10 ^ 30" using s by (auto simp: stored_def)
  then obtain t where t: "m_add u v = Inr t" "dval t = dval u + dval v"
    using m_add_exact[of u v] s by (auto simp: stored_def)
  have "dval a \<le> dval u \<and> dval u \<le> dval b" "dval a \<le> dval v \<and> dval v \<le> dval b" using uv ab(3) by blast+
  then have "2 * dval a \<le> dval u + dval v" "dval u + dval v \<le> 2 * dval b" by linarith+
  then have m: "dval a \<le> dval t / 2" "dval t / 2 \<le> dval b" by (simp_all add: t(2))
  have "\<bar>dval t / 2\<bar> \<le> 1" using m ab(1,2) by (auto simp: stored_def)
  then obtain r q where q: "m_div t (dec_of_int 2) = Inr r" "quantize_metric r = Inr q" "dexp q = - 18"
      "\<bar>dval q - dval t / 2\<bar> < q18_unit"
    using div_quantize[of "dec_of_int 2" t] by auto
  then show ?thesis
    using stored_between[OF ab(1,2) q(3) m q(4)] False t(1)
    unfolding median_of_def Let_def u_def[symmetric] v_def[symmetric] by simp
qed

lemma dec_lt_fun: "dec_lt = (\<lambda>a b. dval a < dval b)"
  by (intro ext) (rule dec_lt_iff)

lemma sign_counts:
  "length (filter (dec_lt (Dec False 0 0)) vals) + length (filter (\<lambda>v. dec_lt v (Dec False 0 0)) vals)
     + length (filter (dec_eq (Dec False 0 0)) vals) = length vals"
  by (induction vals) (auto simp: dec_cmp)

text \<open>A summary agrees with its values: the three sign counts add up, minimum and maximum are extreme
  values, and median and mean are stored numbers between them.\<close>

definition summary_sound :: "dec list \<Rightarrow> eval_summary \<Rightarrow> bool" where
  "summary_sound vals s \<longleftrightarrow> es_folds s = length vals \<and> es_positive s + es_negative s + es_zero s = es_folds s
     \<and> (\<exists>low high median mean. low \<in> set vals \<and> high \<in> set vals \<and> stored median \<and> stored mean
          \<and> (\<forall>v \<in> set vals. dval low \<le> dval v \<and> dval v \<le> dval high)
          \<and> dval low \<le> dval median \<and> dval median \<le> dval high \<and> dval low \<le> dval mean \<and> dval mean \<le> dval high
          \<and> es_minimum s = dec_format_f low \<and> es_maximum s = dec_format_f high
          \<and> es_median s = dec_format_f median \<and> es_mean s = dec_format_f mean)"

lemma summarize_metric_sound:
  assumes "\<forall>v \<in> set vals. stored v" "vals \<noteq> []" "length vals \<le> 10 ^ 20"
  shows "\<exists>s. summarize_metric feature metric pairs vals = Inr s \<and> summary_sound vals s
     \<and> es_feature s = feature \<and> es_metric s = metric \<and> es_valid_pairs s = pairs"
proof -
  let ?a = "py_min dec_lt vals" and ?b = "py_max dec_lt vals"
  have mem: "?a \<in> set vals" "?b \<in> set vals" using assms(2) by (simp_all add: py_min_mem py_max_mem)
  have ext: "\<forall>v \<in> set vals. dval ?a \<le> dval v \<and> dval v \<le> dval ?b"
    using py_min_le[of _ vals dval] py_max_ge[of _ vals dval] by (auto simp: dec_lt_fun)
  have st: "stored ?a" "stored ?b" using mem assms(1) by auto
  obtain median where "median_of (sort_key dval vals) = Inr median" "stored median"
      "dval ?a \<le> dval median" "dval median \<le> dval ?b"
    using median_between[of "sort_key dval vals" ?a ?b] assms(1,2) st ext by (metis set_sort sort_key_simps(1) set_empty)
  moreover obtain mean where "equal_weight_mean vals = Inr mean" "stored mean" "dval ?a \<le> dval mean" "dval mean \<le> dval ?b"
    using mean_between[OF assms(1-3) st ext] by blast
  ultimately show ?thesis
    using mem ext by (auto simp: summarize_metric_def summary_sound_def sign_counts)
qed

lemma mapE_total: "(\<And>x. x \<in> set xs \<Longrightarrow> \<exists>y. f x = Inr y \<and> P x y) \<Longrightarrow> \<exists>ys. mapE f xs = Inr ys \<and> list_all2 P xs ys"
proof (induction xs)
  case (Cons x xs)
  obtain y where "f x = Inr y" "P x y" using Cons.prems by auto
  moreover obtain ys where "mapE f xs = Inr ys" "list_all2 P xs ys" using Cons by auto
  ultimately show ?case by auto
qed simp

definition texts_stored :: "eval_record \<Rightarrow> bool" where
  "texts_stored r \<longleftrightarrow> (\<exists>p s. stored p \<and> stored s \<and> er_pearson r = dec_format_f p \<and> er_spearman r = dec_format_f s)"

definition summary_of_records :: "eval_record list \<Rightarrow> eval_summary \<Rightarrow> bool" where
  "summary_of_records records s \<longleftrightarrow> (\<exists>vals. list_all2 (\<lambda>r v. bindE (metric_of r (es_metric s)) decimal_of = Inr v)
     (filter (\<lambda>r. er_feature r = es_feature s) records) vals \<and> summary_sound vals s)"

lemma texts_stored_metric:
  assumes "texts_stored r" "metric \<in> {''pearson_ic'', ''spearman_ic''}"
  shows "\<exists>v. bindE (metric_of r metric) decimal_of = Inr v \<and> stored v"
proof -
  obtain p s where "stored p" "stored s" "er_pearson r = dec_format_f p" "er_spearman r = dec_format_f s"
    using assms(1) by (auto simp: texts_stored_def)
  then show ?thesis
    using assms(2) by (auto simp: metric_of_def dict_get_def decimal_of_def read_format stored_def)
qed

lemma one_summary:
  assumes "\<forall>r \<in> set records. texts_stored r" "length records \<le> 10 ^ 20"
    and "feature \<in> er_feature ` set records" "metric \<in> {''pearson_ic'', ''spearman_ic''}"
  shows "\<exists>s. bindE (mapE (\<lambda>r. bindE (metric_of r metric) decimal_of) (filter (\<lambda>r. er_feature r = feature) records))
      (summarize_metric feature metric pairs) = Inr s
    \<and> es_feature s = feature \<and> es_metric s = metric \<and> summary_of_records records s"
proof -
  let ?rs = "filter (\<lambda>r. er_feature r = feature) records"
  have "\<exists>v. bindE (metric_of r metric) decimal_of = Inr v \<and> stored v" if "r \<in> set ?rs" for r
    using that assms(1) by (intro texts_stored_metric assms(4)) simp
  from mapE_total[of ?rs "\<lambda>r. bindE (metric_of r metric) decimal_of" "\<lambda>r v. stored v", OF this]
  obtain vals where vals: "mapE (\<lambda>r. bindE (metric_of r metric) decimal_of) ?rs = Inr vals" "list_all2 (\<lambda>r v. stored v) ?rs vals"
    by blast
  have st: "\<forall>v \<in> set vals. stored v" using vals(2) by (auto simp: list_all2_conv_all_nth in_set_conv_nth)
  have "?rs \<noteq> []" using assms(3) unfolding filter_empty_conv by (metis imageE)
  then have ne: "vals \<noteq> []" using vals(2) by auto
  have len: "length vals \<le> 10 ^ 20"
    using list_all2_lengthD[OF vals(2)] assms(2) length_filter_le[of "\<lambda>r. er_feature r = feature" records] by linarith
  obtain s where s: "summarize_metric feature metric pairs vals = Inr s" "summary_sound vals s" "es_feature s = feature" "es_metric s = metric"
    using summarize_metric_sound[OF st ne len] by blast
  have "list_all2 (\<lambda>r v. bindE (metric_of r metric) decimal_of = Inr v) ?rs vals" using vals(1) unfolding mapE_Inr_iff .
  then show ?thesis
    using s unfolding vals(1) bindE.simps summary_of_records_def by (intro exI[of _ s]) blast
qed

text \<open>C31: Summaries of records with stored correlations always exist, one per feature and metric in that
  order, and each is sound: its sign counts add up to its number of folds, and its median and its mean,
  although rounded twice, lie between its minimum and maximum, which are values of its records.\<close>

theorem summaries_sound:
  assumes "\<forall>r \<in> set records. texts_stored r" "length records \<le> 10 ^ 20"
    and "set features \<subseteq> er_feature ` set records" "set metrics \<subseteq> {''pearson_ic'', ''spearman_ic''}"
  shows "\<exists>ss. build_evaluation_summaries records features metrics = Inr ss
     \<and> map (\<lambda>s. (es_feature s, es_metric s)) ss = List.product features metrics
     \<and> (\<forall>s \<in> set ss. summary_of_records records s)"
proof -
  let ?g = "\<lambda>feature metric. bindE (mapE (\<lambda>r. bindE (metric_of r metric) decimal_of) (filter (\<lambda>r. er_feature r = feature) records))
      (summarize_metric feature metric (sum_list (map er_valid (filter (\<lambda>r. er_feature r = feature) records))))"
  let ?inner = "\<lambda>feature. let feature_records = filter (\<lambda>r. er_feature r = feature) records in
       if feature_records = [] then Inl (MetricDomainError ''no records found for feature'')
       else mapE (\<lambda>metric.
         bindE (mapE (\<lambda>r. bindE (metric_of r metric) decimal_of) feature_records)
           (summarize_metric feature metric (sum_list (map er_valid feature_records)))) metrics"
  let ?P = "\<lambda>feature ss. map (\<lambda>s. (es_feature s, es_metric s)) ss = map (Pair feature) metrics
      \<and> (\<forall>s \<in> set ss. summary_of_records records s)"
  have inner: "\<exists>ss. ?inner feature = Inr ss \<and> ?P feature ss" if f: "feature \<in> set features" for feature
  proof -
    have ne: "filter (\<lambda>r. er_feature r = feature) records \<noteq> []" using f assms(3) unfolding filter_empty_conv by blast
    have g: "\<exists>s. ?g feature metric = Inr s \<and> es_feature s = feature \<and> es_metric s = metric \<and> summary_of_records records s"
      if "metric \<in> set metrics" for metric
      using f that assms by (intro one_summary) auto
    obtain ss where ss: "?inner feature = Inr ss"
        "list_all2 (\<lambda>metric s. es_feature s = feature \<and> es_metric s = metric \<and> summary_of_records records s) metrics ss"
      using mapE_total[of metrics "?g feature"
          "\<lambda>metric s. es_feature s = feature \<and> es_metric s = metric \<and> summary_of_records records s", OF g] ne
      unfolding Let_def if_not_P[OF ne] by blast
    have "map (\<lambda>s. (es_feature s, es_metric s)) ss = map (Pair feature) metrics" "\<forall>s \<in> set ss. summary_of_records records s"
      using ss(2) by (induction rule: list_all2_induct) auto
    then show ?thesis using ss(1) by blast
  qed
  from mapE_total[of features ?inner ?P, OF inner] obtain sss where sss: "mapE ?inner features = Inr sss" "list_all2 ?P features sss"
    by blast
  have "map (\<lambda>s. (es_feature s, es_metric s)) (concat sss) = List.product features metrics"
    using sss(2) by (induction rule: list_all2_induct) (simp_all add: product_concat_map)
  moreover have "\<forall>s \<in> set (concat sss). summary_of_records records s"
    using sss(2) by (induction rule: list_all2_induct) auto
  ultimately show ?thesis
    using sss(1) by (intro exI[of _ "concat sss"]) (simp add: build_evaluation_summaries_def)
qed

definition sample_records :: "eval_record list" where
  "sample_records = map (\<lambda>(i, p). \<lparr>er_fold_id = i, er_feature = ''f_ret_1'', er_target = ''l_fwdret_24'', er_test_range = (0, 2),
     er_test_rows = 2, er_valid = 2, er_excluded = 0, er_feature_nulls = 0, er_target_nulls = 0,
     er_pearson = dec_format_f p, er_spearman = dec_format_f Q18_ZERO\<rparr>) [(0, Dec False 3 (- 18)), (1, Dec True 1 (- 18))]"

theorem summaries_sound_witness:
  "\<exists>s. build_evaluation_summaries sample_records [''f_ret_1''] [''pearson_ic''] = Inr [s]
     \<and> es_metric s = ''pearson_ic'' \<and> summary_of_records sample_records s"
proof -
  have st: "stored (Dec False 3 (- 18))" "stored (Dec True 1 (- 18))" "stored Q18_ZERO"
    by (simp_all add: stored_def dval_Dec power_int_minus Q18_ZERO_def)
  have "texts_stored r" if "r \<in> set sample_records" for r
    using that st unfolding sample_records_def texts_stored_def by fastforce
  moreover have "length sample_records \<le> 10 ^ 20" "set [''f_ret_1''] \<subseteq> er_feature ` set sample_records"
    by (simp_all add: sample_records_def)
  ultimately obtain ss where "build_evaluation_summaries sample_records [''f_ret_1''] [''pearson_ic''] = Inr ss"
      "map (\<lambda>s. (es_feature s, es_metric s)) ss = List.product [''f_ret_1''] [''pearson_ic'']" "\<forall>s \<in> set ss. summary_of_records sample_records s"
    using summaries_sound[of sample_records "[''f_ret_1'']" "[''pearson_ic'']"] by auto
  then show ?thesis by (cases ss) auto
qed

section \<open>Records\<close>

lemma quantize_metric_exp: "quantize_metric a = Inr q \<Longrightarrow> dexp q = - 18"
proof -
  assume "quantize_metric a = Inr q"
  then obtain r where r: "dec_quantize DECIMAL_CONTEXT a STORAGE_QUANTUM = Inr r" "q = (if dec_is_zero r then Q18_ZERO else r)"
    by (auto simp: quantize_metric_def res_simps)
  have "dexp r = - 18"
    using dec_quantize_error(1)[OF r(1)] by (simp add: metric_context STORAGE_QUANTUM_def)
  then show ?thesis by (simp add: r(2) Q18_ZERO_def)
qed

lemma pearson_stored:
  assumes "compute_pearson ps = Inr t"
  shows "2 \<le> length ps \<and> (\<exists>q. stored q \<and> t = dec_format_f q)"
proof (rule compute_pearsonE[OF assms])
  fix raw q
  assume "quantize_metric raw = Inr q" "\<not> out_of_unit q" "t = dec_format_f q" "2 \<le> length ps"
  moreover from this have "stored q"
    by (simp add: stored_def quantize_metric_exp out_of_unit_def dec_cmp MINUS_ONE_def ONE_def dval_Dec not_less abs_le_iff)
  ultimately show ?thesis by blast
qed

lemma valid_pairs_count:
  "length (valid_pairs vs) \<le> length vs"
  "length (filter (\<lambda>v. fst v = None) vs) \<le> length vs - length (valid_pairs vs)"
  "length (filter (\<lambda>v. snd v = None) vs) \<le> length vs - length (valid_pairs vs)"
  "length vs - length (valid_pairs vs) \<le> length (filter (\<lambda>v. fst v = None) vs) + length (filter (\<lambda>v. snd v = None) vs)"
proof -
  have "length (valid_pairs vs) + length (filter (\<lambda>v. fst v = None \<or> snd v = None) vs) = length vs"
    "length (filter (\<lambda>v. fst v = None) vs) \<le> length (filter (\<lambda>v. fst v = None \<or> snd v = None) vs)"
    "length (filter (\<lambda>v. snd v = None) vs) \<le> length (filter (\<lambda>v. fst v = None \<or> snd v = None) vs)"
    "length (filter (\<lambda>v. fst v = None \<or> snd v = None) vs) \<le> length (filter (\<lambda>v. fst v = None) vs) + length (filter (\<lambda>v. snd v = None) vs)"
    by (induction vs) (auto simp: valid_pairs_def List.map_filter_def split: option.splits)
  then show "length (valid_pairs vs) \<le> length vs"
    "length (filter (\<lambda>v. fst v = None) vs) \<le> length vs - length (valid_pairs vs)"
    "length (filter (\<lambda>v. snd v = None) vs) \<le> length vs - length (valid_pairs vs)"
    "length vs - length (valid_pairs vs) \<le> length (filter (\<lambda>v. fst v = None) vs) + length (filter (\<lambda>v. snd v = None) vs)"
    by linarith+
qed

definition record_typed :: "eval_record \<Rightarrow> bool" where
  "record_typed r \<longleftrightarrow> texts_stored r \<and> 2 \<le> er_valid r \<and> er_valid r + er_excluded r = er_test_rows r
     \<and> er_feature_nulls r \<le> er_excluded r \<and> er_target_nulls r \<le> er_excluded r
     \<and> er_excluded r \<le> er_feature_nulls r + er_target_nulls r"

lemma fold_feature_typed:
  assumes "evaluate_fold_feature fid feature target rng rows fi ti = Inr r"
  shows "record_typed r \<and> er_fold_id r = fid \<and> er_feature r = feature \<and> er_target r = target
     \<and> er_test_range r = rng \<and> er_test_rows r = length rows"
proof -
  obtain vs p s where vs: "mapE (\<lambda>r. bindE (row_value r fi) (\<lambda>x. bindE (row_value r ti) (\<lambda>y. Inr (x, y)))) rows = Inr vs"
      "compute_pearson (valid_pairs vs) = Inr p" "compute_spearman (valid_pairs vs) = Inr s"
      "r = \<lparr>er_fold_id = fid, er_feature = feature, er_target = target, er_test_range = rng, er_test_rows = length rows,
          er_valid = length (valid_pairs vs), er_excluded = length rows - length (valid_pairs vs),
          er_feature_nulls = length (filter (\<lambda>v. fst v = None) vs), er_target_nulls = length (filter (\<lambda>v. snd v = None) vs),
          er_pearson = p, er_spearman = s\<rparr>"
    using assms by (auto simp: evaluate_fold_feature_def Let_def res_simps)
  have len: "length vs = length rows" by (rule mapE_length[OF vs(1)])
  obtain xs ys where "compute_pearson (zip xs ys) = Inr s" using vs(3) by (auto simp: compute_spearman_def res_simps)
  then show ?thesis
    using pearson_stored[of "zip xs ys" s] pearson_stored[OF vs(2)] valid_pairs_count[of vs]
    unfolding vs(4) record_typed_def texts_stored_def by (auto simp: len)
qed

text \<open>C30: What the record builder returns is well-typed: one record per fold and feature, in this order,
  over the rows of the fold's test range; both correlations are texts of multiples of 1E-18 in [-1, 1];
  at least two pairs are valid, valid and excluded pairs make up the rows, and the null counts bound
  the excluded pairs from both sides.\<close>

theorem evaluation_records_typed:
  assumes "build_evaluation_records folds rows features target = Inr rs"
  shows "map (\<lambda>r. (er_fold_id r, er_feature r)) rs = List.product (map fold_id folds) features
     \<and> (\<forall>r \<in> set rs. record_typed r \<and> er_target r = target
          \<and> er_test_rows r = length (slice_rows (fst (er_test_range r)) (snd (er_test_range r)) rows))"
proof -
  let ?ok = "\<lambda>r. record_typed r \<and> er_target r = target
      \<and> er_test_rows r = length (slice_rows (fst (er_test_range r)) (snd (er_test_range r)) rows)"
  let ?g = "\<lambda>f feature. bindE (dict_get FEATURE_COLUMN_INDICES feature) (\<lambda>f_idx.
      evaluate_fold_feature (fold_id f) feature target (test_range f)
        (slice_rows (fst (test_range f)) (snd (test_range f)) rows) f_idx TARGET_COLUMN_INDEX)"
  obtain rss where rss: "mapE (\<lambda>f. mapE (?g f) features) folds = Inr rss" "rs = concat rss"
    using assms by (auto simp: build_evaluation_records_def Let_def res_simps)
  have g: "er_fold_id r = fold_id f \<and> er_feature r = feature \<and> ?ok r" if "?g f feature = Inr r" for f feature r
    using that by (auto simp: res_simps dest!: fold_feature_typed)
  have inner: "map (\<lambda>r. (er_fold_id r, er_feature r)) rs' = map (Pair (fold_id f)) features \<and> (\<forall>r \<in> set rs'. ?ok r)"
    if "mapE (?g f) features = Inr rs'" for f rs'
    using that unfolding mapE_Inr_iff by (induction rule: list_all2_induct) (use g in \<open>fastforce+\<close>)
  show ?thesis
    using rss(1) unfolding mapE_Inr_iff[of "\<lambda>f. mapE (?g f) features"] rss(2)
    by (induction rule: list_all2_induct) (auto dest!: inner simp: product_concat_map comp_def)
qed

text \<open>Two rows whose feature and label move together.\<close>

definition sample_rows :: "research_row list" where
  "sample_rows = map (\<lambda>(t, x). \<lparr>r_open_ms = t, r_ret = Some x, r_roc = None, r_rvol = None, r_volratio = None,
     r_fwdret = Some x, r_fwddir = Some 1\<rparr>) [(0, Dec False 0 0), (3600000, Dec False 2 0)]"

definition sample_test_fold :: fold where
  "sample_test_fold = \<lparr>fold_id = 0, train_range = None, embargo_range = None, test_range = (0, 2)\<rparr>"

lemmas metric_eval = m_add_def m_sub_def m_mul_def dec_add_def dec_sub_def dec_mul_def dec_add_exact_def dec_copy_negate_def
  dint_def dec_fix_def Etop_def Etiny_def DECIMAL_CONTEXT_def Let_def ndigits.simps

lemma dec_two: "dec_of_int 2 = Dec False 2 0"
  by (simp add: dec_of_int_def)

lemma m_div_halves: "m_div (Dec False 2 0) (Dec False 2 0) = Inr (Dec False 1 0)" "m_div (Dec False 3 0) (Dec False 2 0) = Inr (Dec False 15 (- 1))"
  "m_div (Dec False 4 0) (Dec False 2 0) = Inr (Dec False 2 0)"
  using m_div_two[of 2] m_div_two[of 3] m_div_two[of 4] by (simp_all add: half_def dec_of_int_def)

lemma m_div_same: "m_div (Dec False (Suc c) e) (Dec False (Suc c) e) = Inr (Dec False 1 0)"
  unfolding m_div_def by (rule dec_div_self) (simp_all add: metric_context)

lemma m_sqrt_squares: "m_sqrt (Dec False 4 0) = Inr (Dec False 2 0)" "m_sqrt (Dec False 2500 (- 4)) = Inr (Dec False 50 (- 2))"
  using dec_sqrt_square[of 2 DECIMAL_CONTEXT 0] dec_sqrt_square[of 50 DECIMAL_CONTEXT "- 2"]
  by (simp_all add: m_sqrt_def dec_fits_def metric_context)

lemma quantize_metric_one: "quantize_metric (Dec False 1 0) = Inr (Dec False (10 ^ 18) (- 18))"
proof -
  have "dec_fits DECIMAL_CONTEXT (Dec False (10 ^ 18) (- 18))" by (simp add: dec_fits_def metric_context)
  moreover have "ndigits (10 ^ 18) \<le> 19" "\<not> ndigits (10 ^ 18) \<le> 18" by (simp_all add: ndigits_le_iff)
  then have "ndigits (10 ^ 18) = 19" by linarith
  moreover have "ndigits 1 = 1" by (simp add: ndigits.simps)
  ultimately show ?thesis
    by (simp add: quantize_metric_def dec_quantize_def STORAGE_QUANTUM_def metric_context dec_adjusted_def dec_rescale_def
        Let_def dec_fix_fits dec_is_zero_def)
qed

lemma pearson_of_two:
  "compute_pearson [(Dec False 0 0, Dec False 0 0), (Dec False 2 0, Dec False 2 0)] = Inr (dec_format_f (Dec False (10 ^ 18) (- 18)))"
  "compute_pearson [(Dec False 1 0, Dec False 1 0), (Dec False 2 0, Dec False 2 0)] = Inr (dec_format_f (Dec False (10 ^ 18) (- 18)))"
proof -
  have unit: "\<not> out_of_unit (Dec False 1 0)" "\<not> out_of_unit (Dec False (10 ^ 18) (- 18))"
    by (simp_all add: out_of_unit_def dec_lt_def dint_def ONE_def MINUS_ONE_def)
  have rule: "compute_pearson ps = Inr (dec_format_f (Dec False (10 ^ 18) (- 18)))"
    if "length ps = 2" "pair_sums ps = Inr (s, s)" "m_div s (Dec False 2 0) = Inr m" "pair_moments m m ps = Inr (q, q, q)"
      "q = Dec False (Suc c) e" "m_mul q q = Inr qq" "m_sqrt qq = Inr q" for ps s m q c e qq
    by (rule compute_pearsonI[of _ s s m m q q q qq q "Dec False 1 0"])
      (use that unit in \<open>simp_all add: m_div_same quantize_metric_one dec_is_zero_def dec_two del: One_nat_def\<close>)
  show "compute_pearson [(Dec False 0 0, Dec False 0 0), (Dec False 2 0, Dec False 2 0)] = Inr (dec_format_f (Dec False (10 ^ 18) (- 18)))"
    by (rule rule[of _ "Dec False 2 0" "Dec False 1 0" "Dec False 2 0" 1 0 "Dec False 4 0"])
      (simp_all add: pair_sums_def pair_moments_def m_div_halves m_sqrt_squares metric_eval)
  show "compute_pearson [(Dec False 1 0, Dec False 1 0), (Dec False 2 0, Dec False 2 0)] = Inr (dec_format_f (Dec False (10 ^ 18) (- 18)))"
    by (rule rule[of _ "Dec False 3 0" "Dec False 15 (- 1)" "Dec False 50 (- 2)" 49 "- 2" "Dec False 2500 (- 4)"])
      (simp_all add: pair_sums_def pair_moments_def m_div_halves m_sqrt_squares metric_eval)
qed

theorem evaluation_records_typed_witness:
  "\<exists>r. build_evaluation_records [sample_test_fold] sample_rows [''f_ret_1''] ''l_fwdret_24'' = Inr [r]
     \<and> record_typed r \<and> er_feature r = ''f_ret_1''"
proof -
  let ?ps = "[(Dec False 0 0, Dec False 0 0), (Dec False 2 0, Dec False 2 0)]"
  have ranks: "average_ranks [Dec False 0 0, Dec False 2 0] = Inr [Dec False 1 0, Dec False 2 0]"
    by (simp add: average_ranks_def upt_rec dval_Dec dec_eq_def dint_def m_div_halves metric_eval dec_of_int_def)
  have "build_evaluation_records [sample_test_fold] sample_rows [''f_ret_1''] ''l_fwdret_24'' \<noteq> Inl e" for e
    using pearson_of_two
    by (simp add: build_evaluation_records_def evaluate_fold_feature_def compute_spearman_def ranks sample_test_fold_def sample_rows_def
        slice_rows_def slice_bound_def py_slice_def dict_get_def FEATURE_COLUMN_INDICES_def TARGET_COLUMN_INDEX_def row_value_def
        py_index_def valid_pairs_def List.map_filter_def)
  then obtain rs where rs: "build_evaluation_records [sample_test_fold] sample_rows [''f_ret_1''] ''l_fwdret_24'' = Inr rs"
    by (cases "build_evaluation_records [sample_test_fold] sample_rows [''f_ret_1''] ''l_fwdret_24''") auto
  show ?thesis
    using evaluation_records_typed[OF rs] rs by (auto simp: sample_test_fold_def map_eq_Cons_conv)
qed

end
