(* ===== verification/Training_Metrics.thy ===== *)
theory Training_Metrics
  imports Evaluation_Metrics
begin

text \<open>
  src/quantara/training_metrics.py: standardized ridge regression solved by Gauss-Jordan elimination
  with row pivoting, the walk-forward records of its predictions and their summaries. The 50-digit
  context and its operations are those of evaluation_metrics.py. The elimination is stated over its
  arithmetic (\<open>arith\<close>); the code's is the decimal one, in which \<open>abs\<close> rounds in the ambient
  context. Lemmas: over exact arithmetic the elimination returns the solution; the fit of a fold
  and each prediction depend only on the training rows and the predicted row; the counts of a
  record add up and its accuracies lie in [0, 1].
\<close>

section \<open>Gauss-Jordan elimination\<close>

record 'a arith =
  ar_sub :: "'a \<Rightarrow> 'a \<Rightarrow> 'a res"
  ar_mul :: "'a \<Rightarrow> 'a \<Rightarrow> 'a res"
  ar_div :: "'a \<Rightarrow> 'a \<Rightarrow> 'a res"
  ar_abs :: "'a \<Rightarrow> 'a res"
  ar_less :: "'a \<Rightarrow> 'a \<Rightarrow> bool"
  ar_is_zero :: "'a \<Rightarrow> bool"

definition dec_arith :: "dctx \<Rightarrow> dec arith" where
  "dec_arith ambient = \<lparr>ar_sub = m_sub, ar_mul = m_mul, ar_div = m_div,
     ar_abs = (\<lambda>a. dec_fix ambient (dec_copy_abs a)), ar_less = dec_lt, ar_is_zero = dec_is_zero\<rparr>"

text \<open>\<open>max(range(column, sz), key=...)\<close>: the first row with the largest key.\<close>

definition pivot_row :: "'a arith \<Rightarrow> nat \<Rightarrow> nat \<Rightarrow> 'a list list \<Rightarrow> nat res" where
  "pivot_row A column sz aug =
     bindE (mapE (\<lambda>row. ar_abs A (aug ! row ! column)) [column..<sz]) (\<lambda>keys.
     Inr (fst (py_max (\<lambda>a b. ar_less A (snd a) (snd b)) (zip [column..<sz] keys))))"

definition swap_rows :: "nat \<Rightarrow> nat \<Rightarrow> 'a list list \<Rightarrow> 'a list list" where
  "swap_rows i j aug = aug[i := aug ! j, j := aug ! i]"

definition scale_row :: "'a arith \<Rightarrow> nat \<Rightarrow> nat \<Rightarrow> 'a list \<Rightarrow> 'a list res" where
  "scale_row A column sz row =
     bindE (mapE (\<lambda>j. ar_div A (row ! j) (row ! column)) [column..<sz + 1]) (\<lambda>cells.
     Inr (take column row @ cells))"

definition eliminate_row :: "'a arith \<Rightarrow> nat \<Rightarrow> nat \<Rightarrow> 'a list \<Rightarrow> 'a list \<Rightarrow> 'a list res" where
  "eliminate_row A column sz prow row =
     bindE (mapE (\<lambda>j. bindE (ar_mul A (row ! column) (prow ! j)) (ar_sub A (row ! j))) [column..<sz + 1]) (\<lambda>cells.
     Inr (take column row @ cells))"

definition solve_column :: "'a arith \<Rightarrow> nat \<Rightarrow> 'a list list \<Rightarrow> nat \<Rightarrow> 'a list list res" where
  "solve_column A sz aug column =
     bindE (pivot_row A column sz aug) (\<lambda>p.
     if ar_is_zero A (aug ! p ! column) then Inl (MetricDomainError ''zero pivot in ridge solver'')
     else
       let aug1 = swap_rows column p aug in
       bindE (scale_row A column sz (aug1 ! column)) (\<lambda>prow.
       mapE (\<lambda>row. if row = column then Inr prow else eliminate_row A column sz prow (aug1 ! row)) [0..<sz]))"

definition solve_system :: "'a arith \<Rightarrow> 'a list list \<Rightarrow> 'a list \<Rightarrow> 'a list res" where
  "solve_system A matrix vector =
     (let sz = length vector; augmented = map (\<lambda>i. matrix ! i @ [vector ! i]) [0..<sz] in
      bindE (foldE (solve_column A sz) augmented [0..<sz]) (\<lambda>aug.
      Inr (map (\<lambda>row. aug ! row ! sz) [0..<sz])))"

section \<open>Ridge regression\<close>

definition zero :: dec where "zero = Dec False 0 0"

definition m_sum :: "dec list \<Rightarrow> dec res" where
  "m_sum values = foldE m_add zero values"

definition m_mean :: "dec list \<Rightarrow> dec res" where
  "m_mean values =
     (if values = [] then Inl (MetricDomainError ''cannot compute mean of empty values'')
      else bindE (m_sum values) (\<lambda>s. m_div s (dec_of_int (int (length values)))))"

definition q18 :: "dec \<Rightarrow> string res" where
  "q18 d = bindE (quantize_metric d) (\<lambda>q. Inr (dec_format_f q))"

record ridge_fit =
  rf_means :: "dec list"
  rf_stds :: "dec list"
  rf_coefficients :: "dec list"
  rf_intercept :: dec

definition column_std :: "dec list list \<Rightarrow> dec list \<Rightarrow> nat \<Rightarrow> dec res" where
  "column_std x means j =
     bindE (mapE (\<lambda>row. bindE (m_sub (row ! j) (means ! j)) (\<lambda>a. bindE (m_sub (row ! j) (means ! j)) (m_mul a))) x) (\<lambda>squares.
     bindE (m_mean squares) (\<lambda>variance.
     bindE (m_sqrt variance) (\<lambda>std.
     if dec_is_zero std then Inl (MetricDomainError ''zero train-window standard deviation'') else Inr std)))"

definition standardize :: "dec list \<Rightarrow> dec list \<Rightarrow> dec list \<Rightarrow> dec list res" where
  "standardize means stds row =
     mapE (\<lambda>j. bindE (m_sub (row ! j) (means ! j)) (\<lambda>a. m_div a (stds ! j))) [0..<length means]"

definition products_sum :: "(dec \<times> dec) list \<Rightarrow> dec res" where
  "products_sum ps = bindE (mapE (\<lambda>(a, b). m_mul a b) ps) m_sum"

text \<open>Row \<open>j\<close> of the normal equations: the right-hand side and the coefficients.\<close>

definition normal_row :: "dec \<Rightarrow> dec list list \<Rightarrow> dec list \<Rightarrow> nat \<Rightarrow> nat \<Rightarrow> (dec \<times> dec list) res" where
  "normal_row lam z centered width j =
     bindE (products_sum (zip (map (\<lambda>row. row ! j) z) centered)) (\<lambda>r.
     bindE (mapE (\<lambda>k. products_sum (map (\<lambda>row. (row ! j, row ! k)) z)) [0..<width]) (\<lambda>ns.
     bindE (m_add (ns ! j) lam) (\<lambda>d. Inr (r, ns[j := d]))))"

definition fit_ridge_matrix :: "dctx \<Rightarrow> dec list list \<Rightarrow> dec list \<Rightarrow> dec \<Rightarrow> ridge_fit res" where
  "fit_ridge_matrix ambient x y lam =
     (if length x \<noteq> length y \<or> length x < 2 then Inl (MetricDomainError ''ridge matrix requires matching rows'')
      else
        let width = length (hd x) in
        if width = 0 \<or> (\<exists>row \<in> set x. length row \<noteq> width) then Inl (MetricDomainError ''ridge feature matrix must be rectangular'')
        else
          bindE (mapE (\<lambda>j. m_mean (map (\<lambda>row. row ! j) x)) [0..<width]) (\<lambda>means.
          bindE (mapE (column_std x means) [0..<width]) (\<lambda>stds.
          bindE (mapE (standardize means stds) x) (\<lambda>z.
          bindE (m_mean y) (\<lambda>intercept.
          bindE (mapE (\<lambda>v. m_sub v intercept) y) (\<lambda>centered.
          bindE (mapE (normal_row lam z centered width) [0..<width]) (\<lambda>rows.
          bindE (solve_system (dec_arith ambient) (map snd rows) (map fst rows)) (\<lambda>coefficients.
          Inr \<lparr>rf_means = means, rf_stds = stds, rf_coefficients = coefficients, rf_intercept = intercept\<rparr>))))))))"

section \<open>Scores\<close>

definition m_pearson :: "(dec \<times> dec) list \<Rightarrow> dec res" where
  "m_pearson pairs =
     (if length pairs < 2 then Inl (MetricDomainError ''fewer than two prediction pairs'')
      else
        bindE (m_mean (map fst pairs)) (\<lambda>mean_x.
        bindE (m_mean (map snd pairs)) (\<lambda>mean_y.
        bindE (mapE (\<lambda>p. m_sub (fst p) mean_x) pairs) (\<lambda>dx.
        bindE (mapE (\<lambda>p. m_sub (snd p) mean_y) pairs) (\<lambda>dy.
        bindE (products_sum (zip dx dy)) (\<lambda>numerator.
        bindE (products_sum (map (\<lambda>a. (a, a)) dx)) (\<lambda>sx.
        bindE (products_sum (map (\<lambda>a. (a, a)) dy)) (\<lambda>sy.
        if dec_is_zero sx \<or> dec_is_zero sy then Inl (MetricDomainError ''zero prediction or target variance'')
        else
          bindE (m_mul sx sy) (\<lambda>prod. bindE (m_sqrt prod) (\<lambda>root. bindE (m_div numerator root) (\<lambda>result.
          if out_of_unit result then Inl (MetricDomainError ''pearson_ic out of bounds'') else Inr result)))))))))))"

definition sign_of :: "dec \<Rightarrow> int" where
  "sign_of d = (if dec_lt zero d then 1 else if dec_lt d zero then - 1 else 0)"

definition accuracy :: "int list \<Rightarrow> int list \<Rightarrow> dec res" where
  "accuracy predicted actual =
     (if predicted = [] \<or> length predicted \<noteq> length actual then Inl (MetricDomainError ''directional accuracy requires matching inputs'')
      else m_div (dec_of_int (int (length (filter (\<lambda>(l, r). l = r) (zip predicted actual)))))
                 (dec_of_int (int (length actual))))"

section \<open>Records\<close>

definition FEATURE_NAMES :: "string list" where
  "FEATURE_NAMES = [''f_ret_1'', ''f_roc_60'', ''f_rvol_20'', ''f_volratio_20'']"

definition METRICS :: "string list" where
  "METRICS = [''pearson_ic'', ''directional_accuracy'', ''mse'']"

definition BASELINES :: "string list" where
  "BASELINES = [''majority_class_train_window'', ''sign_f_ret_1'']"

definition feature_cells :: "research_row \<Rightarrow> dec option list" where
  "feature_cells r = [r_ret r, r_roc r, r_rvol r, r_volratio r]"

definition features_of :: "research_row \<Rightarrow> dec list option" where
  "features_of r = those (feature_cells r)"

text \<open>The usable training rows with their targets.\<close>

definition usable_row :: "research_row \<Rightarrow> (dec list \<times> dec) option" where
  "usable_row r = (case (features_of r, r_fwdret r) of (Some x, Some y) \<Rightarrow> Some (x, y) | _ \<Rightarrow> None)"

definition same_decs :: "dec list \<Rightarrow> dec list \<Rightarrow> bool" where
  "same_decs = list_all2 dec_eq"

definition same_fit :: "ridge_fit \<Rightarrow> ridge_fit \<Rightarrow> bool" where
  "same_fit a b \<longleftrightarrow> same_decs (rf_means a) (rf_means b) \<and> same_decs (rf_stds a) (rf_stds b)
     \<and> same_decs (rf_coefficients a) (rf_coefficients b) \<and> dec_eq (rf_intercept a) (rf_intercept b)"

record fold_model =
  fm_fit :: ridge_fit
  fm_train_count :: nat
  fm_usable_count :: nat
  fm_up :: nat
  fm_down :: nat
  fm_zero :: nat
  fm_majority :: int

definition fit_fold :: "dctx \<Rightarrow> research_row list \<Rightarrow> fold_model res" where
  "fit_fold ambient train_rows =
     (let usable = List.map_filter usable_row train_rows in
      if length usable < 200 then Inl (MetricDomainError ''requires at least 200 usable train rows'')
      else
        bindE (fit_ridge_matrix ambient (map fst usable) (map snd usable) (Dec False 1 0)) (\<lambda>first.
        bindE (fit_ridge_matrix ambient (map fst usable) (map snd usable) (Dec False 1 0)) (\<lambda>second.
        if \<not> same_fit first second then Inl (MetricDomainError ''ridge solve is non-deterministic'')
        else
          let directions = List.map_filter r_fwddir train_rows;
              up = length (filter (\<lambda>d. d = 1) directions);
              down = length (filter (\<lambda>d. d = - 1) directions) in
          if \<exists>d \<in> set directions. d \<notin> {- 1, 0, 1} then Inl (MetricDomainError ''train direction labels must be -1, 0, or 1'')
          else Inr \<lparr>fm_fit = first, fm_train_count = length train_rows, fm_usable_count = length usable, fm_up = up, fm_down = down,
                    fm_zero = length (filter (\<lambda>d. d = 0) directions), fm_majority = (if down \<le> up then 1 else - 1)\<rparr>)))"

definition predict_ridge :: "ridge_fit \<Rightarrow> dec list \<Rightarrow> dec res" where
  "predict_ridge fit values =
     foldE (\<lambda>prediction j.
       bindE (m_sub (values ! j) (rf_means fit ! j)) (\<lambda>a. bindE (m_div a (rf_stds fit ! j)) (\<lambda>standardized.
       bindE (m_mul (rf_coefficients fit ! j) standardized) (m_add prediction))))
       (rf_intercept fit) [0..<length values]"

record prediction =
  pr_row_index :: int
  pr_prediction :: string
  pr_target :: string
  pr_direction :: int

record scored =
  sc_stored :: dec
  sc_target :: dec
  sc_direction :: int
  sc_sign_ret :: int
  sc_error :: dec
  sc_prediction :: prediction

text \<open>One test row: its null flags, and its score when no cell it needs is missing.\<close>

definition score_row :: "ridge_fit \<Rightarrow> int \<Rightarrow> research_row \<Rightarrow> scored option res" where
  "score_row fit row_index row = (case (features_of row, r_fwdret row, r_fwddir row) of
     (Some values, Some target, Some dirn) \<Rightarrow>
       bindE (predict_ridge fit values) (\<lambda>p.
       bindE (quantize_metric p) (\<lambda>stored.
       if dirn \<notin> {- 1, 0, 1} then Inl (MetricDomainError ''test direction labels must be -1, 0, or 1'')
       else
         bindE (m_sub stored target) (\<lambda>e. bindE (m_mul e e) (\<lambda>sq.
         bindE (q18 stored) (\<lambda>ps. bindE (q18 target) (\<lambda>ts.
         Inr (Some \<lparr>sc_stored = stored, sc_target = target, sc_direction = dirn, sc_sign_ret = sign_of (hd values),
                    sc_error = sq, sc_prediction = \<lparr>pr_row_index = row_index, pr_prediction = ps, pr_target = ts,
 pr_direction = dirn\<rparr>\<rparr>))))))) 
   | _ \<Rightarrow> Inr None)"

text \<open>\<open>rows[i]\<close> with an index that may be negative.\<close>

definition py_at :: "'a list \<Rightarrow> int \<Rightarrow> 'a res" where
  "py_at xs i = (if 0 \<le> i then py_index xs (nat i)
     else if 0 \<le> i + int (length xs) then py_index xs (nat (i + int (length xs))) else Inl PyIndexError)"

record training_record =
  tr_fold_id :: nat
  tr_train_range :: "int \<times> int"
  tr_embargo_range :: "int \<times> int"
  tr_test_range :: "int \<times> int"
  tr_train_row_count :: nat
  tr_usable_train_count :: nat
  tr_excluded_train_count :: int
  tr_test_row_count :: int
  tr_predicted_count :: nat
  tr_excluded_test_count :: int
  tr_feature_null_count :: nat
  tr_target_null_count :: nat
  tr_direction_null_count :: nat
  tr_feature_means :: "(string \<times> string) list"
  tr_feature_stds :: "(string \<times> string) list"
  tr_coefficients :: "(string \<times> string) list"
  tr_intercept :: string
  tr_pearson_ic :: string
  tr_directional_accuracy :: string
  tr_mse :: string
  tr_zero_prediction_count :: nat
  tr_zero_label_count :: nat
  tr_predictions :: "prediction list"
  tr_majority_accuracy :: string
  tr_majority_direction :: int
  tr_up_count :: nat
  tr_down_count :: nat
  tr_zero_count :: nat
  tr_sign_accuracy :: string

definition named_q18 :: "dec list \<Rightarrow> (string \<times> string) list res" where
  "named_q18 ds = mapE (\<lambda>(name, d). bindE (q18 d) (\<lambda>s. Inr (name, s))) (zip FEATURE_NAMES ds)"

definition train_fold :: "dctx \<Rightarrow> research_row list \<Rightarrow> fold \<Rightarrow> training_record res" where
  "train_fold ambient rows f = (case train_range f of
     None \<Rightarrow> Inl PyTypeError
   | Some tr \<Rightarrow>
      let (test_start, test_end) = test_range f; train_rows = slice_rows (fst tr) (snd tr) rows in
      bindE (fit_fold ambient train_rows) (\<lambda>m.
      bindE (mapE (\<lambda>i. bindE (py_at rows i) (\<lambda>row. bindE (score_row (fm_fit m) i row) (\<lambda>s. Inr (row, s)))) [test_start..test_end - 1]) (\<lambda>tested.
      let test_rows = map fst tested; scores = List.map_filter snd tested;
          predicted = map (sign_of \<circ> sc_stored) scores; actual = map sc_direction scores; n = length scores in
      bindE (accuracy (replicate n (fm_majority m)) actual) (\<lambda>majority_accuracy.
      bindE (case embargo_range f of None \<Rightarrow> Inl PyTypeError | Some e \<Rightarrow> Inr e) (\<lambda>embargo.
      bindE (named_q18 (rf_means (fm_fit m))) (\<lambda>means.
      bindE (named_q18 (rf_stds (fm_fit m))) (\<lambda>stds.
      bindE (named_q18 (rf_coefficients (fm_fit m))) (\<lambda>coefficients.
      bindE (q18 (rf_intercept (fm_fit m))) (\<lambda>intercept.
      bindE (bindE (m_pearson (map (\<lambda>s. (sc_stored s, sc_target s)) scores)) q18) (\<lambda>ic.
      bindE (bindE (accuracy predicted actual) q18) (\<lambda>acc.
      bindE (bindE (m_mean (map sc_error scores)) q18) (\<lambda>mse.
      bindE (q18 majority_accuracy) (\<lambda>majority.
      bindE (bindE (accuracy (map sc_sign_ret scores) actual) q18) (\<lambda>sign_accuracy.
      Inr \<lparr>tr_fold_id = fold_id f, tr_train_range = tr, tr_embargo_range = embargo, tr_test_range = test_range f,
           tr_train_row_count = length train_rows, tr_usable_train_count = fm_usable_count m,
           tr_excluded_train_count = int (length train_rows) - int (fm_usable_count m),
           tr_test_row_count = test_end - test_start, tr_predicted_count = n, tr_excluded_test_count = test_end - test_start - int n,
           tr_feature_null_count = length (filter (\<lambda>r. features_of r = None) test_rows),
           tr_target_null_count = length (filter (\<lambda>r. r_fwdret r = None) test_rows),
           tr_direction_null_count = length (filter (\<lambda>r. r_fwddir r = None) test_rows),
           tr_feature_means = means, tr_feature_stds = stds, tr_coefficients = coefficients, tr_intercept = intercept,
           tr_pearson_ic = ic, tr_directional_accuracy = acc, tr_mse = mse,
           tr_zero_prediction_count = length (filter (\<lambda>v. v = 0) predicted),
           tr_zero_label_count = length (filter (\<lambda>v. v = 0) actual), tr_predictions = map sc_prediction scores,
           tr_majority_accuracy = majority, tr_majority_direction = fm_majority m, tr_up_count = fm_up m, tr_down_count = fm_down m,
           tr_zero_count = fm_zero m, tr_sign_accuracy = sign_accuracy\<rparr>))))))))))))))"

definition build_training_records :: "dctx \<Rightarrow> fold list \<Rightarrow> research_row list \<Rightarrow> training_record list res" where
  "build_training_records ambient folds rows = mapE (train_fold ambient rows) folds"

section \<open>Summaries\<close>

record training_summary =
  ts_mean :: string
  ts_median :: string
  ts_minimum :: string
  ts_maximum :: string
  ts_positive :: nat
  ts_negative :: nat
  ts_zero :: nat
  ts_folds :: nat
  ts_predicted :: nat

definition training_summary_of :: "dec list \<Rightarrow> nat \<Rightarrow> training_summary res" where
  "training_summary_of values total_count =
     (let ordered = sort_key dval values; count = length ordered in
      if count = 0 then Inl (MetricDomainError ''cannot summarize zero folds'')
      else
        bindE (if count mod 2 = 1 then Inr (ordered ! (count div 2))
               else bindE (m_add (ordered ! (count div 2 - 1)) (ordered ! (count div 2))) (\<lambda>s. m_div s (dec_of_int 2))) (\<lambda>median.
        bindE (bindE (m_mean values) q18) (\<lambda>mean.
        bindE (q18 median) (\<lambda>med. bindE (q18 (ordered ! 0)) (\<lambda>mn. bindE (q18 (last ordered)) (\<lambda>mx.
        Inr \<lparr>ts_mean = mean, ts_median = med, ts_minimum = mn, ts_maximum = mx,
             ts_positive = length (filter (dec_lt zero) values), ts_negative = length (filter (\<lambda>v. dec_lt v zero) values),
             ts_zero = length (filter (dec_eq zero) values), ts_folds = count, ts_predicted = total_count\<rparr>))))))"

definition record_metric :: "training_record \<Rightarrow> string \<Rightarrow> string res" where
  "record_metric r metric = dict_get [(''pearson_ic'', tr_pearson_ic r), (''directional_accuracy'', tr_directional_accuracy r),
     (''mse'', tr_mse r)] metric"

definition record_baseline :: "training_record \<Rightarrow> string \<Rightarrow> string res" where
  "record_baseline r baseline = dict_get [(''majority_class_train_window'', tr_majority_accuracy r),
     (''sign_f_ret_1'', tr_sign_accuracy r)] baseline"

definition build_training_summaries ::
    "training_record list \<Rightarrow> ((string \<times> training_summary) list \<times> (string \<times> training_summary) list) res" where
  "build_training_summaries records =
     (let total = sum_list (map tr_predicted_count records);
          summary = (\<lambda>get name. bindE (mapE (\<lambda>r. bindE (get r name) decimal_of) records) (\<lambda>values.
            bindE (training_summary_of values total) (\<lambda>s. Inr (name, s)))) in
      bindE (mapE (summary record_metric) METRICS) (\<lambda>metrics.
      bindE (mapE (summary record_baseline) BASELINES) (\<lambda>baselines. Inr (metrics, baselines))))"

section \<open>The elimination over exact arithmetic\<close>

definition exact_arith :: "rat arith" where
  "exact_arith = \<lparr>ar_sub = (\<lambda>a b. Inr (a - b)), ar_mul = (\<lambda>a b. Inr (a * b)),
     ar_div = (\<lambda>a b. if b = 0 then Inl DivisionByZero else Inr (a / b)), ar_abs = (\<lambda>a. Inr \<bar>a\<bar>), ar_less = (<), ar_is_zero = (\<lambda>a. a = 0)\<rparr>"

lemma exact_simps [simp]:
  "ar_sub exact_arith a b = Inr (a - b)" "ar_mul exact_arith a b = Inr (a * b)" "ar_abs exact_arith a = Inr \<bar>a\<bar>"
  "ar_div exact_arith a b = (if b = 0 then Inl DivisionByZero else Inr (a / b))"
  "ar_less exact_arith a b \<longleftrightarrow> a < b" "ar_is_zero exact_arith a \<longleftrightarrow> a = 0"
  by (simp_all add: exact_arith_def)

lemma mapE_Inr_map [simp]: "mapE (\<lambda>x. Inr (f x)) xs = Inr (map f xs)"
  by (induction xs) auto

text \<open>\<open>x\<close> solves the equation of a row.\<close>

definition solves :: "nat \<Rightarrow> (nat \<Rightarrow> rat) \<Rightarrow> rat list \<Rightarrow> bool" where
  "solves n x row \<longleftrightarrow> (\<Sum>j<n. row ! j * x j) = row ! n"

definition shaped :: "nat \<Rightarrow> 'a list list \<Rightarrow> bool" where
  "shaped n aug \<longleftrightarrow> length aug = n \<and> (\<forall>row \<in> set aug. length row = n + 1)"

text \<open>The columns before \<open>c\<close> are those of the unit matrix.\<close>

definition reduced :: "nat \<Rightarrow> nat \<Rightarrow> rat list list \<Rightarrow> bool" where
  "reduced n c aug \<longleftrightarrow> (\<forall>i<n. \<forall>k<c. aug ! i ! k = (if i = k then 1 else 0))"

lemma shaped_nth: "shaped n aug \<Longrightarrow> i < n \<Longrightarrow> length (aug ! i) = n + 1"
  by (auto simp: shaped_def)

lemma row_combination:
  assumes "length row = n + 1" "c \<le> n" "\<And>j. j < c \<Longrightarrow> g j = row ! j"
  shows "length (take c row @ map g [c..<n + 1]) = n + 1"
    "j \<le> n \<Longrightarrow> (take c row @ map g [c..<n + 1]) ! j = g j"
proof -
  show "length (take c row @ map g [c..<n + 1]) = n + 1" using assms(1,2) by simp
  show "(take c row @ map g [c..<n + 1]) ! j = g j" if "j \<le> n"
  proof (cases "j < c")
    case True
    then show ?thesis using assms by (simp add: nth_append)
  next
    case False
    then show ?thesis using assms(1,2) that by (simp add: nth_append min_def del: upt_Suc)
  qed
qed

lemma scale_row_exact:
  assumes "length row = n + 1" "c < n" "row ! c \<noteq> 0" "\<And>k. k < c \<Longrightarrow> row ! k = 0" "scale_row exact_arith c n row = Inr r"
  shows "length r = n + 1" "j \<le> n \<Longrightarrow> r ! j = row ! j / row ! c" "solves n x r = solves n x row"
proof -
  have r: "r = take c row @ map (\<lambda>j. row ! j / row ! c) [c..<n + 1]"
    using assms(3,5) by (simp add: scale_row_def del: upt_Suc)
  show "length r = n + 1" "j \<le> n \<Longrightarrow> r ! j = row ! j / row ! c" for j
    unfolding r using assms(2,4) by (intro row_combination[OF assms(1)]; simp)+
  then have "(\<Sum>j<n. r ! j * x j) = (\<Sum>j<n. row ! j * x j) / row ! c" "r ! n = row ! n / row ! c"
    by (simp_all add: sum_divide_distrib)
  then show "solves n x r = solves n x row" using assms(3) by (simp add: solves_def)
qed

lemma eliminate_row_exact:
  assumes "length row = n + 1" "c < n" "\<And>k. k < c \<Longrightarrow> prow ! k = 0" "eliminate_row exact_arith c n prow row = Inr r"
  shows "length r = n + 1" "j \<le> n \<Longrightarrow> r ! j = row ! j - row ! c * prow ! j" "solves n x prow \<Longrightarrow> solves n x r = solves n x row"
proof -
  have r: "r = take c row @ map (\<lambda>j. row ! j - row ! c * prow ! j) [c..<n + 1]"
    using assms(4) by (simp add: eliminate_row_def del: upt_Suc)
  show "length r = n + 1" and nth: "j \<le> n \<Longrightarrow> r ! j = row ! j - row ! c * prow ! j" for j
    unfolding r using assms(2,3) by (intro row_combination[OF assms(1)]; simp)+
  have "(\<Sum>j<n. r ! j * x j) = (\<Sum>j<n. row ! j * x j) - row ! c * (\<Sum>j<n. prow ! j * x j)" "r ! n = row ! n - row ! c * prow ! n"
  proof -
    have "(\<Sum>j<n. r ! j * x j) = (\<Sum>j<n. row ! j * x j - row ! c * (prow ! j * x j))"
      using nth by (intro sum.cong) (simp_all add: left_diff_distrib mult.assoc)
    then show "(\<Sum>j<n. r ! j * x j) = (\<Sum>j<n. row ! j * x j) - row ! c * (\<Sum>j<n. prow ! j * x j)"
      by (simp add: sum_subtractf sum_distrib_left)
    show "r ! n = row ! n - row ! c * prow ! n" using nth by simp
  qed
  then show "solves n x prow \<Longrightarrow> solves n x r = solves n x row" by (simp add: solves_def)
qed

lemma pivot_row_range:
  assumes "pivot_row A c n aug = Inr p" "c < n"
  shows "c \<le> p" "p < n"
proof -
  obtain keys where k: "mapE (\<lambda>row. ar_abs A (aug ! row ! c)) [c..<n] = Inr keys"
      and p: "p = fst (py_max (\<lambda>a b. ar_less A (snd a) (snd b)) (zip [c..<n] keys))"
    using assms(1) by (auto simp: pivot_row_def res_simps)
  have "length keys = n - c" using mapE_length[OF k] by simp
  then have "zip [c..<n] keys \<noteq> []" using assms(2) by (cases keys) (auto simp: upt_rec)
  from py_max_mem[OF this] have "p \<in> set [c..<n]" unfolding p by (metis fst_conv in_set_zipE prod.collapse)
  then show "c \<le> p" "p < n" by auto
qed

lemma swap_rows_nth:
  "c < length aug \<Longrightarrow> p < length aug \<Longrightarrow> i < length aug \<Longrightarrow>
     swap_rows c p aug ! i = aug ! (if i = p then c else if i = c then p else i)"
  by (auto simp: swap_rows_def nth_list_update)

lemma solve_column_exact:
  assumes "shaped n aug" "reduced n c aug" "c < n" "solve_column exact_arith n aug c = Inr aug'"
  shows "shaped n aug'" "reduced n (Suc c) aug'"
    "(\<forall>i<n. solves n x (aug' ! i)) = (\<forall>i<n. solves n x (aug ! i))"
proof -
  obtain p where p: "pivot_row exact_arith c n aug = Inr p"
    using assms(4) by (auto simp: solve_column_def res_simps)
  note range = pivot_row_range[OF p assms(3)]
  define b where "b = swap_rows c p aug"
  have n: "length aug = n" using assms(1) by (simp add: shaped_def)
  have b: "b ! i = aug ! (if i = p then c else if i = c then p else i)" if "i < n" for i
    using swap_rows_nth[of c aug p i] that range assms(3) n by (simp add: b_def)
  have len: "length (b ! i) = n + 1" if "i < n" for i
    using that range assms(3) shaped_nth[OF assms(1)] by (simp add: b)
  have low: "b ! i ! k = (if i = k then 1 else 0)" if "i < n" "k < c" for i k
    using that range assms(2,3) by (auto simp: b reduced_def)
  have nz: "b ! c ! c \<noteq> 0"
    using assms(3,4) p range by (auto simp: solve_column_def b split: if_splits)
  then have "aug ! p ! c \<noteq> 0" using b[OF assms(3)] by (simp split: if_splits)
  then obtain prow where prow: "scale_row exact_arith c n (b ! c) = Inr prow"
      and rows: "mapE (\<lambda>row. if row = c then Inr prow else eliminate_row exact_arith c n prow (b ! row)) [0..<n] = Inr aug'"
    using assms(4) p by (auto simp: solve_column_def b_def[symmetric] Let_def res_simps)
  note sc = scale_row_exact[OF len[OF assms(3)] assms(3) nz _ prow]
  have c0: "b ! c ! k = 0" if "k < c" for k using low[OF assms(3) that] that by simp
  have prow_nth: "prow ! j = b ! c ! j / b ! c ! c" if "j \<le> n" for j using sc(2)[OF c0 that] by simp
  have prow0: "prow ! k = 0" if "k < c" for k using prow_nth[of k] c0 that assms(3) by simp
  have len': "length aug' = n" using mapE_length[OF rows] by simp
  have row: "aug' ! i = prow" if "i = c" for i using mapE_nth[OF rows, of i] that assms(3) by simp
  have other: "eliminate_row exact_arith c n prow (b ! i) = Inr (aug' ! i)" if "i < n" "i \<noteq> c" for i
    using mapE_nth[OF rows, of i] that by simp
  note el = eliminate_row_exact[OF len assms(3) prow0 other]
  have "length (aug' ! i) = n + 1" if "i < n" for i
    using that row sc(1)[OF c0] el(1) by (cases "i = c") auto
  then show "shaped n aug'" using len' by (auto simp: shaped_def in_set_conv_nth)
  show "reduced n (Suc c) aug'" unfolding reduced_def
  proof (intro allI impI)
    fix i k assume ik: "i < n" "k < Suc c"
    show "aug' ! i ! k = (if i = k then 1 else 0)"
    proof (cases "i = c")
      case True
      then show ?thesis using row prow_nth[of k] c0[of k] nz ik assms(3) by (cases "k = c") auto
    next
      case False
      have "aug' ! i ! k = b ! i ! k - b ! i ! c * prow ! k" using el(2)[of i k] ik False assms(3) by simp
      then show ?thesis using low[of i k] prow0[of k] prow_nth[of c] nz ik False assms(3) by (cases "k = c") auto
    qed
  qed
  have "(\<forall>i<n. solves n x (aug' ! i)) = (\<forall>i<n. solves n x (b ! i))"
  proof (cases "solves n x prow")
    case True
    have "solves n x (aug' ! i) = solves n x (b ! i)" if "i < n" for i
      using that row sc(3)[OF c0] el(3)[OF that _ that _ True] by (cases "i = c") auto
    then show ?thesis by blast
  next
    case False
    then have "\<not> solves n x (aug' ! c)" "\<not> solves n x (b ! c)" using row sc(3)[OF c0] by auto
    with assms(3) show ?thesis by blast
  qed
  also have "\<dots> = (\<forall>i<n. solves n x (aug ! i))"
  proof
    assume all: "\<forall>i<n. solves n x (b ! i)"
    show "\<forall>i<n. solves n x (aug ! i)"
    proof (intro allI impI)
      fix i assume i: "i < n"
      define j where "j = (if i = p then c else if i = c then p else i)"
      have "j < n" "b ! j = aug ! i" using i range assms(3) b[of j] by (auto simp: j_def)
      with all show "solves n x (aug ! i)" by metis
    qed
  qed (use b range assms(3) in auto)
  finally show "(\<forall>i<n. solves n x (aug' ! i)) = (\<forall>i<n. solves n x (aug ! i))" .
qed

lemma solve_columns_exact:
  assumes "shaped n aug" "c \<le> n" "foldE (solve_column exact_arith n) aug [0..<c] = Inr aug'"
  shows "shaped n aug' \<and> reduced n c aug' \<and> (\<forall>x. (\<forall>i<n. solves n x (aug' ! i)) = (\<forall>i<n. solves n x (aug ! i)))"
  using assms(2,3)
proof (induction c arbitrary: aug')
  case 0
  then show ?case using assms(1) by (simp add: reduced_def)
next
  case (Suc c)
  then obtain mid where mid: "foldE (solve_column exact_arith n) aug [0..<c] = Inr mid" "solve_column exact_arith n mid c = Inr aug'"
    by (auto simp: foldE_append res_simps)
  from Suc.IH[OF _ mid(1)] Suc.prems(1) have m: "shaped n mid" "reduced n c mid"
      "\<And>x. (\<forall>i<n. solves n x (mid ! i)) = (\<forall>i<n. solves n x (aug ! i))" by auto
  show ?case using solve_column_exact[OF m(1,2) _ mid(2)] Suc.prems(1) m(3) by auto
qed

text \<open>C32: Over exact arithmetic the elimination with row pivoting returns the one solution of the
  system, whenever it meets no zero pivot.\<close>

theorem solve_system_exact:
  assumes "solve_system exact_arith matrix vector = Inr x" "length vector = n" "length matrix = n"
    "\<forall>row \<in> set matrix. length row = n"
  shows "length x = n \<and> {y. length y = n \<and> (\<forall>i<n. (\<Sum>j<n. matrix ! i ! j * y ! j) = vector ! i)} = {x}"
proof -
  let ?aug = "map (\<lambda>i. matrix ! i @ [vector ! i]) [0..<n]"
  obtain aug where aug: "foldE (solve_column exact_arith n) ?aug [0..<n] = Inr aug" "x = map (\<lambda>row. aug ! row ! n) [0..<n]"
    using assms(1,2) by (auto simp: solve_system_def Let_def res_simps)
  have row: "length (matrix ! i) = n" if "i < n" for i using assms(3,4) that by simp
  have "shaped n ?aug" using row by (auto simp: shaped_def)
  from solve_columns_exact[OF this _ aug(1)]
  have r: "reduced n n aug" "(\<forall>i<n. solves n z (aug ! i)) = (\<forall>i<n. solves n z (?aug ! i))" for z by auto
  have "solves n z (?aug ! i) \<longleftrightarrow> (\<Sum>j<n. matrix ! i ! j * z j) = vector ! i" if "i < n" for z i
    using that row[OF that] by (simp add: solves_def nth_append)
  moreover have "solves n z (aug ! i) \<longleftrightarrow> z i = aug ! i ! n" if "i < n" for z i
  proof -
    have "(\<Sum>j<n. aug ! i ! j * z j) = (\<Sum>j<n. if j = i then z j else 0)"
      using r(1) that by (intro sum.cong) (auto simp: reduced_def)
    also have "\<dots> = z i" using that by simp
    finally show ?thesis by (simp add: solves_def)
  qed
  ultimately have sol: "(\<forall>i<n. (\<Sum>j<n. matrix ! i ! j * z j) = vector ! i) = (\<forall>i<n. z i = aug ! i ! n)" for z
    using r(2)[of z] by simp
  have "y = x" if "length y = n" "\<forall>i<n. (\<Sum>j<n. matrix ! i ! j * y ! j) = vector ! i" for y
    using that sol[of "\<lambda>j. y ! j"] aug(2) by (intro nth_equalityI) auto
  moreover have "\<forall>i<n. (\<Sum>j<n. matrix ! i ! j * x ! j) = vector ! i"
    using sol[of "\<lambda>j. x ! j"] aug(2) by simp
  ultimately show ?thesis using aug(2) by auto
qed

theorem solve_system_exact_witness:
  "length [1, 2 :: rat] = 2 \<and> {y :: rat list. length y = 2 \<and> (\<forall>i<2. (\<Sum>j<2. [[0, 1], [2, 1]] ! i ! j * y ! j) = [2, 4] ! i)} = {[1, 2]}"
proof (rule solve_system_exact)
  show "solve_system exact_arith [[0, 1], [2, 1]] [2, 4] = Inr [1, 2]"
    by (simp add: solve_system_def solve_column_def pivot_row_def scale_row_def eliminate_row_def swap_rows_def exact_arith_def
        py_max_def upt_rec Let_def)
qed simp_all

section \<open>Which rows a record reads\<close>

lemma slice_update_outside:
  assumes "0 \<le> a" "\<not> (a \<le> int k \<and> int k < b)" "0 \<le> b"
  shows "slice_rows a b (xs[k := x]) = slice_rows a b xs"
proof -
  have bound: "slice_bound m z = min (nat z) m" if "0 \<le> z" for z m
    using that by (simp add: slice_bound_def)
  have cut: "drop u (take w (xs[k := x])) = drop u (take w xs)" if "k < u \<or> w \<le> k" for u w
    using that
  proof
    assume "k < u"
    then show ?thesis by (simp add: take_update_swap drop_update_cancel)
  next
    assume "w \<le> k"
    then show ?thesis by (simp only: take_update_cancel)
  qed
  have "k < min (nat a) (length xs) \<or> min (nat b) (length xs) \<le> k" using assms by auto
  from cut[OF this] show ?thesis using assms by (simp only: slice_rows_def py_slice_def bound length_list_update)
qed

lemma py_at_update: "0 \<le> i \<Longrightarrow> i \<noteq> int k \<Longrightarrow> py_at (xs[k := x]) i = py_at xs i"
  by (auto simp: py_at_def py_index_def)

text \<open>C33: The record of a fold does not depend on any row outside its training and test ranges, in
  particular on the embargoed rows between them.\<close>

theorem embargoed_rows_unread:
  assumes "train_range f = Some (a, b)" "0 \<le> a" "0 \<le> b" "0 \<le> fst (test_range f)"
    "\<not> (a \<le> int k \<and> int k < b)" "\<not> (fst (test_range f) \<le> int k \<and> int k < snd (test_range f))"
  shows "train_fold ambient (rows[k := row]) f = train_fold ambient rows f"
proof -
  obtain s e where se: "test_range f = (s, e)" by fastforce
  have tested: "mapE (\<lambda>i. bindE (py_at (rows[k := row]) i) (\<lambda>r. bindE (score_row fit i r) (\<lambda>v. Inr (r, v)))) [s..e - 1]
      = mapE (\<lambda>i. bindE (py_at rows i) (\<lambda>r. bindE (score_row fit i r) (\<lambda>v. Inr (r, v)))) [s..e - 1]" for fit
    using assms(4,6) by (intro mapE_cong) (auto simp: se py_at_update)
  show ?thesis
    unfolding train_fold_def assms(1) se option.case prod.case Let_def fst_conv snd_conv
      slice_update_outside[OF assms(2,5,3)] tested ..
qed

definition plain_row :: "int \<Rightarrow> research_row" where
  "plain_row t = \<lparr>r_open_ms = t, r_ret = None, r_roc = None, r_rvol = None, r_volratio = None, r_fwdret = None, r_fwddir = None\<rparr>"

theorem embargoed_rows_unread_witness:
  "train_fold DECIMAL_CONTEXT ((map plain_row [0, 1, 2])[1 := plain_row 7]) \<lparr>fold_id = 0, train_range = Some (0, 1), embargo_range = Some (1, 2), test_range = (2, 3)\<rparr>
     = train_fold DECIMAL_CONTEXT (map plain_row [0, 1, 2]) \<lparr>fold_id = 0, train_range = Some (0, 1), embargo_range = Some (1, 2), test_range = (2, 3)\<rparr>"
  by (rule embargoed_rows_unread[where a = 0 and b = 1]) simp_all

section \<open>What a record holds\<close>

lemma one_18: "dval (Dec False (10 ^ 18) (- 18)) = 1" "dval (Dec True (10 ^ 18) (- 18)) = - 1"
proof -
  have "(of_nat (10 ^ 18) :: rat) = 10 powi 18" by simp
  then have "(of_nat (10 ^ 18) :: rat) * 10 powi (- 18) = 10 powi (18 + (- 18))" by (subst power_int_add) simp_all
  then show "dval (Dec False (10 ^ 18) (- 18)) = 1" "dval (Dec True (10 ^ 18) (- 18)) = - 1"
    by (simp_all only: dval_Dec) simp_all
qed

lemma quantize_unit:
  assumes "quantize_metric a = Inr q" "\<bar>dval a\<bar> \<le> 1"
  shows "stored q" "0 \<le> dval a \<Longrightarrow> 0 \<le> dval q"
proof -
  obtain q' where q': "quantize_metric a = Inr q'" "dexp q' = - 18" "\<bar>dval q' - dval a\<bar> \<le> q18_unit / 2"
    using quantize_metric_total[of a 0] assms(2) by auto
  then have q: "dexp q = - 18" "\<bar>dval q - dval a\<bar> < q18_unit" using assms(1) q18_unit_pos by auto
  let ?one = "Dec False (10 ^ 18) (- 18)" and ?minus = "Dec True (10 ^ 18) (- 18)"
  note one = one_18
  from q(2) assms(2) have near: "dval q < q18_unit + 1" "- dval q < q18_unit + 1" by linarith+
  have "dval q \<le> dval ?one" using near one by (intro grid_mono q(1)) simp_all
  moreover have "dval ?minus \<le> dval q" using near one by (intro grid_mono q(1)) simp_all
  ultimately show "stored q" using q(1) one by (simp add: stored_def)
  show "0 \<le> dval q" if "0 \<le> dval a"
    using grid_mono[of Q18_ZERO q] q that by (simp add: Q18_ZERO_def dval_Dec)
qed

text \<open>An accuracy is stored within one unit of the share of matches.\<close>

definition share_text :: "string \<Rightarrow> rat \<Rightarrow> bool" where
  "share_text t y \<longleftrightarrow> (\<exists>q. t = dec_format_f q \<and> stored q \<and> 0 \<le> dval q \<and> \<bar>dval q - y\<bar> < q18_unit)"

definition matches :: "int list \<Rightarrow> int list \<Rightarrow> rat" where
  "matches p a = of_nat (length (filter (\<lambda>(l, r). l = r) (zip p a))) / of_nat (length a)"

lemma accuracy_text:
  assumes "accuracy p a = Inr d" "q18 d = Inr t"
  shows "p \<noteq> [] \<and> length p = length a \<and> share_text t (matches p a)"
proof -
  define k where "k = length (filter (\<lambda>(l, r). l = r) (zip p a))"
  have p: "p \<noteq> []" "length p = length a" and d: "m_div (dec_of_int (int k)) (dec_of_int (int (length a))) = Inr d"
    using assms(1) by (auto simp: accuracy_def k_def split: if_splits)
  have k: "k \<le> length a" unfolding k_def by (rule order_trans[OF length_filter_le]) simp
  have v: "dval (dec_of_int (int n)) = of_nat n" for n by (simp add: dec_of_int_def dval_Dec)
  have "a \<noteq> []" using p by auto
  then have y: "0 \<le> matches p a" "matches p a \<le> 1" "matches p a = dval (dec_of_int (int k)) / dval (dec_of_int (int (length a)))"
    using k by (simp_all add: matches_def v k_def[symmetric] divide_le_eq)
  then obtain q where q: "quantize_metric d = Inr q" "dexp q = - 18" "\<bar>dval q - matches p a\<bar> < q18_unit"
    using div_quantize[of "dec_of_int (int (length a))" "dec_of_int (int k)"] d \<open>a \<noteq> []\<close> by (auto simp: v)
  let ?one = "Dec False (10 ^ 18) (- 18)"
  have one: "dval ?one = 1" "dval Q18_ZERO = 0" "dexp Q18_ZERO = - 18" by (simp_all only: one_18) (simp_all add: dval_Dec Q18_ZERO_def)
  from q(3) y(1,2) have near: "dval q < q18_unit + 1" "- dval q < q18_unit" by linarith+
  have "dval q \<le> dval ?one" using near one by (intro grid_mono q(2)) simp_all
  moreover have "dval Q18_ZERO \<le> dval q" using near one by (intro grid_mono q(2)) simp_all
  ultimately have "stored q" "0 \<le> dval q" using q(2) one by (simp_all add: stored_def)
  then show ?thesis using p q assms(2) by (auto simp: share_text_def q18_def res_simps)
qed

lemma m_pearson_unit: "m_pearson ps = Inr r \<Longrightarrow> \<bar>dval r\<bar> \<le> 1"
  by (auto simp: m_pearson_def res_simps out_of_unit_def dec_cmp MINUS_ONE_def ONE_def dval_Dec not_less abs_le_iff split: if_splits)

text \<open>What the training rows of a fold say, read off the rows themselves.\<close>

definition has_features :: "research_row \<Rightarrow> bool" where
  "has_features row \<longleftrightarrow> r_ret row \<noteq> None \<and> r_roc row \<noteq> None \<and> r_rvol row \<noteq> None \<and> r_volratio row \<noteq> None"

definition with_direction :: "int \<Rightarrow> research_row list \<Rightarrow> nat" where
  "with_direction d rs = length (filter (\<lambda>row. r_fwddir row = Some d) rs)"

definition train_counts_sound :: "research_row list \<Rightarrow> training_record \<Rightarrow> bool" where
  "train_counts_sound train r \<longleftrightarrow>
     tr_train_row_count r = length train \<and> 200 \<le> tr_usable_train_count r
   \<and> tr_usable_train_count r = length (filter (\<lambda>row. has_features row \<and> r_fwdret row \<noteq> None) train)
   \<and> tr_excluded_train_count r = int (tr_train_row_count r - tr_usable_train_count r)
   \<and> tr_up_count r = with_direction 1 train \<and> tr_down_count r = with_direction (- 1) train
   \<and> tr_zero_count r = with_direction 0 train
   \<and> tr_up_count r + tr_down_count r + tr_zero_count r = length (filter (\<lambda>row. r_fwddir row \<noteq> None) train)
   \<and> tr_majority_direction r = (if tr_down_count r \<le> tr_up_count r then 1 else - 1)"

lemma features_None: "features_of row = None \<longleftrightarrow> \<not> has_features row"
  by (auto simp: features_of_def feature_cells_def has_features_def split: option.splits)

lemma usable_row_None: "usable_row row = None \<longleftrightarrow> \<not> (has_features row \<and> r_fwdret row \<noteq> None)"
  using features_None[of row] by (auto simp: usable_row_def split: option.splits)

lemma map_filter_Cons: "List.map_filter g (x # xs) = (case g x of None \<Rightarrow> [] | Some y \<Rightarrow> [y]) @ List.map_filter g xs"
  by (simp add: List.map_filter_def split: option.split)

lemma length_map_filter: "length (List.map_filter g xs) = length (filter (\<lambda>x. g x \<noteq> None) xs)"
  by (simp add: List.map_filter_def)

lemma filter_map_filter: "length (filter (\<lambda>d. d = c) (List.map_filter g xs)) = length (filter (\<lambda>x. g x = Some c) xs)"
  by (induction xs) (auto simp: map_filter_Cons List.map_filter_def split: option.splits)

lemma fit_fold_counts:
  assumes "fit_fold ambient train = Inr m"
  shows "fm_train_count m = length train" "200 \<le> fm_usable_count m"
    "fm_usable_count m = length (filter (\<lambda>row. has_features row \<and> r_fwdret row \<noteq> None) train)"
    "fm_up m = with_direction 1 train" "fm_down m = with_direction (- 1) train" "fm_zero m = with_direction 0 train"
    "fm_up m + fm_down m + fm_zero m = length (filter (\<lambda>row. r_fwddir row \<noteq> None) train)"
    "fm_majority m = (if fm_down m \<le> fm_up m then 1 else - 1)"
proof -
  define ds where "ds = List.map_filter r_fwddir train"
  have parts: "fm_train_count m = length train" "200 \<le> fm_usable_count m" "fm_usable_count m = length (List.map_filter usable_row train)"
    "fm_up m = length (filter (\<lambda>d. d = 1) ds)" "fm_down m = length (filter (\<lambda>d. d = - 1) ds)" "fm_zero m = length (filter (\<lambda>d. d = 0) ds)"
    "fm_majority m = (if fm_down m \<le> fm_up m then 1 else - 1)" "set ds \<subseteq> {- 1, 0, 1}"
    using assms by (auto simp: fit_fold_def Let_def res_simps ds_def[symmetric] split: if_splits)
  then show "fm_train_count m = length train" "200 \<le> fm_usable_count m" "fm_majority m = (if fm_down m \<le> fm_up m then 1 else - 1)"
    by blast+
  show "fm_usable_count m = length (filter (\<lambda>row. has_features row \<and> r_fwdret row \<noteq> None) train)"
    unfolding parts(3) length_map_filter by (simp add: usable_row_None)
  show "fm_up m = with_direction 1 train" "fm_down m = with_direction (- 1) train" "fm_zero m = with_direction 0 train"
    unfolding parts(4-6) ds_def filter_map_filter with_direction_def by simp_all
  have "length (filter (\<lambda>d. d = 1) xs) + length (filter (\<lambda>d. d = - 1) xs) + length (filter (\<lambda>d. d = (0 :: int)) xs) = length xs"
    if "set xs \<subseteq> {- 1, 0, 1}" for xs using that by (induction xs) auto
  from this[OF parts(8)] show "fm_up m + fm_down m + fm_zero m = length (filter (\<lambda>row. r_fwddir row \<noteq> None) train)"
    unfolding parts(4-6) by (simp add: ds_def length_map_filter)
qed

text \<open>What the test rows say: which rows are complete, and what the prediction of a complete row is to hold.\<close>

definition complete_row :: "research_row \<Rightarrow> bool" where
  "complete_row row \<longleftrightarrow> has_features row \<and> r_fwdret row \<noteq> None \<and> r_fwddir row \<noteq> None"

definition printed_value :: "string \<Rightarrow> rat option" where
  "printed_value t = map_option dval (read_decimal t)"

definition rat_sign :: "rat \<Rightarrow> int" where
  "rat_sign x = (if 0 < x then 1 else if x < 0 then - 1 else 0)"

definition predicted_sign :: "prediction \<Rightarrow> int" where
  "predicted_sign p = (case printed_value (pr_prediction p) of Some x \<Rightarrow> rat_sign x | None \<Rightarrow> 2)"

definition return_sign :: "research_row \<Rightarrow> int" where
  "return_sign row = (case r_ret row of Some x \<Rightarrow> rat_sign (dval x) | None \<Rightarrow> 2)"

definition predicts :: "research_row \<Rightarrow> prediction \<Rightarrow> bool" where
  "predicts row p \<longleftrightarrow> r_fwddir row = Some (pr_direction p) \<and> pr_direction p \<in> {- 1, 0, 1}
     \<and> predicted_sign p \<in> {- 1, 0, 1}
     \<and> (case (r_fwdret row, printed_value (pr_target p)) of
          (Some y, Some x) \<Rightarrow> \<bar>x - dval y\<bar> \<le> q18_unit / 2 | _ \<Rightarrow> False)"

lemma sign_of_val: "sign_of d = rat_sign (dval d)"
  by (simp add: sign_of_def rat_sign_def dec_cmp zero_def dval_Dec)

lemma quantize_metric_near:
  assumes "quantize_metric a = Inr q"
  shows "dexp q = - 18" "\<bar>dval q - dval a\<bar> \<le> q18_unit / 2"
proof -
  obtain r where r: "dec_quantize DECIMAL_CONTEXT a STORAGE_QUANTUM = Inr r" "q = (if dec_is_zero r then Q18_ZERO else r)"
    using assms by (auto simp: quantize_metric_def res_simps)
  have e: "dexp STORAGE_QUANTUM = - 18" by (simp add: STORAGE_QUANTUM_def)
  have "\<bar>dval r - dval a\<bar> \<le> q18_unit / 2"
    using dec_quantize_error(2)[OF r(1)] unfolding e q18_unit_def by (simp_all only: metric_context)
  moreover have "dec_is_zero r \<Longrightarrow> dval Q18_ZERO = dval r" by (simp add: dec_is_zero_def Q18_ZERO_def dval_def)
  ultimately show "\<bar>dval q - dval a\<bar> \<le> q18_unit / 2" by (auto simp: r(2))
  show "dexp q = - 18" by (rule quantize_metric_exp[OF assms])
qed

lemma q18_printed:
  assumes "q18 a = Inr t"
  shows "\<exists>x. printed_value t = Some x \<and> \<bar>x - dval a\<bar> \<le> q18_unit / 2"
proof -
  obtain q where q: "quantize_metric a = Inr q" "t = dec_format_f q" using assms by (auto simp: q18_def res_simps)
  note near = quantize_metric_near[OF q(1)]
  then have "read_decimal t = Some q" using read_format[of q] q(2) by simp
  with near(2) show ?thesis by (auto simp: printed_value_def)
qed

lemma q18_stored:
  assumes "quantize_metric a = Inr s" "q18 s = Inr t"
  shows "printed_value t = Some (dval s)"
proof -
  obtain q where q: "quantize_metric s = Inr q" "t = dec_format_f q" using assms(2) by (auto simp: q18_def res_simps)
  note near = quantize_metric_near[OF q(1)] and e = quantize_metric_near(1)[OF assms(1)]
  have "dval q < q18_unit + dval s" "dval s < q18_unit + dval q" using near(2) q18_unit_pos(1) by linarith+
  then have "dval q = dval s" using grid_mono[OF near(1) e] grid_mono[OF e near(1)] by (intro antisym) (simp_all add: add.commute)
  moreover have "read_decimal t = Some q" using read_format[of q] q(2) near(1) by simp
  ultimately show ?thesis by (simp add: printed_value_def)
qed

text \<open>A scored row.\<close>

definition scored_as :: "research_row \<Rightarrow> scored \<Rightarrow> bool" where
  "scored_as row s \<longleftrightarrow> predicts row (sc_prediction s) \<and> sc_direction s = pr_direction (sc_prediction s)
     \<and> predicted_sign (sc_prediction s) = sign_of (sc_stored s) \<and> return_sign row = sc_sign_ret s"

lemma score_row_Some:
  assumes "score_row fit i row = Inr (Some s)"
  shows "complete_row row \<and> pr_row_index (sc_prediction s) = i \<and> scored_as row s"
proof -
  obtain vs y d p ps ts where c: "features_of row = Some vs" "r_fwdret row = Some y" "r_fwddir row = Some d"
    and q: "quantize_metric p = Inr (sc_stored s)" "q18 (sc_stored s) = Inr ps" "q18 y = Inr ts" "d \<in> {- 1, 0, 1}"
    and s: "sc_prediction s = \<lparr>pr_row_index = i, pr_prediction = ps, pr_target = ts, pr_direction = d\<rparr>"
      "sc_direction s = d" "sc_sign_ret s = sign_of (hd vs)"
    using assms by (auto simp: score_row_def res_simps split: option.splits if_splits)
  have "has_features row" using features_None[of row] c(1) by auto
  moreover have "r_ret row = Some (hd vs)" using c(1) by (auto simp: features_of_def feature_cells_def split: option.splits)
  moreover obtain x where "printed_value ts = Some x" "\<bar>x - dval y\<bar> \<le> q18_unit / 2" using q18_printed[OF q(3)] by blast
  moreover have "rat_sign z \<in> {- 1, 0, 1}" for z by (simp add: rat_sign_def)
  ultimately show ?thesis using c(2,3) q(4) s q18_stored[OF q(1,2)]
    by (simp add: complete_row_def scored_as_def predicts_def predicted_sign_def return_sign_def sign_of_val)
qed

lemma score_row_None: "score_row fit i row = Inr None \<Longrightarrow> \<not> complete_row row"
  using features_None[of row] by (auto simp: complete_row_def score_row_def res_simps split: option.splits if_splits)

text \<open>What scoring the rows of a test range leaves: one score for every complete row, in order.\<close>

definition test_rows_of :: "ridge_fit \<Rightarrow> research_row list \<Rightarrow> int list \<Rightarrow> (research_row \<times> scored option) list res" where
  "test_rows_of fit rows is = mapE (\<lambda>i. bindE (py_at rows i) (\<lambda>row. bindE (score_row fit i row) (\<lambda>s. Inr (row, s)))) is"

lemma test_rows_scored:
  assumes "test_rows_of fit rows is = Inr tested"
  shows "mapE (py_at rows) is = Inr (map fst tested)
    \<and> map (pr_row_index \<circ> sc_prediction) (List.map_filter snd tested) = map fst (filter (complete_row \<circ> snd) (zip is (map fst tested)))
    \<and> list_all2 scored_as (filter complete_row (map fst tested)) (List.map_filter snd tested)"
  using assms
proof (induction "is" arbitrary: tested)
  case Nil
  then show ?case by (simp add: test_rows_of_def List.map_filter_def)
next
  case (Cons i more)
  then obtain row s later where step: "py_at rows i = Inr row" "score_row fit i row = Inr s" "tested = (row, s) # later"
      "test_rows_of fit rows more = Inr later"
    by (auto simp: test_rows_of_def res_simps)
  note ih = Cons.IH[OF step(4)]
  show ?case
  proof (cases s)
    case None
    with ih step score_row_None[of fit i row] show ?thesis by (simp add: map_filter_Cons)
  next
    case (Some v)
    with ih step score_row_Some[of fit i row v] show ?thesis by (simp add: map_filter_Cons)
  qed
qed

definition unit_text :: "string \<Rightarrow> bool" where
  "unit_text t \<longleftrightarrow> (\<exists>q. t = dec_format_f q \<and> stored q)"

definition test_record_sound :: "int list \<Rightarrow> research_row list \<Rightarrow> training_record \<Rightarrow> bool" where
  "test_record_sound is test r \<longleftrightarrow>
     (let ps = tr_predictions r; used = filter complete_row test; directions = map pr_direction ps in
       map pr_row_index ps = map fst (filter (complete_row \<circ> snd) (zip is test))
     \<and> list_all2 predicts used ps \<and> 0 < length used
     \<and> tr_predicted_count r = length used \<and> tr_excluded_test_count r = int (length test - length used)
     \<and> tr_feature_null_count r = length (filter (\<lambda>row. \<not> has_features row) test)
     \<and> tr_target_null_count r = length (filter (\<lambda>row. r_fwdret row = None) test)
     \<and> tr_direction_null_count r = length (filter (\<lambda>row. r_fwddir row = None) test)
     \<and> tr_zero_prediction_count r = length (filter (\<lambda>v. v = 0) (map predicted_sign ps))
     \<and> tr_zero_label_count r = length (filter (\<lambda>d. d = 0) directions)
     \<and> unit_text (tr_pearson_ic r)
     \<and> share_text (tr_directional_accuracy r) (matches (map predicted_sign ps) directions)
     \<and> share_text (tr_sign_accuracy r) (matches (map return_sign used) directions)
     \<and> share_text (tr_majority_accuracy r) (matches (map (\<lambda>_. tr_majority_direction r) ps) directions))"

definition record_sound :: "research_row list \<Rightarrow> fold \<Rightarrow> training_record \<Rightarrow> bool" where
  "record_sound rows f r \<longleftrightarrow>
     tr_fold_id r = fold_id f \<and> train_range f = Some (tr_train_range r) \<and> tr_test_range r = test_range f
   \<and> tr_test_row_count r = snd (test_range f) - fst (test_range f)
   \<and> train_counts_sound (slice_rows (fst (tr_train_range r)) (snd (tr_train_range r)) rows) r
   \<and> (case mapE (py_at rows) [fst (test_range f)..snd (test_range f) - 1] of
        Inl _ \<Rightarrow> False
      | Inr test \<Rightarrow> test_record_sound [fst (test_range f)..snd (test_range f) - 1] test r)"

lemma pearson_text: "bindE (m_pearson ps) q18 = Inr t \<Longrightarrow> unit_text t"
  using quantize_unit(1) m_pearson_unit by (auto simp: unit_text_def q18_def res_simps)

lemma share_of: "bindE (accuracy p a) q18 = Inr t \<Longrightarrow> p \<noteq> [] \<and> length p = length a \<and> share_text t (matches p a)"
  using accuracy_text by (auto simp: res_simps)

lemma scored_lists:
  assumes "list_all2 scored_as used scores"
  shows "list_all2 predicts used (map sc_prediction scores)" "length used = length scores"
    "map sc_direction scores = map (pr_direction \<circ> sc_prediction) scores"
    "map (sign_of \<circ> sc_stored) scores = map (predicted_sign \<circ> sc_prediction) scores"
    "map sc_sign_ret scores = map return_sign used"
  using assms by (induction used scores rule: list_all2_induct) (auto simp: scored_as_def)

text \<open>C34: A training record says what its rows say. The training counts are those of the rows of the
  training range: usable rows (at least 200), rows per direction, and the majority direction from
  them. The predictions belong to exactly the complete rows of the test range, in order, each with
  the direction of its row and a target within half a unit of it; the null counts are those of the
  test rows. The directional accuracy is, within one unit of 1E-18, the share of predictions whose
  printed value has the sign of the row's direction; the two baselines are the shares of rows whose
  one-step return has that sign and of rows with the majority direction. The correlation is in
  [-1, 1].\<close>

theorem training_record_sound:
  "case train_fold ambient rows f of Inl _ \<Rightarrow> True | Inr r \<Rightarrow> record_sound rows f r"
proof (cases "train_fold ambient rows f")
  case (Inr r)
  let ?is = "[fst (test_range f)..snd (test_range f) - 1]"
  obtain m tested where parts: "fit_fold ambient (slice_rows (fst (tr_train_range r)) (snd (tr_train_range r)) rows) = Inr m"
      "test_rows_of (fm_fit m) rows ?is = Inr tested"
      and r: "tr_fold_id r = fold_id f" "train_range f = Some (tr_train_range r)" "tr_test_range r = test_range f"
        "tr_test_row_count r = snd (test_range f) - fst (test_range f)"
      and train: "tr_train_row_count r = length (slice_rows (fst (tr_train_range r)) (snd (tr_train_range r)) rows)"
        "tr_usable_train_count r = fm_usable_count m" "tr_excluded_train_count r = int (tr_train_row_count r) - int (tr_usable_train_count r)"
        "tr_up_count r = fm_up m" "tr_down_count r = fm_down m" "tr_zero_count r = fm_zero m" "tr_majority_direction r = fm_majority m"
      and counts: "tr_predicted_count r = length (List.map_filter snd tested)"
        "tr_excluded_test_count r = snd (test_range f) - fst (test_range f) - int (length (List.map_filter snd tested))"
        "tr_feature_null_count r = length (filter (\<lambda>row. features_of row = None) (map fst tested))"
        "tr_target_null_count r = length (filter (\<lambda>row. r_fwdret row = None) (map fst tested))"
        "tr_direction_null_count r = length (filter (\<lambda>row. r_fwddir row = None) (map fst tested))"
        "tr_zero_prediction_count r = length (filter (\<lambda>v. v = 0) (map (sign_of \<circ> sc_stored) (List.map_filter snd tested)))"
        "tr_zero_label_count r = length (filter (\<lambda>v. v = 0) (map sc_direction (List.map_filter snd tested)))"
        "tr_predictions r = map sc_prediction (List.map_filter snd tested)"
      and texts: "bindE (m_pearson (map (\<lambda>s. (sc_stored s, sc_target s)) (List.map_filter snd tested))) q18 = Inr (tr_pearson_ic r)"
      "bindE (accuracy (map (sign_of \<circ> sc_stored) (List.map_filter snd tested)) (map sc_direction (List.map_filter snd tested))) q18
        = Inr (tr_directional_accuracy r)"
      "bindE (accuracy (replicate (length (List.map_filter snd tested)) (fm_majority m)) (map sc_direction (List.map_filter snd tested))) q18
        = Inr (tr_majority_accuracy r)"
      "bindE (accuracy (map sc_sign_ret (List.map_filter snd tested)) (map sc_direction (List.map_filter snd tested))) q18
        = Inr (tr_sign_accuracy r)"
    using Inr by (auto simp: train_fold_def Let_def test_rows_of_def res_simps split: option.splits prod.splits)
  note fit = fit_fold_counts[OF parts(1)]
  have "fm_usable_count m \<le> length (slice_rows (fst (tr_train_range r)) (snd (tr_train_range r)) rows)"
    unfolding fit(3) by (rule length_filter_le)
  then have "train_counts_sound (slice_rows (fst (tr_train_range r)) (snd (tr_train_range r)) rows) r"
    using fit train by (simp add: train_counts_sound_def of_nat_diff)
  moreover note scores = test_rows_scored[OF parts(2)]
  then have lists: "list_all2 scored_as (filter complete_row (map fst tested)) (List.map_filter snd tested)" by blast
  note same = scored_lists[OF lists]
  note shares = share_of[OF texts(2)] share_of[OF texts(3)] share_of[OF texts(4)]
  have len: "length (map fst tested) = length ?is" using scores mapE_length by blast
  have some: "0 < length (filter complete_row (map fst tested))" using shares(1) same(2) by auto
  note le = length_filter_le[of complete_row "map fst tested"]
  have "0 < length ?is" using some le len by linarith
  then have "int (length (map fst tested)) = snd (test_range f) - fst (test_range f)" unfolding len by simp
  then have excl: "tr_excluded_test_count r = int (length (map fst tested) - length (filter complete_row (map fst tested)))"
    using counts(2) same(2) of_nat_diff[OF le, where 'a = int] by simp
  have lists_of: "map pr_direction (tr_predictions r) = map sc_direction (List.map_filter snd tested)"
      "map predicted_sign (tr_predictions r) = map (sign_of \<circ> sc_stored) (List.map_filter snd tested)"
      "map (\<lambda>_. tr_majority_direction r) (tr_predictions r) = replicate (length (List.map_filter snd tested)) (fm_majority m)"
      "map pr_row_index (tr_predictions r) = map (pr_row_index \<circ> sc_prediction) (List.map_filter snd tested)"
    unfolding counts(8) same(3,4) map_map train(7) by (simp_all add: map_replicate_const comp_def)
  have "test_record_sound ?is (map fst tested) r"
    unfolding test_record_sound_def Let_def lists_of same(5)[symmetric]
    using scores same(1,2) some counts(1,3-7) excl shares pearson_text[OF texts(1)]
    unfolding counts(8) features_None by (intro conjI) simp_all
  ultimately show ?thesis using Inr r scores by (simp add: record_sound_def)
qed simp

end
