(* ===== verification/Json_Reader.thy ===== *)
theory Json_Reader
  imports Parsing
begin

text \<open>
  \<open>json.loads\<close> and \<open>json.dumps\<close> of Python's standard library, as the pipelines use them on
  the documents they retained: the reader of CPython's \<open>_json\<close> scanner on code points (string
  escapes with surrogate pairs, the number grammar with its digit limit and doubles rounded to
  nearest even, the three non-finite literals, duplicate keys where the last one wins) and the
  pretty printer of current.json. The reader runs on fuel; \<open>json_fuel\<close> of a text is enough
  (\<open>json_fuel_enough\<close>). The lemmas show that what \<open>canonicalize\<close> wrote is read back.
\<close>

section \<open>Doubles\<close>

text \<open>\<open>num / den\<close> as the nearest double, ties to the even one; beyond the range the infinity.\<close>

fun bit_len :: "nat \<Rightarrow> nat" where
  "bit_len n = (if n = 0 then 0 else Suc (bit_len (n div 2)))"

declare bit_len.simps [simp del]

definition half_even :: "nat \<Rightarrow> nat \<Rightarrow> nat" where
  "half_even n d = (let q = n div d; r = n mod d in
     if 2 * r < d then q else if d < 2 * r then Suc q else q + q mod 2)"

definition double_bits :: "bool \<Rightarrow> nat \<Rightarrow> nat \<Rightarrow> 64 word" where
  "double_bits neg num den =
     (let quot = (\<lambda>k. if k \<ge> 0 then half_even num (den * 2 ^ nat k) else half_even (num * 2 ^ nat (- k)) den);
          fits = (\<lambda>k. if k \<ge> (0::int) then num < 2 ^ 53 * (den * 2 ^ nat k) else num * 2 ^ nat (- k) < 2 ^ 53 * den);
          k0 = int (bit_len num) - int (bit_len den) - 53;
          k1 = (if fits k0 then k0 else k0 + 1);
          k = max k1 (- 1074);
          b = nat (k + 1074) * 2 ^ 52 + quot k
      in (if num = 0 then 0 else if 0x7FF0000000000000 \<le> b then 0x7FF0000000000000 else of_nat b)
         + (if neg then 0x8000000000000000 else 0))"

definition FLOAT_INF :: "64 word" where "FLOAT_INF = 0x7FF0000000000000"
definition FLOAT_NEG_INF :: "64 word" where "FLOAT_NEG_INF = 0xFFF0000000000000"
definition FLOAT_NAN :: "64 word" where "FLOAT_NAN = 0x7FF8000000000000"

section \<open>Tokens\<close>

definition is_ws :: "nat \<Rightarrow> bool" where
  "is_ws c \<longleftrightarrow> c = 32 \<or> c = 9 \<or> c = 10 \<or> c = 13"

definition skip_ws :: "ustr \<Rightarrow> ustr" where
  "skip_ws s = dropWhile is_ws s"

definition is_dec :: "nat \<Rightarrow> bool" where
  "is_dec c \<longleftrightarrow> 48 \<le> c \<and> c \<le> 57"

definition hex_val :: "nat \<Rightarrow> nat option" where
  "hex_val c = (if is_dec c then Some (c - 48) else if 97 \<le> c \<and> c \<le> 102 then Some (c - 87)
     else if 65 \<le> c \<and> c \<le> 70 then Some (c - 55) else None)"

definition hex4 :: "ustr \<Rightarrow> (nat \<times> ustr) option" where
  "hex4 s = (case s of
     a # b # c # d # r \<Rightarrow> (case (hex_val a, hex_val b, hex_val c, hex_val d) of
        (Some w, Some x, Some y, Some z) \<Rightarrow> Some (4096 * w + 256 * x + 16 * y + z, r)
      | _ \<Rightarrow> None)
   | _ \<Rightarrow> None)"

definition is_high :: "nat \<Rightarrow> bool" where "is_high c \<longleftrightarrow> 0xD800 \<le> c \<and> c \<le> 0xDBFF"
definition is_low :: "nat \<Rightarrow> bool" where "is_low c \<longleftrightarrow> 0xDC00 \<le> c \<and> c \<le> 0xDFFF"

definition plain_escape :: "nat \<Rightarrow> nat option" where
  "plain_escape e = (if e = 34 \<or> e = 92 \<or> e = 47 then Some e else if e = 98 then Some 8
     else if e = 102 then Some 12 else if e = 110 then Some 10 else if e = 114 then Some 13
     else if e = 116 then Some 9 else None)"

text \<open>The second half of an escaped surrogate pair, when there is one.\<close>

definition low_escape :: "ustr \<Rightarrow> (nat \<times> ustr) option" where
  "low_escape s = (case s of
     a # b # r \<Rightarrow> if a = 92 \<and> b = 117 then (case hex4 r of
         Some (l, r') \<Rightarrow> if is_low l then Some (l, r') else None | None \<Rightarrow> None) else None
   | _ \<Rightarrow> None)"

definition string_escape_at :: "ustr \<Rightarrow> (nat \<times> ustr) option" where
  "string_escape_at s = (case s of
     [] \<Rightarrow> None
   | e # r \<Rightarrow> if e \<noteq> 117 then map_option (\<lambda>c. (c, r)) (plain_escape e)
       else (case hex4 r of
           None \<Rightarrow> None
         | Some (u, r') \<Rightarrow> if is_high u then (case low_escape r' of
               Some (l, r'') \<Rightarrow> Some (0x10000 + (u - 0xD800) * 0x400 + (l - 0xDC00), r'')
             | None \<Rightarrow> Some (u, r'))
           else Some (u, r')))"

lemma hex4_length: "hex4 s = Some (u, r) \<Longrightarrow> length r < length s"
  by (auto simp: hex4_def split: list.splits option.splits)

lemma low_escape_length: "low_escape s = Some (u, r) \<Longrightarrow> length r < length s"
  by (auto simp: low_escape_def dest: hex4_length split: list.splits option.splits if_splits)

lemma string_escape_at_length: "string_escape_at s = Some (u, r) \<Longrightarrow> length r < length s"
  by (fastforce simp: string_escape_at_def dest: hex4_length low_escape_length
      split: list.splits option.splits if_splits)

text \<open>The body of a string up to its closing quote, and what follows it.\<close>

function scan_string :: "ustr \<Rightarrow> (ustr \<times> ustr) option" where
  "scan_string s = (case s of
     [] \<Rightarrow> None
   | c # r \<Rightarrow>
       if c = 34 then Some ([], r)
       else if c = 92 then (case string_escape_at r of
           None \<Rightarrow> None
         | Some (u, r') \<Rightarrow> map_option (\<lambda>(t, x). (u # t, x)) (scan_string r'))
       else if c < 32 then None
       else map_option (\<lambda>(t, x). (c # t, x)) (scan_string r))"
  by pat_completeness auto
termination
  by (relation "measure length") (auto dest: string_escape_at_length)

declare scan_string.simps [simp del]

text \<open>A number token: its value and what follows it.\<close>

definition frac_part :: "ustr \<Rightarrow> ustr \<times> ustr" where
  "frac_part s = (case s of
     c # d # r \<Rightarrow> if c = 46 \<and> is_dec d then (takeWhile is_dec (d # r), dropWhile is_dec (d # r)) else ([], s)
   | _ \<Rightarrow> ([], s))"

definition exp_part :: "ustr \<Rightarrow> (int \<times> ustr) option" where
  "exp_part s = (case s of
     c # r \<Rightarrow> if c = 101 \<or> c = 69 then
         (let neg = (r \<noteq> [] \<and> hd r = 45); r' = (if r \<noteq> [] \<and> (hd r = 45 \<or> hd r = 43) then tl r else r);
              ds = takeWhile is_dec r' in
          if ds = [] then None
          else Some ((if neg then - int (digits_value ds) else int (digits_value ds)), dropWhile is_dec r'))
       else None
   | [] \<Rightarrow> None)"

definition int_part :: "ustr \<Rightarrow> (ustr \<times> ustr) option" where
  "int_part s = (case s of
     [] \<Rightarrow> None
   | c # r \<Rightarrow> if c = 48 then Some ([48], r)
       else if is_dec c then Some (takeWhile is_dec s, dropWhile is_dec s) else None)"

definition scan_number :: "ustr \<Rightarrow> (pyval \<times> ustr) res" where
  "scan_number s =
     (let neg = (s \<noteq> [] \<and> hd s = 45); body = (if neg then tl s else s) in
      case int_part body of
        None \<Rightarrow> Inl PyValueError
      | Some (ds, r) \<Rightarrow>
          let (fs, r1) = frac_part r in
          (case (fs, exp_part r1) of
             ([], None) \<Rightarrow> bindE (py_int_digits ds) (\<lambda>n. Inr (PyInt (if neg then - int n else int n), r1))
           | (_, ex) \<Rightarrow>
               (let (e, r2) = (case ex of Some er \<Rightarrow> er | None \<Rightarrow> (0, r1));
                    m = digits_value (ds @ fs); x = e - int (length fs) in
                Inr (PyFloat (if 0 \<le> x then double_bits neg (m * 10 ^ nat x) 1
                              else double_bits neg m (10 ^ nat (- x))), r2))))"

definition strip_lit :: "ustr \<Rightarrow> ustr \<Rightarrow> ustr option" where
  "strip_lit w s = (if take (length w) s = w then Some (drop (length w) s) else None)"

section \<open>Values\<close>

text \<open>A dict keeps the place of a key's first occurrence and the value of its last.\<close>

fun dict_put :: "(ustr \<times> 'a) list \<Rightarrow> ustr \<Rightarrow> 'a \<Rightarrow> (ustr \<times> 'a) list" where
  "dict_put [] k v = [(k, v)]"
| "dict_put ((k', v') # kvs) k v = (if k' = k then (k, v) # kvs else (k', v') # dict_put kvs k v)"

fun json_value :: "nat \<Rightarrow> ustr \<Rightarrow> (pyval \<times> ustr) res"
and json_elems :: "nat \<Rightarrow> pyval list \<Rightarrow> ustr \<Rightarrow> (pyval \<times> ustr) res"
and json_items :: "nat \<Rightarrow> (ustr \<times> pyval) list \<Rightarrow> ustr \<Rightarrow> (pyval \<times> ustr) res" where
  "json_value 0 s = Inl PyRuntimeError"
| "json_value (Suc n) s = (case s of
     [] \<Rightarrow> Inl PyValueError
   | c # r \<Rightarrow>
       if c = 34 then (case scan_string r of None \<Rightarrow> Inl PyValueError | Some (t, x) \<Rightarrow> Inr (PyStr t, x))
       else if c = 123 then
         (let r' = skip_ws r in
          if r' \<noteq> [] \<and> hd r' = 125 then Inr (PyDict [], tl r') else json_items n [] r')
       else if c = 91 then
         (let r' = skip_ws r in
          if r' \<noteq> [] \<and> hd r' = 93 then Inr (PyList [], tl r') else json_elems n [] r')
       else (case (strip_lit (cps ''null'') s, strip_lit (cps ''true'') s, strip_lit (cps ''false'') s) of
           (Some x, _, _) \<Rightarrow> Inr (PyNone, x)
         | (_, Some x, _) \<Rightarrow> Inr (PyBool True, x)
         | (_, _, Some x) \<Rightarrow> Inr (PyBool False, x)
         | _ \<Rightarrow> (case (strip_lit (cps ''NaN'') s, strip_lit (cps ''Infinity'') s, strip_lit (cps ''-Infinity'') s) of
             (Some x, _, _) \<Rightarrow> Inr (PyFloat FLOAT_NAN, x)
           | (_, Some x, _) \<Rightarrow> Inr (PyFloat FLOAT_INF, x)
           | (_, _, Some x) \<Rightarrow> Inr (PyFloat FLOAT_NEG_INF, x)
           | _ \<Rightarrow> scan_number s)))"
| "json_elems 0 vs s = Inl PyRuntimeError"
| "json_elems (Suc n) vs s =
     bindE (json_value n s) (\<lambda>(v, r).
     let r' = skip_ws r in
     if r' = [] then Inl PyValueError
     else if hd r' = 44 then json_elems n (vs @ [v]) (skip_ws (tl r'))
     else if hd r' = 93 then Inr (PyList (vs @ [v]), tl r')
     else Inl PyValueError)"
| "json_items 0 kvs s = Inl PyRuntimeError"
| "json_items (Suc n) kvs s =
     (if s = [] \<or> hd s \<noteq> 34 then Inl PyValueError
      else case scan_string (tl s) of
        None \<Rightarrow> Inl PyValueError
      | Some (k, r) \<Rightarrow>
          let r1 = skip_ws r in
          if r1 = [] \<or> hd r1 \<noteq> 58 then Inl PyValueError
          else bindE (json_value n (skip_ws (tl r1))) (\<lambda>(v, r2).
            let r3 = skip_ws r2; kvs' = dict_put kvs k v in
            if r3 = [] then Inl PyValueError
            else if hd r3 = 44 then json_items n kvs' (skip_ws (tl r3))
            else if hd r3 = 125 then Inr (PyDict kvs', tl r3)
            else Inl PyValueError))"

definition json_fuel :: "ustr \<Rightarrow> nat" where
  "json_fuel s = 2 * length s + 1"

definition json_loads :: "ustr \<Rightarrow> pyval res" where
  "json_loads s =
     (if s \<noteq> [] \<and> hd s = 0xFEFF then Inl PyValueError
      else let t = skip_ws s in
        bindE (json_value (json_fuel t) t) (\<lambda>(v, r).
        if skip_ws r = [] then Inr v else Inl PyValueError))"

section \<open>Reading back what was written\<close>

definition ends :: "ustr \<Rightarrow> bool" where
  "ends x \<longleftrightarrow> x = [] \<or> is_stop (hd x)"

lemma hex_val_digit [simp]: "n < 16 \<Longrightarrow> hex_val (hex_digit n) = Some n"
  by (simp add: hex_val_def hex_digit_def is_dec_def)

lemma scan_string_char:
  "scan_string (serialize_char c @ y) = map_option (\<lambda>(t, x). (c # t, x)) (scan_string y)"
proof (cases c rule: serialize_char_cases)
  case 1
  then show ?thesis
    by (subst scan_string.simps) (auto simp: string_escape_at_def plain_escape_def)
next
  case 2
  then have "hex_val (hex_digit (c div 16)) = Some (c div 16)" "hex_val (hex_digit (c mod 16)) = Some (c mod 16)"
    by simp_all
  moreover have "c div 16 * 16 + c mod 16 = c" by simp
  ultimately have "hex4 (48 # 48 # hex_digit (c div 16) # hex_digit (c mod 16) # y) = Some (c, y)"
    by (simp add: hex4_def hex_val_def[of 48] is_dec_def mult.commute)
  moreover have "\<not> is_high c" using 2 by (simp add: is_high_def)
  ultimately have "string_escape_at (117 # 48 # 48 # hex_digit (c div 16) # hex_digit (c mod 16) # y) = Some (c, y)"
    by (simp add: string_escape_at_def)
  with 2 show ?thesis by (subst scan_string.simps) simp
next
  case 3
  then show ?thesis by (subst scan_string.simps) simp
qed

lemma scan_string_body: "scan_string (concat (map serialize_char s) @ 34 # x) = Some (s, x)"
  by (induction s) (simp_all add: scan_string_char, simp add: scan_string.simps)

lemma is_dec_digits: "c \<in> set (cps (show_nat n)) \<Longrightarrow> is_dec c"
  using show_nat_digits[of n] by (auto simp: cps_def is_dec_def is_digit_def)

lemma show_nat_head: "0 < n \<Longrightarrow> \<exists>c cs. cps (show_nat n) = c # cs \<and> c \<noteq> 48 \<and> is_dec c"
proof (induction n rule: show_nat.induct)
  case (1 n)
  show ?case
  proof (cases "n < 10")
    case True
    with 1 show ?thesis by (subst show_nat.simps) (simp add: cps_def is_dec_def)
  next
    case False
    then have "0 < n div 10" by simp
    with 1 False obtain c cs where "cps (show_nat (n div 10)) = c # cs" "c \<noteq> 48" "is_dec c" by auto
    with False show ?thesis by (subst show_nat.simps) (simp add: cps_def)
  qed
qed

lemma take_digits:
  assumes "ends x" shows "takeWhile is_dec (cps (show_nat n) @ x) = cps (show_nat n)"
    "dropWhile is_dec (cps (show_nat n) @ x) = x"
proof -
  have "takeWhile is_dec x = [] \<and> dropWhile is_dec x = x"
    using assms by (cases x) (auto simp: ends_def is_stop_def is_dec_def)
  then show "takeWhile is_dec (cps (show_nat n) @ x) = cps (show_nat n)" "dropWhile is_dec (cps (show_nat n) @ x) = x"
    by (simp_all add: is_dec_digits)
qed

lemma int_part_nat: "ends x \<Longrightarrow> int_part (cps (show_nat n) @ x) = Some (cps (show_nat n), x)"
proof (cases "n = 0")
  case True
  moreover have "cps (show_nat 0) = [48]" by (subst show_nat.simps) (simp add: cps_def)
  ultimately show ?thesis by (simp add: int_part_def)
next
  case False
  assume x: "ends x"
  obtain c cs where c: "cps (show_nat n) = c # cs" "c \<noteq> 48" "is_dec c" using show_nat_head[of n] False by auto
  have "int_part ((c # cs) @ x) = Some (takeWhile is_dec ((c # cs) @ x), dropWhile is_dec ((c # cs) @ x))"
    using c by (simp add: int_part_def)
  then show ?thesis using take_digits[OF x, of n] c by simp
qed

lemma no_fraction: "ends x \<Longrightarrow> frac_part x = ([], x) \<and> exp_part x = None"
  by (auto simp: ends_def is_stop_def frac_part_def exp_part_def split: list.splits)

lemma scan_number_int:
  assumes "ends x" "int_printable i"
  shows "scan_number (cps (show_int i) @ x) = Inr (PyInt i, x)"
proof -
  have ints: "py_int_digits (cps (show_nat n)) = Inr n" if "ndigits n \<le> 4300" for n
    using that by (simp add: py_int_digits_def digits_value_cps length_show_nat cps_def[of "show_nat n"])
      (simp add: cps_def[symmetric] digits_value_cps)
  have hd: "hd (cps (show_nat n) @ x) \<noteq> 45" for n
  proof -
    obtain c cs where "cps (show_nat n) = c # cs" by (cases "show_nat n") (auto simp: cps_def)
    then show ?thesis using is_dec_digits[of c n] by (simp add: is_dec_def)
  qed
  have i: "ndigits (nat \<bar>i\<bar>) \<le> 4300" using assms(2) by (simp only: int_printable_def)
  show ?thesis
  proof (cases "i < 0")
    case True
    then have "cps (show_int i) = 45 # cps (show_nat (nat \<bar>i\<bar>))" by (simp add: show_int_def cps_def)
    with True show ?thesis
      using int_part_nat[OF assms(1), of "nat \<bar>i\<bar>"] no_fraction[OF assms(1)] ints[OF i]
      by (simp add: scan_number_def)
  next
    case False
    then have "cps (show_int i) = cps (show_nat (nat \<bar>i\<bar>))" by (simp add: show_int_def)
    with False show ?thesis
      using int_part_nat[OF assms(1), of "nat \<bar>i\<bar>"] no_fraction[OF assms(1)] ints[OF i] hd[of "nat \<bar>i\<bar>"]
      by (simp add: scan_number_def)
  qed
qed

text \<open>The values whose text is read back: JSON values with distinct keys and integers that
  \<open>int()\<close> accepts.\<close>

fun json_ok :: "pyval \<Rightarrow> bool" where
  "json_ok (PyInt i) = int_printable i"
| "json_ok (PyList vs) = (\<forall>v \<in> set vs. json_ok v)"
| "json_ok (PyDict kvs) = (distinct (map fst kvs) \<and>
     (\<forall>kv \<in> set kvs. (\<forall>c \<in> set (fst kv). \<not> is_surrogate c) \<and> json_ok (snd kv)))"
| "json_ok (PyFloat f) = False"
| "json_ok (PyOther n) = False"
| "json_ok _ = True"

lemma json_ok_jcs_ok: "json_ok v \<Longrightarrow> jcs_ok v"
  by (induction v rule: json_ok.induct) auto

lemma head_not_ws: "head_kind c < 7 \<Longrightarrow> \<not> is_ws c"
  by (auto simp: head_kind_def is_ws_def is_num_def split: if_splits)

lemma skip_text:
  assumes "jcs_ok v" shows "skip_ws (jcs_text v @ x) = jcs_text v @ x"
    "jcs_text v @ x \<noteq> []" "hd (jcs_text v @ x) \<noteq> 93" "hd (jcs_text v @ x) \<noteq> 125"
proof -
  obtain c cs where c: "jcs_text v = c # cs" "head_kind c = value_kind v"
    using jcs_text_head[OF assms] by blast
  moreover have "value_kind v < 7" using assms by (cases v) auto
  ultimately have "\<not> is_ws c" "c \<noteq> 93" "c \<noteq> 125"
    using head_not_ws[of c] by (auto simp: head_kind_def is_num_def)
  with c show "skip_ws (jcs_text v @ x) = jcs_text v @ x" "jcs_text v @ x \<noteq> []"
    "hd (jcs_text v @ x) \<noteq> 93" "hd (jcs_text v @ x) \<noteq> 125"
    by (simp_all add: skip_ws_def)
qed

lemma skip_stop [simp]: "\<not> is_ws c \<Longrightarrow> skip_ws (c # x) = c # x"
  by (simp add: skip_ws_def)

lemma not_ws [simp]: "\<not> is_ws 44" "\<not> is_ws 93" "\<not> is_ws 125" "\<not> is_ws 58" "\<not> is_ws 34"
  by (simp_all add: is_ws_def)

lemma ends_simps [simp]: "ends (44 # x)" "ends (93 # x)" "ends (125 # x)" "ends []"
  by (simp_all add: ends_def is_stop_def)

text \<open>Elements and items, given that each value is read back.\<close>

lemma json_elems_text:
  assumes "\<And>v n x. v \<in> set vs \<Longrightarrow> 2 * length (jcs_text v) \<le> n \<Longrightarrow> ends x \<Longrightarrow> json_value n (jcs_text v @ x) = Inr (v, x)"
    and "\<And>v. v \<in> set vs \<Longrightarrow> jcs_ok v" "vs \<noteq> []" "2 * length (join [44] (map jcs_text vs)) < n"
  shows "json_elems n acc (join [44] (map jcs_text vs) @ 93 # x) = Inr (PyList (acc @ vs), x)"
  using assms
proof (induction vs arbitrary: n acc)
  case (Cons v vs)
  then obtain m where n: "n = Suc m" by (cases n) auto
  have len: "2 * length (jcs_text v) \<le> m" using Cons.prems(4) n by (simp add: join_Cons)
  show ?case
  proof (cases "vs = []")
    case True
    then show ?thesis using Cons.prems(1)[of v m "93 # x"] len n by simp
  next
    case False
    have "json_value m (jcs_text v @ 44 # join [44] (map jcs_text vs) @ 93 # x)
        = Inr (v, 44 # join [44] (map jcs_text vs) @ 93 # x)"
      using Cons.prems(1)[of v m] len by simp
    moreover obtain w ws where w: "vs = w # ws" using False by (cases vs) auto
    then have "skip_ws (join [44] (map jcs_text vs) @ 93 # x) = join [44] (map jcs_text vs) @ 93 # x"
      using skip_text(1)[of w "(if ws = [] then [] else [44] @ join [44] (map jcs_text ws)) @ 93 # x"] Cons.prems(2)
      by (simp add: join_Cons)
    moreover have "json_elems m (acc @ [v]) (join [44] (map jcs_text vs) @ 93 # x) = Inr (PyList ((acc @ [v]) @ vs), x)"
      using Cons.prems n False by (intro Cons.IH) (auto simp: join_Cons)
    ultimately show ?thesis using False n by (simp add: join_Cons)
  qed
qed simp

lemma dict_put_fresh: "k \<notin> fst ` set kvs \<Longrightarrow> dict_put kvs k v = kvs @ [(k, v)]"
  by (induction kvs k v rule: dict_put.induct) auto

definition item_text :: "ustr \<times> pyval \<Rightarrow> ustr" where
  "item_text kv = serialize_string (fst kv) @ 58 # jcs_text (snd kv)"

lemma json_items_text:
  assumes "\<And>kv n x. kv \<in> set kvs \<Longrightarrow> 2 * length (jcs_text (snd kv)) \<le> n \<Longrightarrow> ends x \<Longrightarrow>
      json_value n (jcs_text (snd kv) @ x) = Inr (snd kv, x)"
    and "\<And>kv. kv \<in> set kvs \<Longrightarrow> jcs_ok (snd kv)" "kvs \<noteq> []" "2 * length (join [44] (map item_text kvs)) < n"
    "distinct (map fst (acc @ kvs))"
  shows "json_items n acc (join [44] (map item_text kvs) @ 125 # x) = Inr (PyDict (acc @ kvs), x)"
  using assms
proof (induction kvs arbitrary: n acc)
  case (Cons kv kvs)
  obtain k v where kv: "kv = (k, v)" by (cases kv)
  obtain m where n: "n = Suc m" using Cons.prems(4) by (cases n) auto
  have len: "2 * length (jcs_text v) \<le> m" using Cons.prems(4) n kv by (simp add: join_Cons item_text_def)
  have put: "dict_put acc k v = acc @ [(k, v)]" using Cons.prems(5) kv by (intro dict_put_fresh) auto
  have key: "scan_string (concat (map serialize_char k) @ 34 # y) = Some (k, y)" for y by (rule scan_string_body)
  have val: "json_value m (jcs_text v @ y) = Inr (v, y)" if "ends y" for y
    using Cons.prems(1)[of kv m y] len kv that by simp
  have ok: "jcs_ok v" using Cons.prems(2)[of kv] kv by simp
  show ?case
  proof (cases "kvs = []")
    case True
    then show ?thesis using val[of "125 # x"] n put kv key skip_text(1)[OF ok]
      by (simp add: item_text_def serialize_string_def)
  next
    case False
    define rest where "rest = join [44] (map item_text kvs) @ 125 # x"
    have "json_items m (acc @ [(k, v)]) rest = Inr (PyDict ((acc @ [(k, v)]) @ kvs), x)"
      unfolding rest_def using Cons.prems n False kv by (intro Cons.IH) (auto simp: join_Cons)
    moreover have "skip_ws rest = rest"
      using False by (cases kvs) (simp_all add: rest_def join_Cons item_text_def serialize_string_def)
    moreover have "join [44] (map item_text (kv # kvs)) @ 125 # x
        = 34 # concat (map serialize_char k) @ 34 # 58 # jcs_text v @ 44 # rest"
      using False kv by (simp add: join_Cons item_text_def serialize_string_def rest_def)
    ultimately show ?thesis using val[of "44 # rest"] n put kv key skip_text(1)[OF ok, of "44 # rest"] by simp
  qed
qed simp

lemma show_int_cons: "\<exists>c cs. cps (show_int i) = c # cs \<and> is_num c"
  using show_int_num[of i] by (cases "show_int i") (auto simp: cps_def)

lemma json_value_num:
  assumes "s = c # cs" "is_num c" "strip_lit (cps ''-Infinity'') s = None"
  shows "json_value (Suc n) s = scan_number s"
proof -
  have "strip_lit (cps w) s = None" if "w \<in> {''null'', ''true'', ''false'', ''NaN'', ''Infinity''}" for w
    using assms(1,2) that by (auto simp: strip_lit_def cps_def is_num_def)
  moreover have "c \<noteq> 34" "c \<noteq> 123" "c \<noteq> 91" using assms(2) by (auto simp: is_num_def)
  ultimately show ?thesis using assms(1,3) by simp
qed

lemma not_infinity: "strip_lit (cps ''-Infinity'') (cps (show_int i) @ x) = None"
proof -
  define n where "n = nat \<bar>i\<bar>"
  have "show_int i = show_nat n \<or> show_int i = CHR ''-'' # show_nat n" by (simp add: show_int_def n_def)
  moreover obtain c cs where c: "cps (show_nat n) = c # cs" by (cases "show_nat n") (auto simp: cps_def)
  moreover have "is_dec c" using c is_dec_digits[of c n] by simp
  ultimately show ?thesis by (auto simp: strip_lit_def cps_def is_dec_def)
qed

theorem json_value_text:
  "json_ok v \<Longrightarrow> 2 * length (jcs_text v) \<le> n \<Longrightarrow> ends x \<Longrightarrow> json_value n (jcs_text v @ x) = Inr (v, x)"
proof (induction v arbitrary: n x rule: json_ok.induct)
  case (1 i)
  obtain c cs where c: "cps (show_int i) = c # cs" "is_num c" using show_int_cons by blast
  with 1 obtain m where "n = Suc m" by (cases n) auto
  have "json_value n (cps (show_int i) @ x) = scan_number (cps (show_int i) @ x)"
    unfolding \<open>n = Suc m\<close> using c by (intro json_value_num[of _ c "cs @ x"] not_infinity) simp_all
  with 1 show ?case using scan_number_int[of x i] by simp
next
  case (2 vs)
  then obtain m where n: "n = Suc m" by (cases n) auto
  show ?case
  proof (cases "vs = []")
    case True
    with n show ?thesis by simp
  next
    case False
    have "json_elems m [] (join [44] (map jcs_text vs) @ 93 # x) = Inr (PyList ([] @ vs), x)"
      using 2 n False by (intro json_elems_text) (auto intro: json_ok_jcs_ok)
    moreover obtain w ws where "vs = w # ws" using False by (cases vs) auto
    then have "skip_ws (join [44] (map jcs_text vs) @ 93 # x) = join [44] (map jcs_text vs) @ 93 # x"
      "hd (join [44] (map jcs_text vs) @ 93 # x) \<noteq> 93"
      using skip_text(1,3)[of w "(if ws = [] then [] else [44] @ join [44] (map jcs_text ws)) @ 93 # x"] 2
      by (simp_all add: join_Cons json_ok_jcs_ok)
    ultimately show ?thesis using n by simp
  qed
next
  case (3 kvs)
  then obtain m where n: "n = Suc m" by (cases n) auto
  show ?case
  proof (cases "kvs = []")
    case True
    with n show ?thesis by simp
  next
    case False
    have len: "2 * length (join [44] (map item_text kvs)) < m" using 3 n by (simp add: item_text_def[abs_def])
    have "json_items m [] (join [44] (map item_text kvs) @ 125 # x) = Inr (PyDict ([] @ kvs), x)"
      using 3 n False by (intro json_items_text len) (auto intro: json_ok_jcs_ok)
    moreover obtain kv kws where "kvs = kv # kws" using False by (cases kvs) auto
    then obtain y where "join [44] (map item_text kvs) @ 125 # x = 34 # y"
      by (simp add: join_Cons item_text_def serialize_string_def)
    ultimately show ?thesis using n by (simp add: item_text_def[abs_def])
  qed
next
  case "6_3"
  then obtain m where "n = Suc m" by (cases n) (auto simp: serialize_string_def)
  then show ?case by (simp add: serialize_string_def scan_string_body)
next
  case "6_1"
  then obtain m where "n = Suc m" by (cases n) (auto simp: lits)
  then show ?case by (simp add: lits strip_lit_def cps_def)
next
  case "6_2"
  then obtain m where "n = Suc m" by (cases n) (auto simp: lits split: if_splits)
  then show ?case by (simp add: lits strip_lit_def cps_def)
qed simp_all

lemma json_ok_norm: "json_ok v \<Longrightarrow> json_ok (jcs_norm v)"
proof (induction v rule: json_ok.induct)
  case (3 kvs)
  have "distinct (map fst (sort_items kvs))"
    using 3 by (simp add: sort_items_def distinct_map)
  with 3 show ?case by (auto simp: comp_def)
qed auto

section \<open>The fuel is enough\<close>

lemma skip_length: "length (skip_ws s) \<le> length s"
  by (simp add: skip_ws_def length_dropWhile_le)

lemma scan_string_length: "scan_string s = Some (t, r) \<Longrightarrow> length r < length s"
proof (induction s arbitrary: t r rule: scan_string.induct)
  case (1 s)
  obtain c x where s: "s = c # x" using "1.prems" by (cases s) (simp_all add: scan_string.simps)
  consider "c = 34" | "c \<noteq> 34" "c = 92" | "c \<noteq> 34" "c \<noteq> 92" by blast
  then show ?case
  proof cases
    case 1
    then show ?thesis using "1.prems" s by (simp add: scan_string.simps)
  next
    case 2
    then obtain u y where u: "string_escape_at x = Some (u, y)" and "\<exists>t'. scan_string y = Some (t', r)"
      using "1.prems" s by (subst (asm) scan_string.simps) (auto split: option.splits)
    then have "length r < length y" using "1.IH"(1)[OF s] 2 by blast
    then show ?thesis using string_escape_at_length[OF u] s by simp
  next
    case 3
    then have "\<exists>t'. scan_string x = Some (t', r)" "\<not> c < 32"
      using "1.prems" s by (subst (asm) scan_string.simps, auto split: if_splits)+
    then have "length r < length x" using "1.IH"(2)[OF s] 3 by blast
    then show ?thesis using s by simp
  qed
qed

lemma frac_length: "frac_part s = (ds, r) \<Longrightarrow> length r \<le> length s"
  using length_dropWhile_le[of is_dec] by (fastforce simp: frac_part_def split: list.splits if_splits intro: le_SucI)

lemma exp_length: "exp_part s = Some (e, r) \<Longrightarrow> length r \<le> length s"
proof (cases s)
  case (Cons c x)
  assume e: "exp_part s = Some (e, r)"
  have "length (dropWhile is_dec y) \<le> length y" for y by (rule length_dropWhile_le)
  from this[of x] this[of "tl x"] e Cons show ?thesis
    by (auto simp: exp_part_def Let_def split: if_splits)
qed (simp add: exp_part_def)

lemma int_length: "int_part s = Some (ds, r) \<Longrightarrow> length r < length s"
  using length_dropWhile_le[of is_dec] by (fastforce simp: int_part_def less_Suc_eq_le split: list.splits if_splits)

lemma scan_number_result:
  "scan_number s = Inr (v, r) \<Longrightarrow> length r < length s"
  "scan_number s \<noteq> Inl PyRuntimeError"
proof -
  define body where "body = (if s \<noteq> [] \<and> hd s = 45 then tl s else s)"
  have body: "length body \<le> length s" by (simp add: body_def)
  show "length r < length s" if r: "scan_number s = Inr (v, r)"
  proof -
    obtain ds x where i: "int_part body = Some (ds, x)"
      using r by (auto simp: scan_number_def Let_def body_def[symmetric] split: option.splits)
    obtain fs y where f: "frac_part x = (fs, y)" by fastforce
    have "r = y \<or> (\<exists>e. exp_part y = Some (e, r))"
      using r i f by (auto simp: scan_number_def Let_def body_def[symmetric] res_simps
          split: option.splits list.splits prod.splits if_splits)
    with int_length[OF i] frac_length[OF f] exp_length[of y] body show ?thesis by fastforce
  qed
  show "scan_number s \<noteq> Inl PyRuntimeError"
    by (auto simp: scan_number_def Let_def res_simps bindE_Inl_iff py_int_digits_def
        split: option.splits list.splits prod.splits if_splits)
qed

lemma strip_lit_length: "strip_lit w s = Some r \<Longrightarrow> w \<noteq> [] \<Longrightarrow> length r < length s"
  by (cases s) (auto simp: strip_lit_def diff_less_Suc split: if_splits)

text \<open>A value or a list of elements is only read from a longer text.\<close>

lemma json_consumes:
  "json_value n s = Inr (v, r) \<Longrightarrow> length r < length s"
  "json_elems n vs s = Inr (v, r) \<Longrightarrow> length r < length s"
  "json_items n kvs s = Inr (v, r) \<Longrightarrow> length r < length s"
proof (induction n s and n vs s and n kvs s arbitrary: v r and v r and v r rule: json_value_json_elems_json_items.induct)
  case (2 n s)
  obtain c x where s: "s = c # x" using "2.prems" by (cases s) auto
  define y where "y = skip_ws x"
  have y: "length y \<le> length x" by (simp add: y_def skip_length)
  consider "c = 34" | "c = 123" | "c = 91" | "c \<noteq> 34" "c \<noteq> 123" "c \<noteq> 91" by blast
  then show ?case
  proof cases
    case 1
    then show ?thesis using "2.prems" s by (auto dest: scan_string_length split: option.splits)
  next
    case c: 2
    show ?thesis
    proof (cases "y \<noteq> [] \<and> hd y = 125")
      case True
      then show ?thesis using "2.prems" s c y by (auto simp: Let_def y_def[symmetric])
    next
      case False
      then have "json_items n [] y = Inr (v, r)" using "2.prems" s c by (simp add: Let_def y_def split: if_splits)
      then have "length r < length y" using "2.IH"(1)[OF s, of y] c False y_def by simp
      then show ?thesis using y s by simp
    qed
  next
    case c: 3
    show ?thesis
    proof (cases "y \<noteq> [] \<and> hd y = 93")
      case True
      then show ?thesis using "2.prems" s c y by (auto simp: Let_def y_def[symmetric])
    next
      case False
      then have "json_elems n [] y = Inr (v, r)" using "2.prems" s c by (simp add: Let_def y_def split: if_splits)
      then have "length r < length y" using "2.IH"(2)[OF s, of y] c False y_def by simp
      then show ?thesis using y s by simp
    qed
  next
    case 4
    then have "(\<exists>w. w \<noteq> [] \<and> strip_lit w s = Some r) \<or> scan_number s = Inr (v, r)"
      using "2.prems" s by (auto simp: cps_def split: option.splits)
    then show ?thesis using strip_lit_length scan_number_result(1) by blast
  qed
next
  case (4 n vs s)
  obtain w x where w: "json_value n s = Inr (w, x)" using "4.prems" by (auto simp: res_simps)
  define y where "y = skip_ws x"
  have y: "length y \<le> length x" "length x < length s"
    using "4.IH"(1)[OF w] by (simp_all add: y_def skip_length)
  have "y \<noteq> []" using "4.prems" w by (auto simp: Let_def y_def)
  then consider "hd y = 44" "json_elems n (vs @ [w]) (skip_ws (tl y)) = Inr (v, r)" | "hd y \<noteq> 44" "r = tl y"
    using "4.prems" w by (auto simp: Let_def y_def[symmetric] split: if_splits)
  then show ?case
  proof cases
    case 1
    then have "length r < length (skip_ws (tl y))" using "4.IH"(2) w \<open>y \<noteq> []\<close> y_def by blast
    then show ?thesis using y skip_length[of "tl y"] by simp
  next
    case 2
    then show ?thesis using y by simp
  qed
next
  case (6 n kvs s)
  then obtain k x where k: "scan_string (tl s) = Some (k, x)" and s: "\<not> (s = [] \<or> hd s \<noteq> 34)"
    by (auto split: if_splits option.splits)
  define z where "z = skip_ws x"
  have z: "\<not> (z = [] \<or> hd z \<noteq> 58)" using "6.prems" s k by (auto simp: Let_def z_def split: if_splits)
  obtain w x' where w: "json_value n (skip_ws (tl z)) = Inr (w, x')"
    using "6.prems" s k z by (auto simp: Let_def z_def[symmetric] res_simps)
  define y where "y = skip_ws x'"
  have "length x' < length (skip_ws (tl z))" using "6.IH"(1)[OF s k refl z_def z w] .
  then have y: "length y < length s"
    using skip_length[of x'] skip_length[of "tl z"] skip_length[of x] scan_string_length[OF k] by (simp add: y_def z_def)
  have "y \<noteq> []" using "6.prems" s k z w by (auto simp: Let_def z_def[symmetric] y_def)
  then consider "hd y = 44" "json_items n (dict_put kvs k w) (skip_ws (tl y)) = Inr (v, r)" | "hd y \<noteq> 44" "r = tl y"
    using "6.prems" s k z w by (auto simp: Let_def z_def[symmetric] y_def[symmetric] split: if_splits)
  then show ?case
  proof cases
    case 1
    then have "length r < length (skip_ws (tl y))"
      using "6.IH"(2)[OF s k refl z_def z y_def refl \<open>y \<noteq> []\<close>] by blast
    then show ?thesis using y skip_length[of "tl y"] by simp
  next
    case 2
    then show ?thesis using y by simp
  qed
qed simp_all

lemma json_no_runtime_error:
  "2 * length s < n \<Longrightarrow> json_value n s \<noteq> Inl PyRuntimeError"
  "2 * length s + 1 < n \<Longrightarrow> json_elems n vs s \<noteq> Inl PyRuntimeError"
  "2 * length s + 1 < n \<Longrightarrow> json_items n kvs s \<noteq> Inl PyRuntimeError"
proof (induction n s and n vs s and n kvs s rule: json_value_json_elems_json_items.induct)
  case (2 n s)
  show ?case
  proof (cases s)
    case (Cons c x)
    have skip: "length (skip_ws x) \<le> length x" by (rule skip_length)
    then have "json_items n [] (skip_ws x) \<noteq> Inl PyRuntimeError" if "c = 123" "\<not> (skip_ws x \<noteq> [] \<and> hd (skip_ws x) = 125)"
      using "2.IH"(1)[OF Cons _ _ refl] "2.prems" that Cons by simp
    moreover have "json_elems n [] (skip_ws x) \<noteq> Inl PyRuntimeError" if "c = 91" "\<not> (skip_ws x \<noteq> [] \<and> hd (skip_ws x) = 93)"
      using "2.IH"(2)[OF Cons _ _ _ refl] "2.prems" that Cons skip by simp
    ultimately show ?thesis using Cons scan_number_result(2)
      by (auto simp: Let_def split: option.splits)
  qed simp
next
  case (4 n vs s)
  show ?case
  proof
    assume err: "json_elems (Suc n) vs s = Inl PyRuntimeError"
    have "json_value n s \<noteq> Inl PyRuntimeError" using "4.IH"(1) "4.prems" by simp
    then obtain w x where w: "json_value n s = Inr (w, x)" using err by (cases "json_value n s") auto
    define y where "y = skip_ws x"
    have e: "y \<noteq> []" "hd y = 44" "json_elems n (vs @ [w]) (skip_ws (tl y)) = Inl PyRuntimeError"
      using err w by (auto simp: Let_def y_def split: if_splits)
    have "length (skip_ws (tl y)) < length s"
      using json_consumes(1)[OF w] skip_length[of x] skip_length[of "tl y"] by (simp add: y_def)
    then show False using "4.IH"(2)[OF y_def e(1,2)] e(3) "4.prems" by simp
  qed
next
  case (6 n kvs s)
  show ?case
  proof
    assume err: "json_items (Suc n) kvs s = Inl PyRuntimeError"
    then obtain k x where k: "scan_string (tl s) = Some (k, x)" and s: "\<not> (s = [] \<or> hd s \<noteq> 34)"
      by (auto split: if_splits option.splits)
    define z where "z = skip_ws x"
    have z: "\<not> (z = [] \<or> hd z \<noteq> 58)" using err s k by (auto simp: Let_def z_def split: if_splits)
    have lz: "length (skip_ws (tl z)) < length s"
      using skip_length[of "tl z"] skip_length[of x] scan_string_length[OF k] by (simp add: z_def)
    then have "json_value n (skip_ws (tl z)) \<noteq> Inl PyRuntimeError"
      using "6.IH"(1)[OF s k refl z_def z] "6.prems" by simp
    then obtain w x' where w: "json_value n (skip_ws (tl z)) = Inr (w, x')"
      using err s k z by (cases "json_value n (skip_ws (tl z))") (auto simp: Let_def z_def[symmetric])
    define y where "y = skip_ws x'"
    have e: "y \<noteq> []" "hd y = 44" "json_items n (dict_put kvs k w) (skip_ws (tl y)) = Inl PyRuntimeError"
      using err s k z w by (auto simp: Let_def z_def[symmetric] y_def split: if_splits)
    have "length (skip_ws (tl y)) < length s"
      using json_consumes(1)[OF w] skip_length[of x'] skip_length[of "tl y"] lz by (simp add: y_def)
    then show False using "6.IH"(2)[OF s k refl z_def z y_def refl e(1,2)] e(3) "6.prems" by simp
  qed
qed simp_all

lemma json_fuel_enough: "json_value (json_fuel s) s \<noteq> Inl PyRuntimeError"
  by (rule json_no_runtime_error(1)) (simp add: json_fuel_def)

lemma json_loads_canonical:
  assumes "canonicalize v = Inr s" "json_ok v"
  shows "json_loads s = Inr (jcs_norm v)"
proof -
  have s: "s = jcs_text (jcs_norm v)" using assms(1) by (simp add: canonicalize_iff)
  have ok: "jcs_ok (jcs_norm v)" "json_ok (jcs_norm v)"
    using assms(2) json_ok_norm json_ok_jcs_ok by blast+
  have "json_value (json_fuel s) (s @ []) = Inr (jcs_norm v, [])"
    unfolding s by (rule json_value_text[OF ok(2)]) (simp_all add: json_fuel_def)
  moreover obtain c cs where c: "s = c # cs" "head_kind c = value_kind (jcs_norm v)"
    using jcs_text_head[OF ok(1)] s by blast
  then have "c \<noteq> 0xFEFF" using ok(1) by (cases "jcs_norm v") (auto simp: head_kind_def is_num_def split: if_splits)
  moreover have "skip_ws s = s" using skip_text(1)[OF ok(1), of "[]"] s by simp
  ultimately show ?thesis using c by (simp add: json_loads_def skip_ws_def)
qed

section \<open>\<open>json.dumps\<close> of a flat dict\<close>

definition hex4_text :: "nat \<Rightarrow> ustr" where
  "hex4_text c = [hex_digit (c div 4096), hex_digit (c div 256 mod 16), hex_digit (c div 16 mod 16), hex_digit (c mod 16)]"

definition dumps_char :: "nat \<Rightarrow> ustr" where
  "dumps_char c = (case string_escape c of
      Some e \<Rightarrow> e
    | None \<Rightarrow> if 32 \<le> c \<and> c \<le> 126 then [c]
        else if c < 0x10000 then 92 # 117 # hex4_text c
        else let v = c - 0x10000 in
          92 # 117 # hex4_text (0xD800 + v div 0x400) @ 92 # 117 # hex4_text (0xDC00 + v mod 0x400))"

definition dumps_string :: "ustr \<Rightarrow> ustr" where
  "dumps_string s = 34 # concat (map dumps_char s) @ [34]"

text \<open>\<open>json.dumps(d, indent=2, sort_keys=True)\<close> of a non-empty dict of strings.\<close>

definition dumps_indent2 :: "(ustr \<times> ustr) list \<Rightarrow> ustr" where
  "dumps_indent2 kvs =
     123 # join [44] (map (\<lambda>(k, t). [10, 32, 32] @ dumps_string k @ [58, 32] @ dumps_string t) (sort_key fst kvs)) @ [10, 125]"

lemma hex4_hex4_text: "c < 0x10000 \<Longrightarrow> hex4 (hex4_text c @ x) = Some (c, x)"
proof -
  assume "c < 0x10000"
  then have "c div 4096 < 16" by auto
  moreover have "16 * (c div 16) + c mod 16 = c" "16 * (c div 256) + c div 16 mod 16 = c div 16"
    "16 * (c div 4096) + c div 256 mod 16 = c div 256"
    using div_mult_mod_eq[of "c div 16" 16] div_mult_mod_eq[of "c div 256" 16] div_mult2_eq[of c 16 16] div_mult2_eq[of c 256 16]
    by simp_all
  then have "4096 * (c div 4096) + 256 * (c div 256 mod 16) + 16 * (c div 16 mod 16) + c mod 16 = c" by linarith
  ultimately show ?thesis by (simp add: hex4_def hex4_text_def)
qed

lemma scan_dumps_char:
  assumes "scalar_value c"
  shows "scan_string (dumps_char c @ y) = map_option (\<lambda>(t, x). (c # t, x)) (scan_string y)"
proof (cases "string_escape c")
  case (Some e)
  then have "serialize_char c = e" "dumps_char c = e" by (simp_all add: serialize_char_def dumps_char_def)
  then show ?thesis using scan_string_char[of c y] by simp
next
  case None
  then have q: "c \<noteq> 34" "c \<noteq> 92" by (auto simp: string_escape_def)
  consider "32 \<le> c" "c \<le> 126" | "\<not> (32 \<le> c \<and> c \<le> 126)" "c < 0x10000" | "0x10000 \<le> c" by linarith
  then show ?thesis
  proof cases
    case 1
    then show ?thesis using None q by (subst scan_string.simps) (simp add: dumps_char_def)
  next
    case 2
    then have "dumps_char c = 92 # 117 # hex4_text c" using None by (auto simp: dumps_char_def)
    moreover have "\<not> is_high c" using assms by (auto simp: is_high_def scalar_value_def is_surrogate_def)
    ultimately show ?thesis using hex4_hex4_text[OF 2(2), of y]
      by (subst scan_string.simps) (simp add: string_escape_at_def)
  next
    case 3
    define h l where "h = 0xD800 + (c - 0x10000) div 0x400" and "l = 0xDC00 + (c - 0x10000) mod 0x400"
    have b: "(c - 0x10000) div 0x400 < 0x400" using assms by (auto simp: scalar_value_def)
    then have hl: "is_high h" "is_low l" "h < 0x10000" "l < 0x10000"
      by (simp_all add: h_def l_def is_high_def is_low_def less_imp_le_nat)
    have "dumps_char c = 92 # 117 # hex4_text h @ 92 # 117 # hex4_text l"
      using None 3 by (simp add: dumps_char_def h_def l_def Let_def)
    moreover have "low_escape (92 # 117 # hex4_text l @ y) = Some (l, y)"
      using hex4_hex4_text[OF hl(4)] hl(2) by (simp add: low_escape_def)
    moreover have "0x10000 + (h - 0xD800) * 0x400 + (l - 0xDC00) = c"
      using 3 by (simp add: h_def l_def)
    ultimately show ?thesis using hex4_hex4_text[OF hl(3), of "92 # 117 # hex4_text l @ y"] hl(1)
      by (subst scan_string.simps) (simp add: string_escape_at_def)
  qed
qed

lemma scan_dumps_body: "\<forall>c \<in> set s. scalar_value c \<Longrightarrow> scan_string (concat (map dumps_char s) @ 34 # x) = Some (s, x)"
  by (induction s) (simp_all add: scan_dumps_char, simp add: scan_string.simps)

definition indent_item :: "ustr \<times> ustr \<Rightarrow> ustr" where
  "indent_item kt = dumps_string (fst kt) @ [58, 32] @ dumps_string (snd kt)"

definition indent_body :: "(ustr \<times> ustr) list \<Rightarrow> ustr" where
  "indent_body kts = join [44] (map (\<lambda>kt. [10, 32, 32] @ indent_item kt) kts)"

definition plain_items :: "(ustr \<times> ustr) list \<Rightarrow> bool" where
  "plain_items kts \<longleftrightarrow> distinct (map fst kts) \<and> (\<forall>kt \<in> set kts. (\<forall>c \<in> set (fst kt) \<union> set (snd kt). scalar_value c))"

lemma skip_indent: "skip_ws ([10, 32, 32] @ indent_item kt @ y) = indent_item kt @ y"
  by (simp add: skip_ws_def is_ws_def indent_item_def dumps_string_def)

lemma json_items_indent:
  assumes "length kts < n" "kts \<noteq> []" "distinct (map fst acc @ map fst kts)"
    "\<forall>kt \<in> set kts. \<forall>c \<in> set (fst kt) \<union> set (snd kt). scalar_value c"
  shows "json_items n acc (skip_ws (indent_body kts @ [10, 125]))
    = Inr (PyDict (acc @ map (\<lambda>kt. (fst kt, PyStr (snd kt))) kts), [])"
  using assms
proof (induction kts arbitrary: n acc)
  case (Cons kt kts)
  obtain k t where kt: "kt = (k, t)" by (cases kt)
  obtain m where n: "n = Suc (Suc m)" using Cons.prems(1) by (cases n; cases "n - 1") auto
  have put: "dict_put acc k v = acc @ [(k, v)]" for v using Cons.prems(3) kt by (intro dict_put_fresh) auto
  define y where "y = (if kts = [] then [] else 44 # indent_body kts) @ [10, 125]"
  have "indent_body (kt # kts) @ [10, 125] = [10, 32, 32] @ indent_item kt @ y"
    by (simp add: indent_body_def join_Cons y_def)
  then have begin_text: "skip_ws (indent_body (kt # kts) @ [10, 125]) = indent_item kt @ y" by (simp only: skip_indent)
  have k: "scan_string (concat (map dumps_char k) @ 34 # x) = Some (k, x)"
    and t: "scan_string (concat (map dumps_char t) @ 34 # x) = Some (t, x)" for x
    using Cons.prems(4) kt by (auto intro!: scan_dumps_body)
  have item: "indent_item kt @ y = 34 # concat (map dumps_char k) @ 34 # 58 # 32 # 34 # concat (map dumps_char t) @ 34 # y"
    using kt by (simp add: indent_item_def dumps_string_def)
  have ws: "skip_ws (32 # 34 # x) = 34 # x" for x by (simp add: skip_ws_def is_ws_def)
  show ?case
  proof (cases "kts = []")
    case True
    then have "skip_ws y = [125]" by (simp add: y_def skip_ws_def is_ws_def)
    with True show ?thesis unfolding begin_text item n by (simp add: k t ws put kt)
  next
    case False
    then have "skip_ws y = 44 # indent_body kts @ [10, 125]" by (simp add: y_def)
    moreover have "json_items (Suc m) (acc @ [(k, PyStr t)]) (skip_ws (indent_body kts @ [10, 125]))
        = Inr (PyDict ((acc @ [(k, PyStr t)]) @ map (\<lambda>kt. (fst kt, PyStr (snd kt))) kts), [])"
      using Cons.prems n False kt by (intro Cons.IH) auto
    ultimately show ?thesis unfolding begin_text item n by (simp add: k t ws put kt)
  qed
qed simp

lemma json_loads_indent:
  assumes "kts \<noteq> []" "plain_items kts"
  shows "json_loads (dumps_indent2 kts) = Inr (PyDict (map (\<lambda>kt. (fst kt, PyStr (snd kt))) (sort_key fst kts)))"
proof -
  let ?k = "sort_key fst kts"
  have shape: "dumps_indent2 kts = 123 # indent_body ?k @ [10, 125]"
    by (simp add: dumps_indent2_def indent_body_def indent_item_def case_prod_unfold)
  have len: "length ks \<le> length (indent_body ks)" for ks by (induction ks) (auto simp: indent_body_def join_Cons)
  have ne: "?k \<noteq> []" using assms(1) by (metis length_0_conv length_sort)
  then obtain kt ks where k: "?k = kt # ks" by (cases ?k) auto
  have begin_text: "skip_ws (indent_body ?k @ [10, 125]) = indent_item kt @ (if ks = [] then [] else 44 # indent_body ks) @ [10, 125]"
    unfolding k using skip_indent[of kt] by (simp add: indent_body_def join_Cons)
  obtain m where m: "json_fuel (dumps_indent2 kts) = Suc m" "length ?k < m"
    using len[of ?k] by (simp add: json_fuel_def shape)
  have items: "json_items m [] (skip_ws (indent_body ?k @ [10, 125]))
      = Inr (PyDict ([] @ map (\<lambda>kt. (fst kt, PyStr (snd kt))) ?k), [])"
    using assms ne m(2) by (intro json_items_indent) (auto simp: plain_items_def distinct_map)
  have skip: "skip_ws (dumps_indent2 kts) = dumps_indent2 kts" by (simp add: shape skip_ws_def is_ws_def)
  have not_empty: "hd (skip_ws (indent_body ?k @ [10, 125])) \<noteq> 125"
    unfolding begin_text by (simp add: indent_item_def dumps_string_def)
  have "json_value (Suc m) (dumps_indent2 kts) = Inr (PyDict (map (\<lambda>kt. (fst kt, PyStr (snd kt))) ?k), [])"
    using items not_empty by (simp add: shape Let_def)
  moreover have "skip_ws [] = []" by (simp add: skip_ws_def)
  moreover have "hd (dumps_indent2 kts) \<noteq> 0xFEFF" by (simp add: shape)
  ultimately show ?thesis unfolding json_loads_def Let_def skip m(1) by simp
qed

section \<open>Round trip\<close>

text \<open>A value that was serialized canonically is read back by \<open>json.loads\<close>, with its dict items in
  key order: Python's dicts have distinct keys, and the digit limit of \<open>int()\<close> is the one of \<open>str\<close>.\<close>

theorem canonical_text_loads:
  assumes "canonicalize v = Inr s" "json_ok v"
  shows "json_loads s = Inr (jcs_norm v)"
  using assms by (rule json_loads_canonical)

theorem canonical_text_loads_witness:
  "json_loads (cps ''['' @ [34, 97, 92, 110, 34] @ cps '',-7]'') = Inr (PyList [PyStr [97, 10], PyInt (- 7)])"
proof -
  have "canonicalize (PyList [PyStr [97, 10], PyInt (- 7)]) = Inr (cps ''['' @ [34, 97, 92, 110, 34] @ cps '',-7]'')"
    by code_simp
  moreover have "json_ok (PyList [PyStr [97, 10], PyInt (- 7)])" by code_simp
  ultimately show ?thesis using canonical_text_loads by fastforce
qed

end
