(* ===== verification/File_System.thy ===== *)
theory File_System
  imports Json_Reader
begin

text \<open>
  The file operations the publication code uses, as functions on a file system that also return
  the states they pass through. A path is the list of its components from the root; a write
  passes through every prefix of its data, a rename, a link and a removal are one step, so the
  list of states holds every state a process killed in the middle can leave behind. \<open>os.fsync\<close>
  changes nothing that another process can see and is left out: the loss of unsynced data in a
  power failure is not modelled, nor are symbolic links, permissions and full disks.
\<close>

section \<open>Paths\<close>

type_synonym path = "ustr list"

datatype node = File bytes | Dir

type_synonym fs = "path \<Rightarrow> node option"

definition dot :: ustr where "dot = [46]"
definition dotdot :: ustr where "dotdot = [46, 46]"

text \<open>A file name that is neither empty nor special.\<close>

definition plain_name :: "ustr \<Rightarrow> bool" where
  "plain_name n \<longleftrightarrow> n \<noteq> [] \<and> n \<noteq> dot \<and> n \<noteq> dotdot \<and> 47 \<notin> set n"

fun split_slash :: "ustr \<Rightarrow> ustr list" where
  "split_slash [] = [[]]"
| "split_slash (c # s) = (if c = 47 then [] # split_slash s
     else case split_slash s of [] \<Rightarrow> [[c]] | w # ws \<Rightarrow> (c # w) # ws)"

definition components :: "ustr \<Rightarrow> ustr list" where
  "components s = filter (\<lambda>c. c \<noteq> [] \<and> c \<noteq> dot) (split_slash s)"

text \<open>\<open>path / text\<close> of pathlib: an absolute right operand replaces the path.\<close>

definition join_path :: "path \<Rightarrow> ustr \<Rightarrow> path" where
  "join_path p s = (if s \<noteq> [] \<and> hd s = 47 then components s else p @ components s)"

text \<open>Where a path leads: every component but the last is an existing directory.\<close>

fun locate :: "fs \<Rightarrow> path \<Rightarrow> ustr list \<Rightarrow> path option" where
  "locate f cur [] = Some cur"
| "locate f cur (c # cs) =
     (if f cur \<noteq> Some Dir then None
      else if c = dotdot then locate f (butlast cur) cs else locate f (cur @ [c]) cs)"

definition node_at :: "fs \<Rightarrow> path \<Rightarrow> node option" where
  "node_at f p = (case locate f [] p of None \<Rightarrow> None | Some q \<Rightarrow> f q)"

definition path_exists :: "fs \<Rightarrow> path \<Rightarrow> bool" where
  "path_exists f p \<longleftrightarrow> node_at f p \<noteq> None"

definition is_dir :: "fs \<Rightarrow> path \<Rightarrow> bool" where
  "is_dir f p \<longleftrightarrow> node_at f p = Some Dir"

definition read_bytes :: "path \<Rightarrow> fs \<Rightarrow> bytes res" where
  "read_bytes p f = (case node_at f p of Some (File b) \<Rightarrow> Inr b | _ \<Rightarrow> Inl PyOSError)"

text \<open>Universal newlines of \<open>read_text\<close>.\<close>

fun newlines :: "ustr \<Rightarrow> ustr" where
  "newlines (c # d # s) = (if c = 13 then 10 # newlines (if d = 10 then s else d # s) else c # newlines (d # s))"
| "newlines [c] = [if c = 13 then 10 else c]"
| "newlines [] = []"

definition read_text :: "path \<Rightarrow> fs \<Rightarrow> ustr res" where
  "read_text p f = bindE (read_bytes p f) (\<lambda>b. bindE (utf8_decode b) (\<lambda>s. Inr (newlines s)))"

section \<open>Operations and the states they pass through\<close>

type_synonym 'a io = "fs \<Rightarrow> 'a res \<times> fs list"

definition end_state :: "fs \<Rightarrow> fs list \<Rightarrow> fs" where
  "end_state f t = last (f # t)"

definition returnIO :: "'a \<Rightarrow> 'a io" where "returnIO x f = (Inr x, [])"
definition raiseIO :: "err \<Rightarrow> 'a io" where "raiseIO e f = (Inl e, [])"

text \<open>An observation changes nothing.\<close>

definition lookIO :: "(fs \<Rightarrow> 'a res) \<Rightarrow> 'a io" where "lookIO g f = (g f, [])"

definition bindIO :: "'a io \<Rightarrow> ('a \<Rightarrow> 'b io) \<Rightarrow> 'b io" where
  "bindIO m k f = (case m f of
     (Inl e, t) \<Rightarrow> (Inl e, t)
   | (Inr x, t) \<Rightarrow> (case k x (end_state f t) of (r, t') \<Rightarrow> (r, t @ t')))"

text \<open>\<open>try: m finally: h\<close>; an exception of \<open>h\<close> replaces the outcome.\<close>

definition finallyIO :: "'a io \<Rightarrow> unit io \<Rightarrow> 'a io" where
  "finallyIO m h f = (case m f of (r, t) \<Rightarrow> (case h (end_state f t) of
     (Inl e, t') \<Rightarrow> (Inl e, t @ t') | (Inr _, t') \<Rightarrow> (r, t @ t')))"

text \<open>\<open>try: m except ...: h e\<close> for the exceptions that \<open>p\<close> selects.\<close>

definition catchIO :: "'a io \<Rightarrow> (err \<Rightarrow> bool) \<Rightarrow> (err \<Rightarrow> 'a io) \<Rightarrow> 'a io" where
  "catchIO m p h f = (case m f of
     (Inl e, t) \<Rightarrow> if p e then (case h e (end_state f t) of (r, t') \<Rightarrow> (r, t @ t')) else (Inl e, t)
   | (Inr x, t) \<Rightarrow> (Inr x, t))"

primrec eachIO :: "('a \<Rightarrow> unit io) \<Rightarrow> 'a list \<Rightarrow> unit io" where
  "eachIO m [] = returnIO ()"
| "eachIO m (x # xs) = bindIO (m x) (\<lambda>_. eachIO m xs)"

section \<open>System calls\<close>

definition write_file :: "path \<Rightarrow> bytes \<Rightarrow> unit io" where
  "write_file p b f = (case locate f [] p of
     None \<Rightarrow> (Inl PyOSError, [])
   | Some q \<Rightarrow> if f q = Some Dir then (Inl PyOSError, [])
       else (Inr (), map (\<lambda>k. f(q \<mapsto> File (take k b))) [0..<Suc (length b)]))"

definition make_dir :: "path \<Rightarrow> unit io" where
  "make_dir p f = (case locate f [] p of
     None \<Rightarrow> (Inl PyOSError, [])
   | Some q \<Rightarrow> (case f q of
         None \<Rightarrow> (Inr (), [f(q \<mapsto> Dir)])
       | Some Dir \<Rightarrow> (Inr (), [])
       | Some (File _) \<Rightarrow> (Inl PyOSError, [])))"

text \<open>\<open>Path.mkdir(parents=True, exist_ok=True)\<close>: the missing directories, outermost first.\<close>

definition make_dirs :: "path \<Rightarrow> unit io" where
  "make_dirs p = eachIO make_dir (map (\<lambda>k. take k p) [1..<Suc (length p)])"

text \<open>\<open>NamedTemporaryFile(delete=False)\<close>: the first free name of the random sequence.\<close>

definition create_temp :: "path \<Rightarrow> (ustr \<Rightarrow> ustr) \<Rightarrow> ustr list \<Rightarrow> path io" where
  "create_temp d name rnd f =
     (if \<not> is_dir f d then (Inl PyOSError, [])
      else case filter (\<lambda>r. \<not> path_exists f (join_path d (name r))) rnd of
          [] \<Rightarrow> (Inl PyOSError, [])
        | r # _ \<Rightarrow> (case locate f [] (join_path d (name r)) of
              None \<Rightarrow> (Inl PyOSError, [])
            | Some q \<Rightarrow> (Inr (join_path d (name r)), [f(q \<mapsto> File [])])))"

text \<open>\<open>os.link\<close>: \<open>False\<close> stands for \<open>FileExistsError\<close>.\<close>

definition link_file :: "path \<Rightarrow> path \<Rightarrow> bool io" where
  "link_file src dst f = (case (node_at f src, locate f [] dst) of
     (Some (File b), Some q) \<Rightarrow> (case f q of
         None \<Rightarrow> (Inr True, [f(q \<mapsto> File b)])
       | Some _ \<Rightarrow> (Inr False, []))
   | _ \<Rightarrow> (Inl PyOSError, []))"

definition unlink :: "path \<Rightarrow> unit io" where
  "unlink p f = (case locate f [] p of
     None \<Rightarrow> (Inr (), [])
   | Some q \<Rightarrow> (case f q of
         None \<Rightarrow> (Inr (), [])
       | Some Dir \<Rightarrow> (Inl PyOSError, [])
       | Some (File _) \<Rightarrow> (Inr (), [f(q := None)])))"

definition under :: "path \<Rightarrow> path \<Rightarrow> bool" where
  "under d q \<longleftrightarrow> take (length d) q = d"

definition move :: "fs \<Rightarrow> path \<Rightarrow> path \<Rightarrow> fs" where
  "move f s d q = (if under d q then f (s @ drop (length d) q) else if under s q then None else f q)"

text \<open>\<open>os.rename\<close> of a directory onto a path that does not exist; the callers check that first.\<close>

definition rename_dir :: "path \<Rightarrow> path \<Rightarrow> unit io" where
  "rename_dir src dst f = (case (locate f [] src, locate f [] dst) of
     (Some s, Some d) \<Rightarrow>
       if f s = Some Dir \<and> f d = None \<and> f (butlast d) = Some Dir \<and> \<not> under s d then (Inr (), [move f s d])
       else (Inl PyOSError, [])
   | _ \<Rightarrow> (Inl PyOSError, []))"

text \<open>\<open>os.replace\<close> of a file.\<close>

definition replace_file :: "path \<Rightarrow> path \<Rightarrow> unit io" where
  "replace_file src dst f = (case (locate f [] src, locate f [] dst) of
     (Some s, Some d) \<Rightarrow> (case f s of
         Some (File b) \<Rightarrow> if f d = Some Dir then (Inl PyOSError, []) else (Inr (), [(f(s := None))(d \<mapsto> File b)])
       | _ \<Rightarrow> (Inl PyOSError, []))
   | _ \<Rightarrow> (Inl PyOSError, []))"

section \<open>Trees\<close>

text \<open>A file system is a tree: every entry lies in a directory and has a proper name.\<close>

definition tree_ok :: "fs \<Rightarrow> bool" where
  "tree_ok f \<longleftrightarrow> f [] = Some Dir \<and> (\<forall>p n. f (p @ [n]) \<noteq> None \<longrightarrow> f p = Some Dir)
     \<and> (\<forall>p. f p \<noteq> None \<longrightarrow> list_all plain_name p)"

definition path_ok :: "path \<Rightarrow> bool" where
  "path_ok p \<longleftrightarrow> list_all (\<lambda>c. plain_name c \<or> c = dotdot) p"

definition plain_path :: "path \<Rightarrow> bool" where
  "plain_path p \<longleftrightarrow> list_all plain_name p"

named_theorems path_simps

lemma plain_path_simps [path_simps]:
  "plain_path []" "plain_path (c # p) \<longleftrightarrow> plain_name c \<and> plain_path p"
  "plain_path (p @ q) \<longleftrightarrow> plain_path p \<and> plain_path q"
  by (auto simp: plain_path_def)

lemma path_ok_simps [path_simps]:
  "path_ok []" "path_ok (c # p) \<longleftrightarrow> (plain_name c \<or> c = dotdot) \<and> path_ok p"
  "path_ok (p @ q) \<longleftrightarrow> path_ok p \<and> path_ok q"
  by (auto simp: path_ok_def)

lemma plain_path_ok: "plain_path p \<Longrightarrow> path_ok p"
  by (auto simp: plain_path_def path_ok_def list_all_iff)

lemma plain_not_dotdot: "plain_name c \<Longrightarrow> c \<noteq> dotdot"
  by (simp add: plain_name_def)

lemma plain_path_take: "plain_path p \<Longrightarrow> plain_path (take k p)"
  by (auto simp: plain_path_def list_all_iff dest: in_set_takeD)

lemma split_slash_not_Nil [simp]: "split_slash s \<noteq> []"
  by (induction s) (auto split: list.splits)

lemma split_slash_parts: "w \<in> set (split_slash s) \<Longrightarrow> 47 \<notin> set w"
  by (induction s arbitrary: w) (force split: list.splits if_splits)+

lemma components_ok: "path_ok (components s)"
  using split_slash_parts by (auto simp: path_ok_def components_def list_all_iff plain_name_def)

lemma split_slash_plain: "47 \<notin> set s \<Longrightarrow> split_slash s = [s]"
  by (induction s) auto

lemma join_path_plain [path_simps]: "plain_name s \<Longrightarrow> join_path p s = p @ [s]"
  by (cases s) (auto simp: join_path_def components_def split_slash_plain plain_name_def)

lemma join_path_ok: "path_ok p \<Longrightarrow> path_ok (join_path p s)"
  by (simp add: join_path_def components_ok path_simps)

text \<open>Lookups along plain paths.\<close>

lemma locate_plain: "plain_path p \<Longrightarrow> locate f cur p = Some q \<Longrightarrow> q = cur @ p"
  by (induction f cur p rule: locate.induct) (auto simp: path_simps plain_not_dotdot split: if_splits)

lemma tree_parent: "tree_ok f \<Longrightarrow> f (p @ q) \<noteq> None \<Longrightarrow> q \<noteq> [] \<Longrightarrow> f p = Some Dir"
proof (induction q rule: rev_induct)
  case (snoc n q)
  then have "f (p @ q) = Some Dir" by (auto simp: tree_ok_def simp flip: append_assoc)
  with snoc show ?case by (cases "q = []") auto
qed simp

lemma locate_present: "tree_ok f \<Longrightarrow> plain_path p \<Longrightarrow> f (cur @ p) \<noteq> None \<Longrightarrow> locate f cur p = Some (cur @ p)"
proof (induction f cur p rule: locate.induct)
  case (2 f cur c cs)
  then have "f cur = Some Dir" using tree_parent[of f cur "c # cs"] by simp
  with 2 show ?case by (auto simp: path_simps plain_not_dotdot)
qed simp

lemma node_at_plain [path_simps]: "tree_ok f \<Longrightarrow> plain_path p \<Longrightarrow> node_at f p = f p"
  using locate_plain[of p f "[]"] locate_present[of f p "[]"]
  by (cases "f p") (auto simp: node_at_def split: option.splits)

lemma locate_in_dir: "tree_ok f \<Longrightarrow> plain_path (p @ [n]) \<Longrightarrow> f p = Some Dir \<Longrightarrow> locate f [] (p @ [n]) = Some (p @ [n])"
proof -
  have app: "locate f cur (p @ [n]) = Some (cur @ p @ [n])"
    if "tree_ok f" "plain_path (p @ [n])" "f (cur @ p) = Some Dir" for cur
    using that
  proof (induction p arbitrary: cur)
    case Nil
    then show ?case by (simp add: path_simps plain_not_dotdot)
  next
    case (Cons c p)
    then have "f cur = Some Dir" using tree_parent[of f cur "c # p"] by simp
    with Cons show ?case by (auto simp: path_simps plain_not_dotdot)
  qed
  then show "tree_ok f \<Longrightarrow> plain_path (p @ [n]) \<Longrightarrow> f p = Some Dir \<Longrightarrow> locate f [] (p @ [n]) = Some (p @ [n])"
    using app[of "[]"] by simp
qed

lemma locate_parent:
  assumes "tree_ok f" "path_ok p" "locate f cur p = Some q" "f cur = Some Dir \<or> cur = [] \<or> f (butlast cur) = Some Dir"
    "list_all plain_name cur"
  shows "(q = [] \<or> f (butlast q) = Some Dir) \<and> list_all plain_name q"
  using assms
proof (induction f cur p rule: locate.induct)
  case (1 f cur)
  then show ?case using tree_parent[of f "butlast cur" "[last cur]"] by (cases "cur = []") auto
next
  case (2 f cur c cs)
  then have cur: "f cur = Some Dir" by (auto split: if_splits)
  show ?case
  proof (cases "c = dotdot")
    case True
    have "f (butlast cur) = Some Dir"
      using cur 2(3) tree_parent[of f "butlast cur" "[last cur]"] by (cases "cur = []") auto
    moreover have "list_all plain_name (butlast cur)" using "2.prems"(5) by (auto simp: list_all_iff dest: in_set_butlastD)
    ultimately show ?thesis using "2.IH"(1) "2.prems" cur True by (auto simp: path_simps)
  next
    case False
    then show ?thesis using "2.IH"(2) "2.prems" cur by (auto simp: path_simps)
  qed
qed

lemma located:
  assumes "tree_ok f" "path_ok p" "locate f [] p = Some q"
  shows "q = [] \<or> f (butlast q) = Some Dir" "list_all plain_name q"
  using locate_parent[OF assms] assms(1) by (auto simp: tree_ok_def)

lemma tree_no_child: "tree_ok f \<Longrightarrow> f q \<noteq> Some Dir \<Longrightarrow> f (q @ [n]) = None"
  unfolding tree_ok_def by blast

lemma tree_ok_leaf:
  assumes f: "tree_ok f" "path_ok p" "locate f [] p = Some q" "f q \<noteq> Some Dir"
  shows "tree_ok (f(q \<mapsto> x))"
proof -
  have root: "f [] = Some Dir" using f(1) by (simp add: tree_ok_def)
  then have q: "q \<noteq> []" "f (butlast q) = Some Dir" "list_all plain_name q" using located[OF f(1-3)] f(4) by auto
  have "(f(q \<mapsto> x)) p' = Some Dir" if "(f(q \<mapsto> x)) (p' @ [n]) \<noteq> None" for p' n
  proof (cases "p' @ [n] = q")
    case True
    then have "p' = butlast q" by auto
    moreover have "butlast q \<noteq> q" using q(1) by (metis append_butlast_last_id not_Cons_self2 self_append_conv)
    ultimately show ?thesis using q by simp
  next
    case False
    then have "f (p' @ [n]) \<noteq> None" using that by simp
    then have "f p' = Some Dir" using f(1) unfolding tree_ok_def by blast
    moreover have "p' \<noteq> q" using tree_no_child[OF f(1,4), of n] \<open>f (p' @ [n]) \<noteq> None\<close> by auto
    ultimately show ?thesis by simp
  qed
  moreover have "list_all plain_name p'" if "(f(q \<mapsto> x)) p' \<noteq> None" for p'
    using that q(3) f(1) by (auto simp: tree_ok_def split: if_splits)
  ultimately show ?thesis using root q(1) by (simp add: tree_ok_def)
qed

lemma tree_ok_remove:
  assumes f: "tree_ok f" "f q = Some (File b)"
  shows "tree_ok (f(q := None))"
proof -
  have "f [] = Some Dir" using f(1) by (simp add: tree_ok_def)
  then have "q \<noteq> []" using f(2) by auto
  moreover have "f (q @ [n]) = None" for n using tree_no_child[of f q n] f by simp
  moreover have "p \<noteq> q" if "f (p @ [n]) \<noteq> None" for p n using tree_no_child[of f q n] that f by auto
  ultimately show ?thesis using f(1) by (simp add: tree_ok_def) blast
qed

lemma under_append [simp]: "under d (d @ q)"
  by (simp add: under_def)

lemma underE: "under d q \<Longrightarrow> (\<And>r. q = d @ r \<Longrightarrow> thesis) \<Longrightarrow> thesis"
  by (metis append_take_drop_id under_def)

lemma under_snoc: "under d (p @ [n]) \<longleftrightarrow> d = p @ [n] \<or> under d p"
proof (cases "length d \<le> length p")
  case True
  then show ?thesis by (auto simp: under_def)
next
  case False
  then show ?thesis by (auto simp: under_def)
qed

lemma under_trans: "under a b \<Longrightarrow> under b c \<Longrightarrow> under a c"
  by (elim underE) simp

lemma tree_ok_move:
  assumes f: "tree_ok f" "f s = Some Dir" "f d = None" "f (butlast d) = Some Dir" "\<not> under s d" "list_all plain_name d"
  shows "tree_ok (move f s d)"
proof -
  have nil: "f [] = Some Dir" using f(1) by (simp add: tree_ok_def)
  then have "\<not> under d []" "\<not> under s []" using f(3,5) by (auto simp: under_def)
  then have "move f s d [] = Some Dir" using nil by (simp add: move_def)
  moreover have "move f s d p = Some Dir" if child: "move f s d (p @ [n]) \<noteq> None" for p n
  proof (cases "under d (p @ [n])")
    case True
    show ?thesis
    proof (cases "under d p")
      case in_d: True
      then obtain r where r: "p = d @ r" by (rule underE)
      then have "f (s @ r @ [n]) \<noteq> None" using child by (simp add: move_def)
      then have "f (s @ r) = Some Dir" using tree_parent[OF f(1), of "s @ r" "[n]"] by simp
      with r show ?thesis by (simp add: move_def)
    next
      case False
      then have d: "d = p @ [n]" using True by (simp add: under_snoc)
      then have "\<not> under s p" using f(5) by (simp add: under_snoc)
      with False show ?thesis using f(4) d by (simp add: move_def)
    qed
  next
    case False
    then have "\<not> under s (p @ [n])" "f (p @ [n]) \<noteq> None" using child by (auto simp: move_def split: if_splits)
    then have "f p = Some Dir" "\<not> under s p" "\<not> under d p"
      using tree_parent[OF f(1), of p "[n]"] False by (auto simp: under_snoc)
    then show ?thesis by (simp add: move_def)
  qed
  moreover have "list_all plain_name p" if "move f s d p \<noteq> None" for p
  proof (cases "under d p")
    case True
    then obtain r where r: "p = d @ r" by (rule underE)
    then have "f (s @ r) \<noteq> None" using that by (simp add: move_def)
    then have "list_all plain_name (s @ r)" using f(1) unfolding tree_ok_def by blast
    with r f(6) show ?thesis by simp
  next
    case False
    then show ?thesis using that f(1) by (auto simp: move_def tree_ok_def split: if_splits)
  qed
  ultimately show ?thesis by (simp add: tree_ok_def)
qed

section \<open>Reasoning about all the states of an operation\<close>

text \<open>From a state with \<open>I\<close> and \<open>P\<close> every state passed through keeps \<open>I\<close>, and a result \<open>x\<close>
  comes with a final state in \<open>Q x\<close>.\<close>

definition triple :: "(fs \<Rightarrow> bool) \<Rightarrow> (fs \<Rightarrow> bool) \<Rightarrow> 'a io \<Rightarrow> ('a \<Rightarrow> fs \<Rightarrow> bool) \<Rightarrow> bool" where
  "triple I P m Q \<longleftrightarrow> (\<forall>f. I f \<and> P f \<longrightarrow>
     (\<forall>g \<in> set (snd (m f)). I g) \<and> (\<forall>x. fst (m f) = Inr x \<longrightarrow> Q x (end_state f (snd (m f)))))"

lemma end_state_simps [simp]:
  "end_state f [] = f" "end_state f (t @ u) = end_state (end_state f t) u" "end_state f (g # t) = end_state g t"
  by (simp_all add: end_state_def last_append)

lemma end_state_mem: "end_state f t = f \<or> end_state f t \<in> set t"
  by (cases t rule: rev_cases) (auto simp: end_state_def)

lemma end_state_inv: "I f \<Longrightarrow> \<forall>g \<in> set t. I g \<Longrightarrow> I (end_state f t)"
  using end_state_mem[of f t] by auto

lemma tripleI:
  "(\<And>f. I f \<Longrightarrow> P f \<Longrightarrow> (\<forall>g \<in> set (snd (m f)). I g) \<and> (\<forall>x. fst (m f) = Inr x \<longrightarrow> Q x (end_state f (snd (m f))))) \<Longrightarrow> triple I P m Q"
  unfolding triple_def by blast

lemma tripleD: "triple I P m Q \<Longrightarrow> I f \<Longrightarrow> P f \<Longrightarrow> m f = (r, t) \<Longrightarrow> (\<forall>g \<in> set t. I g) \<and> (\<forall>x. r = Inr x \<longrightarrow> Q x (end_state f t))"
  unfolding triple_def by (metis fst_conv snd_conv)

lemma triple_weaken:
  "triple I P m Q \<Longrightarrow> (\<And>f. I f \<Longrightarrow> P' f \<Longrightarrow> P f) \<Longrightarrow> (\<And>x f. I f \<Longrightarrow> Q x f \<Longrightarrow> Q' x f) \<Longrightarrow> triple I P' m Q'"
  unfolding triple_def using end_state_inv by (metis (no_types, lifting))

lemma bindIO_pure: "bindIO (lookIO (\<lambda>_. Inr x)) k = k x"
  by (rule ext) (simp add: bindIO_def lookIO_def)

lemma triple_return: "(\<And>f. I f \<Longrightarrow> P f \<Longrightarrow> Q x f) \<Longrightarrow> triple I P (returnIO x) Q"
  by (simp add: triple_def returnIO_def)

lemma triple_raise: "triple I P (raiseIO e) Q"
  by (simp add: triple_def raiseIO_def)

lemma triple_look: "(\<And>f x. I f \<Longrightarrow> P f \<Longrightarrow> g f = Inr x \<Longrightarrow> Q x f) \<Longrightarrow> triple I P (lookIO g) Q"
  by (simp add: triple_def lookIO_def)

lemma triple_bind:
  assumes "triple I P m Q" "\<And>x. triple I (Q x) (k x) R"
  shows "triple I P (bindIO m k) R"
proof (rule tripleI)
  fix f assume f: "I f" "P f"
  obtain r t where m: "m f = (r, t)" by fastforce
  note first = tripleD[OF assms(1) f m]
  show "(\<forall>g \<in> set (snd (bindIO m k f)). I g)
      \<and> (\<forall>x. fst (bindIO m k f) = Inr x \<longrightarrow> R x (end_state f (snd (bindIO m k f))))"
  proof (cases r)
    case (Inl e)
    with m first show ?thesis by (simp add: bindIO_def)
  next
    case (Inr x)
    obtain r' t' where k: "k x (end_state f t) = (r', t')" by fastforce
    have "I (end_state f t)" "Q x (end_state f t)" using first Inr end_state_inv[of I, OF f(1)] by auto
    from tripleD[OF assms(2) this k] m Inr k first show ?thesis by (auto simp: bindIO_def)
  qed
qed

lemma triple_finally:
  assumes "triple I P m Q" "\<And>x. triple I (Q x) h (\<lambda>_. R x)" "triple I (\<lambda>_. True) h (\<lambda>_ _. True)"
  shows "triple I P (finallyIO m h) R"
proof (rule tripleI)
  fix f assume f: "I f" "P f"
  obtain r t where m: "m f = (r, t)" by fastforce
  note first = tripleD[OF assms(1) f m]
  obtain r' t' where h: "h (end_state f t) = (r', t')" by fastforce
  have I: "I (end_state f t)" using first end_state_inv[of I, OF f(1)] by auto
  have "\<forall>g \<in> set t'. I g" using tripleD[OF assms(3) I TrueI h] by simp
  moreover have "R x (end_state f (t @ t'))" if "r = Inr x" "r' = Inr u" for x u
    using tripleD[OF assms(2)[of x] I _ h] first that by simp
  ultimately show "(\<forall>g \<in> set (snd (finallyIO m h f)). I g)
      \<and> (\<forall>x. fst (finallyIO m h f) = Inr x \<longrightarrow> R x (end_state f (snd (finallyIO m h f))))"
    using m h first by (cases r'; cases r) (auto simp: finallyIO_def)
qed

lemma triple_catch:
  assumes "triple I P m Q" "\<And>e. triple I (\<lambda>_. True) (h e) Q"
  shows "triple I P (catchIO m p h) Q"
proof (rule tripleI)
  fix f assume f: "I f" "P f"
  obtain r t where m: "m f = (r, t)" by fastforce
  note first = tripleD[OF assms(1) f m]
  show "(\<forall>g \<in> set (snd (catchIO m p h f)). I g)
      \<and> (\<forall>x. fst (catchIO m p h f) = Inr x \<longrightarrow> Q x (end_state f (snd (catchIO m p h f))))"
  proof (cases r)
    case (Inl e)
    obtain r' t' where h: "h e (end_state f t) = (r', t')" by fastforce
    have I: "I (end_state f t)" using first end_state_inv[of I, OF f(1)] by auto
    from tripleD[OF assms(2) I TrueI h] m Inl h first show ?thesis by (auto simp: catchIO_def)
  next
    case (Inr x)
    with m first show ?thesis by (simp add: catchIO_def)
  qed
qed

lemma triple_pure: "(\<And>f. P f \<Longrightarrow> A) \<Longrightarrow> (A \<Longrightarrow> triple I P m Q) \<Longrightarrow> triple I P m Q"
  unfolding triple_def by blast

lemma triple_each:
  assumes "\<And>x. x \<in> set xs \<Longrightarrow> triple I P (m x) (\<lambda>_. P)"
  shows "triple I P (eachIO m xs) (\<lambda>_. P)"
  using assms by (induction xs) (auto intro!: triple_return triple_bind)

section \<open>Frames\<close>

text \<open>Since \<open>f0\<close>, nothing outside \<open>S\<close> changed, except that directories may have been created.\<close>

definition frame :: "(path \<Rightarrow> bool) \<Rightarrow> fs \<Rightarrow> fs \<Rightarrow> bool" where
  "frame S f0 g \<longleftrightarrow> tree_ok g \<and>
     (\<forall>p. \<not> S p \<longrightarrow> (if f0 p = None then g p = None \<or> g p = Some Dir else g p = f0 p))"

lemma frame_refl: "tree_ok f \<Longrightarrow> frame S f f"
  by (simp add: frame_def)

lemma frame_tree: "frame S f0 g \<Longrightarrow> tree_ok g"
  by (simp add: frame_def)

lemma frame_keeps: "frame S f0 g \<Longrightarrow> \<not> S p \<Longrightarrow> f0 p \<noteq> None \<Longrightarrow> g p = f0 p"
  by (auto simp: frame_def)

lemma frame_fresh: "frame S f0 g \<Longrightarrow> \<not> S p \<Longrightarrow> f0 p = None \<Longrightarrow> g p = None \<or> g p = Some Dir"
  by (auto simp: frame_def)

lemma frame_cases: "frame S f0 g \<Longrightarrow> \<not> S p \<Longrightarrow> g p = f0 p \<or> f0 p = None \<and> g p = Some Dir"
  by (cases "f0 p") (auto simp: frame_def)

lemma frame_leaf:
  assumes "frame S f0 f" "path_ok p" "locate f [] p = Some q" "f q \<noteq> Some Dir" "S q \<or> f q = None \<and> x = Dir"
  shows "frame S f0 (f(q \<mapsto> x))"
  using tree_ok_leaf[OF frame_tree[OF assms(1)] assms(2-4)] assms(1,5) by (auto simp: frame_def)

lemma frame_remove: "frame S f0 f \<Longrightarrow> f q = Some (File b) \<Longrightarrow> S q \<Longrightarrow> frame S f0 (f(q := None))"
  using tree_ok_remove[of f q b] by (auto simp: frame_def)

lemma frame_trans:
  "frame S f0 f \<Longrightarrow> frame T f g \<Longrightarrow> (\<And>p. T p \<Longrightarrow> S p) \<Longrightarrow> frame S f0 g"
  unfolding frame_def by (metis (no_types, lifting) option.distinct(1))

text \<open>The system calls along plain paths.\<close>

lemma triple_write_file:
  assumes "\<And>f. I f \<Longrightarrow> tree_ok f" "plain_path p"
    "\<And>f c. I f \<Longrightarrow> P f \<Longrightarrow> f p \<noteq> Some Dir \<Longrightarrow> locate f [] p = Some p \<Longrightarrow> I (f(p \<mapsto> File c))"
    "\<And>f. I f \<Longrightarrow> P f \<Longrightarrow> f p \<noteq> Some Dir \<Longrightarrow> locate f [] p = Some p \<Longrightarrow> Q () (f(p \<mapsto> File b))"
  shows "triple I P (write_file p b) Q"
proof (rule tripleI)
  fix f assume f: "I f" "P f"
  show "(\<forall>g \<in> set (snd (write_file p b f)). I g)
      \<and> (\<forall>x. fst (write_file p b f) = Inr x \<longrightarrow> Q x (end_state f (snd (write_file p b f))))"
  proof (cases "locate f [] p = Some p \<and> f p \<noteq> Some Dir")
    case True
    have "end_state f (map (\<lambda>k. f(p \<mapsto> File (take k b))) [0..<Suc (length b)]) = f(p \<mapsto> File b)"
      by (simp add: end_state_def)
    with True assms(3,4)[OF f] show ?thesis by (auto simp: write_file_def)
  next
    case False
    then have "locate f [] p = None \<or> locate f [] p = Some p \<and> f p = Some Dir"
      using locate_plain[OF assms(2), of f "[]"] by (cases "locate f [] p") auto
    then show ?thesis by (auto simp: write_file_def)
  qed
qed

lemma triple_make_dir:
  assumes "\<And>f. I f \<Longrightarrow> tree_ok f" "plain_path p"
    "\<And>f. I f \<Longrightarrow> P f \<Longrightarrow> f p = None \<Longrightarrow> locate f [] p = Some p \<Longrightarrow> I (f(p \<mapsto> Dir)) \<and> P (f(p \<mapsto> Dir))"
  shows "triple I P (make_dir p) (\<lambda>_ f. P f \<and> f p = Some Dir)"
proof (rule tripleI)
  fix f assume f: "I f" "P f"
  then show "(\<forall>g \<in> set (snd (make_dir p f)). I g)
      \<and> (\<forall>x. fst (make_dir p f) = Inr x \<longrightarrow> P (end_state f (snd (make_dir p f))) \<and> end_state f (snd (make_dir p f)) p = Some Dir)"
    using locate_plain[OF assms(2), of f "[]"] assms(3)[OF f]
    by (auto simp: make_dir_def split: option.splits node.splits)
qed

lemma triple_make_dirs:
  assumes "\<And>f. I f \<Longrightarrow> tree_ok f" "plain_path p"
    "\<And>f k. I f \<Longrightarrow> P f \<Longrightarrow> f (take k p) = None \<Longrightarrow> locate f [] (take k p) = Some (take k p) \<Longrightarrow>
       I (f(take k p \<mapsto> Dir)) \<and> P (f(take k p \<mapsto> Dir))"
  shows "triple I P (make_dirs p) (\<lambda>_ f. P f \<and> f p = Some Dir)"
proof -
  have step: "triple I P (make_dir (take k p)) (\<lambda>_ f. P f \<and> f (take k p) = Some Dir)" for k
    using assms by (intro triple_make_dir) (auto intro: plain_path_take)
  have "triple I (\<lambda>f. P f \<and> (n = 0 \<or> f (take n p) = Some Dir)) (eachIO make_dir (map (\<lambda>k. take k p) [Suc n..<Suc (n + m)]))
      (\<lambda>_ f. P f \<and> (f (take (n + m) p) = Some Dir \<or> n + m = 0))" for n m
  proof (induction m arbitrary: n)
    case 0
    then show ?case by (auto intro: triple_return)
  next
    case (Suc m)
    have "[Suc n..<Suc (n + Suc m)] = Suc n # [Suc (Suc n)..<Suc (Suc n + m)]" by (simp add: upt_rec)
    moreover have "triple I (\<lambda>f. P f \<and> (n = 0 \<or> f (take n p) = Some Dir)) (make_dir (take (Suc n) p))
        (\<lambda>_ f. P f \<and> (Suc n = 0 \<or> f (take (Suc n) p) = Some Dir))"
      by (rule triple_weaken[OF step]) auto
    moreover have "triple I (\<lambda>f. P f \<and> (Suc n = 0 \<or> f (take (Suc n) p) = Some Dir))
        (eachIO make_dir (map (\<lambda>k. take k p) [Suc (Suc n)..<Suc (Suc n + m)]))
        (\<lambda>_ f. P f \<and> (f (take (n + Suc m) p) = Some Dir \<or> n + Suc m = 0))"
      using Suc.IH[of "Suc n"] by (simp only: add_Suc_right add_Suc)
    ultimately show ?case by (simp only: list.map eachIO.simps) (rule triple_bind)
  qed
  from this[of 0 "length p"]
  have "triple I P (make_dirs p) (\<lambda>_ f. P f \<and> (f p = Some Dir \<or> p = []))" by (simp add: make_dirs_def)
  then show ?thesis by (rule triple_weaken) (use assms(1) in \<open>auto simp: tree_ok_def\<close>)
qed

lemma triple_link_file:
  assumes "plain_path src" "plain_path dst" "\<And>f. I f \<Longrightarrow> tree_ok f"
    "\<And>f b. I f \<Longrightarrow> P f \<Longrightarrow> f src = Some (File b) \<Longrightarrow> f dst = None \<Longrightarrow> locate f [] dst = Some dst \<Longrightarrow> I (f(dst \<mapsto> File b)) \<and> Q True (f(dst \<mapsto> File b))"
    "\<And>f. I f \<Longrightarrow> P f \<Longrightarrow> f dst \<noteq> None \<Longrightarrow> Q False f"
  shows "triple I P (link_file src dst) Q"
proof (rule tripleI)
  fix f assume f: "I f" "P f"
  show "(\<forall>g \<in> set (snd (link_file src dst f)). I g)
      \<and> (\<forall>x. fst (link_file src dst f) = Inr x \<longrightarrow> Q x (end_state f (snd (link_file src dst f))))"
    using locate_plain[OF assms(2), of f "[]"] assms(4,5)[OF f] node_at_plain[OF assms(3)[OF f(1)] assms(1)]
    by (auto simp: link_file_def split: option.splits node.splits)
qed

lemma triple_unlink:
  assumes "plain_path p" "\<And>f b. I f \<Longrightarrow> P f \<Longrightarrow> f p = Some (File b) \<Longrightarrow> I (f(p := None)) \<and> Q () (f(p := None))"
    "\<And>f. I f \<Longrightarrow> P f \<Longrightarrow> f p = None \<Longrightarrow> Q () f" "\<And>f. I f \<Longrightarrow> tree_ok f"
  shows "triple I P (unlink p) Q"
proof (rule tripleI)
  fix f assume f: "I f" "P f"
  have "locate f [] p = Some p" if "f p \<noteq> None" using locate_present[of f p "[]"] assms(1,4) f that by simp
  then show "(\<forall>g \<in> set (snd (unlink p f)). I g)
      \<and> (\<forall>x. fst (unlink p f) = Inr x \<longrightarrow> Q x (end_state f (snd (unlink p f))))"
    using locate_plain[OF assms(1), of f "[]"] assms(2,3)[OF f]
    by (cases "f p") (auto simp: unlink_def split: option.splits node.splits)
qed

lemma triple_create_temp:
  assumes "plain_path d" "\<And>r. r \<in> set rnd \<Longrightarrow> plain_name (name r)" "\<And>f. I f \<Longrightarrow> tree_ok f"
    "\<And>f r. I f \<Longrightarrow> P f \<Longrightarrow> r \<in> set rnd \<Longrightarrow> f (d @ [name r]) = None \<Longrightarrow> locate f [] (d @ [name r]) = Some (d @ [name r])
       \<Longrightarrow> I (f(d @ [name r] \<mapsto> File [])) \<and> Q (d @ [name r]) (f(d @ [name r] \<mapsto> File []))"
  shows "triple I P (create_temp d name rnd) Q"
proof (rule tripleI)
  fix f assume f: "I f" "P f"
  show "(\<forall>g \<in> set (snd (create_temp d name rnd f)). I g)
      \<and> (\<forall>x. fst (create_temp d name rnd f) = Inr x \<longrightarrow> Q x (end_state f (snd (create_temp d name rnd f))))"
  proof (cases "filter (\<lambda>r. \<not> path_exists f (join_path d (name r))) rnd")
    case Nil
    then show ?thesis by (simp add: create_temp_def)
  next
    case (Cons r rs)
    then have r: "r \<in> set rnd" "\<not> path_exists f (join_path d (name r))"
    proof -
      have "r \<in> set (filter (\<lambda>r. \<not> path_exists f (join_path d (name r))) rnd)" using Cons by simp
      then show "r \<in> set rnd" "\<not> path_exists f (join_path d (name r))" by simp_all
    qed
    have join: "join_path d (name r) = d @ [name r]" using assms(2)[OF r(1)] by (simp add: path_simps)
    have plain: "plain_path (d @ [name r])" using assms(1,2) r(1) by (simp add: path_simps)
    have "f (d @ [name r]) = None"
      using r(2) plain assms(3)[OF f(1)] by (simp add: path_exists_def join node_at_plain)
    then show ?thesis
      using Cons join assms(4)[OF f r(1)] locate_plain[OF plain, of f "[]"]
      by (auto simp: create_temp_def split: option.splits)
  qed
qed

text \<open>Renaming and replacing.\<close>

lemma triple_rename_dir:
  assumes "plain_path s" "plain_path d" "\<And>f. I f \<Longrightarrow> tree_ok f"
    "\<And>f. I f \<Longrightarrow> P f \<Longrightarrow> f s = Some Dir \<Longrightarrow> f d = None \<Longrightarrow> f (butlast d) = Some Dir \<Longrightarrow> \<not> under s d \<Longrightarrow>
       I (move f s d) \<and> Q () (move f s d)"
  shows "triple I P (rename_dir s d) Q"
proof (rule tripleI)
  fix f assume f: "I f" "P f"
  show "(\<forall>g \<in> set (snd (rename_dir s d f)). I g)
      \<and> (\<forall>x. fst (rename_dir s d f) = Inr x \<longrightarrow> Q x (end_state f (snd (rename_dir s d f))))"
    using locate_plain[OF assms(1), of f "[]"] locate_plain[OF assms(2), of f "[]"] assms(4)[OF f]
    by (auto simp: rename_dir_def split: option.splits)
qed

lemma triple_replace_file:
  assumes "plain_path s" "plain_path d" "\<And>f. I f \<Longrightarrow> tree_ok f"
    "\<And>f b. I f \<Longrightarrow> P f \<Longrightarrow> f s = Some (File b) \<Longrightarrow> f d \<noteq> Some Dir \<Longrightarrow> locate f [] d = Some d \<Longrightarrow>
       I ((f(s := None))(d \<mapsto> File b)) \<and> Q () ((f(s := None))(d \<mapsto> File b))"
  shows "triple I P (replace_file s d) Q"
proof (rule tripleI)
  fix f assume f: "I f" "P f"
  show "(\<forall>g \<in> set (snd (replace_file s d f)). I g)
      \<and> (\<forall>x. fst (replace_file s d f) = Inr x \<longrightarrow> Q x (end_state f (snd (replace_file s d f))))"
    using locate_plain[OF assms(1), of f "[]"] locate_plain[OF assms(2), of f "[]"] assms(4)[OF f]
    by (auto simp: replace_file_def split: option.splits node.splits)
qed

lemma tree_ok_replace:
  assumes f: "tree_ok f" "plain_path d" "f s = Some (File b)" "f d \<noteq> Some Dir" "locate f [] d = Some d"
  shows "tree_ok ((f(s := None))(d \<mapsto> File b))"
proof (cases "s = d")
  case True
  then show ?thesis using tree_ok_leaf[OF f(1) plain_path_ok[OF f(2)] f(5,4), of "File b"] by simp
next
  case False
  have "tree_ok (f(d \<mapsto> File b))" by (rule tree_ok_leaf[OF f(1) plain_path_ok[OF f(2)] f(5,4)])
  then have "tree_ok ((f(d \<mapsto> File b))(s := None))" using False f(3) by (intro tree_ok_remove) auto
  with False show ?thesis by (simp add: fun_upd_twist)
qed

text \<open>Directories created on the way keep every frame.\<close>

lemma frame_make_dirs:
  "plain_path p \<Longrightarrow> triple (frame S f0) (\<lambda>_. True) (make_dirs p) (\<lambda>_ f. f p = Some Dir)"
  by (rule triple_weaken[OF triple_make_dirs[where P = "\<lambda>_. True"]])
    (auto intro: frame_tree frame_leaf[OF _ plain_path_ok[OF plain_path_take]])

lemma frame_write_file:
  "plain_path p \<Longrightarrow> S p \<Longrightarrow> triple (frame S f0) P (write_file p b) (\<lambda>_ f. f p = Some (File b))"
  by (rule triple_write_file) (auto intro!: frame_leaf frame_tree plain_path_ok)

lemma frame_rename_dir:
  assumes "plain_path s" "plain_path d" "\<And>p. under s p \<Longrightarrow> S p" "\<And>p. f0 d = None \<Longrightarrow> under d p \<Longrightarrow> S p" "\<not> S d \<or> f0 d = None"
  shows "triple (frame S f0) P (rename_dir s d) (\<lambda>_ _. True)"
proof (rule triple_rename_dir)
  fix f
  assume f: "frame S f0 f" "f s = Some Dir" "f d = None" "f (butlast d) = Some Dir" "\<not> under s d"
  have "f0 d = None" using frame_keeps[OF f(1), of d] assms(5) f(3) by fastforce
  then have "under s p \<or> under d p \<Longrightarrow> S p" for p using assms(3,4) by blast
  moreover have "tree_ok (move f s d)"
    using frame_tree[OF f(1)] f assms(2) by (intro tree_ok_move) (simp_all add: plain_path_def)
  ultimately have "frame S f0 (move f s d)" using f(1) by (auto simp: frame_def move_def)
  then show "frame S f0 (move f s d) \<and> True" by simp
qed (use assms in \<open>auto intro: frame_tree\<close>)

text \<open>A finite tree is checked entry by entry.\<close>

lemma tree_ok_map_of:
  assumes "map_of xs [] = Some Dir"
    "list_all (\<lambda>pn. (fst pn = [] \<or> map_of xs (butlast (fst pn)) = Some Dir) \<and> list_all plain_name (fst pn)) xs"
  shows "tree_ok (map_of xs)"
proof -
  have entry: "(p = [] \<or> map_of xs (butlast p) = Some Dir) \<and> list_all plain_name p" if "map_of xs p \<noteq> None" for p
  proof -
    obtain n where "(p, n) \<in> set xs" using \<open>map_of xs p \<noteq> None\<close> by (auto dest: map_of_SomeD)
    then show ?thesis using assms(2) by (auto simp: list_all_iff)
  qed
  have "map_of xs p = Some Dir" if "map_of xs (p @ [n]) \<noteq> None" for p n using entry[OF that] by simp
  moreover have "list_all plain_name p" if "map_of xs p \<noteq> None" for p using entry[OF that] by blast
  ultimately show ?thesis using assms(1) unfolding tree_ok_def by blast
qed

end
