(* ===== verification/Publication.thy ===== *)
theory Publication
  imports File_System Hashing
begin

text \<open>
  src/quantara/publication.py: the content-addressed object store, staged commits, the pointer
  current.json and the verifying reader, as operations on the file system of File_System; and the
  order in which src/quantara/pipeline.py and src/quantara/series_pipeline.py call them.
  \<open>sha\<close> is the hex digest of SHA-256, \<open>rnd\<close> the sequence of random file names of tempfile.
\<close>

section \<open>Constants and paths\<close>

definition PUBLICATION_PROTOCOL_VERSION :: string where
  "PUBLICATION_PROTOCOL_VERSION = ''v1''"

definition OBJECT_KINDS :: "string list" where
  "OBJECT_KINDS = [''raw'', ''checksum'', ''normalized'']"

definition object_dir :: "path \<Rightarrow> ustr \<Rightarrow> path" where
  "object_dir data kind = data @ [cps ''objects'', kind, cps ''sha256'']"

definition object_path :: "path \<Rightarrow> ustr \<Rightarrow> ustr \<Rightarrow> path res" where
  "object_path data kind digest =
     (if kind \<notin> cps ` set OBJECT_KINDS then Inl PublicationError
      else Inr (join_path (object_dir data kind) digest))"

section \<open>Objects\<close>

record stored_object =
  so_sha256 :: ustr
  so_created :: bool

definition store_object ::
    "(bytes \<Rightarrow> string) \<Rightarrow> ustr list \<Rightarrow> path \<Rightarrow> ustr \<Rightarrow> bytes \<Rightarrow> ustr option \<Rightarrow> stored_object io" where
  "store_object sha rnd data kind payload digest =
     (let computed = cps (sha payload);
          address = (case digest of Some d \<Rightarrow> if d = [] then computed else d | None \<Rightarrow> computed) in
      bindIO (lookIO (\<lambda>f. object_path data kind address)) (\<lambda>target.
      bindIO (make_dirs (butlast target)) (\<lambda>_.
      bindIO (create_temp (butlast target) (\<lambda>r. [46] @ address @ [46] @ r @ cps ''.part'') rnd) (\<lambda>temporary.
      finallyIO
        (bindIO (write_file temporary payload) (\<lambda>_.
         bindIO (link_file temporary target) (\<lambda>linked.
         if linked then returnIO \<lparr>so_sha256 = address, so_created = True\<rparr>
         else if digest \<noteq> None then raiseIO ObjectCollision
         else bindIO (lookIO (read_bytes target)) (\<lambda>retained.
           if retained = payload then returnIO \<lparr>so_sha256 = address, so_created = False\<rparr>
           else raiseIO ObjectCollision))))
        (unlink temporary)))))"

definition put_object ::
    "(bytes \<Rightarrow> string) \<Rightarrow> ustr list \<Rightarrow> path \<Rightarrow> ustr \<Rightarrow> bytes \<Rightarrow> ustr option \<Rightarrow> ustr io" where
  "put_object sha rnd data kind payload digest =
     bindIO (store_object sha rnd data kind payload digest) (\<lambda>so. returnIO (so_sha256 so))"

section \<open>Commits\<close>

definition commits_path :: "path \<Rightarrow> path" where
  "commits_path ds = ds @ [cps ''commits'']"

definition stage_commit :: "path \<Rightarrow> ustr \<Rightarrow> (ustr \<times> bytes) list \<Rightarrow> path io" where
  "stage_commit ds attempt files =
     (let staging = join_path (commits_path ds) (cps ''.staging-'' @ attempt) in
      bindIO (make_dirs staging) (\<lambda>_.
      bindIO (eachIO (\<lambda>(name, blob). write_file (join_path staging name) blob) files) (\<lambda>_.
      returnIO staging)))"

definition publish_commit :: "path \<Rightarrow> path \<Rightarrow> ustr \<Rightarrow> path io" where
  "publish_commit staging commits content_hash =
     (let target = join_path commits content_hash in
      bindIO (lookIO (\<lambda>f. checkE (\<not> path_exists f target) PublicationError)) (\<lambda>_.
      bindIO (write_file (staging @ [cps ''COMMITTED'']) []) (\<lambda>_.
      bindIO (catchIO (rename_dir staging target) (\<lambda>e. e = PyOSError) (\<lambda>_. raiseIO PublicationError)) (\<lambda>_.
      returnIO target))))"

definition pointer_text :: "ustr \<Rightarrow> ustr \<Rightarrow> ustr" where
  "pointer_text commit digest = dumps_indent2
     [(cps ''publication_protocol_version'', cps PUBLICATION_PROTOCOL_VERSION),
      (cps ''commit'', commit), (cps ''manifest_sha256'', digest)]"

definition write_current :: "path \<Rightarrow> ustr \<Rightarrow> ustr \<Rightarrow> unit io" where
  "write_current ds commit digest =
     bindIO (make_dirs ds) (\<lambda>_.
     bindIO (write_file (ds @ [cps ''current.json.tmp'']) (pointer_text commit digest)) (\<lambda>_.
     replace_file (ds @ [cps ''current.json.tmp'']) (ds @ [cps ''current.json''])))"

section \<open>The verifying reader\<close>

text \<open>\<open>except ValueError\<close> also catches a failed UTF-8 decoding.\<close>

definition is_value_error :: "err \<Rightarrow> bool" where
  "is_value_error e \<longleftrightarrow> e = PyValueError \<or> e = PyUnicodeError"

definition load_json :: "err \<Rightarrow> path \<Rightarrow> fs \<Rightarrow> pyval res" where
  "load_json err p f = (case bindE (read_text p f) json_loads of
     Inl e \<Rightarrow> Inl (if is_value_error e then err else e) | Inr v \<Rightarrow> Inr v)"

definition object_ref :: "pyval \<Rightarrow> (ustr \<times> ustr) option" where
  "object_ref v = (case v of
     PyDict kvs \<Rightarrow> if fst ` set kvs = {cps ''kind'', cps ''sha256''} then
         (case (map_of kvs (cps ''kind''), map_of kvs (cps ''sha256'')) of
            (Some (PyStr k), Some (PyStr d)) \<Rightarrow> Some (k, d) | _ \<Rightarrow> None)
       else None
   | _ \<Rightarrow> None)"

definition check_ref :: "(bytes \<Rightarrow> string) \<Rightarrow> path \<Rightarrow> fs \<Rightarrow> ustr \<times> ustr \<Rightarrow> unit res" where
  "check_ref sha data f = (\<lambda>(kind, digest).
     bindE (object_path data kind digest) (\<lambda>p.
     bindE (checkE (path_exists f p) PublicationError) (\<lambda>_.
     bindE (read_bytes p f) (\<lambda>b.
     checkE (cps (sha b) = digest) PublicationError))))"

definition object_refs :: "(ustr \<times> pyval) list \<Rightarrow> (ustr \<times> ustr) list res" where
  "object_refs content = (case map_of content (cps ''object_refs'') of
     None \<Rightarrow> Inr []
   | Some (PyList refs) \<Rightarrow>
       mapE (\<lambda>r. case object_ref r of None \<Rightarrow> Inl PublicationError | Some kd \<Rightarrow> Inr kd) refs
   | Some _ \<Rightarrow> Inl PublicationError)"

definition verify_commit_graph ::
    "(bytes \<Rightarrow> string) \<Rightarrow> path \<Rightarrow> path \<Rightarrow> fs \<Rightarrow> (ustr \<times> pyval) list res" where
  "verify_commit_graph sha data commit_dir f =
     bindE (checkE (path_exists f (commit_dir @ [cps ''COMMITTED''])
                    \<and> path_exists f (commit_dir @ [cps ''content.json''])) PublicationError) (\<lambda>_.
     bindE (load_json PublicationError (commit_dir @ [cps ''content.json'']) f) (\<lambda>doc. case doc of
       PyDict content \<Rightarrow>
         bindE (object_refs content) (\<lambda>refs.
         bindE (mapE (check_ref sha data f) refs) (\<lambda>_.
         Inr content))
     | _ \<Rightarrow> Inl PublicationError))"

text \<open>\<open>{"commit": commit, **content}\<close>.\<close>

definition with_commit :: "pyval \<Rightarrow> (ustr \<times> pyval) list \<Rightarrow> (ustr \<times> pyval) list" where
  "with_commit commit content = foldl (\<lambda>d (k, v). dict_put d k v) [(cps ''commit'', commit)] content"

definition read_and_verify_current ::
    "(bytes \<Rightarrow> string) \<Rightarrow> path \<Rightarrow> path \<Rightarrow> fs \<Rightarrow> (ustr \<times> pyval) list res" where
  "read_and_verify_current sha ds data f =
     bindE (checkE (path_exists f (ds @ [cps ''current.json''])) InvalidPointer) (\<lambda>_.
     bindE (load_json InvalidPointer (ds @ [cps ''current.json'']) f) (\<lambda>doc. case doc of
       PyDict pointer \<Rightarrow>
         (case map_of pointer (cps ''commit'') of
            None \<Rightarrow> Inl InvalidPointer
          | Some (PyStr commit) \<Rightarrow>
              let commit_dir = join_path (commits_path ds) commit in
              bindE (checkE (commit \<noteq> [] \<and> is_dir f commit_dir) InvalidPointer) (\<lambda>_.
              bindE (verify_commit_graph sha data commit_dir f) (\<lambda>content.
              Inr (with_commit (PyStr commit) content)))
          | Some _ \<Rightarrow> Inl PyTypeError)
     | _ \<Rightarrow> Inl InvalidPointer))"

section \<open>Idempotency\<close>

text \<open>Python's \<open>==\<close> on JSON values: numbers compare by value whatever their type, dicts
  without regard to order.\<close>

datatype num = Finite rat | PosInf | NegInf | NotNumber

definition float_num :: "64 word \<Rightarrow> num" where
  "float_num w =
     (let b = unat w; s = (if b < 2 ^ 63 then 1 else - 1); m = b mod 2 ^ 52; e = b div 2 ^ 52 mod 2048 in
      if e = 2047 then (if m \<noteq> 0 then NotNumber else if s = 1 then PosInf else NegInf)
      else Finite (s * (if e = 0 then rat_of_nat m else rat_of_nat (m + 2 ^ 52) * 2 ^ (e - 1)) / 2 ^ 1074))"

definition num_of :: "pyval \<Rightarrow> num option" where
  "num_of v = (case v of PyBool b \<Rightarrow> Some (Finite (if b then 1 else 0)) | PyInt i \<Rightarrow> Some (Finite (rat_of_int i))
     | PyFloat w \<Rightarrow> Some (float_num w) | _ \<Rightarrow> None)"

function py_eq :: "pyval \<Rightarrow> pyval \<Rightarrow> bool" where
  "py_eq v w = (case (num_of v, num_of w) of
     (Some x, Some y) \<Rightarrow> x = y \<and> x \<noteq> NotNumber
   | _ \<Rightarrow> (case (v, w) of
        (PyNone, PyNone) \<Rightarrow> True
      | (PyStr s, PyStr t) \<Rightarrow> s = t
      | (PyOther m, PyOther n) \<Rightarrow> m = n
      | (PyList vs, PyList ws) \<Rightarrow> length vs = length ws \<and> list_all (\<lambda>(a, b). py_eq a b) (zip vs ws)
      | (PyDict ks, PyDict ls) \<Rightarrow> length ks = length ls
          \<and> list_all (\<lambda>(k, a). case map_of ls k of None \<Rightarrow> False | Some b \<Rightarrow> py_eq a b) ks
      | _ \<Rightarrow> False))"
  by pat_completeness auto
termination
  by (relation "measure (\<lambda>(v, w). size v)")
    (auto dest!: set_zip_leftD simp: item_size[of "(_, _)", simplified] intro!: le_imp_less_Suc size_list_estimation')

declare py_eq.simps [simp del]

definition DEFAULT_KEYS :: "string list" where
  "DEFAULT_KEYS = [''source_sha256'', ''descriptor_sha256'', ''schema_fingerprint'', ''parser_version'',
     ''canonical_content_hash'', ''quality_identity'', ''object_refs'']"

definition commit_get :: "(ustr \<times> pyval) list \<Rightarrow> ustr \<Rightarrow> pyval" where
  "commit_get d k = (case map_of d k of None \<Rightarrow> PyNone | Some v \<Rightarrow> v)"

definition existing_commit_matches ::
    "(bytes \<Rightarrow> string) \<Rightarrow> path \<Rightarrow> path \<Rightarrow> (ustr \<times> pyval) list \<Rightarrow> ustr list option \<Rightarrow> fs \<Rightarrow> bool res" where
  "existing_commit_matches sha data commit_dir evidence keys f =
     (let ks = (case keys of None \<Rightarrow> map cps DEFAULT_KEYS | Some ks \<Rightarrow> ks) in
      case verify_commit_graph sha data commit_dir f of
        Inl e \<Rightarrow> if is_quantara_error e then Inr False else Inl e
      | Inr content \<Rightarrow> Inr (list_all (\<lambda>k. py_eq (commit_get content k) (commit_get evidence k)) ks))"

section \<open>The last steps of a pipeline run\<close>

text \<open>The approval document that an existing commit retains, when the quality policy asks for one.\<close>

definition approval_retained :: "(bytes \<Rightarrow> string) \<Rightarrow> path \<Rightarrow> string option \<Rightarrow> fs \<Rightarrow> bool" where
  "approval_retained sha candidate approval f = (case approval of
     None \<Rightarrow> True
   | Some record_sha \<Rightarrow>
       path_exists f (candidate @ [cps ''quality-approval.json''])
       \<and> (case bindE (read_text (candidate @ [cps ''quality-approval.json'']) f) (\<lambda>s. bindE (json_loads s) jcs_utf8) of
            Inl _ \<Rightarrow> False | Inr b \<Rightarrow> sha b = record_sha))"

text \<open>pipeline.py, from the staged evidence to the verified pointer; \<open>approval\<close> is the hash of the
  approval record, if the policy is "2" and there is one. The value is the content found through the
  new pointer; \<open>None\<close> stands for the exit with \<open>EXIT_FAILED\<close> when an existing commit at the
  address differs.\<close>

definition publish_dataset ::
    "(bytes \<Rightarrow> string) \<Rightarrow> path \<Rightarrow> path \<Rightarrow> ustr \<Rightarrow> (ustr \<times> bytes) list \<Rightarrow> ustr \<Rightarrow> bytes
       \<Rightarrow> (ustr \<times> pyval) list \<Rightarrow> string option \<Rightarrow> (ustr \<times> pyval) list option io" where
  "publish_dataset sha ds data attempt files content_hash manifest_bytes evidence approval =
     bindIO (stage_commit ds attempt files) (\<lambda>staged.
     bindIO (catchIO
        (bindIO (publish_commit staged (commits_path ds) content_hash) (\<lambda>d. returnIO (Some (d, manifest_bytes))))
        is_quantara_error
        (\<lambda>_. let candidate = join_path (commits_path ds) content_hash in
           bindIO (lookIO (\<lambda>f. if is_dir f candidate
              then existing_commit_matches sha data candidate evidence (Some (map fst evidence)) f else Inr False)) (\<lambda>ok.
           if \<not> ok then returnIO None
           else bindIO (lookIO (\<lambda>f. Inr (approval_retained sha candidate approval f))) (\<lambda>approved.
           if \<not> approved then returnIO None
           else bindIO (lookIO (read_bytes (candidate @ [cps ''manifest.json'']))) (\<lambda>m. returnIO (Some (candidate, m)))))))
       (\<lambda>found. case found of
          None \<Rightarrow> returnIO None
        | Some (commit_dir, manifest) \<Rightarrow>
            bindIO (lookIO (verify_commit_graph sha data commit_dir)) (\<lambda>_.
            bindIO (write_current ds content_hash (cps (sha manifest))) (\<lambda>_.
            bindIO (lookIO (read_and_verify_current sha ds data)) (\<lambda>c.
            returnIO (Some c))))))"

section \<open>Where things are kept\<close>

definition object_place :: "path \<Rightarrow> path \<Rightarrow> bool" where
  "object_place data p \<longleftrightarrow> (\<exists>k d. k \<in> cps ` set OBJECT_KINDS \<and> hex_digest d \<and> p = object_dir data k @ [d])"

text \<open>A dataset directory lies outside the object store of its data directory.\<close>

definition layout_ok :: "path \<Rightarrow> path \<Rightarrow> bool" where
  "layout_ok data ds \<longleftrightarrow> plain_path data \<and> (\<exists>ext. ds = data @ ext \<and> plain_path ext \<and> (ext = [] \<or> hd ext \<noteq> cps ''objects''))"

lemma plain_name_cps: "plain_name (cps s) \<longleftrightarrow> s \<noteq> [] \<and> s \<noteq> ''.'' \<and> s \<noteq> ''..'' \<and> CHR ''/'' \<notin> set s"
proof -
  have "47 \<in> set (cps s) \<longleftrightarrow> CHR ''/'' \<in> set s"
    using inj_image_mem_iff[OF inj_of_char, of "CHR ''/''" "set s"] by (simp add: cps_def)
  moreover have "cps s = dot \<longleftrightarrow> s = ''.''" "cps s = dotdot \<longleftrightarrow> s = ''..''"
    using cps_inject[of s "''.''"] cps_inject[of s "''..''"] by (simp_all add: cps_def dot_def dotdot_def)
  moreover have "cps s = [] \<longleftrightarrow> s = []" by (simp add: cps_def)
  ultimately show ?thesis by (simp add: plain_name_def)
qed

lemma kind_plain: "k \<in> cps ` set OBJECT_KINDS \<Longrightarrow> plain_name k"
  by (auto simp: OBJECT_KINDS_def plain_name_cps)

lemma hex_digest_plain: "hex_digest d \<Longrightarrow> plain_name d"
  by (auto simp: hex_digest_def plain_name_def dot_def dotdot_def list_all_iff is_lower_hex_def)

lemma object_dir_plain: "plain_path data \<Longrightarrow> k \<in> cps ` set OBJECT_KINDS \<Longrightarrow> plain_path (object_dir data k)"
  by (simp add: object_dir_def path_simps plain_name_cps kind_plain)

lemma object_path_hex:
  "k \<in> cps ` set OBJECT_KINDS \<Longrightarrow> hex_digest d \<Longrightarrow> object_path data k d = Inr (object_dir data k @ [d])"
  by (simp add: object_path_def path_simps hex_digest_plain)

lemma layout_plain: "layout_ok data ds \<Longrightarrow> plain_path ds" "layout_ok data ds \<Longrightarrow> plain_path data"
  by (auto simp: layout_ok_def path_simps)

lemma object_not_in_dataset:
  assumes "layout_ok data ds" "object_place data p" "ds @ q = p" "q \<noteq> []" "hd q \<noteq> cps ''objects''"
  shows False
proof -
  obtain ext where e: "ds = data @ ext" "ext = [] \<or> hd ext \<noteq> cps ''objects''" using assms(1) by (auto simp: layout_ok_def)
  obtain k d where "p = data @ [cps ''objects'', k, cps ''sha256'', d]" using assms(2) by (auto simp: object_place_def object_dir_def)
  then have "ext @ q = [cps ''objects'', k, cps ''sha256'', d]" using e(1) assms(3) by simp
  then show False using e(2) assms(4,5) by (cases ext) (auto simp: hd_append)
qed

section \<open>Storing an object\<close>

text \<open>A state in the middle of storing: everything of before is there, the new object is absent
  or whole, and apart from it only directories and temporary files are new.\<close>

definition temp_name :: "ustr \<Rightarrow> ustr \<Rightarrow> ustr" where
  "temp_name address r = [46] @ address @ [46] @ r @ cps ''.part''"

definition storing :: "fs \<Rightarrow> path \<Rightarrow> ustr \<Rightarrow> ustr list \<Rightarrow> bytes \<Rightarrow> fs \<Rightarrow> bool" where
  "storing f0 d address rnd payload g \<longleftrightarrow>
     frame (\<lambda>p. p = d @ [address] \<or> (\<exists>r \<in> set rnd. p = d @ [temp_name address r])) f0 g \<and> f0 \<subseteq>\<^sub>m g
     \<and> (g (d @ [address]) = f0 (d @ [address]) \<or> g (d @ [address]) = Some (File payload))"

lemma temp_name_facts:
  "47 \<notin> set r \<Longrightarrow> hex_digest a \<Longrightarrow> plain_name (temp_name a r)" "hex_digest a \<Longrightarrow> temp_name a r \<noteq> a"
proof -
  assume a: "hex_digest a"
  then have "47 \<notin> set a" "a \<noteq> []" using hex_digest_plain[of a] by (auto simp: plain_name_def)
  then show "plain_name (temp_name a r)" if "47 \<notin> set r"
    using that by (auto simp: temp_name_def plain_name_def dot_def dotdot_def cps_def)
  show "temp_name a r \<noteq> a" by (auto simp: temp_name_def dest: arg_cong[where f = length])
qed

lemma map_le_new: "f0 \<subseteq>\<^sub>m f \<Longrightarrow> f0 p = None \<Longrightarrow> f0 \<subseteq>\<^sub>m f(p := x)"
  by (auto simp: map_le_def)

lemma map_le_None: "f0 \<subseteq>\<^sub>m f \<Longrightarrow> f p = None \<Longrightarrow> f0 p = None"
  by (metis domI map_le_def not_None_eq)

lemma storing_triple:
  fixes sha :: "bytes \<Rightarrow> string"
  assumes "plain_path data" "kind \<in> cps ` set OBJECT_KINDS" "hex_digest (cps (sha payload))"
    "\<forall>r \<in> set rnd. 47 \<notin> set r"
  defines "d \<equiv> object_dir data kind" and "a \<equiv> cps (sha payload)"
  shows "triple (storing f0 d a rnd payload) (\<lambda>f. f = f0) (store_object sha rnd data kind payload None)
    (\<lambda>so f. f (d @ [a]) = Some (File payload) \<and> so_sha256 so = a \<and> so_created so = (f0 (d @ [a]) = None))"
proof -
  let ?I = "storing f0 d a rnd payload" and ?t = "d @ [a]"
  have plain: "plain_path d" "plain_path (d @ [a])" "plain_name a"
    using assms by (simp_all add: object_dir_plain path_simps hex_digest_plain)
  have temp: "plain_path (d @ [temp_name a r])" "d @ [temp_name a r] \<noteq> ?t" if "r \<in> set rnd" for r
    using that assms plain temp_name_facts(1)[of r a] temp_name_facts(2)[of a r] by (simp_all add: path_simps)
  have tree: "?I f \<Longrightarrow> tree_ok f" for f by (auto simp: storing_def intro: frame_tree)
  have dirs: "triple ?I (\<lambda>f. f ?t = f0 ?t) (make_dirs d) (\<lambda>_ f. f ?t = f0 ?t \<and> f d = Some Dir)"
  proof (rule triple_make_dirs[OF tree plain(1)])
    fix f k
    assume f: "?I f" "f ?t = f0 ?t" "f (take k d) = None" "locate f [] (take k d) = Some (take k d)"
    have "take k d \<noteq> ?t" by (auto dest: arg_cong[where f = length])
    then show "?I (f(take k d \<mapsto> Dir)) \<and> (f(take k d \<mapsto> Dir)) ?t = f0 ?t"
      using f frame_leaf[OF _ plain_path_ok[OF plain_path_take[OF plain(1)]] f(4), of _ f0 Dir]
      by (auto simp: storing_def intro: map_le_new map_le_None)
  qed
  have create: "triple ?I (\<lambda>f. f ?t = f0 ?t) (create_temp d (temp_name a) rnd)
      (\<lambda>p f. f ?t = f0 ?t \<and> f0 p = None \<and> (\<exists>r \<in> set rnd. p = d @ [temp_name a r]))"
  proof (rule triple_create_temp[OF plain(1)])
    fix f r
    assume f: "?I f" "f ?t = f0 ?t" "r \<in> set rnd" "f (d @ [temp_name a r]) = None"
      "locate f [] (d @ [temp_name a r]) = Some (d @ [temp_name a r])"
    then show "?I (f(d @ [temp_name a r] \<mapsto> File [])) \<and> (f(d @ [temp_name a r] \<mapsto> File [])) ?t = f0 ?t
        \<and> f0 (d @ [temp_name a r]) = None \<and> (\<exists>r' \<in> set rnd. d @ [temp_name a r] = d @ [temp_name a r'])"
      using temp[OF f(3)] frame_leaf[OF _ plain_path_ok[OF temp(1)[OF f(3)]] f(5), of _ f0 "File []"]
      by (auto simp: storing_def intro: map_le_new map_le_None)
  qed (use assms temp_name_facts tree in auto)
  let ?fin = "\<lambda>p. finallyIO
        (bindIO (write_file p payload) (\<lambda>_.
         bindIO (link_file p ?t) (\<lambda>linked.
         if linked then returnIO \<lparr>so_sha256 = a, so_created = True\<rparr>
         else bindIO (lookIO (read_bytes ?t)) (\<lambda>retained.
           if retained = payload then returnIO \<lparr>so_sha256 = a, so_created = False\<rparr>
           else raiseIO ObjectCollision))))
        (unlink p)"
  have body: "triple ?I (\<lambda>f. f ?t = f0 ?t) (?fin p)
      (\<lambda>so f. f ?t = Some (File payload) \<and> so_sha256 so = a \<and> so_created so = (f0 ?t = None))"
    if p: "f0 p = None" "\<exists>r \<in> set rnd. p = d @ [temp_name a r]" for p
  proof -
    obtain r where r: "r \<in> set rnd" "p = d @ [temp_name a r]" using p(2) by blast
    note pt = temp[OF r(1), folded r(2)]
    have un: "triple ?I (\<lambda>f. C (f ?t)) (unlink p) (\<lambda>_ f. C (f ?t))" for C
    proof (rule triple_unlink[OF pt(1)])
      fix f b assume f: "?I f" "C (f ?t)" "f p = Some (File b)"
      then show "?I (f(p := None)) \<and> C ((f(p := None)) ?t)"
        using p pt(2) frame_remove[of _ f0 f p b, OF _ f(3)] by (auto simp: storing_def intro: map_le_new)
    qed (use tree in auto)
    have wr: "triple ?I (\<lambda>f. f ?t = f0 ?t) (write_file p payload) (\<lambda>_ f. f ?t = f0 ?t \<and> f p = Some (File payload))"
    proof (rule triple_write_file[OF tree pt(1)])
      fix f c assume f: "?I f" "f ?t = f0 ?t" "f p \<noteq> Some Dir" "locate f [] p = Some p"
      then show "?I (f(p \<mapsto> File c))"
        using p pt(2) frame_leaf[OF _ plain_path_ok[OF pt(1)] f(4,3), of _ f0 "File c"]
        by (auto simp: storing_def intro: map_le_new)
    qed (use pt(2) in auto)
    have li: "triple ?I (\<lambda>f. f ?t = f0 ?t \<and> f p = Some (File payload)) (link_file p ?t)
        (\<lambda>linked f. if linked then f ?t = Some (File payload) \<and> f0 ?t = None else f0 ?t \<noteq> None \<and> f ?t = f0 ?t)"
    proof (rule triple_link_file[OF pt(1) plain(2) tree])
      fix f b assume f: "?I f" "f ?t = f0 ?t \<and> f p = Some (File payload)" "f p = Some (File b)" "f ?t = None"
        "locate f [] ?t = Some ?t"
      then show "?I (f(?t \<mapsto> File b)) \<and> (if True then (f(?t \<mapsto> File b)) ?t = Some (File payload) \<and> f0 ?t = None
          else f0 ?t \<noteq> None \<and> (f(?t \<mapsto> File b)) ?t = f0 ?t)"
        using frame_leaf[OF _ plain_path_ok[OF plain(2)] f(5), of _ f0 "File b"]
        by (auto simp: storing_def intro: map_le_new)
    qed auto
    have rd: "triple ?I (\<lambda>f. f0 ?t \<noteq> None \<and> f ?t = f0 ?t) (lookIO (read_bytes ?t))
        (\<lambda>b f. f0 ?t \<noteq> None \<and> f ?t = Some (File b))"
    proof (rule triple_look)
      fix f b assume "?I f" "f0 ?t \<noteq> None \<and> f ?t = f0 ?t" "read_bytes ?t f = Inr b"
      then show "f0 ?t \<noteq> None \<and> f ?t = Some (File b)"
        using node_at_plain[OF tree plain(2), of f] by (auto simp: read_bytes_def split: option.splits node.splits)
    qed
    let ?Q = "\<lambda>so f. f ?t = Some (File payload) \<and> so_sha256 so = a \<and> so_created so = (f0 ?t = None)"
    have reused: "triple ?I (\<lambda>f. f0 ?t \<noteq> None \<and> f ?t = Some (File b))
        (if b = payload then returnIO \<lparr>so_sha256 = a, so_created = False\<rparr> else raiseIO ObjectCollision) ?Q" for b
      by (cases "b = payload") (auto intro!: triple_return simp: triple_raise)
    have rest: "triple ?I (\<lambda>f. if linked then f ?t = Some (File payload) \<and> f0 ?t = None else f0 ?t \<noteq> None \<and> f ?t = f0 ?t)
        (if linked then returnIO \<lparr>so_sha256 = a, so_created = True\<rparr>
         else bindIO (lookIO (read_bytes ?t)) (\<lambda>b. if b = payload then returnIO \<lparr>so_sha256 = a, so_created = False\<rparr>
           else raiseIO ObjectCollision)) ?Q" for linked
      using triple_bind[OF rd reused] by (cases linked) (auto intro!: triple_return)
    have un': "triple ?I (?Q so) (unlink p) (\<lambda>_. ?Q so)" for so
      using un[of "\<lambda>v. v = Some (File payload) \<and> so_sha256 so = a \<and> so_created so = (f0 ?t = None)"] .
    show ?thesis by (rule triple_finally[OF triple_bind[OF wr triple_bind[OF li rest]] un' un[of "\<lambda>_. True"]])
  qed
  have unfold: "store_object sha rnd data kind payload None =
      bindIO (make_dirs d) (\<lambda>_. bindIO (create_temp d (temp_name a) rnd) ?fin)"
    using object_path_hex[OF assms(2,3)]
    by (simp add: store_object_def Let_def bindIO_pure a_def d_def temp_name_def[abs_def] cong: if_cong)
  have after: "triple ?I (\<lambda>f. f ?t = f0 ?t \<and> f0 p = None \<and> (\<exists>r \<in> set rnd. p = d @ [temp_name a r])) (?fin p)
      (\<lambda>so f. f ?t = Some (File payload) \<and> so_sha256 so = a \<and> so_created so = (f0 ?t = None))" for p
    by (rule triple_pure[where A = "f0 p = None \<and> (\<exists>r \<in> set rnd. p = d @ [temp_name a r])"])
      (blast, rule triple_weaken[OF body], auto)
  have "triple ?I (\<lambda>f. f ?t = f0 ?t \<and> f d = Some Dir) (bindIO (create_temp d (temp_name a) rnd) ?fin)
      (\<lambda>so f. f ?t = Some (File payload) \<and> so_sha256 so = a \<and> so_created so = (f0 ?t = None))"
    by (rule triple_weaken[OF triple_bind[OF create after]]) auto
  from triple_bind[OF dirs this] show ?thesis unfolding unfold by (rule triple_weaken) auto
qed

section \<open>The object store as a map\<close>

definition objects_of :: "path \<Rightarrow> fs \<Rightarrow> ustr \<times> ustr \<Rightarrow> bytes option" where
  "objects_of data f = (\<lambda>(k, d).
     if k \<in> cps ` set OBJECT_KINDS \<and> hex_digest d
     then (case f (object_dir data k @ [d]) of Some (File b) \<Rightarrow> Some b | _ \<Rightarrow> None) else None)"

text \<open>Writing once: what \<open>store_object\<close> promises of the map, with the flag it reports.\<close>

definition put_once :: "'k \<Rightarrow> 'v \<Rightarrow> ('k \<Rightarrow> 'v option) \<Rightarrow> ('k \<Rightarrow> 'v option) \<times> bool res" where
  "put_once k v m = (case m k of
     None \<Rightarrow> (m(k \<mapsto> v), Inr True)
   | Some w \<Rightarrow> (m, if w = v then Inr False else Inl ObjectCollision))"

lemma objects_of_frame:
  assumes "frame S f0 g" "\<And>p. object_place data p \<Longrightarrow> \<not> S p"
  shows "objects_of data g = objects_of data f0"
proof (rule ext)
  fix kd :: "ustr \<times> ustr"
  obtain k d where kd: "kd = (k, d)" by (cases kd)
  show "objects_of data g kd = objects_of data f0 kd"
  proof (cases "k \<in> cps ` set OBJECT_KINDS \<and> hex_digest d")
    case True
    then have "\<not> S (object_dir data k @ [d])" using assms(2) by (auto simp: object_place_def)
    then have "g (object_dir data k @ [d]) = f0 (object_dir data k @ [d])
        \<or> f0 (object_dir data k @ [d]) = None \<and> g (object_dir data k @ [d]) = Some Dir"
      by (rule frame_cases[OF assms(1)])
    then show ?thesis by (auto simp: objects_of_def kd)
  qed (auto simp: objects_of_def kd)
qed

lemma storing_objects:
  assumes "kind \<in> cps ` set OBJECT_KINDS" "hex_digest a" "storing f0 (object_dir data kind) a rnd payload g"
  shows "objects_of data g = objects_of data f0 \<or> objects_of data f0 (kind, a) = None \<and> g (object_dir data kind @ [a]) = Some (File payload)
      \<and> objects_of data g = (objects_of data f0)((kind, a) \<mapsto> payload)"
proof -
  let ?t = "object_dir data kind @ [a]"
  let ?S = "\<lambda>p. p = ?t \<or> (\<exists>r \<in> set rnd. p = object_dir data kind @ [temp_name a r])"
  have frame: "frame ?S f0 g" and le: "f0 \<subseteq>\<^sub>m g" and t: "g ?t = f0 ?t \<or> g ?t = Some (File payload)"
    using assms(3) by (simp_all add: storing_def)
  have other: "objects_of data g (k, d) = objects_of data f0 (k, d)" if "(k, d) \<noteq> (kind, a)" for k d
  proof (cases "k \<in> cps ` set OBJECT_KINDS \<and> hex_digest d")
    case True
    have "object_dir data k @ [d] \<noteq> ?t" using that by (auto simp: object_dir_def)
    moreover have "d \<noteq> temp_name a r" for r using True by (auto simp: temp_name_def hex_digest_def is_lower_hex_def)
    ultimately have "\<not> ?S (object_dir data k @ [d])" by (auto simp: object_dir_def)
    then have "g (object_dir data k @ [d]) = f0 (object_dir data k @ [d])
        \<or> f0 (object_dir data k @ [d]) = None \<and> g (object_dir data k @ [d]) = Some Dir"
      by (rule frame_cases[OF frame])
    then show ?thesis by (auto simp: objects_of_def)
  qed (auto simp: objects_of_def)
  have "g ?t = f0 ?t" if "f0 ?t \<noteq> None" using le that by (metis domIff map_le_def)
  then consider "g ?t = f0 ?t" | "f0 ?t = None" "g ?t = Some (File payload)" using t by blast
  then show ?thesis
  proof cases
    case 1
    then have "objects_of data g (kind, a) = objects_of data f0 (kind, a)" by (simp add: objects_of_def)
    then have "objects_of data g kd = objects_of data f0 kd" for kd using other[of "fst kd" "snd kd"] by (cases "kd = (kind, a)") auto
    then show ?thesis by (intro disjI1 ext)
  next
    case 2
    have "objects_of data f0 (kind, a) = None" using 2 by (simp add: objects_of_def)
    moreover have "objects_of data g = (objects_of data f0)((kind, a) \<mapsto> payload)"
    proof (rule ext)
      fix kd :: "ustr \<times> ustr"
      show "objects_of data g kd = ((objects_of data f0)((kind, a) \<mapsto> payload)) kd"
        using other[of "fst kd" "snd kd"] 2 assms(1,2) by (cases "kd = (kind, a)") (auto simp: objects_of_def)
    qed
    ultimately show ?thesis using 2 by blast
  qed
qed

section \<open>Frames of the commit operations\<close>

definition staging_path :: "path \<Rightarrow> ustr \<Rightarrow> path" where
  "staging_path ds attempt = commits_path ds @ [cps ''.staging-'' @ attempt]"

definition commit_path :: "path \<Rightarrow> ustr \<Rightarrow> path" where
  "commit_path ds h = commits_path ds @ [h]"

definition current_path :: "path \<Rightarrow> path" where
  "current_path ds = ds @ [cps ''current.json'']"

definition current_tmp :: "path \<Rightarrow> path" where
  "current_tmp ds = ds @ [cps ''current.json.tmp'']"

lemmas place_defs = staging_path_def commit_path_def current_path_def current_tmp_def commits_path_def

lemma staging_plain: "plain_path ds \<Longrightarrow> 47 \<notin> set attempt \<Longrightarrow> plain_path (staging_path ds attempt)"
  and staging_name_plain: "47 \<notin> set attempt \<Longrightarrow> plain_name (cps ''.staging-'' @ attempt)"
proof -
  show *: "plain_name (cps ''.staging-'' @ attempt)" if "47 \<notin> set attempt"
    using that by (auto simp: plain_name_def cps_def dot_def dotdot_def)
  show "plain_path (staging_path ds attempt)" if "plain_path ds" "47 \<notin> set attempt"
    using that * by (simp add: place_defs path_simps plain_name_cps)
qed

lemma stage_commit_frame:
  assumes "plain_path ds" "47 \<notin> set attempt" "\<forall>nb \<in> set files. plain_name (fst nb)"
    "\<And>p. under (staging_path ds attempt) p \<Longrightarrow> S p"
  shows "triple (frame S f0) (\<lambda>_. True) (stage_commit ds attempt files) (\<lambda>s _. s = staging_path ds attempt)"
proof -
  let ?s = "staging_path ds attempt"
  have s: "join_path (commits_path ds) (cps ''.staging-'' @ attempt) = ?s"
    using staging_name_plain[OF assms(2)] by (simp add: staging_path_def path_simps)
  have plain: "plain_path ?s" by (rule staging_plain[OF assms(1,2)])
  have one: "triple (frame S f0) (\<lambda>_. True) ((\<lambda>(name, blob). write_file (join_path ?s name) blob) nb) (\<lambda>_ _. True)"
    if "nb \<in> set files" for nb
  proof (cases nb)
    case (Pair n b)
    then have n: "plain_name n" using assms(3) that by fastforce
    then have "plain_path (?s @ [n])" "S (?s @ [n])" using plain assms(4) by (simp_all add: path_simps)
    then have "triple (frame S f0) (\<lambda>_. True) (write_file (?s @ [n]) b) (\<lambda>_ _. True)"
      by (intro triple_weaken[OF frame_write_file]) auto
    then show ?thesis using Pair n by (simp add: path_simps)
  qed
  have tail: "triple (frame S f0) (\<lambda>f. f ?s = Some Dir)
      (bindIO (eachIO (\<lambda>(name, blob). write_file (join_path ?s name) blob) files) (\<lambda>_. returnIO ?s)) (\<lambda>s _. s = ?s)"
    by (rule triple_bind[OF triple_weaken[OF triple_each[OF one]]]) (auto intro: triple_return)
  show ?thesis unfolding stage_commit_def Let_def s by (rule triple_bind[OF frame_make_dirs[OF plain] tail])
qed

lemma publish_commit_frame:
  assumes "plain_path ds" "47 \<notin> set attempt" "hex_digest h"
    "\<And>p. under (staging_path ds attempt) p \<Longrightarrow> S p" "\<And>p. f0 (commit_path ds h) = None \<Longrightarrow> under (commit_path ds h) p \<Longrightarrow> S p"
    "\<not> S (commit_path ds h) \<or> f0 (commit_path ds h) = None"
  shows "triple (frame S f0) (\<lambda>_. True) (publish_commit (staging_path ds attempt) (commits_path ds) h) (\<lambda>d _. d = commit_path ds h)"
proof -
  have plain: "plain_path (staging_path ds attempt)" "plain_path (commit_path ds h)" "plain_path (staging_path ds attempt @ [cps ''COMMITTED''])"
    using staging_plain[OF assms(1,2)] assms(1,3) by (simp_all add: path_simps plain_name_cps hex_digest_plain commit_path_def commits_path_def)
  have target: "join_path (commits_path ds) h = commit_path ds h"
    using assms(3) by (simp add: path_simps hex_digest_plain commit_path_def)
  have rename: "triple (frame S f0) (\<lambda>_. True) (rename_dir (staging_path ds attempt) (commit_path ds h)) (\<lambda>_ _. True)"
    by (rule frame_rename_dir[OF plain(1,2)]) (use assms(4-6) in auto)
  have mark: "triple (frame S f0) (\<lambda>_. True) (write_file (staging_path ds attempt @ [cps ''COMMITTED'']) []) (\<lambda>_ _. True)"
    using assms(4) by (intro triple_weaken[OF frame_write_file[OF plain(3)]]) auto
  show ?thesis unfolding publish_commit_def Let_def target
    by (rule triple_bind[OF triple_look triple_bind[OF mark triple_bind[OF triple_catch[OF rename]]]])
      (auto intro: triple_raise triple_return)
qed

text \<open>While the pointer is replaced, the state is the old one up to the temporary file, or the new
  pointer is in place.\<close>

definition pointing :: "path \<Rightarrow> ustr \<Rightarrow> fs \<Rightarrow> fs \<Rightarrow> bool" where
  "pointing ds txt f0 g \<longleftrightarrow> frame (\<lambda>p. p = current_tmp ds \<or> p = current_path ds) f0 g \<and> g (current_path ds) = Some (File txt)"

lemma write_current_triple:
  assumes "plain_path ds" "tree_ok f0"
  shows "triple (\<lambda>g. frame (\<lambda>p. p = current_tmp ds) f0 g \<or> pointing ds (pointer_text h m) f0 g)
    (frame (\<lambda>p. p = current_tmp ds) f0) (write_current ds h m) (\<lambda>_. pointing ds (pointer_text h m) f0)"
proof -
  let ?F = "frame (\<lambda>p. p = current_tmp ds) f0" and ?T = "pointer_text h m"
  let ?I = "\<lambda>g. ?F g \<or> pointing ds ?T f0 g"
  have tree: "?I f \<Longrightarrow> tree_ok f" for f by (auto simp: pointing_def intro: frame_tree)
  have plain: "plain_path (current_tmp ds)" "plain_path (current_path ds)"
    using assms(1) by (simp_all add: place_defs path_simps plain_name_cps)
  have ne: "current_tmp ds \<noteq> current_path ds" by (simp add: place_defs)
  have dirs: "triple ?I ?F (make_dirs ds) (\<lambda>_ f. ?F f \<and> f ds = Some Dir)"
    by (rule triple_make_dirs[OF tree assms(1)])
      (auto intro: frame_leaf[OF _ plain_path_ok[OF plain_path_take[OF assms(1)]]])
  have wr: "triple ?I (\<lambda>f. ?F f \<and> f ds = Some Dir) (write_file (current_tmp ds) ?T) (\<lambda>_ f. ?F f \<and> f (current_tmp ds) = Some (File ?T))"
    by (rule triple_write_file[OF tree plain(1)])
      (auto intro: frame_leaf[OF _ plain_path_ok[OF plain(1)]])
  have rep: "triple ?I (\<lambda>f. ?F f \<and> f (current_tmp ds) = Some (File ?T)) (replace_file (current_tmp ds) (current_path ds)) (\<lambda>_. pointing ds ?T f0)"
  proof (rule triple_replace_file[OF plain tree])
    fix f b
    assume f: "?F f \<and> f (current_tmp ds) = Some (File ?T)" "f (current_tmp ds) = Some (File b)" "f (current_path ds) \<noteq> Some Dir"
      "locate f [] (current_path ds) = Some (current_path ds)"
    then have "tree_ok ((f(current_tmp ds := None))(current_path ds \<mapsto> File b))"
      by (intro tree_ok_replace plain frame_tree[of "\<lambda>p. p = current_tmp ds" f0]) auto
    then have "pointing ds ?T f0 ((f(current_tmp ds := None))(current_path ds \<mapsto> File b))"
      using f ne by (auto simp: pointing_def frame_def)
    then show "?I ((f(current_tmp ds := None))(current_path ds \<mapsto> File b)) \<and> pointing ds ?T f0 ((f(current_tmp ds := None))(current_path ds \<mapsto> File b))"
      by blast
  qed
  show ?thesis unfolding write_current_def current_tmp_def[symmetric] current_path_def[symmetric]
    by (rule triple_bind[OF dirs triple_bind[OF wr rep]])
qed

section \<open>The reader sees whole commits\<close>

definition sha_hex :: "(bytes \<Rightarrow> string) \<Rightarrow> bool" where
  "sha_hex sha \<longleftrightarrow> (\<forall>b. hex_digest (cps (sha b)))"

lemma load_json_same: "node_at g p = node_at f p \<Longrightarrow> load_json e p g = load_json e p f"
  by (simp add: load_json_def read_text_def read_bytes_def)

lemma check_ref_kept:
  assumes "check_ref sha data f kd = Inr ()" "sha_hex sha" "plain_path data" "tree_ok f" "frame S f g"
    "\<And>p. object_place data p \<Longrightarrow> \<not> S p"
  shows "check_ref sha data g kd = Inr ()"
proof -
  obtain k d where kd: "kd = (k, d)" by (cases kd)
  have k: "k \<in> cps ` set OBJECT_KINDS"
    using assms(1) by (auto simp: check_ref_def kd object_path_def split: if_splits)
  obtain b where "read_bytes (join_path (object_dir data k) d) f = Inr b" "cps (sha b) = d"
    using assms(1) k by (auto simp: check_ref_def kd object_path_def res_simps)
  then have d: "hex_digest d" using assms(2) by (auto simp: sha_hex_def)
  let ?p = "object_dir data k @ [d]"
  have join: "join_path (object_dir data k) d = ?p" using d by (simp add: path_simps hex_digest_plain)
  have plain: "plain_path ?p" using object_dir_plain[OF assms(3) k] d by (simp add: path_simps hex_digest_plain)
  have "f ?p \<noteq> None" using \<open>read_bytes _ f = Inr b\<close> node_at_plain[OF assms(4) plain]
    by (auto simp: read_bytes_def join split: option.splits)
  moreover have "\<not> S ?p" using assms(6) k d by (auto simp: object_place_def)
  ultimately have "g ?p = f ?p" using frame_keeps[OF assms(5)] by blast
  then have "node_at g ?p = node_at f ?p"
    using node_at_plain[OF assms(4) plain] node_at_plain[OF frame_tree[OF assms(5)] plain] by simp
  with assms(1) k join show ?thesis
    by (simp add: check_ref_def kd object_path_def read_bytes_def path_exists_def)
qed

lemma verify_kept:
  assumes "verify_commit_graph sha data dir f = Inr c" "sha_hex sha" "plain_path data" "plain_path dir" "tree_ok f" "frame S f g"
    "\<And>p. object_place data p \<Longrightarrow> \<not> S p" "\<not> S (dir @ [cps ''COMMITTED''])" "\<not> S (dir @ [cps ''content.json''])"
  shows "verify_commit_graph sha data dir g = Inr c"
proof -
  have same: "node_at g (dir @ [cps n]) = node_at f (dir @ [cps n])"
    if "plain_name (cps n)" "\<not> S (dir @ [cps n])" "path_exists f (dir @ [cps n])" for n
  proof -
    have p: "plain_path (dir @ [cps n])" using assms(4) that(1) by (simp add: path_simps)
    show ?thesis
      using that frame_keeps[OF assms(6) that(2)] node_at_plain[OF assms(5) p] node_at_plain[OF frame_tree[OF assms(6)] p]
      by (simp add: path_exists_def)
  qed
  have ex: "path_exists f (dir @ [cps ''COMMITTED''])" "path_exists f (dir @ [cps ''content.json''])"
    using assms(1) by (simp_all add: verify_commit_graph_def res_simps)
  note n = same[of "''COMMITTED''", OF _ assms(8) ex(1)] same[of "''content.json''", OF _ assms(9) ex(2)]
  obtain doc where doc: "load_json PublicationError (dir @ [cps ''content.json'']) f = Inr (PyDict doc)"
    and refs: "bindE (object_refs doc) (\<lambda>refs. bindE (mapE (check_ref sha data f) refs) (\<lambda>_. Inr doc)) = Inr c"
  proof -
    obtain v where "load_json PublicationError (dir @ [cps ''content.json'']) f = Inr v"
      using assms(1) by (auto simp: verify_commit_graph_def res_simps)
    then show thesis using assms(1) that ex by (cases v) (auto simp: verify_commit_graph_def res_simps)
  qed
  then obtain rs us where r: "object_refs doc = Inr rs" "mapE (check_ref sha data f) rs = Inr us" "c = doc"
    by (auto simp: res_simps)
  have "mapE (check_ref sha data g) rs = Inr us"
    using r(2) check_ref_kept[OF _ assms(2,3,5-7)] unfolding mapE_Inr_iff
    by (auto elim!: list_all2_mono)
  then show ?thesis
    using n ex doc r load_json_same[OF n(2)]
    by (simp add: verify_commit_graph_def path_exists_def plain_name_cps bindE_checkE)
qed

text \<open>The commit that current.json names.\<close>

definition current_commit :: "path \<Rightarrow> fs \<Rightarrow> ustr option" where
  "current_commit ds f = (case load_json InvalidPointer (current_path ds) f of
     Inr (PyDict pointer) \<Rightarrow> (case map_of pointer (cps ''commit'') of Some (PyStr c) \<Rightarrow> Some c | _ \<Rightarrow> None)
   | _ \<Rightarrow> None)"

lemma read_current_iff:
  "read_and_verify_current sha ds data f = Inr d \<longleftrightarrow>
     (\<exists>c content. path_exists f (current_path ds) \<and> current_commit ds f = Some c \<and> c \<noteq> [] \<and> is_dir f (join_path (commits_path ds) c)
        \<and> verify_commit_graph sha data (join_path (commits_path ds) c) f = Inr content \<and> d = with_commit (PyStr c) content)"
  by (auto simp: read_and_verify_current_def current_commit_def current_path_def res_simps Let_def
      split: sum.splits pyval.splits option.splits)

lemma reader_kept:
  assumes "read_and_verify_current sha ds data f = Inr d" "current_commit ds f = Some c" "hex_digest c"
    "sha_hex sha" "layout_ok data ds" "tree_ok f" "frame S f g" "\<And>p. object_place data p \<Longrightarrow> \<not> S p"
    "\<not> S (current_path ds)" "\<And>p. under (commit_path ds c) p \<Longrightarrow> \<not> S p"
  shows "read_and_verify_current sha ds data g = Inr d"
proof -
  have join: "join_path (commits_path ds) c = commit_path ds c"
    using assms(3) by (simp add: path_simps hex_digest_plain commit_path_def)
  have plain: "plain_path (current_path ds)" "plain_path (commit_path ds c)"
    using layout_plain(1)[OF assms(5)] assms(3) by (simp_all add: place_defs path_simps plain_name_cps hex_digest_plain)
  obtain content where r: "path_exists f (current_path ds)" "is_dir f (commit_path ds c)"
      "verify_commit_graph sha data (commit_path ds c) f = Inr content" "d = with_commit (PyStr c) content"
    using assms(1,2) join by (auto simp: read_current_iff)
  have same: "node_at g p = node_at f p" if "plain_path p" "\<not> S p" "node_at f p \<noteq> None" for p
    using that frame_keeps[OF assms(7) that(2)] node_at_plain[OF assms(6) that(1)] node_at_plain[OF frame_tree[OF assms(7)] that(1)]
    by simp
  have cur: "node_at g (current_path ds) = node_at f (current_path ds)"
    using same[OF plain(1) assms(9)] r(1) by (simp add: path_exists_def)
  then have "current_commit ds g = Some c" using assms(2) load_json_same[OF cur] by (simp add: current_commit_def)
  moreover have "\<not> S (commit_path ds c)" using assms(10) under_append[of "commit_path ds c" "[]"] by simp
  then have "is_dir g (commit_path ds c)" using same[OF plain(2)] r(2) by (simp add: is_dir_def)
  moreover have "verify_commit_graph sha data (commit_path ds c) g = Inr content"
    using assms(10) by (intro verify_kept[OF r(3) assms(4) layout_plain(2)[OF assms(5)] plain(2) assms(6,7,8)]) auto
  ultimately show ?thesis using r cur join assms(3) by (auto simp: read_current_iff path_exists_def hex_digest_def)
qed

lemma hex_digest_scalar: "hex_digest d \<Longrightarrow> c \<in> set d \<Longrightarrow> scalar_value c"
  by (auto simp: hex_digest_def list_all_iff is_lower_hex_def scalar_value_def is_surrogate_def)

lemma utf8_ascii: "\<forall>b \<in> set s. b < 128 \<Longrightarrow> utf8_decode s = Inr s"
  by (induction s) auto

lemma newlines_same: "13 \<notin> set s \<Longrightarrow> newlines s = s"
  by (induction s rule: newlines.induct) auto

definition printable_plain :: "nat \<Rightarrow> bool" where
  "printable_plain c \<longleftrightarrow> 32 \<le> c \<and> c \<le> 126 \<and> c \<noteq> 34 \<and> c \<noteq> 92"

lemma dumps_char_plain: "printable_plain c \<Longrightarrow> dumps_char c = [c]"
proof -
  assume c: "printable_plain c"
  then have "string_escape c = None" by (simp add: string_escape_def printable_plain_def)
  with c show ?thesis by (simp add: dumps_char_def printable_plain_def)
qed

lemma dumps_string_plain: "\<forall>c \<in> set s. printable_plain c \<Longrightarrow> dumps_string s = 34 # s @ [34]"
proof -
  assume "\<forall>c \<in> set s. printable_plain c"
  then have "map dumps_char s = map (\<lambda>c. [c]) s" by (simp add: dumps_char_plain)
  moreover have "concat (map (\<lambda>c. [c]) s) = s" by (induction s) auto
  ultimately show ?thesis by (simp only: dumps_string_def)
qed

lemma hex_printable: "hex_digest h \<Longrightarrow> \<forall>c \<in> set h. printable_plain c"
  by (auto simp: hex_digest_def list_all_iff is_lower_hex_def printable_plain_def)

lemma keys_printable:
  "\<forall>c \<in> set (cps ''publication_protocol_version''). printable_plain c" "\<forall>c \<in> set (cps PUBLICATION_PROTOCOL_VERSION). printable_plain c"
  "\<forall>c \<in> set (cps ''commit''). printable_plain c" "\<forall>c \<in> set (cps ''manifest_sha256''). printable_plain c"
  by (simp_all add: cps_def PUBLICATION_PROTOCOL_VERSION_def printable_plain_def)

lemma pointer_text_ascii:
  assumes "hex_digest h" "hex_digest m"
  shows "\<forall>b \<in> set (pointer_text h m). b < 128 \<and> b \<noteq> 13"
proof -
  let ?kts = "[(cps ''publication_protocol_version'', cps PUBLICATION_PROTOCOL_VERSION), (cps ''commit'', h), (cps ''manifest_sha256'', m)]"
  have pl: "\<forall>kt \<in> set ?kts. (\<forall>c \<in> set (fst kt). printable_plain c) \<and> (\<forall>c \<in> set (snd kt). printable_plain c)"
    using keys_printable hex_printable[OF assms(1)] hex_printable[OF assms(2)] by simp
  have str: "b < 128 \<and> b \<noteq> 13" if "\<forall>c \<in> set x. printable_plain c" "b \<in> set (dumps_string x)" for x b
  proof -
    have "b = 34 \<or> printable_plain b" using that by (auto simp only: dumps_string_plain set_simps set_append Un_iff insert_iff empty_iff)
    then show ?thesis by (elim disjE) (simp_all add: printable_plain_def)
  qed
  have items: "\<forall>x \<in> set (map (\<lambda>(k, t). [10, 32, 32] @ dumps_string k @ [58, 32] @ dumps_string t) (sort_key fst ?kts)).
      \<forall>b \<in> set x. b < 128 \<and> b \<noteq> 13"
  proof (intro ballI)
    fix x b
    assume "x \<in> set (map (\<lambda>(k, t). [10, 32, 32] @ dumps_string k @ [58, 32] @ dumps_string t) (sort_key fst ?kts))" "b \<in> set x"
    then obtain kt where kt: "kt \<in> set ?kts" "b \<in> set ([10, 32, 32] @ dumps_string (fst kt) @ [58, 32] @ dumps_string (snd kt))"
      by (auto simp only: set_map set_sort image_iff case_prod_unfold)
    then have "b \<in> {10, 32, 58} \<or> b \<in> set (dumps_string (fst kt)) \<or> b \<in> set (dumps_string (snd kt))" by auto
    then show "b < 128 \<and> b \<noteq> 13"
      using str[of "fst kt" b] str[of "snd kt" b] bspec[OF pl kt(1)] by auto
  qed
  show ?thesis unfolding pointer_text_def dumps_indent2_def
    using items set_join[of "[44]" "map (\<lambda>(k, t). [10, 32, 32] @ dumps_string k @ [58, 32] @ dumps_string t) (sort_key fst ?kts)"]
    by fastforce
qed

lemma pointer_text_read:
  assumes "hex_digest h" "hex_digest m" "g (current_path ds) = Some (File (pointer_text h m))" "tree_ok g" "plain_path ds"
  shows "current_commit ds g = Some h"
proof -
  let ?kts = "[(cps ''publication_protocol_version'', cps PUBLICATION_PROTOCOL_VERSION), (cps ''commit'', h), (cps ''manifest_sha256'', m)]"
  have keys: "distinct (map fst ?kts)" by simp
  have plain: "plain_items ?kts"
    using assms(1,2) keys hex_digest_scalar
    by (auto simp: plain_items_def PUBLICATION_PROTOCOL_VERSION_def cps_def scalar_value_def is_surrogate_def)
  have "plain_path (current_path ds)" using assms(5) by (simp add: place_defs path_simps plain_name_cps)
  then have "node_at g (current_path ds) = Some (File (pointer_text h m))" using node_at_plain[OF assms(4)] assms(3) by simp
  then have "read_text (current_path ds) g = Inr (pointer_text h m)"
    using pointer_text_ascii[OF assms(1,2)] utf8_ascii[of "pointer_text h m"] newlines_same[of "pointer_text h m"]
    by (auto simp: read_text_def read_bytes_def)
  then have "load_json InvalidPointer (current_path ds) g = Inr (PyDict (map (\<lambda>kt. (fst kt, PyStr (snd kt))) (sort_key fst ?kts)))"
    using json_loads_indent[OF _ plain] by (simp add: load_json_def pointer_text_def)
  moreover have "distinct (map fst (map (\<lambda>kt. (fst kt, PyStr (snd kt))) (sort_key fst ?kts)))"
    using keys by (simp add: comp_def distinct_map)
  then have "map_of (map (\<lambda>kt. (fst kt, PyStr (snd kt))) (sort_key fst ?kts)) (cps ''commit'') = Some (PyStr h)"
    by (rule map_of_is_SomeI) auto
  ultimately show ?thesis by (simp add: current_commit_def)
qed

lemma pointing_reads:
  assumes "pointing ds (pointer_text h m) f g" "verify_commit_graph sha data (commit_path ds h) f = Inr content"
    "f (commit_path ds h) = Some Dir" "hex_digest h" "hex_digest m" "sha_hex sha" "layout_ok data ds" "tree_ok f"
  shows "read_and_verify_current sha ds data g = Inr (with_commit (PyStr h) content)"
proof -
  let ?S = "\<lambda>p. p = current_tmp ds \<or> p = current_path ds"
  have frame: "frame ?S f g" and cur: "g (current_path ds) = Some (File (pointer_text h m))"
    using assms(1) by (simp_all add: pointing_def)
  have tree: "tree_ok g" by (rule frame_tree[OF frame])
  have plain: "plain_path ds" "plain_path data" "plain_path (commit_path ds h)" "plain_path (current_path ds)"
    using layout_plain[OF assms(7)] assms(4) by (simp_all add: place_defs path_simps plain_name_cps hex_digest_plain)
  have join: "join_path (commits_path ds) h = commit_path ds h"
    using assms(4) by (simp add: path_simps hex_digest_plain commit_path_def)
  have obj: "\<not> ?S p" if "object_place data p" for p
    using object_not_in_dataset[OF assms(7) that, of "[cps ''current.json.tmp'']"]
      object_not_in_dataset[OF assms(7) that, of "[cps ''current.json'']"] by (auto simp: place_defs)
  have out: "\<not> ?S (commit_path ds h @ q)" for q
    by (auto simp: place_defs dest: arg_cong[where f = length])
  have "verify_commit_graph sha data (commit_path ds h) g = Inr content"
    using obj out by (intro verify_kept[OF assms(2,6) plain(2,3) assms(8) frame]) auto
  moreover have "g (commit_path ds h) = Some Dir"
    using frame_keeps[OF frame] out[of "[]"] assms(3) by fastforce
  moreover have "current_commit ds g = Some h" by (rule pointer_text_read[OF assms(4,5) cur tree plain(1)])
  ultimately show ?thesis
    using cur node_at_plain[OF tree plain(3)] node_at_plain[OF tree plain(4)] join assms(4)
    by (auto simp: read_current_iff path_exists_def is_dir_def hex_digest_def)
qed

section \<open>A whole publication\<close>

lemma triple_from:
  assumes "\<And>f. I f \<Longrightarrow> P f \<Longrightarrow> \<exists>J R. triple J (\<lambda>g. g = f) m R \<and> J f \<and> (\<forall>g. J g \<longrightarrow> I g) \<and> (\<forall>x g. R x g \<longrightarrow> Q x g)"
  shows "triple I P m Q"
proof (rule tripleI)
  fix f assume f: "I f" "P f"
  then obtain J R where J: "triple J (\<lambda>g. g = f) m R" "J f" "\<forall>g. J g \<longrightarrow> I g" "\<forall>x g. R x g \<longrightarrow> Q x g"
    using assms by blast
  show "(\<forall>g \<in> set (snd (m f)). I g) \<and> (\<forall>x. fst (m f) = Inr x \<longrightarrow> Q x (end_state f (snd (m f))))"
    using tripleD[OF J(1,2) refl surjective_pairing] J(3,4) by blast
qed

text \<open>The part of the dataset directory a publication writes before the pointer moves.\<close>

definition publishing_area :: "path \<Rightarrow> ustr \<Rightarrow> ustr \<Rightarrow> fs \<Rightarrow> path \<Rightarrow> bool" where
  "publishing_area ds attempt h f0 p \<longleftrightarrow> under (staging_path ds attempt) p
     \<or> f0 (commit_path ds h) = None \<and> under (commit_path ds h) p \<or> p = current_tmp ds"

definition published :: "(bytes \<Rightarrow> string) \<Rightarrow> path \<Rightarrow> path \<Rightarrow> ustr \<Rightarrow> ustr \<Rightarrow> fs \<Rightarrow> fs \<Rightarrow> bool" where
  "published sha data ds attempt h f0 g \<longleftrightarrow> (\<exists>f1 m content. frame (publishing_area ds attempt h f0) f0 f1 \<and> hex_digest m
     \<and> verify_commit_graph sha data (commit_path ds h) f1 = Inr content \<and> pointing ds (pointer_text h m) f1 g)"

lemma publish_dataset_triple:
  assumes "sha_hex sha" "layout_ok data ds" "47 \<notin> set attempt" "hex_digest h" "\<forall>nb \<in> set files. plain_name (fst nb)"
  defines "S \<equiv> publishing_area ds attempt h"
  shows "triple (\<lambda>g. frame (S f0) f0 g \<or> published sha data ds attempt h f0 g) (frame (S f0) f0)
    (publish_dataset sha ds data attempt files h manifest evidence approval)
    (\<lambda>r g. \<forall>c. r = Some c \<longrightarrow> published sha data ds attempt h f0 g \<and> read_and_verify_current sha ds data g = Inr c)"
proof -
  let ?F = "frame (S f0) f0" and ?N = "published sha data ds attempt h f0"
  let ?I = "\<lambda>g. ?F g \<or> ?N g"
  let ?R = "\<lambda>r g. \<forall>c. r = Some c \<longrightarrow> ?N g \<and> read_and_verify_current sha ds data g = Inr c"
  have ds: "plain_path ds" by (rule layout_plain(1)[OF assms(2)])
  have join: "join_path (commits_path ds) h = commit_path ds h"
    using assms(4) by (simp add: path_simps hex_digest_plain commit_path_def)
  have keep: "triple ?I ?F m Q" if "triple ?F (\<lambda>_. True) m Q'" "\<And>x g. ?F g \<Longrightarrow> Q' x g \<Longrightarrow> Q x g"
    for m :: "'z io" and Q Q'
  proof (rule triple_from)
    fix f assume "?F f"
    then show "\<exists>J R. triple J (\<lambda>g. g = f) m R \<and> J f \<and> (\<forall>g. J g \<longrightarrow> ?I g) \<and> (\<forall>x g. R x g \<longrightarrow> Q x g)"
      using that by (intro exI[of _ ?F] exI[of _ "\<lambda>x g. ?F g \<and> Q' x g"]) (auto intro: triple_weaken)
  qed
  have stage: "triple ?I ?F (stage_commit ds attempt files) (\<lambda>s g. s = staging_path ds attempt \<and> ?F g)"
    by (rule keep[OF stage_commit_frame[OF ds assms(3,5)]]) (auto simp: S_def publishing_area_def)
  let ?C = "\<lambda>found (g::fs). \<forall>x. found = Some x \<longrightarrow> fst x = commit_path ds h"
  have pub: "triple ?F (\<lambda>_. True) (bindIO (publish_commit (staging_path ds attempt) (commits_path ds) h) (\<lambda>d. returnIO (Some (d, manifest)))) ?C"
  proof (rule triple_bind[OF publish_commit_frame[OF ds assms(3,4)]])
    show "S f0 p" if "under (staging_path ds attempt) p" for p using that by (simp add: S_def publishing_area_def)
    show "S f0 p" if "f0 (commit_path ds h) = None" "under (commit_path ds h) p" for p
      using that by (simp add: S_def publishing_area_def)
    have "\<not> under (staging_path ds attempt) (commit_path ds h)" "commit_path ds h \<noteq> current_tmp ds"
      using assms(4) by (auto simp: place_defs under_def hex_digest_def is_lower_hex_def cps_def)
    then show "\<not> S f0 (commit_path ds h) \<or> f0 (commit_path ds h) = None" by (auto simp: S_def publishing_area_def)
  qed (auto intro: triple_return)
  have rec: "triple ?F (\<lambda>_. True)
      (bindIO (lookIO (\<lambda>f. if is_dir f (commit_path ds h)
              then existing_commit_matches sha data (commit_path ds h) evidence (Some (map fst evidence)) f else Inr False)) (\<lambda>ok.
           if \<not> ok then returnIO None
           else bindIO (lookIO (\<lambda>f. Inr (approval_retained sha (commit_path ds h) approval f))) (\<lambda>approved.
           if \<not> approved then returnIO None
           else bindIO (lookIO (read_bytes (commit_path ds h @ [cps ''manifest.json'']))) (\<lambda>m. returnIO (Some (commit_path ds h, m)))))) ?C"
  proof -
    let ?T = "\<lambda>_ _. True"
    have manifest: "triple ?F (\<lambda>_. True)
        (bindIO (lookIO (read_bytes (commit_path ds h @ [cps ''manifest.json'']))) (\<lambda>m. returnIO (Some (commit_path ds h, m)))) ?C"
      by (rule triple_bind[OF triple_look[where Q = ?T]]) (auto intro: triple_return)
    have approved: "triple ?F (\<lambda>_. True) (if \<not> approved then returnIO None
        else bindIO (lookIO (read_bytes (commit_path ds h @ [cps ''manifest.json'']))) (\<lambda>m. returnIO (Some (commit_path ds h, m)))) ?C" for approved
      using manifest by (cases approved) (auto intro: triple_return)
    have ok: "triple ?F (\<lambda>_. True) (if \<not> ok then returnIO None
        else bindIO (lookIO (\<lambda>f. Inr (approval_retained sha (commit_path ds h) approval f))) (\<lambda>approved.
          if \<not> approved then returnIO None
          else bindIO (lookIO (read_bytes (commit_path ds h @ [cps ''manifest.json'']))) (\<lambda>m. returnIO (Some (commit_path ds h, m))))) ?C" for ok
      using triple_bind[OF triple_look[where Q = ?T] approved] by (cases ok) (auto intro: triple_return)
    show ?thesis by (rule triple_bind[OF triple_look[where Q = ?T] ok]) simp
  qed
  let ?step = "catchIO (bindIO (publish_commit (staging_path ds attempt) (commits_path ds) h) (\<lambda>d. returnIO (Some (d, manifest))))
      is_quantara_error
      (\<lambda>_. bindIO (lookIO (\<lambda>f. if is_dir f (commit_path ds h)
              then existing_commit_matches sha data (commit_path ds h) evidence (Some (map fst evidence)) f else Inr False)) (\<lambda>ok.
           if \<not> ok then returnIO None
           else bindIO (lookIO (\<lambda>f. Inr (approval_retained sha (commit_path ds h) approval f))) (\<lambda>approved.
           if \<not> approved then returnIO None
           else bindIO (lookIO (read_bytes (commit_path ds h @ [cps ''manifest.json'']))) (\<lambda>m. returnIO (Some (commit_path ds h, m))))))"
  have commit: "triple ?I ?F ?step (\<lambda>found g. ?C found g \<and> ?F g)"
    by (rule keep[OF triple_catch[OF pub rec]]) simp
  have point: "triple ?I (\<lambda>g. verify_commit_graph sha data (commit_path ds h) g = Inr content \<and> ?F g)
      (write_current ds h (cps (sha m))) (\<lambda>_. ?N)" for content m
  proof (rule triple_from)
    fix f assume f: "verify_commit_graph sha data (commit_path ds h) f = Inr content \<and> ?F f"
    let ?J = "\<lambda>g. frame (\<lambda>p. p = current_tmp ds) f g \<or> pointing ds (pointer_text h (cps (sha m))) f g"
    have tree: "tree_ok f" using f by (blast intro: frame_tree)
    have "triple ?J (\<lambda>g. g = f) (write_current ds h (cps (sha m))) (\<lambda>_. pointing ds (pointer_text h (cps (sha m))) f)"
      by (rule triple_weaken[OF write_current_triple[OF ds tree]]) (auto intro: frame_refl[OF tree])
    moreover have "?N g" if "pointing ds (pointer_text h (cps (sha m))) f g" for g
      using that f assms(1) unfolding published_def S_def sha_hex_def by blast
    moreover have "?F g" if "frame (\<lambda>p. p = current_tmp ds) f g" for g
      by (rule frame_trans[of _ _ f, OF _ that]) (use f in \<open>auto simp: S_def publishing_area_def\<close>)
    ultimately show "\<exists>J R. triple J (\<lambda>g. g = f) (write_current ds h (cps (sha m))) R \<and> J f \<and> (\<forall>g. J g \<longrightarrow> ?I g) \<and> (\<forall>x g. R x g \<longrightarrow> ?N g)"
      using frame_refl[OF tree] by (intro exI[of _ ?J] exI[of _ "\<lambda>_. pointing ds (pointer_text h (cps (sha m))) f"]) blast
  qed
  have read: "triple ?I ?N (bindIO (lookIO (read_and_verify_current sha ds data)) (\<lambda>c. returnIO (Some c))) ?R"
    by (rule triple_bind[OF triple_look[where Q = "\<lambda>c g. ?N g \<and> read_and_verify_current sha ds data g = Inr c"]])
      (auto intro: triple_return)
  have tail: "triple ?I (\<lambda>g. ?C found g \<and> ?F g) (case found of None \<Rightarrow> returnIO None | Some (commit_dir, m) \<Rightarrow>
            bindIO (lookIO (verify_commit_graph sha data commit_dir)) (\<lambda>_.
            bindIO (write_current ds h (cps (sha m))) (\<lambda>_.
            bindIO (lookIO (read_and_verify_current sha ds data)) (\<lambda>c. returnIO (Some c))))) ?R" for found
  proof (rule triple_pure[where A = "\<forall>x. found = Some x \<longrightarrow> fst x = commit_path ds h"])
    assume f: "\<forall>x. found = Some x \<longrightarrow> fst x = commit_path ds h"
    show "triple ?I (\<lambda>g. ?C found g \<and> ?F g) (case found of None \<Rightarrow> returnIO None | Some (commit_dir, m) \<Rightarrow>
            bindIO (lookIO (verify_commit_graph sha data commit_dir)) (\<lambda>_.
            bindIO (write_current ds h (cps (sha m))) (\<lambda>_.
            bindIO (lookIO (read_and_verify_current sha ds data)) (\<lambda>c. returnIO (Some c))))) ?R"
    proof (cases found)
      case None
      then show ?thesis by (auto intro: triple_return)
    next
      case (Some x)
      then obtain m where "found = Some (commit_path ds h, m)" using f by (cases x) auto
      moreover have "triple ?I (\<lambda>g. ?C found g \<and> ?F g) (lookIO (verify_commit_graph sha data (commit_path ds h)))
          (\<lambda>content g. verify_commit_graph sha data (commit_path ds h) g = Inr content \<and> ?F g)"
        by (rule triple_look) auto
      ultimately show ?thesis
        by (simp only: option.case prod.case) (rule triple_bind[OF _ triple_bind[OF point read]])
    qed
  qed blast
  have commit': "triple ?I (\<lambda>g. s = staging_path ds attempt \<and> ?F g)
      (catchIO (bindIO (publish_commit s (commits_path ds) h) (\<lambda>d. returnIO (Some (d, manifest))))
      is_quantara_error
      (\<lambda>_. bindIO (lookIO (\<lambda>f. if is_dir f (commit_path ds h)
              then existing_commit_matches sha data (commit_path ds h) evidence (Some (map fst evidence)) f else Inr False)) (\<lambda>ok.
           if \<not> ok then returnIO None
           else bindIO (lookIO (\<lambda>f. Inr (approval_retained sha (commit_path ds h) approval f))) (\<lambda>approved.
           if \<not> approved then returnIO None
           else bindIO (lookIO (read_bytes (commit_path ds h @ [cps ''manifest.json'']))) (\<lambda>m. returnIO (Some (commit_path ds h, m)))))))
      (\<lambda>found g. ?C found g \<and> ?F g)" for s
    by (rule triple_pure[where A = "s = staging_path ds attempt"]) (auto intro: triple_weaken[OF commit])
  show ?thesis unfolding publish_dataset_def Let_def join
    by (rule triple_bind[OF stage triple_bind[OF commit' tail]])
qed

lemma area_facts:
  assumes "layout_ok data ds" "hex_digest h"
  shows "object_place data p \<Longrightarrow> \<not> publishing_area ds attempt h f0 p" "\<not> publishing_area ds attempt h f0 (current_path ds)"
    "hex_digest c \<Longrightarrow> c \<noteq> h \<or> f0 (commit_path ds h) \<noteq> None \<Longrightarrow> \<not> publishing_area ds attempt h f0 (commit_path ds c @ q)"
proof -
  have name: "c \<noteq> cps ''.staging-'' @ attempt" if "hex_digest c" for c
    using that by (auto simp: hex_digest_def is_lower_hex_def cps_def)
  show "\<not> publishing_area ds attempt h f0 p" if p: "object_place data p"
  proof
    assume "publishing_area ds attempt h f0 p"
    then obtain q where "ds @ q = p" "q \<noteq> []" "hd q \<noteq> cps ''objects''"
      by (auto simp: publishing_area_def place_defs elim!: underE)
    then show False by (rule object_not_in_dataset[OF assms(1) p])
  qed
  show "\<not> publishing_area ds attempt h f0 (current_path ds)"
    by (auto simp: publishing_area_def place_defs under_def)
  show "\<not> publishing_area ds attempt h f0 (commit_path ds c @ q)"
    if "hex_digest c" "c \<noteq> h \<or> f0 (commit_path ds h) \<noteq> None"
    using that name[OF that(1)] by (auto simp: publishing_area_def place_defs under_def)
qed

lemma published_reads:
  assumes "published sha data ds attempt h f0 g" "sha_hex sha" "layout_ok data ds" "hex_digest h"
  shows "tree_ok g \<and> objects_of data g = objects_of data f0 \<and> (\<exists>content. verify_commit_graph sha data (commit_path ds h) g = Inr content
      \<and> read_and_verify_current sha ds data g = Inr (with_commit (PyStr h) content))"
proof -
  let ?S = "\<lambda>p. p = current_tmp ds \<or> p = current_path ds"
  obtain f1 m content where f1: "frame (publishing_area ds attempt h f0) f0 f1" "hex_digest m"
      "verify_commit_graph sha data (commit_path ds h) f1 = Inr content" "pointing ds (pointer_text h m) f1 g"
    using assms(1) by (auto simp: published_def)
  have frame: "frame ?S f1 g" using f1(4) by (simp add: pointing_def)
  note tree = frame_tree[OF f1(1)]
  have plain: "plain_path data" "plain_path (commit_path ds h)"
    using layout_plain[OF assms(3)] assms(4) by (simp_all add: place_defs path_simps plain_name_cps hex_digest_plain)
  have "plain_path (commit_path ds h @ [cps ''COMMITTED''])" using plain by (simp add: path_simps plain_name_cps)
  then have "f1 (commit_path ds h @ [cps ''COMMITTED'']) \<noteq> None"
    using f1(3) node_at_plain[OF tree] by (auto simp: verify_commit_graph_def res_simps path_exists_def)
  then have dir: "f1 (commit_path ds h) = Some Dir" using tree_parent[OF tree] by blast
  have obj: "\<not> ?S p" if "object_place data p" for p
    using object_not_in_dataset[OF assms(3) that, of "[cps ''current.json.tmp'']"]
      object_not_in_dataset[OF assms(3) that, of "[cps ''current.json'']"] by (auto simp: place_defs)
  have "\<not> ?S (commit_path ds h @ q)" for q by (auto simp: place_defs dest: arg_cong[where f = length])
  then have "verify_commit_graph sha data (commit_path ds h) g = Inr content"
    using obj by (intro verify_kept[OF f1(3) assms(2) plain tree frame]) auto
  moreover have "read_and_verify_current sha ds data g = Inr (with_commit (PyStr h) content)"
    by (rule pointing_reads[OF f1(4,3) dir assms(4) f1(2) assms(2,3) tree])
  moreover have "objects_of data g = objects_of data f0"
    using objects_of_frame[OF frame obj] objects_of_frame[OF f1(1) area_facts(1)[OF assms(3,4)]] by simp
  ultimately show ?thesis using frame_tree[OF frame] by blast
qed

lemma publish_dataset_states:
  assumes "sha_hex sha" "layout_ok data ds" "tree_ok f" "47 \<notin> set attempt" "hex_digest h" "\<forall>nb \<in> set files. plain_name (fst nb)"
    "g \<in> set (snd (publish_dataset sha ds data attempt files h manifest evidence approval f))"
  shows "frame (publishing_area ds attempt h f) f g \<or> published sha data ds attempt h f g"
proof -
  have start: "frame (publishing_area ds attempt h f) f f" by (rule frame_refl[OF assms(3)])
  from tripleD[OF publish_dataset_triple[where files = files and ?f0.0 = f, OF assms(1,2,4,5,6)] disjI1[OF start] start surjective_pairing]
  show ?thesis using assms(7) by blast
qed

text \<open>C39: While a dataset is published, every state that a killed process can leave behind is a tree
  with the same objects, and a reader finds the commit it found before or the whole new one.\<close>

theorem publication_atomic:
  assumes "sha_hex sha" "layout_ok data ds" "tree_ok f" "47 \<notin> set attempt" "hex_digest h" "\<forall>nb \<in> set files. plain_name (fst nb)"
    "read_and_verify_current sha ds data f = Inr old" "current_commit ds f = Some c" "hex_digest c"
  shows "list_all (\<lambda>g. tree_ok g \<and> objects_of data g = objects_of data f
      \<and> (read_and_verify_current sha ds data g = Inr old
         \<or> (\<exists>content. verify_commit_graph sha data (commit_path ds h) g = Inr content
              \<and> read_and_verify_current sha ds data g = Inr (with_commit (PyStr h) content))))
    (snd (publish_dataset sha ds data attempt files h manifest evidence approval f))"
  unfolding list_all_iff
proof (intro ballI)
  fix g assume g: "g \<in> set (snd (publish_dataset sha ds data attempt files h manifest evidence approval f))"
  from publish_dataset_states[OF assms(1-6) g]
  show "tree_ok g \<and> objects_of data g = objects_of data f
      \<and> (read_and_verify_current sha ds data g = Inr old
         \<or> (\<exists>content. verify_commit_graph sha data (commit_path ds h) g = Inr content
              \<and> read_and_verify_current sha ds data g = Inr (with_commit (PyStr h) content)))"
  proof
    assume frame: "frame (publishing_area ds attempt h f) f g"
    have join: "join_path (commits_path ds) c = commit_path ds c" "plain_path (commit_path ds c)"
      using assms(9) layout_plain[OF assms(2)] by (simp_all add: path_simps hex_digest_plain place_defs plain_name_cps)
    then have "f (commit_path ds c) \<noteq> None"
      using assms(7,8) node_at_plain[OF assms(3)] by (auto simp: read_current_iff is_dir_def)
    then have "\<not> publishing_area ds attempt h f (commit_path ds c @ q)" for q
      using area_facts(3)[OF assms(2,5,9)] by metis
    then have "read_and_verify_current sha ds data g = Inr old"
      using area_facts[OF assms(2,5)]
      by (intro reader_kept[OF assms(7,8,9,1,2,3) frame]) (auto elim: underE)
    then show ?thesis
      using objects_of_frame[OF frame area_facts(1)[OF assms(2,5)]] frame_tree[OF frame] by simp
  qed (use published_reads[OF _ assms(1,2,5)] in blast)
qed

text \<open>The first publication of a dataset: in every state in between a reader fails or finds
  the whole new commit.\<close>

theorem first_publication_atomic:
  assumes "sha_hex sha" "layout_ok data ds" "tree_ok f" "47 \<notin> set attempt" "hex_digest h" "\<forall>nb \<in> set files. plain_name (fst nb)"
    "f (current_path ds) = None"
  shows "list_all (\<lambda>g. is_err (read_and_verify_current sha ds data g)
      \<or> (\<exists>content. verify_commit_graph sha data (commit_path ds h) g = Inr content
           \<and> read_and_verify_current sha ds data g = Inr (with_commit (PyStr h) content)))
    (snd (publish_dataset sha ds data attempt files h manifest evidence approval f))"
  unfolding list_all_iff
proof (intro ballI)
  fix g assume g: "g \<in> set (snd (publish_dataset sha ds data attempt files h manifest evidence approval f))"
  from publish_dataset_states[OF assms(1-6) g]
  show "is_err (read_and_verify_current sha ds data g)
      \<or> (\<exists>content. verify_commit_graph sha data (commit_path ds h) g = Inr content
           \<and> read_and_verify_current sha ds data g = Inr (with_commit (PyStr h) content))"
  proof
    assume frame: "frame (publishing_area ds attempt h f) f g"
    then have "g (current_path ds) = None \<or> g (current_path ds) = Some Dir"
      using frame_cases[OF frame area_facts(2)[OF assms(2,5)]] assms(7) by auto
    moreover have "plain_path (current_path ds)"
      using layout_plain[OF assms(2)] by (simp add: place_defs path_simps plain_name_cps)
    ultimately have "current_commit ds g = None"
      using node_at_plain[OF frame_tree[OF frame]] by (auto simp: current_commit_def load_json_def read_text_def read_bytes_def)
    then have "read_and_verify_current sha ds data g \<noteq> Inr x" for x by (simp add: read_current_iff)
    then show ?thesis by (cases "read_and_verify_current sha ds data g") auto
  next
    assume "published sha data ds attempt h f g"
    from published_reads[OF this assms(1,2,5)] show ?thesis by blast
  qed
qed

text \<open>C40: Storing an object refines writing a map once: in every state in between the map of the
  stored objects is the old one or the one with the object, nothing that existed is changed, and
  the address and the flag returned are those of the map.\<close>

theorem store_object_refines:
  assumes "sha_hex sha" "plain_path data" "tree_ok f" "kind \<in> cps ` set OBJECT_KINDS" "\<forall>r \<in> set rnd. 47 \<notin> set r"
  shows "list_all (\<lambda>g. tree_ok g \<and> f \<subseteq>\<^sub>m g \<and> (objects_of data g = objects_of data f
       \<or> (objects_of data g, Inr True) = put_once (kind, cps (sha payload)) payload (objects_of data f)))
       (snd (store_object sha rnd data kind payload None f))
    \<and> (case fst (store_object sha rnd data kind payload None f) of Inr so \<Rightarrow> so_sha256 so = cps (sha payload)
          \<and> put_once (kind, cps (sha payload)) payload (objects_of data f) = (objects_of data (end_state f (snd (store_object sha rnd data kind payload None f))), Inr (so_created so))
        | Inl _ \<Rightarrow> True)"
proof -
  obtain r t where run: "store_object sha rnd data kind payload None f = (r, t)" by fastforce
  let ?a = "cps (sha payload)" and ?d = "object_dir data kind"
  have a: "hex_digest ?a" using assms(1) by (simp add: sha_hex_def)
  have start: "storing f ?d ?a rnd payload f" by (simp add: storing_def frame_refl[OF assms(3)])
  note states = tripleD[OF storing_triple[where sha = sha and payload = payload, OF assms(2,4) a assms(5)] start refl run]
  have "tree_ok g \<and> f \<subseteq>\<^sub>m g \<and> (objects_of data g = objects_of data f
       \<or> (objects_of data g, Inr True) = put_once (kind, ?a) payload (objects_of data f))" if "g \<in> set t" for g
  proof -
    have g: "storing f ?d ?a rnd payload g" using states that by blast
    from storing_objects[OF assms(4) a g] show ?thesis
      using g by (auto simp: storing_def put_once_def intro: frame_tree)
  qed
  moreover have "so_sha256 so = ?a \<and> put_once (kind, ?a) payload (objects_of data f) = (objects_of data (end_state f t), Inr (so_created so))"
    if r: "r = Inr so" for so
  proof -
    have e: "storing f ?d ?a rnd payload (end_state f t)" using states end_state_inv[of "storing f ?d ?a rnd payload", OF start] by blast
    have so: "end_state f t (?d @ [?a]) = Some (File payload)" "so_sha256 so = ?a" "so_created so = (f (?d @ [?a]) = None)"
      using states r by auto
    show ?thesis
    proof (cases "f (?d @ [?a])")
      case None
      then have "objects_of data f (kind, ?a) = None" by (simp add: objects_of_def)
      moreover have "objects_of data (end_state f t) (kind, ?a) = Some payload" using so(1) assms(4) a by (simp add: objects_of_def)
      ultimately show ?thesis using storing_objects[OF assms(4) a e] so None by (auto simp: put_once_def)
    next
      case (Some x)
      then have "x = File payload" using e so(1) by (auto simp: storing_def map_le_def dest!: bspec[of _ _ "?d @ [?a]"])
      then have "objects_of data f (kind, ?a) = Some payload" using Some assms(4) a by (simp add: objects_of_def)
      then show ?thesis using storing_objects[OF assms(4) a e] so Some by (auto simp: put_once_def)
    qed
  qed
  ultimately show ?thesis by (auto simp: run list_all_iff split: sum.splits)
qed

section \<open>A dataset with one commit\<close>

definition sample_files :: "(path \<times> node) list" where
  "sample_files = [([], Dir), ([[100]], Dir), ([[100], cps ''commits''], Dir),
     ([[100], cps ''commits'', replicate 64 97], Dir),
     ([[100], cps ''commits'', replicate 64 97, cps ''COMMITTED''], File []),
     ([[100], cps ''commits'', replicate 64 97, cps ''content.json''], File [123, 125]),
     ([[100], cps ''current.json''], File (cps ''{'' @ [34] @ cps ''commit'' @ [34, 58, 34] @ replicate 64 97 @ [34] @ cps ''}''))]"

definition sample_fs :: fs where
  "sample_fs = map_of sample_files"

definition sample_sha :: "bytes \<Rightarrow> string" where
  "sample_sha b = replicate 64 (CHR ''b'')"

lemma sample_tree: "tree_ok sample_fs"
  unfolding sample_fs_def by (rule tree_ok_map_of; code_simp)

lemma sample_sha_hex: "sha_hex sample_sha"
  by (auto simp: sha_hex_def sample_sha_def hex_digest_def cps_def list_all_iff is_lower_hex_def)

lemma sample_layout: "layout_ok [] [[n]]" if "n \<notin> {46, 47}" for n
  using that by (auto simp: layout_ok_def path_simps plain_name_def dot_def dotdot_def cps_def)

lemma sample_hex: "hex_digest (replicate 64 97)" "hex_digest (replicate 64 98)"
  by (simp_all add: hex_digest_def list_all_iff is_lower_hex_def)

lemma sample_read: "read_and_verify_current sample_sha [[100]] [] sample_fs = Inr [(cps ''commit'', PyStr (replicate 64 97))]"
  by code_simp

lemma sample_current: "current_commit [[100]] sample_fs = Some (replicate 64 97)"
  by code_simp

theorem publication_atomic_witness:
  "list_all (\<lambda>g. tree_ok g \<and> objects_of [] g = objects_of [] sample_fs
      \<and> (read_and_verify_current sample_sha [[100]] [] g = Inr [(cps ''commit'', PyStr (replicate 64 97))]
         \<or> (\<exists>content. verify_commit_graph sample_sha [] (commit_path [[100]] (replicate 64 98)) g = Inr content
              \<and> read_and_verify_current sample_sha [[100]] [] g = Inr (with_commit (PyStr (replicate 64 98)) content))))
    (snd (publish_dataset sample_sha [[100]] [] (cps ''x'') [(cps ''content.json'', [123, 125])] (replicate 64 98) [10] [] None sample_fs))"
  by (rule publication_atomic[OF sample_sha_hex sample_layout sample_tree _ sample_hex(2) _ sample_read sample_current sample_hex(1)])
    (simp_all add: plain_name_cps, simp add: cps_def)

theorem first_publication_atomic_witness:
  "list_all (\<lambda>g. is_err (read_and_verify_current sample_sha [[101]] [] g)
      \<or> (\<exists>content. verify_commit_graph sample_sha [] (commit_path [[101]] (replicate 64 98)) g = Inr content
           \<and> read_and_verify_current sample_sha [[101]] [] g = Inr (with_commit (PyStr (replicate 64 98)) content)))
    (snd (publish_dataset sample_sha [[101]] [] (cps ''x'') [(cps ''content.json'', [123, 125])] (replicate 64 98) [10] [] None sample_fs))"
  by (rule first_publication_atomic[OF sample_sha_hex sample_layout sample_tree _ sample_hex(2)])
    (simp_all add: plain_name_cps, simp_all add: cps_def sample_fs_def sample_files_def place_defs)

theorem store_object_refines_witness:
  "put_once (cps ''raw'', replicate 64 98) [2, 3, 4] (objects_of [] sample_fs)
     = (objects_of [] (end_state sample_fs (snd (store_object sample_sha [[120]] [] (cps ''raw'') [2, 3, 4] None sample_fs))), Inr True)"
proof -
  have run: "fst (store_object sample_sha [[120]] [] (cps ''raw'') [2, 3, 4] None sample_fs)
      = Inr \<lparr>so_sha256 = replicate 64 98, so_created = True\<rparr>" by code_simp
  have sha: "cps (sample_sha [2, 3, 4]) = replicate 64 98" by (simp add: sample_sha_def cps_def)
  show ?thesis
    using store_object_refines[OF sample_sha_hex _ sample_tree, of "[]" "cps ''raw''" "[[120]]" "[2, 3, 4]"]
    by (simp add: path_simps OBJECT_KINDS_def run sha)
qed

end
