(* ===== verification/Archive.thy ===== *)
theory Archive
  imports Publication
begin

text \<open>
  src/quantara/archive.py: the guards on a ZIP archive and the streaming of its one member. The
  zipfile library is a parameter: how opening an archive ends (its entries, \<open>BadZipFile\<close>, or
  another exception such as \<open>NotImplementedError\<close> or \<open>UnicodeDecodeError\<close>), and for a member the
  chunks it yields and how the stream ends. The regular expressions of the re library are a
  parameter as well (\<open>compile\<close>). The quotient of two sizes is compared exactly: a double would
  have to confuse 100 with a fraction whose denominator is below 2 to the 22, and does not.
  Lemmas: an archive passes exactly when it has one safe, matching entry within the bounds; a
  safe name stays below the directory it is joined to; a member is read whole or not at all; of the
  library's exceptions only \<open>BadZipFile\<close> becomes an error of the program, the others escape.
\<close>

section \<open>Member names\<close>

definition MAX_MEMBER_BYTES :: nat where "MAX_MEMBER_BYTES = 256 * 1024 * 1024"
definition MAX_COMPRESSION_RATIO :: nat where "MAX_COMPRESSION_RATIO = 100"

definition is_letter :: "nat \<Rightarrow> bool" where
  "is_letter c \<longleftrightarrow> (65 \<le> c \<and> c \<le> 90) \<or> (97 \<le> c \<and> c \<le> 122)"

definition drive_prefix :: "ustr \<Rightarrow> bool" where
  "drive_prefix s = (case s of a # b # _ \<Rightarrow> is_letter a \<and> b = 58 | _ \<Rightarrow> False)"

text \<open>\<open>re.split\<close> at slashes and backslashes.\<close>

fun split_separators :: "ustr \<Rightarrow> ustr list" where
  "split_separators [] = [[]]"
| "split_separators (c # s) = (if c = 47 \<or> c = 92 then [] # split_separators s
     else case split_separators s of [] \<Rightarrow> [[c]] | w # ws \<Rightarrow> (c # w) # ws)"

definition name_is_safe :: "ustr \<Rightarrow> bool" where
  "name_is_safe s =
     (if s = [] then False
      else if hd s = 47 \<or> hd s = 92 then False
      else if drive_prefix s then False
      else if take 2 s = [92, 92] then False
      else if dotdot \<in> set (split_separators s) then False
      else True)"

section \<open>Inspection\<close>

record zip_info =
  zi_filename :: ustr
  zi_file_size :: nat
  zi_compress_size :: nat

record member_spec =
  ms_name :: ustr
  ms_uncompressed :: nat
  ms_compressed :: nat

datatype stream_end = Exhausted | BadZipFile | Broken err

text \<open>What the zipfile library makes of the bytes of a file: its entries, \<open>BadZipFile\<close>, or another
  exception, which the code does not catch; and the chunks of a member with the end of the stream.\<close>

datatype zip_opening = Entries "zip_info list" | NotAZip | OpenFails err

record zip_lib =
  zl_infolist :: "bytes \<Rightarrow> zip_opening"
  zl_stream :: "bytes \<Rightarrow> ustr \<Rightarrow> bytes list \<times> stream_end"

type_synonym regex = "ustr \<Rightarrow> (ustr \<Rightarrow> bool) res"

definition inspect_zip :: "zip_lib \<Rightarrow> regex \<Rightarrow> path \<Rightarrow> ustr \<Rightarrow> fs \<Rightarrow> member_spec res" where
  "inspect_zip Z compile archive_path pattern_text f =
     bindE (read_bytes archive_path f) (\<lambda>b. case zl_infolist Z b of
       NotAZip \<Rightarrow> Inl CorruptArchive
     | OpenFails e \<Rightarrow> Inl e
     | Entries infos \<Rightarrow>
         bindE (checkE (infos \<noteq> []) CorruptArchive) (\<lambda>_.
         bindE (checkE (\<forall>info \<in> set infos. name_is_safe (zi_filename info)) UnsafeZipMember) (\<lambda>_.
         bindE (compile pattern_text) (\<lambda>fullmatch.
         let matching = filter (\<lambda>info. fullmatch (zi_filename info)) infos in
         bindE (checkE (length matching = 1) CorruptArchive) (\<lambda>_.
         bindE (checkE (filter (\<lambda>info. \<not> fullmatch (zi_filename info)) infos = []) UnsafeZipMember) (\<lambda>_.
         let member = hd matching in
         bindE (checkE (zi_file_size member \<le> MAX_MEMBER_BYTES) UnsafeZipMember) (\<lambda>_.
         bindE (checkE (\<not> (0 < zi_compress_size member
             \<and> MAX_COMPRESSION_RATIO * zi_compress_size member < zi_file_size member)) UnsafeZipMember) (\<lambda>_.
         Inr \<lparr>ms_name = zi_filename member, ms_uncompressed = zi_file_size member, ms_compressed = zi_compress_size member\<rparr>))))))))"

section \<open>Streaming\<close>

text \<open>What the generator yields, and how it ends: empty chunks end the loop.\<close>

definition stream_member :: "zip_lib \<Rightarrow> path \<Rightarrow> member_spec \<Rightarrow> fs \<Rightarrow> bytes list \<times> unit res" where
  "stream_member Z archive_path spec f = (case read_bytes archive_path f of
     Inl e \<Rightarrow> ([], Inl e)
   | Inr b \<Rightarrow> (case zl_stream Z b (ms_name spec) of (chunks, ending) \<Rightarrow>
       let yielded = takeWhile (\<lambda>c. c \<noteq> []) chunks in
       (yielded,
        if length yielded = length chunks \<and> ending = BadZipFile then Inl CorruptArchive
        else case (if length yielded = length chunks then ending else Exhausted) of
            Broken e \<Rightarrow> Inl e
          | _ \<Rightarrow> checkE (sum_list (map length yielded) = ms_uncompressed spec) CorruptArchive)))"

definition read_member_bytes :: "zip_lib \<Rightarrow> path \<Rightarrow> member_spec \<Rightarrow> fs \<Rightarrow> bytes res" where
  "read_member_bytes Z archive_path spec f = (case stream_member Z archive_path spec f of (chunks, ending) \<Rightarrow>
     bindE ending (\<lambda>_. Inr (concat chunks)))"

section \<open>Safe names\<close>

lemma split_separators_not_Nil [simp]: "split_separators s \<noteq> []"
  by (induction s) (auto split: list.splits)

text \<open>A part of the path is a part between separators, or several joined by backslashes; a part
  that is exactly \<open>..\<close> is one of the former.\<close>

lemma slash_parts:
  "(92 \<notin> set (hd (split_slash s)) \<longrightarrow> hd (split_separators s) = hd (split_slash s))
   \<and> (\<forall>w \<in> set (tl (split_slash s)). 92 \<notin> set w \<longrightarrow> w \<in> set (tl (split_separators s)))"
proof (induction s)
  case (Cons c s)
  obtain v vs where v: "split_slash s = v # vs" by (cases "split_slash s") auto
  obtain u us where u: "split_separators s = u # us" by (cases "split_separators s") auto
  show ?case using Cons v u by auto
qed simp

lemma safe_components:
  assumes "name_is_safe s"
  shows "plain_path (components s)"
proof -
  have no_backslash: "92 \<notin> set dotdot" by (simp add: dotdot_def)
  have "dotdot \<notin> set (split_slash s)"
  proof
    assume "dotdot \<in> set (split_slash s)"
    then have "dotdot = hd (split_slash s) \<or> dotdot \<in> set (tl (split_slash s))" by (cases "split_slash s") auto
    then have "dotdot = hd (split_separators s) \<or> dotdot \<in> set (tl (split_separators s))"
      using slash_parts[of s] no_backslash by metis
    then have "dotdot \<in> set (split_separators s)" using split_separators_not_Nil[of s] by (metis hd_in_set list.set_sel(2))
    with assms show False by (simp add: name_is_safe_def split: if_splits)
  qed
  then show ?thesis using split_slash_parts[of _ s]
    by (auto simp: components_def plain_path_def list_all_iff plain_name_def)
qed

text \<open>A name that passes the guard stays below whatever directory it is joined to: no step of
  the path leaves it, and it is not absolute.\<close>

theorem safe_name_contained:
  assumes "name_is_safe s"
  shows "under d (join_path d s) \<and> plain_path (drop (length d) (join_path d s))"
proof -
  have "s \<noteq> []" "hd s \<noteq> 47" using assms by (auto simp: name_is_safe_def split: if_splits)
  then have "join_path d s = d @ components s" by (simp add: join_path_def)
  then show ?thesis using safe_components[OF assms] by simp
qed

theorem safe_name_contained_witness:
  "under [cps ''out''] (join_path [cps ''out''] (cps ''BTC.csv'')) \<and> plain_path (drop (length [cps ''out'']) (join_path [cps ''out''] (cps ''BTC.csv'')))"
  by (rule safe_name_contained) code_simp

section \<open>What passes\<close>

definition info_ok :: "(ustr \<Rightarrow> bool) \<Rightarrow> zip_info \<Rightarrow> bool" where
  "info_ok fullmatch i \<longleftrightarrow> name_is_safe (zi_filename i) \<and> fullmatch (zi_filename i) \<and> zi_file_size i \<le> 268435456
     \<and> (zi_compress_size i = 0 \<or> zi_file_size i \<le> 100 * zi_compress_size i)"

definition spec_of :: "zip_info \<Rightarrow> member_spec" where
  "spec_of i = \<lparr>ms_name = zi_filename i, ms_uncompressed = zi_file_size i, ms_compressed = zi_compress_size i\<rparr>"

lemma inspect_zip_accepts:
  assumes "read_bytes p f = Inr b" "compile pat = Inr full"
  shows "inspect_zip Z compile p pat f = Inr spec \<longleftrightarrow>
    (\<exists>i. zl_infolist Z b = Entries [i] \<and> info_ok full i \<and> spec = spec_of i)"
proof
  assume ok: "inspect_zip Z compile p pat f = Inr spec"
  then obtain infos where infos: "zl_infolist Z b = Entries infos" using assms(1) by (auto simp: inspect_zip_def split: zip_opening.splits)
  have none: "filter (\<lambda>i. \<not> full (zi_filename i)) infos = []" and one: "length (filter (\<lambda>i. full (zi_filename i)) infos) = 1"
    using ok assms infos by (auto simp: inspect_zip_def Let_def res_simps)
  then have "filter (\<lambda>i. full (zi_filename i)) infos = infos" by (auto simp: filter_empty_conv filter_id_conv)
  with one obtain i where i: "infos = [i]" by (metis One_nat_def length_0_conv length_Suc_conv)
  show "\<exists>i. zl_infolist Z b = Entries [i] \<and> info_ok full i \<and> spec = spec_of i"
    using ok assms infos unfolding i
    by (auto simp: inspect_zip_def Let_def res_simps info_ok_def spec_of_def MAX_MEMBER_BYTES_def MAX_COMPRESSION_RATIO_def split: if_splits)
next
  assume "\<exists>i. zl_infolist Z b = Entries [i] \<and> info_ok full i \<and> spec = spec_of i"
  then show "inspect_zip Z compile p pat f = Inr spec" using assms
    by (auto simp: inspect_zip_def res_simps info_ok_def spec_of_def MAX_MEMBER_BYTES_def MAX_COMPRESSION_RATIO_def)
qed

lemma read_member_size: "read_member_bytes Z p spec f = Inr m \<Longrightarrow> length m = ms_uncompressed spec"
  by (auto simp: read_member_bytes_def stream_member_def Let_def res_simps length_concat split: prod.splits sum.splits stream_end.splits if_splits)

text \<open>The content \<open>m\<close> of the one acceptable entry \<open>i\<close>: the stream of the member ended by itself (or
  with an empty chunk) after exactly the declared number of bytes.\<close>

definition member_content :: "zip_lib \<Rightarrow> bytes \<Rightarrow> (ustr \<Rightarrow> bool) \<Rightarrow> zip_info \<Rightarrow> bytes \<Rightarrow> bool" where
  "member_content Z b full i m \<longleftrightarrow> zl_infolist Z b = Entries [i] \<and> info_ok full i
     \<and> (case zl_stream Z b (zi_filename i) of (chunks, ending) \<Rightarrow>
          m = concat (takeWhile (\<lambda>c. c \<noteq> []) chunks) \<and> length m = zi_file_size i \<and> ([] \<in> set chunks \<or> ending = Exhausted))"

text \<open>An exception of the library that is not \<open>BadZipFile\<close>, raised on opening the archive or while the
  acceptable entry is read.\<close>

definition library_raises :: "zip_lib \<Rightarrow> bytes \<Rightarrow> (ustr \<Rightarrow> bool) \<Rightarrow> err \<Rightarrow> bool" where
  "library_raises Z b full e \<longleftrightarrow> (case zl_infolist Z b of
       OpenFails e' \<Rightarrow> e' = e
     | Entries [i] \<Rightarrow> info_ok full i \<and> snd (zl_stream Z b (zi_filename i)) = Broken e
     | _ \<Rightarrow> False)"

lemma yielded_all: "length (takeWhile (\<lambda>c. c \<noteq> []) chunks) = length chunks \<longleftrightarrow> [] \<notin> set chunks"
  by (induction chunks) auto

lemma read_member_iff:
  assumes "read_bytes p f = Inr b" "zl_infolist Z b = Entries [i]" "info_ok full i"
  shows "read_member_bytes Z p (spec_of i) f = Inr m \<longleftrightarrow> member_content Z b full i m"
  using assms by (auto simp: read_member_bytes_def stream_member_def Let_def res_simps spec_of_def member_content_def
      yielded_all length_concat split: prod.splits stream_end.splits if_splits)

lemma read_member_error:
  assumes "read_bytes p f = Inr b" "zl_infolist Z b = Entries [i]" "info_ok full i"
    and "read_member_bytes Z p (spec_of i) f = Inl e"
  shows "e = CorruptArchive \<or> library_raises Z b full e"
  using assms by (auto simp: read_member_bytes_def stream_member_def Let_def bindE_def checkE_def spec_of_def library_raises_def
      split: prod.splits sum.splits stream_end.splits if_splits)

lemma inspect_zip_error:
  assumes "read_bytes p f = Inr b" "compile pat = Inr full" "inspect_zip Z compile p pat f = Inl e"
  shows "e \<in> {CorruptArchive, UnsafeZipMember} \<or> library_raises Z b full e"
  using assms by (auto simp: inspect_zip_def Let_def res_simps bindE_def checkE_def library_raises_def
      split: zip_opening.splits if_splits)

text \<open>C38: What is read from an archive is the content of its only entry, whose name is safe and matches
  the pattern, whose declared size is at most 256 MiB and at most a hundred times the compressed
  size, and whose stream ended regularly at exactly that size. Every archive without such a content
  fails: with one of the two errors of the module, or with the very exception, other than
  \<open>BadZipFile\<close>, that the zipfile library raised on opening it or on reading that entry.\<close>

theorem member_read_sound:
  assumes "read_bytes p f = Inr b" "compile pat = Inr full"
  shows "case bindE (inspect_zip Z compile p pat f) (\<lambda>spec. read_member_bytes Z p spec f) of
      Inr m \<Rightarrow> (\<exists>i. member_content Z b full i m)
    | Inl e \<Rightarrow> (\<nexists>i m. member_content Z b full i m)
        \<and> (e \<in> {CorruptArchive, UnsafeZipMember} \<or> library_raises Z b full e)"
proof (cases "inspect_zip Z compile p pat f")
  case (Inl e)
  have "\<not> member_content Z b full i m" for i m
    using inspect_zip_accepts[of p f b compile pat full Z "spec_of i", OF assms] Inl by (auto simp: member_content_def)
  with Inl show ?thesis using inspect_zip_error[OF assms Inl] by simp
next
  case (Inr spec)
  then obtain i where i: "zl_infolist Z b = Entries [i]" "info_ok full i" "spec = spec_of i"
    using inspect_zip_accepts[of p f b compile pat full Z spec, OF assms] by blast
  note content = read_member_iff[OF assms(1) i(1,2), folded i(3)]
  show ?thesis
  proof (cases "read_member_bytes Z p spec f")
    case (Inr m)
    with content[of m] have "member_content Z b full i m" by simp
    then show ?thesis using Inr \<open>inspect_zip Z compile p pat f = Inr spec\<close> by auto
  next
    case (Inl e)
    have "\<not> member_content Z b full j m" for j m
    proof
      assume j: "member_content Z b full j m"
      then have "j = i" using i(1) by (simp add: member_content_def)
      with j show False using content[of m] Inl by simp
    qed
    moreover have "e = CorruptArchive \<or> library_raises Z b full e"
      using Inl unfolding i(3) by (rule read_member_error[OF assms(1) i(1,2)])
    ultimately show ?thesis using Inl \<open>inspect_zip Z compile p pat f = Inr spec\<close> by auto
  qed
qed

definition sample_zip :: zip_lib where
  "sample_zip = \<lparr>zl_infolist = (\<lambda>_. Entries [\<lparr>zi_filename = [97], zi_file_size = 3, zi_compress_size = 2\<rparr>]),
     zl_stream = (\<lambda>_ _. ([[1, 2], [3]], Exhausted))\<rparr>"

definition zip_fs :: fs where "zip_fs = [[] \<mapsto> Dir, [[122]] \<mapsto> File [80]]"

theorem member_read_sound_witness:
  "bindE (inspect_zip sample_zip (\<lambda>_. Inr (\<lambda>s. s = [97])) [[122]] [97] zip_fs) (\<lambda>spec. read_member_bytes sample_zip [[122]] spec zip_fs)
     = Inr [1, 2, 3]"
proof -
  let ?r = "bindE (inspect_zip sample_zip (\<lambda>_. Inr (\<lambda>s. s = [97])) [[122]] [97] zip_fs) (\<lambda>spec. read_member_bytes sample_zip [[122]] spec zip_fs)"
  have b: "read_bytes [[122]] zip_fs = Inr [80]" by (simp add: zip_fs_def read_bytes_def node_at_def dotdot_def)
  have "member_content sample_zip [80] (\<lambda>s. s = [97]) \<lparr>zi_filename = [97], zi_file_size = 3, zi_compress_size = 2\<rparr> [1, 2, 3]"
    by (simp add: member_content_def sample_zip_def info_ok_def name_is_safe_def drive_prefix_def dotdot_def)
  then have some: "\<exists>i m. member_content sample_zip [80] (\<lambda>s. s = [97]) i m" by blast
  have only: "m = [1, 2, 3]" if "\<exists>i. member_content sample_zip [80] (\<lambda>s. s = [97]) i m" for m
    using that by (auto simp: member_content_def sample_zip_def)
  note s = member_read_sound[where Z = sample_zip and compile = "\<lambda>_. Inr (\<lambda>s. s = [97])" and pat = "[97]"
      and full = "\<lambda>s. s = [97]", OF b refl]
  show ?thesis
  proof (cases ?r)
    case (Inl e)
    with s some show ?thesis unfolding Inl sum.case by blast
  next
    case (Inr m)
    with s only show ?thesis unfolding Inr sum.case by blast
  qed
qed

text \<open>An archive whose member uses a compression the library does not support is not refused with an
  error of the program: the \<open>NotImplementedError\<close> of the library escapes \<open>except QuantaraError\<close>.\<close>

theorem unsupported_archive_escapes:
  "inspect_zip (sample_zip\<lparr>zl_infolist := (\<lambda>_. OpenFails PyNotImplementedError)\<rparr>) (\<lambda>_. Inr (\<lambda>s. True)) [[122]] [97] zip_fs
     = Inl PyNotImplementedError \<and> \<not> is_quantara_error PyNotImplementedError"
  by (simp add: inspect_zip_def zip_fs_def read_bytes_def node_at_def dotdot_def is_quantara_error_def error_id_def)

end
