(* ===== verification/Acquisition.thy ===== *)
theory Acquisition
  imports Publication
begin

text \<open>
  src/quantara/acquisition.py: requests with retries, redirects against the allowed hosts, the
  download into staging and the promotion of a verified archive. The network is a parameter
  (\<open>http_env\<close>): the outcome of the n-th request for a URL, the random delays, and what httpx makes
  of a URL. The network's view and the lists of the Acquirer object are a record \<open>net\<close> that each
  step returns updated; file operations are those of File_System. Lemmas: at most three requests
  per URL and fifteen per download, all to the first URL or to allowed hosts; transient failures
  are survived; and in every state a download passes through, a file in the content-addressed
  store of archives has the hash its name says.
\<close>

section \<open>Constants and records\<close>

definition MAX_ATTEMPTS :: nat where "MAX_ATTEMPTS = 3"
definition MAX_REDIRECT_HOPS :: nat where "MAX_REDIRECT_HOPS = 5"
definition BACKOFF_SECONDS :: "rat list" where "BACKOFF_SECONDS = [1, 2, 4]"
definition DEFAULT_MAX_ZIP_BYTES :: nat where "DEFAULT_MAX_ZIP_BYTES = 256 * 1024 * 1024"
definition CHUNK :: nat where "CHUNK = 1024 * 1024"
definition RETRYABLE_STATUS :: "int list" where "RETRYABLE_STATUS = [429, 502, 503, 504]"

datatype transport_exc = ConnectTimeout | ReadTimeout | PoolTimeout | RemoteProtocolError | ConnectError | OtherTransport

record response =
  rs_status :: int
  rs_location :: "ustr option"
  rs_body :: bytes

datatype outcome = Responds response | Raises transport_exc ustr | Fails err

record http_env =
  he_server :: "nat \<Rightarrow> ustr \<Rightarrow> outcome"
  he_jitter :: "nat \<Rightarrow> rat"
  he_show :: "rat \<Rightarrow> ustr"
  he_join :: "ustr \<Rightarrow> ustr \<Rightarrow> ustr res"
  he_scheme :: "ustr \<Rightarrow> ustr"
  he_host :: "ustr \<Rightarrow> ustr"

text \<open>The URLs asked for so far, and the three lists of the Acquirer.\<close>

record net =
  nt_asked :: "ustr list"
  nt_retry :: "(string \<times> ustr) list"
  nt_hops :: "ustr list"
  nt_statuses :: "int list"

section \<open>The checksum document\<close>

text \<open>The dollar of the pattern also matches before a final newline.\<close>

definition parse_checksum_document :: "ustr \<Rightarrow> ustr \<Rightarrow> ustr res" where
  "parse_checksum_document document filename =
     (let digest = take 64 document; rest = drop 64 document; tail = drop (2 + length filename) rest in
      if hex_digest digest \<and> take (2 + length filename) rest = [32, 32] @ filename
         \<and> tail \<in> {[], [10], [10, 10], [13], [13, 10], [13, 10, 10]}
      then Inr digest else Inl InvalidChecksumDocument)"

section \<open>Requests\<close>

definition infix_of :: "ustr \<Rightarrow> ustr \<Rightarrow> bool" where
  "infix_of w s \<longleftrightarrow> (\<exists>k \<in> set [0..<Suc (length s)]. take (length w) (drop k s) = w)"

definition transport_retry_kind :: "transport_exc \<Rightarrow> ustr \<Rightarrow> string option" where
  "transport_retry_kind exc message =
     (if exc \<in> {ConnectTimeout, ReadTimeout, PoolTimeout} then Some ''connect_timeout''
      else if exc \<in> {RemoteProtocolError, ConnectError} then Some ''dropped_connection''
      else if infix_of (cps ''reset'') (map lower_cp message) then Some ''connection_reset'' else None)"

definition ask :: "http_env \<Rightarrow> ustr \<Rightarrow> net \<Rightarrow> outcome \<times> net" where
  "ask E url n = (he_server E (length (nt_asked n)) url, n\<lparr>nt_asked := nt_asked n @ [url]\<rparr>)"

definition backoff :: "http_env \<Rightarrow> nat \<Rightarrow> net \<Rightarrow> net" where
  "backoff E failed_attempt n =
     n\<lparr>nt_retry := nt_retry n @ [(''backoff'', he_show E (BACKOFF_SECONDS ! failed_attempt + he_jitter E (length (nt_retry n))) @ cps ''s'')]\<rparr>"

definition note_retry :: "string \<Rightarrow> ustr \<Rightarrow> net \<Rightarrow> net" where
  "note_retry kind detail n = n\<lparr>nt_retry := nt_retry n @ [(kind, detail)]\<rparr>"

text \<open>The loop over the attempts, with the number of attempts that are left.\<close>

fun request_from :: "http_env \<Rightarrow> ustr \<Rightarrow> nat \<Rightarrow> net \<Rightarrow> response res \<times> net" where
  "request_from E url 0 n = (Inl DownloadFailed, n)"
| "request_from E url (Suc left) n =
     (let attempt = MAX_ATTEMPTS - Suc left; again = attempt < MAX_ATTEMPTS - 1 in
      case ask E url n of (reply, n1) \<Rightarrow> (case reply of
        Responds r \<Rightarrow>
          (let n2 = n1\<lparr>nt_statuses := nt_statuses n1 @ [rs_status r]\<rparr> in
           if rs_status r \<in> set RETRYABLE_STATUS then
             if again then request_from E url left (backoff E attempt n2) else (Inl DownloadFailed, n2)
           else (Inr r, n2))
      | Raises exc message \<Rightarrow> (case transport_retry_kind exc message of
            Some kind \<Rightarrow>
              (let n2 = note_retry kind message n1 in
               if again then request_from E url left (backoff E attempt n2) else (Inl DownloadFailed, n2))
          | None \<Rightarrow> (Inl DownloadFailed, n1))
      | Fails e \<Rightarrow> (Inl e, n1)))"

definition request_with_retries :: "http_env \<Rightarrow> ustr \<Rightarrow> net \<Rightarrow> response res \<times> net" where
  "request_with_retries E url n = request_from E url MAX_ATTEMPTS n"

section \<open>Redirects and the body\<close>

definition is_redirect :: "response \<Rightarrow> bool" where
  "is_redirect r \<longleftrightarrow> 300 \<le> rs_status r \<and> rs_status r \<le> 399"

definition allowed_url :: "http_env \<Rightarrow> ustr list \<Rightarrow> ustr \<Rightarrow> bool" where
  "allowed_url E hosts url \<longleftrightarrow> he_scheme E url = cps ''https'' \<and> he_host E url \<in> set hosts"

text \<open>The redirect loop; \<open>left\<close> is what the hops leave of their limit.\<close>

fun follow :: "http_env \<Rightarrow> ustr list \<Rightarrow> nat \<Rightarrow> ustr \<Rightarrow> ustr list \<Rightarrow> response \<Rightarrow> net \<Rightarrow> (response \<times> ustr list) res \<times> net" where
  "follow E hosts left url hops r n =
     (if \<not> is_redirect r then (Inr (r, hops), n)
      else case left of
          0 \<Rightarrow> (Inl DownloadFailed, n)
        | Suc left' \<Rightarrow> (case he_join E url (case rs_location r of Some l \<Rightarrow> l | None \<Rightarrow> []) of
              Inl e \<Rightarrow> (Inl e, n)
            | Inr next_url \<Rightarrow>
                if \<not> allowed_url E hosts next_url then (Inl NonAllowlistedHost, n)
                else (case request_with_retries E next_url n of
                    (Inl e, n1) \<Rightarrow> (Inl e, n1)
                  | (Inr r1, n1) \<Rightarrow> follow E hosts left' next_url (hops @ [next_url]) r1 n1)))"

declare follow.simps [simp del]

fun chunks_of :: "nat \<Rightarrow> bytes \<Rightarrow> bytes list" where
  "chunks_of k b = (if b = [] \<or> k = 0 then [] else take k b # chunks_of k (drop k b))"

declare chunks_of.simps [simp del]

text \<open>Collecting the chunks under a cap: the bytes kept and their number.\<close>

definition take_chunk :: "nat \<Rightarrow> bytes \<times> nat \<Rightarrow> bytes \<Rightarrow> (bytes \<times> nat) res" where
  "take_chunk cap = (\<lambda>(kept, count) chunk.
     let count1 = count + length chunk in
     if cap < count1 then Inl DownloadFailed else Inr (kept @ chunk, count1))"

definition capped_body :: "nat \<Rightarrow> bytes \<Rightarrow> bytes res" where
  "capped_body cap body = bindE (foldE (take_chunk cap) ([], 0) (chunks_of CHUNK body)) (\<lambda>kc. Inr (fst kc))"

text \<open>The network part of \<open>_download\<close>: the payload and the hops after the first URL.\<close>

definition fetch :: "http_env \<Rightarrow> ustr list \<Rightarrow> nat \<Rightarrow> ustr \<Rightarrow> net \<Rightarrow> (bytes \<times> ustr list) res \<times> net" where
  "fetch E hosts cap url n = (case request_with_retries E url n of
     (Inl e, n1) \<Rightarrow> (Inl e, n1)
   | (Inr r, n1) \<Rightarrow> (case follow E hosts (MAX_REDIRECT_HOPS - 1) url [url] r n1 of
        (Inl e, n2) \<Rightarrow> (Inl e, n2)
      | (Inr (r2, hops), n2) \<Rightarrow>
          if rs_status r2 \<noteq> 200 then (Inl DownloadFailed, n2)
          else (bindE (capped_body cap (rs_body r2)) (\<lambda>payload. Inr (payload, tl hops)), n2)))"

section \<open>Steps on the network and the file system\<close>

type_synonym 'a acq = "net \<Rightarrow> fs \<Rightarrow> ('a res \<times> net) \<times> fs list"

definition netA :: "(net \<Rightarrow> 'a res \<times> net) \<Rightarrow> 'a acq" where
  "netA g n f = (g n, [])"

definition liftA :: "'a io \<Rightarrow> 'a acq" where
  "liftA m n f = (case m f of (r, t) \<Rightarrow> ((r, n), t))"

definition bindA :: "'a acq \<Rightarrow> ('a \<Rightarrow> 'b acq) \<Rightarrow> 'b acq" where
  "bindA m k n f = (case m n f of
     ((Inl e, n1), t) \<Rightarrow> ((Inl e, n1), t)
   | ((Inr x, n1), t) \<Rightarrow> (case k x n1 (end_state f t) of (r, t') \<Rightarrow> (r, t @ t')))"

definition has_zip_suffix :: "ustr \<Rightarrow> bool" where
  "has_zip_suffix name \<longleftrightarrow> 4 < length name \<and> drop (length name - 4) name = cps ''.zip''"

definition save_download :: "path \<Rightarrow> bytes \<Rightarrow> unit io" where
  "save_download destination payload =
     (let part = butlast destination @ [last destination @ cps ''.part''] in
      bindIO (make_dirs (butlast destination)) (\<lambda>_.
      bindIO (write_file part payload) (\<lambda>_.
      replace_file part destination)))"

definition download :: "http_env \<Rightarrow> ustr list \<Rightarrow> nat \<Rightarrow> ustr \<Rightarrow> path \<Rightarrow> bytes acq" where
  "download E hosts max_zip_bytes url destination =
     (let cap = (if has_zip_suffix (last destination) then max_zip_bytes else DEFAULT_MAX_ZIP_BYTES) in
      bindA (netA (fetch E hosts cap url)) (\<lambda>(payload, hops).
      bindA (liftA (save_download destination payload)) (\<lambda>_.
      netA (\<lambda>n. (Inr payload, n\<lparr>nt_hops := nt_hops n @ hops\<rparr>)))))"

section \<open>Quarantine\<close>

datatype evidence_item = EvText ustr | EvMap "(ustr \<times> ustr) list"

definition dumps_item :: "evidence_item \<Rightarrow> ustr" where
  "dumps_item v = (case v of
     EvText t \<Rightarrow> dumps_string t
   | EvMap kvs \<Rightarrow> if kvs = [] then [123, 125]
       else 123 # join [44] (map (\<lambda>(k, t). [10, 32, 32, 32, 32] @ dumps_string k @ [58, 32] @ dumps_string t) (sort_key fst kvs))
         @ [10, 32, 32, 125])"

definition dumps_evidence :: "(ustr \<times> evidence_item) list \<Rightarrow> ustr" where
  "dumps_evidence kvs =
     123 # join [44] (map (\<lambda>(k, v). [10, 32, 32] @ dumps_string k @ [58, 32] @ dumps_item v) (sort_key fst kvs)) @ [10, 125]"

definition dict_merge :: "(ustr \<times> 'a) list \<Rightarrow> (ustr \<times> 'a) list \<Rightarrow> (ustr \<times> 'a) list" where
  "dict_merge d extra = foldl (\<lambda>acc (k, v). dict_put acc k v) d extra"

definition quarantine ::
    "(bytes \<Rightarrow> string) \<Rightarrow> ustr \<Rightarrow> path \<Rightarrow> string \<Rightarrow> (ustr \<times> bytes) list \<Rightarrow> (ustr \<times> ustr) list \<Rightarrow> path io" where
  "quarantine sha stamp data reason payloads extra =
     (let target = join_path (data @ [cps ''quarantine'']) (stamp @ [45] @ cps reason);
          evidence = dict_merge
            [(cps ''reason'', EvText (cps reason)), (cps ''timestamp_utc'', EvText stamp),
             (cps ''payloads'', EvMap (map (\<lambda>(name, blob). (name, cps (sha blob))) payloads))]
            (map (\<lambda>(k, v). (k, EvText v)) extra) in
      bindIO (make_dirs target) (\<lambda>_.
      bindIO (eachIO (\<lambda>(name, blob). write_file (join_path target name) blob) payloads) (\<lambda>_.
      bindIO (write_file (target @ [cps ''reason.json'']) (dumps_evidence evidence)) (\<lambda>_.
      returnIO target))))"

section \<open>Acquiring the two artifacts\<close>

record acquisition_evidence =
  ae_zip_path :: path
  ae_zip_sha256 :: ustr
  ae_zip_size :: nat
  ae_checksum_path :: path
  ae_checksum_sha256 :: ustr
  ae_official :: ustr
  ae_reused_zip :: bool
  ae_reused_checksum :: bool
  ae_retry :: "(string \<times> ustr) list"
  ae_hops :: "ustr list"
  ae_statuses :: "int list"

definition archive_name_of :: "ustr \<Rightarrow> ustr" where
  "archive_name_of url = last (split_slash url)"

text \<open>A retained archive is read again and compared with the official digest.\<close>

definition reuse_retained :: "(bytes \<Rightarrow> string) \<Rightarrow> ustr \<Rightarrow> path \<Rightarrow> path \<Rightarrow> ustr \<Rightarrow> nat io" where
  "reuse_retained sha stamp data retained official =
     bindIO (lookIO (read_bytes retained)) (\<lambda>b.
     if cps (sha b) \<noteq> official then
       bindIO (quarantine sha stamp data ''retained_artifact_corruption'' [(cps ''artifact'', b)]
         [(cps ''expected_sha256'', official), (cps ''local_sha256'', cps (sha b))]) (\<lambda>_. raiseIO ChecksumMismatch)
     else returnIO (length b))"

text \<open>A downloaded archive is moved into the store only when its hash is the official one.\<close>

definition promote :: "(bytes \<Rightarrow> string) \<Rightarrow> ustr \<Rightarrow> path \<Rightarrow> ustr \<Rightarrow> ustr \<Rightarrow> path \<Rightarrow> path \<Rightarrow> ustr \<Rightarrow> bytes \<Rightarrow> unit io" where
  "promote sha stamp data archive_name document_text staged_zip retained official zip_bytes =
     (if cps (sha zip_bytes) \<noteq> official then
        bindIO (lookIO (\<lambda>_. utf8_encode document_text)) (\<lambda>document.
        bindIO (quarantine sha stamp data ''checksum_mismatch''
            (dict_put [(archive_name, zip_bytes)] (cps ''checksum_document.txt'') document)
            [(cps ''official_sha256'', official), (cps ''local_sha256'', cps (sha zip_bytes))]) (\<lambda>_.
        raiseIO ChecksumMismatch))
      else
        bindIO (make_dirs (butlast retained)) (\<lambda>_.
        bindIO (lookIO (\<lambda>f. Inr (path_exists f retained))) (\<lambda>there.
        if there then
          bindIO (lookIO (read_bytes retained)) (\<lambda>b.
          if b = zip_bytes then unlink staged_zip else raiseIO DownloadFailed)
        else replace_file staged_zip retained)))"

definition keep_checksum :: "(bytes \<Rightarrow> string) \<Rightarrow> path \<Rightarrow> path \<Rightarrow> (path \<times> ustr) io" where
  "keep_checksum sha data checksum_path =
     bindIO (lookIO (read_bytes checksum_path)) (\<lambda>b.
     let digest = cps (sha b); store = data @ [cps ''objects'', cps ''checksum'', cps ''sha256''] in
     bindIO (make_dirs store) (\<lambda>_.
     bindIO (lookIO (\<lambda>f. Inr (path_exists f (join_path store digest)))) (\<lambda>there.
     bindIO (if there then returnIO () else replace_file checksum_path (join_path store digest)) (\<lambda>_.
     returnIO (join_path store digest, digest)))))"

definition acquire ::
    "(bytes \<Rightarrow> string) \<Rightarrow> http_env \<Rightarrow> ustr \<Rightarrow> dataset_descriptor \<Rightarrow> path \<Rightarrow> ustr \<Rightarrow> nat \<Rightarrow> acquisition_evidence acq" where
  "acquire sha E stamp D data attempt_id max_zip_bytes =
     (let staging = join_path (data @ [cps ''staging'']) attempt_id;
          archive_name = archive_name_of (archive_url D);
          checksum_path = join_path staging (archive_name @ cps ''.CHECKSUM'');
          fetch_to = download E (allowed_hosts D) max_zip_bytes in
      bindA (liftA (make_dirs staging)) (\<lambda>_.
      bindA (liftA (lookIO (\<lambda>f. Inr (path_exists f checksum_path)))) (\<lambda>checksum_reused.
      bindA (if checksum_reused then netA (\<lambda>n. (Inr [], n)) else fetch_to (checksum_url D) checksum_path) (\<lambda>_.
      bindA (liftA (lookIO (read_text checksum_path))) (\<lambda>document_text.
      bindA (netA (\<lambda>n. (parse_checksum_document document_text archive_name, n))) (\<lambda>official.
      let raw_dir = data @ [cps ''objects'', cps ''raw'', cps ''sha256'']; retained = join_path raw_dir official in
      bindA (liftA (lookIO (\<lambda>f. Inr (path_exists f retained)))) (\<lambda>there.
      bindA (if there then liftA (reuse_retained sha stamp data retained official)
             else
               bindA (fetch_to (archive_url D) (join_path staging archive_name)) (\<lambda>zip_bytes.
               bindA (liftA (promote sha stamp data archive_name document_text (join_path staging archive_name) retained official zip_bytes)) (\<lambda>_.
               netA (\<lambda>n. (Inr (length zip_bytes), n))))) (\<lambda>zip_size.
      bindA (liftA (keep_checksum sha data checksum_path)) (\<lambda>(checksum_target, checksum_sha).
      netA (\<lambda>n. (Inr \<lparr>ae_zip_path = retained, ae_zip_sha256 = official, ae_zip_size = zip_size,
        ae_checksum_path = checksum_target, ae_checksum_sha256 = checksum_sha, ae_official = official,
        ae_reused_zip = there, ae_reused_checksum = checksum_reused,
        ae_retry = nt_retry n, ae_hops = nt_hops n, ae_statuses = nt_statuses n\<rparr>, n)))))))))))"

section \<open>Requests: what is asked, and what comes of it\<close>

definition transient :: "outcome \<Rightarrow> bool" where
  "transient reply \<longleftrightarrow> (case reply of
     Responds r \<Rightarrow> rs_status r \<in> set RETRYABLE_STATUS
   | Raises exc message \<Rightarrow> transport_retry_kind exc message \<noteq> None
   | Fails _ \<Rightarrow> False)"

definition decisive :: "outcome \<Rightarrow> response res" where
  "decisive reply = (case reply of Responds r \<Rightarrow> Inr r | Raises _ _ \<Rightarrow> Inl DownloadFailed | Fails e \<Rightarrow> Inl e)"

lemma step_simps [simp]:
  "nt_asked (backoff E a n) = nt_asked n" "nt_asked (note_retry k t n) = nt_asked n"
  "nt_hops (backoff E a n) = nt_hops n" "nt_hops (note_retry k t n) = nt_hops n"
  by (simp_all add: backoff_def note_retry_def)

text \<open>The first reply that is not transient decides, and every reply before it has been asked for.\<close>

lemma request_from_first:
  fixes E url
  assumes "left \<le> MAX_ATTEMPTS"
  defines "replies n \<equiv> map (\<lambda>j. he_server E (length (nt_asked n) + j) url) [0..<left]"
  shows "fst (request_from E url left n) = (case dropWhile transient (replies n) of [] \<Rightarrow> Inl DownloadFailed | reply # _ \<Rightarrow> decisive reply)
    \<and> nt_asked (snd (request_from E url left n))
        = nt_asked n @ replicate (min left (Suc (length (takeWhile transient (replies n))))) url
    \<and> nt_hops (snd (request_from E url left n)) = nt_hops n"
  using assms(1) unfolding replies_def
proof (induction left arbitrary: n)
  case (Suc left)
  let ?o = "he_server E (length (nt_asked n)) url"
  have rest: "map (\<lambda>j. he_server E (length (nt_asked n) + j) url) [0..<Suc left]
      = ?o # map (\<lambda>j. he_server E (Suc (length (nt_asked n)) + j) url) [0..<left]"
    by (simp add: upt_conv_Cons del: upt_Suc) (simp flip: map_Suc_upt add: o_def del: upt_Suc)
  have again: "MAX_ATTEMPTS - Suc left < MAX_ATTEMPTS - 1 \<longleftrightarrow> 0 < left" using Suc.prems by (auto simp: MAX_ATTEMPTS_def)
  have le: "left \<le> MAX_ATTEMPTS" using Suc.prems by simp
  show ?case
  proof (cases "transient ?o")
    case False
    then show ?thesis unfolding rest
      by (cases ?o) (auto simp: ask_def Let_def transient_def decisive_def split: option.splits)
  next
    case True
    obtain n1 where n1: "request_from E url (Suc left) n = (if MAX_ATTEMPTS - Suc left < MAX_ATTEMPTS - 1
          then request_from E url left (backoff E (MAX_ATTEMPTS - Suc left) n1) else (Inl DownloadFailed, n1))"
        "nt_asked n1 = nt_asked n @ [url]" "nt_hops n1 = nt_hops n"
      using True by (cases ?o) (auto simp: ask_def Let_def transient_def split: option.splits)
    show ?thesis
    proof (cases left)
      case 0
      with n1 True again show ?thesis unfolding rest by simp
    next
      case (Suc m)
      then have "request_from E url (Suc left) n = request_from E url left (backoff E (MAX_ATTEMPTS - Suc left) n1)"
        using n1(1) again by simp
      with n1(2,3) True Suc.IH[OF le, of "backoff E (MAX_ATTEMPTS - Suc left) n1"] show ?thesis
        unfolding rest by (simp only: step_simps) simp
    qed
  qed
qed simp

text \<open>C37: A request is decided by the first of three replies that is not transient: the response it
  carries is returned, an error ends the download. Three transient replies end it too, and no URL
  is asked for more than three times.\<close>

theorem request_decided_by_first:
  "fst (request_with_retries E url n) = (case dropWhile transient (map (\<lambda>j. he_server E (length (nt_asked n) + j) url) [0..<3]) of
      [] \<Rightarrow> Inl DownloadFailed | reply # _ \<Rightarrow> decisive reply)
   \<and> nt_asked (snd (request_with_retries E url n)) = nt_asked n
      @ replicate (min 3 (Suc (length (takeWhile transient (map (\<lambda>j. he_server E (length (nt_asked n) + j) url) [0..<3]))))) url"
  using request_from_first[of MAX_ATTEMPTS E url n] by (simp add: request_with_retries_def MAX_ATTEMPTS_def del: upt_Suc)

lemma request_asked:
  "request_with_retries E url n = (r, n') \<Longrightarrow> \<exists>k \<le> 3. nt_asked n' = nt_asked n @ replicate k url"
  using request_from_first[of MAX_ATTEMPTS E url n]
  by (intro exI[of _ "min 3 (Suc (length (takeWhile transient (map (\<lambda>j. he_server E (length (nt_asked n) + j) url) [0..<3]))))"])
    (auto simp: request_with_retries_def MAX_ATTEMPTS_def simp del: upt_Suc replicate.simps)

section \<open>Downloads: where they go, and how much they take\<close>

definition asked_between :: "(ustr \<Rightarrow> bool) \<Rightarrow> nat \<Rightarrow> net \<Rightarrow> net \<Rightarrow> bool" where
  "asked_between ok k n n' \<longleftrightarrow> (\<exists>urls. nt_asked n' = nt_asked n @ urls \<and> length urls \<le> k \<and> list_all ok urls)"

lemma asked_trans: "asked_between ok k n n1 \<Longrightarrow> asked_between ok m n1 n2 \<Longrightarrow> asked_between ok (k + m) n n2"
  unfolding asked_between_def by (metis add_mono append_assoc length_append list_all_append)

lemma asked_more: "asked_between ok k n n1 \<Longrightarrow> k \<le> m \<Longrightarrow> asked_between ok m n n1"
  unfolding asked_between_def by (meson order_trans)

lemma asked_refl: "asked_between ok k n n"
  by (auto simp: asked_between_def)

lemma asked_request: "request_with_retries E url n = (r, n') \<Longrightarrow> ok url \<Longrightarrow> asked_between ok 3 n n'"
  using request_asked[of E url n r n'] by (auto simp: asked_between_def list_all_iff)

lemma follow_asked:
  assumes "follow E hosts left url hops r n = (res, n')" "\<And>u. allowed_url E hosts u \<Longrightarrow> ok u"
  shows "asked_between ok (3 * left) n n' \<and> (\<forall>r' hops'. res = Inr (r', hops') \<longrightarrow>
    (\<exists>more. hops' = hops @ more \<and> length more \<le> left \<and> list_all (allowed_url E hosts) more))"
  using assms(1)
proof (induction left arbitrary: url hops r n)
  case 0
  then show ?case by (subst (asm) follow.simps) (auto simp: asked_refl split: if_splits)
next
  case (Suc left)
  show ?case
  proof (cases "is_redirect r")
    case False
    with Suc.prems show ?thesis by (subst (asm) follow.simps) (auto simp: asked_refl)
  next
    case True
    show ?thesis
    proof (cases "he_join E url (case rs_location r of Some l \<Rightarrow> l | None \<Rightarrow> [])")
      case (Inl e)
      with True Suc.prems show ?thesis by (subst (asm) follow.simps) (auto simp: asked_refl)
    next
      case (Inr u)
      show ?thesis
      proof (cases "allowed_url E hosts u")
        case False
        with True Inr Suc.prems show ?thesis by (subst (asm) follow.simps) (auto simp: asked_refl)
      next
        case ok: True
        obtain a n1 where q: "request_with_retries E u n = (a, n1)" by fastforce
        note one = asked_request[of E u n a n1 ok, OF q assms(2)[OF ok]]
        show ?thesis
        proof (cases a)
          case (Inl e)
          with True Inr ok q Suc.prems have "res = Inl e" "n' = n1" by (subst (asm) follow.simps; simp)+
          with asked_more[OF one, of "3 * Suc left"] show ?thesis by simp
        next
          case a: (Inr r1)
          with True Inr ok q Suc.prems have "follow E hosts left u (hops @ [u]) r1 n1 = (res, n')"
            by (subst (asm) follow.simps) simp
          from Suc.IH[OF this] asked_trans[OF one] ok show ?thesis by fastforce
        qed
      qed
    qed
  qed
qed

lemma chunks_concat: "0 < k \<Longrightarrow> concat (chunks_of k b) = b"
  by (induction k b rule: chunks_of.induct) (subst chunks_of.simps, auto)

lemma take_chunks: "foldE (take_chunk cap) (kept, length kept) cs
    = (if cs = [] \<or> length (kept @ concat cs) \<le> cap then Inr (kept @ concat cs, length (kept @ concat cs)) else Inl DownloadFailed)"
proof (induction cs arbitrary: kept)
  case (Cons c cs)
  show ?case
  proof (cases "length kept + length c \<le> cap")
    case True
    have "foldE (take_chunk cap) (kept, length kept) (c # cs) = foldE (take_chunk cap) (kept @ c, length (kept @ c)) cs"
      using True by (simp add: take_chunk_def Let_def)
    with True Cons.IH[of "kept @ c"] show ?thesis by auto
  qed (auto simp: take_chunk_def Let_def)
qed simp

lemma capped_body_eq: "capped_body cap body = (if length body \<le> cap then Inr body else Inl DownloadFailed)"
proof -
  have c: "concat (chunks_of CHUNK body) = body" by (rule chunks_concat) (simp add: CHUNK_def)
  show ?thesis
  proof (cases "body = []")
    case True
    then show ?thesis by (simp add: capped_body_def chunks_of.simps)
  next
    case False
    then have "chunks_of CHUNK body \<noteq> []" using c by auto
    then show ?thesis using take_chunks[of cap "[]" "chunks_of CHUNK body"] c by (simp add: capped_body_def)
  qed
qed

text \<open>C36: Whatever the servers answer, a download asks at most fifteen times, only for its own URL or
  for https URLs on allowed hosts, follows at most four redirects and returns at most the capped
  number of bytes.\<close>

theorem download_contained:
  "case fetch E hosts cap url n of (r, n') \<Rightarrow>
     asked_between (\<lambda>u. u = url \<or> allowed_url E hosts u) 15 n n'
     \<and> (case r of Inl _ \<Rightarrow> True | Inr (payload, hops) \<Rightarrow>
          length payload \<le> cap \<and> length hops \<le> 4 \<and> list_all (allowed_url E hosts) hops)"
proof -
  let ?ok = "\<lambda>u. u = url \<or> allowed_url E hosts u"
  obtain a n1 where a: "request_with_retries E url n = (a, n1)" by fastforce
  have one: "asked_between ?ok 3 n n1" by (rule asked_request[OF a]) simp
  show ?thesis
  proof (cases a)
    case (Inl e)
    with a asked_more[OF one, of 15] show ?thesis by (simp add: fetch_def)
  next
    case (Inr r)
    obtain b n2 where b: "follow E hosts (MAX_REDIRECT_HOPS - 1) url [url] r n1 = (b, n2)" by fastforce
    note f = follow_asked[OF b, of ?ok]
    have all: "asked_between ?ok 15 n n2" using f by (intro asked_more[OF asked_trans[OF one]]) (auto simp: MAX_REDIRECT_HOPS_def)
    show ?thesis
    proof (cases b)
      case (Inl e)
      with a b Inr all show ?thesis by (simp add: fetch_def)
    next
      case b': (Inr rh)
      obtain r2 hops where rh: "rh = (r2, hops)" by fastforce
      obtain more where more: "hops = [url] @ more" "length more \<le> 4" "list_all (allowed_url E hosts) more"
        using f b' rh by (auto simp: MAX_REDIRECT_HOPS_def)
      show ?thesis using a b Inr b' rh all more
        by (cases "length (rs_body r2) \<le> cap") (simp_all add: fetch_def capped_body_eq)
    qed
  qed
qed

section \<open>The content-addressed store\<close>

definition run :: "'a acq \<Rightarrow> net \<Rightarrow> ('a \<times> net) io" where
  "run m n f = (case m n f of ((r, n1), t) \<Rightarrow> (bindE r (\<lambda>x. Inr (x, n1)), t))"

definition tripleA :: "(fs \<Rightarrow> bool) \<Rightarrow> (fs \<Rightarrow> bool) \<Rightarrow> 'a acq \<Rightarrow> ('a \<Rightarrow> fs \<Rightarrow> bool) \<Rightarrow> bool" where
  "tripleA I P m Q \<longleftrightarrow> (\<forall>n. triple I P (run m n) (\<lambda>xn. Q (fst xn)))"

lemma run_bindA: "run (bindA m k) n = bindIO (run m n) (\<lambda>xn. run (k (fst xn)) (snd xn))"
  by (rule ext) (auto simp: run_def bindA_def bindIO_def split: prod.splits sum.splits)

lemma run_liftA: "run (liftA m) n = bindIO m (\<lambda>x. returnIO (x, n))"
  by (rule ext) (auto simp: run_def liftA_def bindIO_def returnIO_def split: prod.splits sum.splits)

lemma run_netA: "run (netA g) n = lookIO (\<lambda>_. bindE (fst (g n)) (\<lambda>x. Inr (x, snd (g n))))"
  by (rule ext) (auto simp: run_def netA_def lookIO_def split: prod.splits)

lemma tripleA_bind: "tripleA I P m Q \<Longrightarrow> (\<And>x. tripleA I (Q x) (k x) R) \<Longrightarrow> tripleA I P (bindA m k) R"
  unfolding tripleA_def run_bindA by (blast intro: triple_bind)

lemma tripleA_lift: "triple I P m Q \<Longrightarrow> tripleA I P (liftA m) Q"
  unfolding tripleA_def run_liftA by (auto intro!: triple_return elim: triple_bind)

lemma tripleA_net: "(\<And>f n x. I f \<Longrightarrow> P f \<Longrightarrow> fst (g n) = Inr x \<Longrightarrow> Q x f) \<Longrightarrow> tripleA I P (netA g) Q"
  unfolding tripleA_def run_netA by (auto intro!: triple_look simp: res_simps)

lemma tripleA_if: "tripleA I P a Q \<Longrightarrow> tripleA I P b Q \<Longrightarrow> tripleA I P (if c then a else b) Q"
  by simp

text \<open>The places of the store, and what holds of it: each file has the hash its name says, and
  what the store held before is unchanged.\<close>

definition store_place :: "path \<Rightarrow> path \<Rightarrow> bool" where
  "store_place data p \<longleftrightarrow> (\<exists>kind d. kind \<in> {cps ''raw'', cps ''checksum''} \<and> p = data @ [cps ''objects'', kind, cps ''sha256'', d])"

definition store_ok :: "(bytes \<Rightarrow> string) \<Rightarrow> path \<Rightarrow> fs \<Rightarrow> bool" where
  "store_ok sha data g \<longleftrightarrow> tree_ok g \<and> (\<forall>p b. store_place data p \<and> g p = Some (File b) \<longrightarrow> last p = cps (sha b))"

definition store_grows :: "path \<Rightarrow> fs \<Rightarrow> fs \<Rightarrow> bool" where
  "store_grows data f g \<longleftrightarrow> (\<forall>p. store_place data p \<and> f p \<noteq> None \<longrightarrow> g p = f p)"

definition store_inv :: "(bytes \<Rightarrow> string) \<Rightarrow> path \<Rightarrow> fs \<Rightarrow> fs \<Rightarrow> bool" where
  "store_inv sha data f0 g \<longleftrightarrow> store_ok sha data g \<and> store_grows data f0 g"

text \<open>Where downloads and evidence go.\<close>

definition outside :: "path \<Rightarrow> path \<Rightarrow> bool" where
  "outside data p \<longleftrightarrow> plain_path p \<and> (\<exists>w r. p = data @ w # r \<and> w \<noteq> cps ''objects'')"

lemma outside_not_store: "outside data p \<Longrightarrow> \<not> store_place data p"
  by (auto simp: outside_def store_place_def)

lemma outside_plain: "outside data p \<Longrightarrow> plain_path p"
  by (simp add: outside_def)

lemma outside_snoc: "outside data p \<Longrightarrow> plain_name x \<Longrightarrow> outside data (p @ [x])"
  by (auto simp: outside_def path_simps)

lemma inv_tree: "store_inv sha data f0 g \<Longrightarrow> tree_ok g"
  by (simp add: store_inv_def store_ok_def)

lemma inv_leaf:
  assumes "store_inv sha data f0 f" "plain_path p" "f p \<noteq> Some Dir" "locate f [] p = Some p"
    "store_place data p \<Longrightarrow> f p = None \<and> (x = Dir \<or> (\<exists>b. x = File b \<and> last p = cps (sha b)))"
  shows "store_inv sha data f0 (f(p \<mapsto> x))"
proof -
  have "tree_ok (f(p \<mapsto> x))"
    using tree_ok_leaf[OF inv_tree[OF assms(1)] plain_path_ok[OF assms(2)] assms(4,3)] .
  moreover have "f0 p = None" if "store_place data p"
    using assms(1,5) that by (auto simp: store_inv_def store_grows_def)
  ultimately show ?thesis using assms(1,5) by (auto simp: store_inv_def store_ok_def store_grows_def)
qed

lemma inv_remove:
  assumes "store_inv sha data f0 f" "f p = Some (File b)" "\<not> store_place data p"
  shows "store_inv sha data f0 (f(p := None))"
  using assms tree_ok_remove[OF inv_tree[OF assms(1)] assms(2)] by (auto simp: store_inv_def store_ok_def store_grows_def)

lemma inv_replace:
  assumes "store_inv sha data f0 f" "plain_path d" "f s = Some (File b)" "f d \<noteq> Some Dir" "locate f [] d = Some d"
    "\<not> store_place data s" "store_place data d \<Longrightarrow> f d = None \<and> last d = cps (sha b)"
  shows "store_inv sha data f0 ((f(s := None))(d \<mapsto> File b))"
proof -
  have "tree_ok ((f(s := None))(d \<mapsto> File b))"
    using tree_ok_replace[OF inv_tree[OF assms(1)] assms(2,3,4,5)] .
  moreover have "f0 d = None" if "store_place data d"
    using assms(1,7) that by (auto simp: store_inv_def store_grows_def)
  ultimately show ?thesis using assms(1,6,7) by (auto simp: store_inv_def store_ok_def store_grows_def)
qed

lemma triple_dirs:
  assumes "plain_path p" "\<And>f q. P f \<Longrightarrow> f q = None \<Longrightarrow> P (f(q \<mapsto> Dir))"
  shows "triple (store_inv sha data f0) P (make_dirs p) (\<lambda>_ f. P f)"
proof (rule triple_weaken[OF triple_make_dirs[of "store_inv sha data f0" p P]])
  show "store_inv sha data f0 f \<Longrightarrow> tree_ok f" for f by (rule inv_tree)
  fix f k assume f: "store_inv sha data f0 f" "P f" "f (take k p) = None" "locate f [] (take k p) = Some (take k p)"
  show "store_inv sha data f0 (f(take k p \<mapsto> Dir)) \<and> P (f(take k p \<mapsto> Dir))"
    using f assms by (auto intro!: inv_leaf plain_path_take)
qed (use assms in auto)

lemma triple_outside_write:
  assumes "outside data p"
  shows "triple (store_inv sha data f0) (\<lambda>_. True) (write_file p b) (\<lambda>_ f. f p = Some (File b))"
  using assms outside_not_store[OF assms]
  by (intro triple_write_file inv_tree outside_plain inv_leaf) auto

lemma triple_outside_any: "outside data p \<Longrightarrow> triple (store_inv sha data f0) (\<lambda>_. True) (write_file p b) (\<lambda>_ _. True)"
  by (rule triple_weaken[OF triple_outside_write]) auto

lemma quarantine_triple:
  assumes "plain_path data" "plain_name (stamp @ [45] @ cps reason)" "\<And>x. x \<in> set payloads \<Longrightarrow> plain_name (fst x)"
  shows "triple (store_inv sha data f0) (\<lambda>_. True) (quarantine sha stamp data reason payloads extra) (\<lambda>_ _. True)"
proof -
  let ?t = "data @ [cps ''quarantine'', stamp @ [45] @ cps reason]"
  have t: "outside data ?t" using assms(1,2)
    by (auto simp: outside_def path_simps plain_name_cps cps_inject)
  have j: "join_path (data @ [cps ''quarantine'']) (stamp @ [45] @ cps reason) = ?t"
    using join_path_plain[OF assms(2), of "data @ [cps ''quarantine'']"] by simp
  have "triple (store_inv sha data f0) (\<lambda>_. True) (eachIO (\<lambda>(name, blob). write_file (join_path ?t name) blob) payloads) (\<lambda>_ _. True)"
  proof (rule triple_each)
    fix x assume "x \<in> set payloads"
    then have "outside data (?t @ [fst x])" using assms(3) outside_snoc[OF t] by simp
    from triple_outside_any[OF this] assms(3)[OF \<open>x \<in> set payloads\<close>]
    show "triple (store_inv sha data f0) (\<lambda>_. True) (case x of (name, blob) \<Rightarrow> write_file (join_path ?t name) blob) (\<lambda>_ _. True)"
      by (cases x) (simp add: path_simps)
  qed
  moreover have "triple (store_inv sha data f0) (\<lambda>_. True) (write_file (?t @ [cps ''reason.json'']) c) (\<lambda>_ _. True)" for c
    by (rule triple_outside_any[OF outside_snoc[OF t]]) (simp add: plain_name_cps)
  ultimately show ?thesis unfolding quarantine_def j Let_def
    by (intro triple_bind[OF triple_dirs[OF outside_plain[OF t]]] triple_bind[of _ _ _ "\<lambda>_ _. True"] triple_return) auto
qed

lemma save_triple:
  assumes "outside data p" "p = d @ [x]" "plain_name (x @ cps ''.part'')"
  shows "triple (store_inv sha data f0) (\<lambda>_. True) (save_download p b) (\<lambda>_ f. f p = Some (File b))"
proof -
  have d: "plain_path d" using outside_plain[OF assms(1)] assms(2) by (simp add: path_simps)
  have part: "outside data (d @ [x @ cps ''.part''])"
  proof -
    obtain w r where "p = data @ w # r" "w \<noteq> cps ''objects''" using assms(1) by (auto simp: outside_def)
    then obtain w' r' where "d @ [x @ cps ''.part''] = data @ w' # r'" "w' \<noteq> cps ''objects''"
    proof (cases r rule: rev_cases)
      case Nil
      then have "d = data" using \<open>p = data @ w # r\<close> assms(2) by simp
      moreover have "x @ cps ''.part'' \<noteq> cps ''objects''" by (auto simp: cps_def append_eq_Cons_conv)
      ultimately show ?thesis using that by simp
    next
      case (snoc r1 y)
      then have "d = data @ w # r1" using \<open>p = data @ w # r\<close> assms(2) by simp
      with that \<open>w \<noteq> cps ''objects''\<close> show ?thesis by simp
    qed
    moreover have "plain_path (d @ [x @ cps ''.part''])" using d assms(3) by (simp add: path_simps)
    ultimately show ?thesis unfolding outside_def by blast
  qed
  show ?thesis unfolding save_download_def assms(2) Let_def butlast_snoc last_snoc
    using outside_not_store[OF part] outside_not_store[OF assms(1)] outside_plain[OF assms(1)] assms(2)
    by (intro triple_bind[OF triple_dirs[OF d]] triple_bind[OF triple_outside_write[OF part]]
        triple_replace_file outside_plain[OF part] conjI inv_replace) (auto intro: inv_tree)
qed

lemma download_triple:
  assumes "outside data p" "p = d @ [x]" "plain_name (x @ cps ''.part'')"
  shows "tripleA (store_inv sha data f0) (\<lambda>_. True) (download E hosts cap url p) (\<lambda>b f. f p = Some (File b))"
  unfolding download_def Let_def
proof (rule tripleA_bind[of _ _ _ "\<lambda>_ _. True"])
  fix ph :: "bytes \<times> ustr list"
  show "tripleA (store_inv sha data f0) (\<lambda>_. True)
      (case ph of (payload, hops) \<Rightarrow> bindA (liftA (save_download p payload)) (\<lambda>_. netA (\<lambda>n. (Inr payload, n\<lparr>nt_hops := nt_hops n @ hops\<rparr>))))
      (\<lambda>b f. f p = Some (File b))"
    by (cases ph) (auto intro!: tripleA_bind[OF tripleA_lift[OF save_triple[OF assms]]] tripleA_net)
qed (auto intro: tripleA_net)

lemma read_bytes_plain: "tree_ok f \<Longrightarrow> plain_path p \<Longrightarrow> read_bytes p f = Inr b \<Longrightarrow> f p = Some (File b)"
  by (auto simp: read_bytes_def path_simps split: option.splits node.splits)

definition raw_path :: "path \<Rightarrow> ustr \<Rightarrow> path" where
  "raw_path data d = data @ [cps ''objects'', cps ''raw'', cps ''sha256'', d]"

lemma raw_path_facts:
  "plain_path data \<Longrightarrow> hex_digest d \<Longrightarrow> plain_path (raw_path data d)" "store_place data (raw_path data d)" "last (raw_path data d) = d"
  "plain_path data \<Longrightarrow> plain_path (butlast (raw_path data d))"
  by (auto simp: raw_path_def path_simps plain_name_cps hex_digest_plain store_place_def butlast_append)

lemma reuse_triple:
  assumes "plain_path data" "plain_name (stamp @ [45] @ cps ''retained_artifact_corruption'')" "hex_digest official"
  shows "triple (store_inv sha data f0) (\<lambda>_. True) (reuse_retained sha stamp data (raw_path data official) official)
    (\<lambda>k f. \<exists>b. f (raw_path data official) = Some (File b) \<and> cps (sha b) = official \<and> length b = k)"
  unfolding reuse_retained_def
proof (rule triple_bind[of _ _ _ "\<lambda>b f. f (raw_path data official) = Some (File b)"])
  show "triple (store_inv sha data f0) (\<lambda>_. True) (lookIO (read_bytes (raw_path data official)))
      (\<lambda>b f. f (raw_path data official) = Some (File b))"
    by (rule triple_look) (auto intro: read_bytes_plain inv_tree raw_path_facts(1)[OF assms(1,3)])
  fix b
  have q: "triple (store_inv sha data f0) (\<lambda>f. f (raw_path data official) = Some (File b))
      (quarantine sha stamp data ''retained_artifact_corruption'' [(cps ''artifact'', b)]
        [(cps ''expected_sha256'', official), (cps ''local_sha256'', cps (sha b))]) (\<lambda>_ _. True)"
    by (rule triple_weaken[OF quarantine_triple[OF assms(1,2)]]) (auto simp: plain_name_cps)
  show "triple (store_inv sha data f0) (\<lambda>f. f (raw_path data official) = Some (File b))
      (if cps (sha b) \<noteq> official then bindIO (quarantine sha stamp data ''retained_artifact_corruption'' [(cps ''artifact'', b)]
          [(cps ''expected_sha256'', official), (cps ''local_sha256'', cps (sha b))]) (\<lambda>_. raiseIO ChecksumMismatch)
       else returnIO (length b))
      (\<lambda>k f. \<exists>b. f (raw_path data official) = Some (File b) \<and> cps (sha b) = official \<and> length b = k)"
    by (auto intro!: triple_bind[OF q] triple_raise triple_return)
qed

lemma promote_triple:
  assumes "plain_path data" "plain_name (stamp @ [45] @ cps ''checksum_mismatch'')" "hex_digest official" "plain_name name" "outside data staged"
  shows "triple (store_inv sha data f0) (\<lambda>f. f staged = Some (File b))
    (promote sha stamp data name document staged (raw_path data official) official b)
    (\<lambda>_ f. f (raw_path data official) = Some (File b) \<and> cps (sha b) = official)"
proof (cases "cps (sha b) = official")
  case False
  have "triple (store_inv sha data f0) (\<lambda>_. True)
      (quarantine sha stamp data ''checksum_mismatch'' (dict_put [(name, b)] (cps ''checksum_document.txt'') doc) extra) (\<lambda>_ _. True)" for doc extra
    by (rule quarantine_triple[OF assms(1,2)]) (use assms(4) in \<open>auto simp: plain_name_cps split: if_splits\<close>)
  with False show ?thesis unfolding promote_def
    by (auto intro!: triple_bind[of _ _ "lookIO _" "\<lambda>_ _. True"] triple_look triple_bind[of _ _ "quarantine _ _ _ _ _ _"] triple_raise)
next
  case True
  let ?r = "raw_path data official"
  have r: "plain_path ?r" "staged \<noteq> ?r" "\<not> store_place data staged"
    using raw_path_facts(1)[OF assms(1,3)] raw_path_facts(2)[of data official] outside_not_store[OF assms(5)] by auto
  have dirs: "triple (store_inv sha data f0) (\<lambda>f. f staged = Some (File b)) (make_dirs (butlast ?r)) (\<lambda>_ f. f staged = Some (File b))"
    by (rule triple_dirs[OF raw_path_facts(4)[OF assms(1)]]) auto
  have there: "triple (store_inv sha data f0) (\<lambda>f. f staged = Some (File b)) (lookIO (\<lambda>f. Inr (path_exists f ?r)))
      (\<lambda>there f. f staged = Some (File b) \<and> (\<not> there \<longrightarrow> f ?r = None))"
    using r(1) by (intro triple_look) (auto simp: path_exists_def node_at_plain dest: inv_tree)
  have same: "triple (store_inv sha data f0) (\<lambda>f. f staged = Some (File b))
      (bindIO (lookIO (read_bytes ?r)) (\<lambda>b'. if b' = b then unlink staged else raiseIO DownloadFailed)) (\<lambda>_ f. f ?r = Some (File b))"
  proof (rule triple_bind[of _ _ _ "\<lambda>b' f. f staged = Some (File b) \<and> f ?r = Some (File b')"])
    show "triple (store_inv sha data f0) (\<lambda>f. f staged = Some (File b)) (lookIO (read_bytes ?r))
        (\<lambda>b' f. f staged = Some (File b) \<and> f ?r = Some (File b'))"
      by (rule triple_look) (auto intro: read_bytes_plain inv_tree r(1))
    show "triple (store_inv sha data f0) (\<lambda>f. f staged = Some (File b) \<and> f ?r = Some (File b'))
        (if b' = b then unlink staged else raiseIO DownloadFailed) (\<lambda>_ f. f ?r = Some (File b))" for b'
      using r by (auto intro!: triple_raise triple_unlink outside_plain[OF assms(5)] inv_remove intro: inv_tree)
  qed
  have move: "triple (store_inv sha data f0) (\<lambda>f. f staged = Some (File b) \<and> f ?r = None) (replace_file staged ?r)
      (\<lambda>_ f. f ?r = Some (File b))"
    using r True raw_path_facts(3)[of data official]
    by (intro triple_replace_file outside_plain[OF assms(5)] conjI inv_replace) (auto intro: inv_tree)
  have "triple (store_inv sha data f0) (\<lambda>f. f staged = Some (File b) \<and> (\<not> there \<longrightarrow> f ?r = None))
      (if there then bindIO (lookIO (read_bytes ?r)) (\<lambda>b'. if b' = b then unlink staged else raiseIO DownloadFailed) else replace_file staged ?r)
      (\<lambda>_ f. f ?r = Some (File b) \<and> cps (sha b) = official)" for there
    by (cases there; simp only: if_True if_False; rule triple_weaken[OF same] triple_weaken[OF move]; use True in simp)
  from triple_bind[OF dirs triple_bind[OF there this]] show ?thesis
    unfolding promote_def if_not_P[OF not_not[THEN iffD2, OF True]] .
qed

lemma keep_triple:
  assumes "plain_path data" "outside data p" "\<And>b. hex_digest (cps (sha b))"
  shows "triple (store_inv sha data f0) (\<lambda>f. f (raw_path data d) = Some (File z)) (keep_checksum sha data p)
    (\<lambda>ts f. f (raw_path data d) = Some (File z) \<and> f (fst ts) \<noteq> None \<and> store_place data (fst ts) \<and> last (fst ts) = snd ts)"
proof -
  let ?store = "data @ [cps ''objects'', cps ''checksum'', cps ''sha256'']" and ?P = "\<lambda>f :: fs. f (raw_path data d) = Some (File z)"
  have plain: "plain_path ?store" using assms(1) by (simp add: path_simps plain_name_cps)
  have target: "plain_path (?store @ [h])" if "hex_digest h" for h using plain that by (simp add: path_simps hex_digest_plain)
  have place: "store_place data (?store @ [h])" "?store @ [h] \<noteq> raw_path data d" for h
    by (auto simp: store_place_def raw_path_def cps_inject)
  have read: "triple (store_inv sha data f0) ?P (lookIO (read_bytes p)) (\<lambda>b f. ?P f \<and> f p = Some (File b))"
    by (rule triple_look) (auto intro: read_bytes_plain inv_tree outside_plain[OF assms(2)])
  have dirs: "triple (store_inv sha data f0) (\<lambda>f. ?P f \<and> f p = Some (File b)) (make_dirs ?store) (\<lambda>_ f. ?P f \<and> f p = Some (File b))" for b
    by (rule triple_dirs[OF plain]) auto
  have there: "triple (store_inv sha data f0) (\<lambda>f. ?P f \<and> f p = Some (File b)) (lookIO (\<lambda>f. Inr (path_exists f (?store @ [cps (sha b)]))))
      (\<lambda>there f. ?P f \<and> f p = Some (File b) \<and> there = (f (?store @ [cps (sha b)]) \<noteq> None))" for b
    using target[OF assms(3)] by (intro triple_look) (auto simp: path_exists_def node_at_plain dest: inv_tree)
  have move: "triple (store_inv sha data f0) (\<lambda>f. ?P f \<and> f p = Some (File b) \<and> f (?store @ [cps (sha b)]) = None)
      (replace_file p (?store @ [cps (sha b)])) (\<lambda>_ f. ?P f \<and> f (?store @ [cps (sha b)]) \<noteq> None)" for b
    using target[OF assms(3)] place outside_not_store[OF assms(2)] raw_path_facts(2)[of data d]
    by (intro triple_replace_file outside_plain[OF assms(2)] conjI inv_replace) (auto intro: inv_tree)
  have fin: "triple (store_inv sha data f0) (\<lambda>f. ?P f \<and> f p = Some (File b) \<and> there = (f (?store @ [cps (sha b)]) \<noteq> None))
      (if there then returnIO () else replace_file p (?store @ [cps (sha b)])) (\<lambda>_ f. ?P f \<and> f (?store @ [cps (sha b)]) \<noteq> None)" for there b
  proof (cases there)
    case False
    show ?thesis by (simp only: False if_False) (rule triple_weaken[OF move], auto)
  qed (auto intro!: triple_return)
  show ?thesis unfolding keep_checksum_def Let_def join_path_plain[OF hex_digest_plain[OF assms(3)]]
    by (rule triple_bind[OF read], rule triple_bind[OF dirs], rule triple_bind[OF there], rule triple_bind[OF fin])
      (use place(1) in \<open>auto intro!: triple_return\<close>)
qed

lemma tripleA_pure: "(\<And>f. P f \<Longrightarrow> A) \<Longrightarrow> (A \<Longrightarrow> tripleA I P m Q) \<Longrightarrow> tripleA I P m Q"
  unfolding tripleA_def triple_def by blast

lemma if_Inr: "(if c then Inr x else Inl e) = Inr d \<Longrightarrow> c \<and> x = d"
  by (simp split: if_splits)

lemma checksum_digest: "parse_checksum_document t name = Inr d \<Longrightarrow> hex_digest d"
  unfolding parse_checksum_document_def Let_def by (drule if_Inr) blast

text \<open>The names the theorem is about: a plain data directory, attempt and archive name, and a time
  stamp without a slash.\<close>

definition names_ok :: "path \<Rightarrow> ustr \<Rightarrow> ustr \<Rightarrow> ustr \<Rightarrow> bool" where
  "names_ok data attempt_id archive_name stamp \<longleftrightarrow>
     plain_path data \<and> plain_name attempt_id \<and> plain_name archive_name \<and> 47 \<notin> set stamp"

definition verified :: "(bytes \<Rightarrow> string) \<Rightarrow> path \<Rightarrow> acquisition_evidence \<Rightarrow> fs \<Rightarrow> bool" where
  "verified sha data ev f \<longleftrightarrow> (\<exists>b. f (ae_zip_path ev) = Some (File b) \<and> cps (sha b) = ae_official ev \<and> length b = ae_zip_size ev)
     \<and> ae_zip_sha256 ev = ae_official ev \<and> ae_zip_path ev = raw_path data (ae_official ev)
     \<and> f (ae_checksum_path ev) \<noteq> None \<and> store_place data (ae_checksum_path ev) \<and> last (ae_checksum_path ev) = ae_checksum_sha256 ev"

lemma plain_name_append: "plain_name a \<Longrightarrow> 47 \<notin> set b \<Longrightarrow> 2 < length (a @ b) \<Longrightarrow> plain_name (a @ b)"
proof -
  assume a: "plain_name a" "47 \<notin> set b" "2 < length (a @ b)"
  have "a @ b \<noteq> x" if "length x \<le> 2" for x using a(3) that by auto
  from this[of "[]"] this[of dot] this[of dotdot] a show "plain_name (a @ b)"
    by (simp add: plain_name_def dot_def dotdot_def)
qed

lemma tripleA_ex: "(\<And>z. tripleA I (P z) m Q) \<Longrightarrow> tripleA I (\<lambda>f. \<exists>z. P z f) m Q"
  unfolding tripleA_def triple_def by blast

lemma acquire_triple:
  assumes names: "names_ok data attempt_id (archive_name_of (archive_url D)) stamp" and sha: "\<And>b. hex_digest (cps (sha b))"
  shows "tripleA (store_inv sha data f0) (\<lambda>_. True) (acquire sha E stamp D data attempt_id max_zip) (verified sha data)"
proof -
  let ?name = "archive_name_of (archive_url D)" and ?st = "data @ [cps ''staging'', attempt_id]"
  let ?cs = "?name @ cps ''.CHECKSUM''"
  have plain: "plain_path data" "plain_name attempt_id" "plain_name ?name" using names by (simp_all add: names_ok_def)
  have ext: "plain_name (?name @ cps ''.part'')" "plain_name ?cs" "plain_name (?cs @ cps ''.part'')"
    using plain_name_append[OF plain(3), of "cps ''.part''"] plain_name_append[OF plain(3), of "cps ''.CHECKSUM''"]
      plain_name_append[OF plain(3), of "cps ''.CHECKSUM'' @ cps ''.part''"] by (simp_all add: cps_def)
  have reasons: "plain_name (stamp @ [45] @ cps r)" if "47 \<notin> set (cps r)" "2 < length r" for r
  proof -
    have "stamp @ [45] @ cps r \<noteq> x" if "length x \<le> 2" for x using that \<open>2 < length r\<close> by (auto simp: cps_def)
    from this[of "[]"] this[of dot] this[of dotdot] names that show ?thesis
      by (auto simp: names_ok_def plain_name_def dot_def dotdot_def)
  qed
  have corrupt: "plain_name (stamp @ [45] @ cps ''retained_artifact_corruption'')" by (rule reasons) (simp_all add: cps_def)
  have mismatch: "plain_name (stamp @ [45] @ cps ''checksum_mismatch'')" by (rule reasons) (simp_all add: cps_def)
  have st: "outside data ?st" using plain by (auto simp: outside_def path_simps plain_name_cps cps_inject)
  have zip: "outside data (?st @ [?name])" and cs: "outside data (?st @ [?cs])"
    using outside_snoc[OF st] plain(3) ext(2) by auto
  have joins: "join_path (data @ [cps ''staging'']) attempt_id = ?st" "join_path ?st ?cs = ?st @ [?cs]" "join_path ?st ?name = ?st @ [?name]"
    using plain ext(2) by (simp_all add: path_simps)
  have raw: "join_path (data @ [cps ''objects'', cps ''raw'', cps ''sha256'']) d = raw_path data d" if "hex_digest d" for d
    using hex_digest_plain[OF that] by (simp add: path_simps raw_path_def)
  let ?T = "tripleA (store_inv sha data f0)"
  have look: "?T (\<lambda>_. True) (liftA (lookIO g)) (\<lambda>_ _. True)" for g :: "fs \<Rightarrow> 'x res"
    by (intro tripleA_lift triple_look) simp
  have get: "?T (\<lambda>_. True) (download E hosts cap url p) (\<lambda>_ _. True)" if "p = ?st @ [x]" "plain_name x" "plain_name (x @ cps ''.part'')" for hosts cap url p x
    using download_triple[of data p ?st x sha f0 E hosts cap url] outside_snoc[OF st that(2)] that
    unfolding tripleA_def by (auto elim!: triple_weaken)
  let ?got = "\<lambda>d k f. \<exists>b. f (raw_path data d) = Some (File b) \<and> cps (sha b) = d \<and> length b = k"
  have keep: "?T (?got d k) (bindA (liftA (keep_checksum sha data (?st @ [?cs]))) (\<lambda>(checksum_target, checksum_sha).
        netA (\<lambda>n. (Inr \<lparr>ae_zip_path = raw_path data d, ae_zip_sha256 = d, ae_zip_size = k,
          ae_checksum_path = checksum_target, ae_checksum_sha256 = checksum_sha, ae_official = d,
          ae_reused_zip = there, ae_reused_checksum = reused,
          ae_retry = nt_retry n, ae_hops = nt_hops n, ae_statuses = nt_statuses n\<rparr>, n)))) (verified sha data)" (is "tripleA _ _ ?m _") for d k there reused
  proof (rule tripleA_ex, rule tripleA_pure)
    fix z
    assume z: "cps (sha z) = d \<and> length z = k"
    have "?T (\<lambda>f. f (raw_path data d) = Some (File z)) ?m (verified sha data)"
      by (rule tripleA_bind[OF tripleA_lift[OF keep_triple[OF plain(1) cs sha]]])
        (use z in \<open>auto intro!: tripleA_net simp: verified_def split: prod.splits\<close>)
    then show "?T (\<lambda>f. f (raw_path data d) = Some (File z) \<and> cps (sha z) = d \<and> length z = k) ?m (verified sha data)"
      unfolding tripleA_def by (auto elim!: triple_weaken)
  qed auto
  have load: "?T (\<lambda>_. True) (bindA (download E hosts cap url (?st @ [?name])) (\<lambda>b.
      bindA (liftA (promote sha stamp data ?name doc (?st @ [?name]) (raw_path data d) d b)) (\<lambda>_. netA (\<lambda>n. (Inr (length b), n))))) (?got d)"
    if "hex_digest d" for d doc hosts cap url
    by (rule tripleA_bind[OF download_triple[OF zip refl ext(1)]],
        rule tripleA_bind[OF tripleA_lift[OF promote_triple[OF plain(1) mismatch that plain(3) zip]]]) (auto intro!: tripleA_net)
  have both: "?T (\<lambda>_. True) (if there then liftA (reuse_retained sha stamp data (raw_path data d) d)
      else bindA (download E hosts cap url (?st @ [?name])) (\<lambda>b.
        bindA (liftA (promote sha stamp data ?name doc (?st @ [?name]) (raw_path data d) d b)) (\<lambda>_. netA (\<lambda>n. (Inr (length b), n))))) (?got d)"
    if "hex_digest d" for d doc hosts cap url there
    by (intro tripleA_if load[OF that] tripleA_lift reuse_triple[OF plain(1) corrupt that])
  have official: "?T (\<lambda>_. True) (netA (\<lambda>n. (parse_checksum_document t ?name, n))) (\<lambda>d _. hex_digest d)" for t
    by (rule tripleA_net) (auto intro: checksum_digest)
  have checksum: "?T (\<lambda>_. True) (if reused then netA (\<lambda>n. (Inr [], n)) else download E hosts cap url (?st @ [?cs])) (\<lambda>_ _. True)" for reused hosts cap url
    by (intro tripleA_if get[OF refl ext(2,3)] tripleA_net) simp
  have stage: "?T (\<lambda>_. True) (liftA (make_dirs ?st)) (\<lambda>_ _. True)"
    by (intro tripleA_lift triple_dirs outside_plain[OF st]) simp
  show ?thesis unfolding acquire_def Let_def joins
  proof (rule tripleA_bind[OF stage], rule tripleA_bind[OF look], rule tripleA_bind[OF checksum], rule tripleA_bind[OF look],
      rule tripleA_bind[OF official], rule tripleA_pure[where A = "hex_digest _"])
    fix d reused and t :: ustr
    assume d: "hex_digest d"
    show "?T (\<lambda>_. hex_digest d) (bindA (liftA (lookIO (\<lambda>f. Inr (path_exists f (join_path (data @ [cps ''objects'', cps ''raw'', cps ''sha256'']) d))))) (\<lambda>there.
      bindA (if there then liftA (reuse_retained sha stamp data (join_path (data @ [cps ''objects'', cps ''raw'', cps ''sha256'']) d) d)
        else bindA (download E (allowed_hosts D) max_zip (archive_url D) (?st @ [?name])) (\<lambda>b.
          bindA (liftA (promote sha stamp data ?name t (?st @ [?name]) (join_path (data @ [cps ''objects'', cps ''raw'', cps ''sha256'']) d) d b)) (\<lambda>_. netA (\<lambda>n. (Inr (length b), n))))) (\<lambda>k.
      bindA (liftA (keep_checksum sha data (?st @ [?cs]))) (\<lambda>(checksum_target, checksum_sha).
        netA (\<lambda>n. (Inr \<lparr>ae_zip_path = join_path (data @ [cps ''objects'', cps ''raw'', cps ''sha256'']) d, ae_zip_sha256 = d, ae_zip_size = k,
          ae_checksum_path = checksum_target, ae_checksum_sha256 = checksum_sha, ae_official = d,
          ae_reused_zip = there, ae_reused_checksum = reused,
          ae_retry = nt_retry n, ae_hops = nt_hops n, ae_statuses = nt_statuses n\<rparr>, n)))))) (verified sha data)"
      unfolding raw[OF d] by (rule tripleA_bind[of _ _ _ "\<lambda>_ _. True"], intro tripleA_lift triple_look, simp, rule tripleA_bind[OF both[OF d]], rule keep)
  qed simp
qed

text \<open>C35: In every state an acquisition passes through, whatever the servers answer and wherever it
  stops, each archive and checksum document in the store has the hash its name says and nothing
  that was in the store has changed; and when it succeeds, the archive it names is there, its hash is
  the official one, and the checksum document is in the store.\<close>

theorem acquisition_verified:
  assumes "names_ok data attempt_id (archive_name_of (archive_url D)) stamp" "\<forall>b. hex_digest (cps (sha b))" "store_ok sha data f0"
  shows "case acquire sha E stamp D data attempt_id max_zip n f0 of ((r, n'), t) \<Rightarrow>
      list_all (\<lambda>g. store_ok sha data g \<and> store_grows data f0 g) t
      \<and> (case r of Inl _ \<Rightarrow> True | Inr ev \<Rightarrow> verified sha data ev (end_state f0 t))"
proof -
  obtain r n' t where run: "acquire sha E stamp D data attempt_id max_zip n f0 = ((r, n'), t)" by (metis prod.collapse)
  have "triple (store_inv sha data f0) (\<lambda>_. True) (run (acquire sha E stamp D data attempt_id max_zip) n) (\<lambda>xn. verified sha data (fst xn))"
    using acquire_triple[OF assms(1), of sha f0 E max_zip] assms(2) unfolding tripleA_def by blast
  moreover have "store_inv sha data f0 f0" using assms(3) by (simp add: store_inv_def store_grows_def)
  moreover have "Acquisition.run (acquire sha E stamp D data attempt_id max_zip) n f0 = (bindE r (\<lambda>x. Inr (x, n')), t)"
    using run by (simp add: run_def)
  ultimately have all: "(\<forall>g \<in> set t. store_inv sha data f0 g)
      \<and> (\<forall>x. bindE r (\<lambda>x. Inr (x, n')) = Inr x \<longrightarrow> verified sha data (fst x) (end_state f0 t))"
    by (rule tripleD[OF _ _ TrueI])
  then show ?thesis using run by (cases r) (auto simp: list_all_iff store_inv_def)
qed

text \<open>A server that refuses, and a store with nothing in it.\<close>

definition refusing :: http_env where
  "refusing = \<lparr>he_server = (\<lambda>_ _. Responds \<lparr>rs_status = 404, rs_location = None, rs_body = []\<rparr>), he_jitter = (\<lambda>_. 0),
     he_show = (\<lambda>_. []), he_join = (\<lambda>_ l. Inr l), he_scheme = (\<lambda>_. []), he_host = (\<lambda>_. [])\<rparr>"

theorem acquisition_verified_witness:
  "case acquire (\<lambda>_. replicate 64 CHR ''0'') refusing (cps ''20240101T000000Z'') sample_descriptor [] (cps ''a'') 10
      \<lparr>nt_asked = [], nt_retry = [], nt_hops = [], nt_statuses = []\<rparr> (map_of [([], Dir)]) of ((r, n'), t) \<Rightarrow>
      list_all (\<lambda>g. store_ok (\<lambda>_. replicate 64 CHR ''0'') [] g \<and> store_grows [] (map_of [([], Dir)]) g) t
      \<and> (case r of Inl _ \<Rightarrow> True | Inr ev \<Rightarrow> verified (\<lambda>_. replicate 64 CHR ''0'') [] ev (end_state (map_of [([], Dir)]) t))"
proof (rule acquisition_verified)
  show "names_ok [] (cps ''a'') (archive_name_of (archive_url sample_descriptor)) (cps ''20240101T000000Z'')" by code_simp
  show "\<forall>b. hex_digest (cps (replicate 64 CHR ''0''))" by (simp add: hex_digest_def cps_def is_lower_hex_def list_all_iff)
  have "tree_ok (map_of [([], Dir)])" by (rule tree_ok_map_of; code_simp)
  then show "store_ok (\<lambda>_. replicate 64 CHR ''0'') [] (map_of [([], Dir)])"
    by (auto simp: store_ok_def store_place_def split: if_splits)
qed

end
