(* ===== verification/Spec2Isabelle.thy ===== *)
theory Spec2Isabelle
  imports Bootstrap_B4 Quality_Approval Validation_Quality Validation_Descriptor Decision_C3 Training_Metrics Archive Acquisition
begin

text \<open>
  Quantara (src/quantara/) turns monthly exchange archives into content-addressed datasets. A
  descriptor fixes what may be acquired; a member of the archive is parsed into source rows; these
  become canonical minute rows, which a quality policy judges; minutes are aggregated into bars, bars
  into a research table of features and labels, the table is cut into walk-forward folds, and metrics
  are computed on the test segments. Everything published is addressed by the hash of a canonical
  JSON text, so that a reader can recompute what it reads.

  Theories, in the order of the code:

    Prelude            result type, Python strings and integers, slices, lists (no counterpart)
    Errors             errors.py and the exception classes of the modules
    Py_Decimal         what the program uses of Python's decimal library
    Decimal_Order      rounding of that library never crosses 1 or changes a sign
    Decimal_Error      how far its rounded sums, products, quotients and roots are off
    Framing            interfaces of encoders whose concatenation is hashed
    Jcs                jcs.py: canonical JSON
    Hashing            hashing.py: decimal rendering, row framing, fingerprints, content hashes
    Calendar           datetime and descriptor.py:_next_month
    Descriptor         descriptor.py: the base loader and the rights record
    Derive_Descriptor  derive_descriptor.py: the loader of derived datasets
    Research_Descriptor research_descriptor.py: the loader of research tables
    Parsing            parsing.py: csv, numeric policy, rows
    Canonical          canonical.py: assembly, persisted columns, reconciliation
    Quality            quality.py: the month evaluator and the interface of evaluators
    Aggregation        aggregation.py: exact bars
    Derive_Quality     derive_quality.py: the evaluator of bars
    Features           features.py: features, labels and the storage boundary
    Research_Quality   research_quality.py: the evaluator of the table
    Folds              folds.py: walk-forward folds
    Fold_Stats         fold_stats.py: statistics of a test segment
    Split_Mix          bootstrap_b4.py: the SplitMix64 stream
    Bootstrap_B4       bootstrap_b4.py: the paired moving-block bootstrap
    Commit_Identity    the address functions of the five pipelines
    Quality_Approval   quality_approval.py: records and the effective decision
    Validation_Quality validation_quality.py: the evaluator of folds
    Validation_Descriptor validation_descriptor.py: the loader of validation sets
    Decision_C3        estimator_c3.py and replication_c4.py: decisions, origins, gates
    Evaluation_Metrics evaluation_metrics.py: ranks, correlations, records, summaries
    Training_Metrics   training_metrics.py: the ridge fit, predictions, records, summaries
    Json_Reader        json.loads and json.dumps as the program uses them
    File_System        a file system whose operations list the states they pass through
    Publication        publication.py, and the publishing steps of pipeline.py
    Archive            archive.py: ZIP guards and the member stream
    Acquisition        acquisition.py: downloads, quarantine, the store of retained artifacts

  State and operations. Most modelled modules are functions over immutable values: a dataclass is a
  \<open>record\<close>, an exception an \<open>err\<close> on the left of \<open>res\<close>, a dict the list of its items, a str the list
  of its code points, a Decimal a \<open>dec\<close> (sign, coefficient, exponent), an int an \<open>int\<close>, the state of
  SplitMix64 a \<open>64 word\<close>. Publication and acquisition take a file system and return every file system
  they pass through besides their result, so a statement about all of them covers a crash at any
  point; a request adds to a list of asked URLs. Order of checks and early returns are the code's.

  Lemmas. Canonical JSON and the framings are injective up to key order and their domains disjoint,
  so equal hashes mean equal content up to collisions of SHA-256. The loaders accept only registered
  identities, approvals and URLs, and a chain of descriptors agrees on its period. Parsing is exact
  and rendering inverts it. Assembly sorts, persisted rows are restored, reconciliation accepts
  exactly equal rows in batches as at once. An accepted aggregation is complete and keeps volumes.
  Every evaluator's verdict is characterised, and clean input of one stage yields a passing verdict
  of the next (aggregated_month_passes, built_table_passes). Folds tile the rows and nothing a fold
  trains on depends on its test rows. A bounded draw returns and is unbiased; prefix aggregation
  equals summation over the materialised indices. A commit address determines what was committed,
  an approval covers what it approves, Holm's step-down is the closed test, and the retained model
  and the replication outcome follow from the numeric criteria. Average ranks are the mid-ranks,
  stored correlations lie in [-1, 1] and stored means and medians between the extremes although two
  roundings lie in between; the elimination of the ridge fit solves its system over exact
  arithmetic, and a training record says what its rows say and reads no embargoed row. What was
  serialized canonically is read back. A publication is atomic at every crash point, the object
  store refines a write-once map, downloads stay within their hosts, attempts and bytes, nothing
  enters the store without its hash, and a member is read whole or not at all.

  Loops and bounds. \<open>test_ranges_from\<close> is a partial function of the option monad, because the code's
  loop does not end for a test size of zero or less; that it returns otherwise is proved. \<open>draw_below\<close>
  is total: the state walks through all 64-bit values, so an accepted draw comes. Python's limit of
  4300 digits is kept, for \<open>int\<close> of a text and for \<open>str\<close> of an integer. Square roots and divisions of
  decimals compute exact integer quotients. The JSON reader recurses with the fuel
  \<open>2 * length + 1\<close> of its text; \<open>json_fuel_enough\<close> proves that it does not run out. The request loop
  counts its three attempts and the redirect loop its hops, as the code does.

  Parameters. SHA-256, the Parquet library (writer and reader), the Rust kernel of the accelerated
  paths, the YAML reader (a document is its result), the zipfile library (how opening an archive
  ends, the chunks of a member and how the stream ends), compiled regular expressions, httpx (the
  reply to each request), the names of temporary files, clock and random delays, the resolution of a
  referenced descriptor file, the check and resolution of an approval path, \<open>str\<close> of a YAML value
  that is no string, and the ambient decimal context. Each is an argument of the definitions that
  use it.

  Not modelled. Of the file system: flushing to the disk, symbolic links and permissions. Of the
  program: the orchestration of the pipelines (pipeline, derive, research, validation, evaluation,
  training) apart from the publishing steps, the manifest files, the logistic fit (it needs the
  exponential and the logarithm of the decimal library) and the estimator fits around it, the
  descriptors and evaluators of evaluation and training, the protocol loaders, the series modules,
  the two diagnostics, and the Rust kernel, which is another language.
\<close>

end
